(* ===== verification/Jaal_Prelude.thy ===== *)
theory Jaal_Prelude
  imports Main "HOL-Library.Word" "HOL-Library.Multiset"
begin

text \<open>
  Shared ground of the development: the rewrite collections, the machine types the C++ sources
  name, the constants of \<^verbatim>\<open>std::numeric_limits\<close> the code saturates at, and the generic lemmas on
  lists, options and words that more than one component uses.
\<close>

unbundle bit_operations_syntax

named_theorems jaal_defs \<open>definitions of the model that component proofs unfold\<close>

section \<open>Machine types\<close>

type_synonym u32 = "32 word"
type_synonym u64 = "64 word"

text \<open>
  A \<^verbatim>\<open>time_point\<close> or \<^verbatim>\<open>duration\<close> is a count of clock ticks in a signed 64-bit representation. The
  model uses \<open>int\<close> and writes the two limits out wherever the code saturates.
\<close>

type_synonym time_point = int
type_synonym duration = int

definition rep_max :: int where
  "rep_max = 2 ^ 63 - 1"

definition rep_min :: int where
  "rep_min = - (2 ^ 63)"

definition in_rep :: "int \<Rightarrow> bool" where
  "in_rep x \<longleftrightarrow> rep_min \<le> x \<and> x \<le> rep_max"

lemma rep_max_val [simp]: "rep_max = 9223372036854775807"
  by (simp add: rep_max_def)

lemma rep_min_val [simp]: "rep_min = - 9223372036854775808"
  by (simp add: rep_min_def)

section \<open>Lists\<close>

text \<open>\<^verbatim>\<open>std::swap(v[i], v[j])\<close> on a vector.\<close>

definition aswap :: "'a list \<Rightarrow> nat \<Rightarrow> nat \<Rightarrow> 'a list" where
  "aswap xs i j = xs[i := xs ! j, j := xs ! i]"

lemma length_aswap [simp]: "length (aswap xs i j) = length xs"
  by (simp add: aswap_def)

lemma nth_aswap:
  "i < length xs \<Longrightarrow> j < length xs \<Longrightarrow> k < length xs \<Longrightarrow>
   aswap xs i j ! k = (if k = i then xs ! j else if k = j then xs ! i else xs ! k)"
  by (auto simp: aswap_def nth_list_update)

lemma mset_aswap [simp]:
  "i < length xs \<Longrightarrow> j < length xs \<Longrightarrow> mset (aswap xs i j) = mset xs"
  by (simp add: aswap_def mset_swap)

lemma set_aswap [simp]:
  "i < length xs \<Longrightarrow> j < length xs \<Longrightarrow> set (aswap xs i j) = set xs"
  by (metis mset_aswap mset_eq_setD)

text \<open>Removing position \<open>i\<close> by moving the last element into it, as the vector code does.\<close>

lemma mset_butlast_update:
  assumes "i < length xs - 1"
  shows "mset ((butlast xs)[i := last xs]) = mset xs - {# xs ! i #}"
proof -
  from assms have ne: "xs \<noteq> []" by auto
  have len: "i < length (butlast xs)" using assms by simp
  have xs: "mset xs = add_mset (last xs) (mset (butlast xs))"
    using arg_cong [OF append_butlast_last_id [OF ne], of mset] by simp
  have "mset ((butlast xs)[i := last xs]) = add_mset (last xs) (mset (butlast xs) - {# butlast xs ! i #})"
    using len by (simp add: mset_update)
  also have "\<dots> = add_mset (last xs) (mset (butlast xs)) - {# butlast xs ! i #}"
    using nth_mem_mset [OF len] by (simp add: diff_union_swap2)
  finally show ?thesis using len xs by (simp add: nth_butlast)
qed

lemma mset_butlast:
  assumes "xs \<noteq> []"
  shows "mset (butlast xs) = mset xs - {# last xs #}"
proof -
  have "mset xs = add_mset (last xs) (mset (butlast xs))"
    using arg_cong [OF append_butlast_last_id [OF assms], of mset] by simp
  then show ?thesis by simp
qed

lemma set_butlast_update:
  "i < length xs - 1 \<Longrightarrow> distinct xs \<Longrightarrow> set ((butlast xs)[i := last xs]) = set xs - {xs ! i}"
proof -
  assume "i < length xs - 1" "distinct xs"
  then have m: "mset ((butlast xs)[i := last xs]) = mset xs - {# xs ! i #}"
    by (simp add: mset_butlast_update)
  have "set_mset (mset xs - {# xs ! i #}) = set xs - {xs ! i}"
    using \<open>distinct xs\<close> \<open>i < length xs - 1\<close>
    by (auto simp: in_diff_count distinct_count_atmost_1 split: if_splits)
  with m show ?thesis by (metis set_mset_mset)
qed

section \<open>Options\<close>

text \<open>\<^verbatim>\<open>std::optional::value_or\<close>.\<close>

definition value_or :: "'a option \<Rightarrow> 'a \<Rightarrow> 'a" where
  "value_or x d = (case x of None \<Rightarrow> d | Some v \<Rightarrow> v)"

lemma value_or_simps [simp]: "value_or None d = d" "value_or (Some v) d = v"
  by (simp_all add: value_or_def)

section \<open>Words\<close>

lemma unat_of_nat_u32: "n < 2 ^ 32 \<Longrightarrow> unat (of_nat n :: u32) = n"
  by (simp add: unat_of_nat take_bit_nat_eq_self)

lemma of_nat_u32_inject: "m < 2 ^ 32 \<Longrightarrow> n < 2 ^ 32 \<Longrightarrow> (of_nat m :: u32) = of_nat n \<longleftrightarrow> m = n"
  by (metis unat_of_nat_u32)

section \<open>Integers\<close>

lemma int_le_div_iff: "0 < b \<Longrightarrow> (a :: int) \<le> c div b \<longleftrightarrow> a * b \<le> c"
proof
  assume b: "0 < b" and "a \<le> c div b"
  then have "a * b \<le> c div b * b" by simp
  also have "\<dots> \<le> c" using b by (metis div_mult_mod_eq le_add_same_cancel1 pos_mod_sign)
  finally show "a * b \<le> c" .
next
  assume b: "0 < b" and "a * b \<le> c"
  then show "a \<le> c div b" using zdiv_mono1 [of "a * b" c b] by simp
qed

lemma unat_of_nat_u64: "n < 2 ^ 64 \<Longrightarrow> unat (of_nat n :: u64) = n"
  by (simp add: unat_of_nat take_bit_nat_eq_self)

lemma of_nat_u64_inject: "m < 2 ^ 64 \<Longrightarrow> n < 2 ^ 64 \<Longrightarrow> (of_nat m :: u64) = of_nat n \<longleftrightarrow> m = n"
  by (metis unat_of_nat_u64)

lemma u64_less_inc: "x < - 1 \<Longrightarrow> x < x + (1 :: u64)"
proof -
  assume "x < - 1"
  then have "x \<noteq> - 1" by blast
  then have "1 + x \<noteq> 0" by (simp add: add_eq_0_iff add.commute)
  then have "unat (x + 1) = Suc (unat x)" using unatSuc [of x] by (simp add: add.commute)
  then show ?thesis by (simp add: word_less_nat_alt)
qed

end
