(* ===== verification/Array_Heap.thy ===== *)
theory Array_Heap
  imports Jaal_Prelude
begin

text \<open>
  The arithmetic of a binary min-heap stored in a vector, over an arbitrary key: the parent of
  position \<open>i\<close> is \<open>(i - 1) div 2\<close>. The heap property, the three partial heap properties that hold
  while one position is out of place, and how a swap moves the misplaced position. The timer heap
  (\<open>Timer_Heap\<close>) instantiates the key with the fire time.
\<close>

definition parent :: "nat \<Rightarrow> nat" where
  "parent i = (i - 1) div 2"

lemma parent_less: "0 < i \<Longrightarrow> parent i < i"
  by (simp add: parent_def)

lemma parent_0 [simp]: "parent 0 = 0"
  by (simp add: parent_def)

lemma parent_le: "parent i \<le> i"
  by (cases "i = 0") (auto simp: parent_def)

lemma parent_child:
  "0 < j \<Longrightarrow> parent j = i \<longleftrightarrow> j = 2 * i + 1 \<or> j = 2 * i + 2"
  unfolding parent_def by presburger

lemma parent_left [simp]: "parent (Suc (2 * i)) = i"
  by (simp add: parent_def)

lemma parent_right [simp]: "parent (Suc (Suc (2 * i))) = i"
  by (simp add: parent_def)

text \<open>The heap property, and its version where the pairs that touch position \<open>k\<close> are not known.\<close>

definition is_heap :: "('a \<Rightarrow> int) \<Rightarrow> 'a list \<Rightarrow> bool" where
  "is_heap f xs \<longleftrightarrow> (\<forall>j. 0 < j \<and> j < length xs \<longrightarrow> f (xs ! parent j) \<le> f (xs ! j))"

definition bypass :: "('a \<Rightarrow> int) \<Rightarrow> 'a list \<Rightarrow> nat \<Rightarrow> bool" where
  "bypass f xs k \<longleftrightarrow>
     (\<forall>c. 0 < k \<and> 0 < c \<and> c < length xs \<and> parent c = k \<longrightarrow> f (xs ! parent k) \<le> f (xs ! c))"

definition heap_but :: "('a \<Rightarrow> int) \<Rightarrow> 'a list \<Rightarrow> nat \<Rightarrow> bool" where
  "heap_but f xs k \<longleftrightarrow> bypass f xs k \<and>
     (\<forall>j. 0 < j \<and> j < length xs \<and> j \<noteq> k \<and> parent j \<noteq> k \<longrightarrow> f (xs ! parent j) \<le> f (xs ! j))"

definition heap_but_below :: "('a \<Rightarrow> int) \<Rightarrow> 'a list \<Rightarrow> nat \<Rightarrow> bool" where
  "heap_but_below f xs k \<longleftrightarrow> bypass f xs k \<and>
     (\<forall>j. 0 < j \<and> j < length xs \<and> parent j \<noteq> k \<longrightarrow> f (xs ! parent j) \<le> f (xs ! j))"

lemma is_heapD: "is_heap f xs \<Longrightarrow> 0 < j \<Longrightarrow> j < length xs \<Longrightarrow> f (xs ! parent j) \<le> f (xs ! j)"
  by (simp add: is_heap_def)

lemma heap_but_below_imp: "heap_but_below f xs k \<Longrightarrow> heap_but f xs k"
  by (auto simp: heap_but_def heap_but_below_def)

lemma is_heap_imp_below:
  assumes "is_heap f xs"
  shows "heap_but_below f xs k"
proof -
  have "bypass f xs k"
    unfolding bypass_def
  proof (intro allI impI)
    fix c assume c: "0 < k \<and> 0 < c \<and> c < length xs \<and> parent c = k"
    then have "k < length xs" using parent_le [of c] by linarith
    then have "f (xs ! parent k) \<le> f (xs ! k)" using assms c by (simp add: is_heap_def)
    also have "f (xs ! k) \<le> f (xs ! c)" using assms c by (auto simp: is_heap_def)
    finally show "f (xs ! parent k) \<le> f (xs ! c)" .
  qed
  with assms show ?thesis by (auto simp: heap_but_below_def is_heap_def)
qed

lemma heap_root_min:
  assumes "is_heap f xs" "i < length xs"
  shows "f (xs ! 0) \<le> f (xs ! i)"
  using assms(2)
proof (induction i rule: less_induct)
  case (less i)
  show ?case
  proof (cases "i = 0")
    case False
    then have "f (xs ! 0) \<le> f (xs ! parent i)"
      using less parent_less [of i] by (meson dual_order.strict_trans gr0I)
    also have "\<dots> \<le> f (xs ! i)" using assms(1) less.prems False by (simp add: is_heap_def)
    finally show ?thesis .
  qed simp
qed

text \<open>Where nothing is out of order around \<open>k\<close>, the heap is a heap again.\<close>

lemma heap_but_up_done:
  assumes "heap_but f xs k" "k = 0 \<or> f (xs ! parent k) \<le> f (xs ! k)"
  shows "heap_but_below f xs k"
  using assms by (auto simp: heap_but_def heap_but_below_def)

lemma heap_but_below_done:
  assumes "heap_but_below f xs k"
    and "\<And>c. 0 < c \<Longrightarrow> c < length xs \<Longrightarrow> parent c = k \<Longrightarrow> f (xs ! k) \<le> f (xs ! c)"
  shows "is_heap f xs"
  using assms by (auto simp: heap_but_below_def is_heap_def)

text \<open>Swapping a too small entry with its parent moves the misplaced position to the parent.\<close>

lemma heap_but_swap_up:
  assumes h: "heap_but f xs k" and k: "0 < k" "k < length xs"
    and less: "f (xs ! k) < f (xs ! parent k)"
  shows "heap_but f (aswap xs (parent k) k) (parent k)"
proof -
  let ?p = "parent k"
  let ?ys = "aswap xs ?p k"
  have p: "?p < length xs" "?p < k" using parent_less [of k] k by auto
  have nth: "?ys ! j = (if j = ?p then xs ! k else if j = k then xs ! ?p else xs ! j)"
    if "j < length xs" for j
    using that p k by (simp add: nth_aswap)
  have pairs: "f (xs ! parent j) \<le> f (xs ! j)"
    if "0 < j" "j < length xs" "j \<noteq> k" "parent j \<noteq> k" for j
    using h that by (simp add: heap_but_def)
  have kids: "f (xs ! ?p) \<le> f (xs ! c)" if "0 < c" "c < length xs" "parent c = k" for c
    using h that k by (simp add: heap_but_def bypass_def)
  have "bypass f ?ys ?p"
    unfolding bypass_def
  proof (intro allI impI)
    fix c assume c: "0 < ?p \<and> 0 < c \<and> c < length ?ys \<and> parent c = ?p"
    let ?g = "parent ?p"
    have g: "?g < ?p" using c parent_less by simp
    have up: "f (xs ! ?g) \<le> f (xs ! ?p)" using pairs [of ?p] c p g by simp
    have ysg: "?ys ! ?g = xs ! ?g" using nth [of ?g] g p by simp
    show "f (?ys ! ?g) \<le> f (?ys ! c)"
    proof (cases "c = k")
      case True
      with up ysg nth [of k] k p show ?thesis by simp
    next
      case False
      then have "f (xs ! ?p) \<le> f (xs ! c)" using pairs [of c] c p by simp
      moreover have "?ys ! c = xs ! c" using nth [of c] c False parent_less [of c] by auto
      ultimately show ?thesis using up ysg by simp
    qed
  qed
  moreover have "f (?ys ! parent j) \<le> f (?ys ! j)"
    if j: "0 < j" "j < length xs" "j \<noteq> ?p" "parent j \<noteq> ?p" for j
  proof -
    have jk: "j \<noteq> k" using j by auto
    have pj: "parent j < length xs" using j parent_le [of j] by linarith
    have ysj: "?ys ! j = xs ! j" using nth [of j] j jk by simp
    show ?thesis
    proof (cases "parent j = k")
      case True
      with kids [of j] j ysj nth [of k] k p show ?thesis by simp
    next
      case False
      then show ?thesis using pairs [of j] j jk ysj nth [OF pj] by simp
    qed
  qed
  ultimately show ?thesis by (simp add: heap_but_def)
qed

text \<open>Climbing never disturbs the entries below: the swapped-up entry is less than all its children.\<close>

definition kids_ok :: "('a \<Rightarrow> int) \<Rightarrow> 'a list \<Rightarrow> nat \<Rightarrow> bool" where
  "kids_ok f xs k \<longleftrightarrow>
     (\<forall>c. 0 < c \<and> c < length xs \<and> parent c = k \<longrightarrow> f (xs ! k) \<le> f (xs ! c))"

lemma heap_but_swap_up_kids:
  assumes h: "heap_but f xs k" and k: "0 < k" "k < length xs"
    and less: "f (xs ! k) < f (xs ! parent k)"
  shows "kids_ok f (aswap xs (parent k) k) (parent k)"
  unfolding kids_ok_def
proof (intro allI impI)
  let ?p = "parent k"
  have p: "?p < length xs" "?p < k" using parent_less [of k] k by auto
  fix c assume c: "0 < c \<and> c < length (aswap xs ?p k) \<and> parent c = ?p"
  then have cp: "?p < c" using parent_less [of c] by simp
  show "f (aswap xs ?p k ! ?p) \<le> f (aswap xs ?p k ! c)"
  proof (cases "c = k")
    case True
    then show ?thesis using less p k by (simp add: nth_aswap)
  next
    case False
    then have "f (xs ! ?p) \<le> f (xs ! c)" using h c p by (auto simp: heap_but_def)
    then show ?thesis using less p k c cp False by (simp add: nth_aswap)
  qed
qed

lemma is_heap_kids: "heap_but f xs k \<Longrightarrow> kids_ok f xs k \<Longrightarrow> k = 0 \<or> f (xs ! parent k) \<le> f (xs ! k) \<Longrightarrow>
    is_heap f xs"
  using heap_but_up_done heap_but_below_done unfolding kids_ok_def by metis

text \<open>Swapping a too large entry with its least child moves the misplaced position to that child.\<close>

lemma heap_but_below_swap_down:
  assumes h: "heap_but_below f xs k" and b: "0 < b" "b < length xs" "parent b = k"
    and less: "f (xs ! b) < f (xs ! k)"
    and least: "\<And>c. 0 < c \<Longrightarrow> c < length xs \<Longrightarrow> parent c = k \<Longrightarrow> f (xs ! b) \<le> f (xs ! c)"
  shows "heap_but_below f (aswap xs k b) b"
proof -
  let ?ys = "aswap xs k b"
  have k: "k < b" "k < length xs" using parent_less [of b] b by auto
  have nth: "?ys ! j = (if j = k then xs ! b else if j = b then xs ! k else xs ! j)"
    if "j < length xs" for j
    using that b k by (simp add: nth_aswap)
  have pairs: "f (xs ! parent j) \<le> f (xs ! j)" if "0 < j" "j < length xs" "parent j \<noteq> k" for j
    using h that by (simp add: heap_but_below_def)
  have by_k: "f (xs ! parent k) \<le> f (xs ! b)" if "0 < k"
    using h that b by (simp add: heap_but_below_def bypass_def)
  have "bypass f ?ys b"
    unfolding bypass_def
  proof (intro allI impI)
    fix c assume c: "0 < b \<and> 0 < c \<and> c < length ?ys \<and> parent c = b"
    then have cb: "b < c" using parent_less by auto
    have "f (xs ! b) \<le> f (xs ! c)" using pairs [of c] c k by simp
    then show "f (?ys ! parent b) \<le> f (?ys ! c)" using nth [of k] nth [of c] b k c cb by simp
  qed
  moreover have "f (?ys ! parent j) \<le> f (?ys ! j)"
    if j: "0 < j" "j < length xs" "parent j \<noteq> b" for j
  proof -
    have pj: "parent j < length xs" using j parent_le [of j] by linarith
    consider (b) "j = b" | (k) "j = k" | (sib) "j \<noteq> b" "j \<noteq> k" "parent j = k"
      | (rest) "j \<noteq> b" "j \<noteq> k" "parent j \<noteq> k" by blast
    then show ?thesis
    proof cases
      case b then show ?thesis using nth [of k] nth [of b] less \<open>parent b = k\<close> k \<open>b < length xs\<close> by simp
    next
      case k': k
      then have "parent j < k" using j parent_less by auto
      then show ?thesis using nth [of k] nth [of "parent j"] by_k j k' k by simp
    next
      case sib
      then show ?thesis using nth [of k] nth [of j] least [of j] j k by simp
    next
      case rest
      then show ?thesis using nth [of j] nth [OF pj] pairs [of j] j by simp
    qed
  qed
  ultimately show ?thesis by (simp add: heap_but_below_def)
qed

text \<open>Entry points: appending an entry, moving the last entry over position \<open>k\<close>.\<close>

lemma is_heap_append:
  assumes "is_heap f xs"
  shows "heap_but f (xs @ [x]) (length xs)"
proof -
  have "bypass f (xs @ [x]) (length xs)"
    unfolding bypass_def
  proof (intro allI impI)
    fix c assume c: "0 < length xs \<and> 0 < c \<and> c < length (xs @ [x]) \<and> parent c = length xs"
    then have "length xs < c" using parent_less [of c] by simp
    with c show "f ((xs @ [x]) ! parent (length xs)) \<le> f ((xs @ [x]) ! c)" by simp
  qed
  moreover have "f ((xs @ [x]) ! parent j) \<le> f ((xs @ [x]) ! j)"
    if "0 < j" "j < length (xs @ [x])" "j \<noteq> length xs" for j
    using that assms parent_less [of j] by (simp add: is_heap_def nth_append)
  ultimately show ?thesis by (auto simp: heap_but_def)
qed

lemma kids_ok_append: "kids_ok f (xs @ [x]) (length xs)"
  unfolding kids_ok_def using parent_less by (metis length_append_singleton less_Suc_eq less_not_refl less_trans)

lemma is_heap_butlast: "is_heap f xs \<Longrightarrow> is_heap f (butlast xs)"
  unfolding is_heap_def
  by (metis One_nat_def length_butlast less_diff_conv nth_butlast order.strict_trans parent_less
      less_add_one trans_less_add1)

lemma is_heap_replace:
  assumes "is_heap f xs"
  shows "heap_but f (xs[k := x]) k"
proof -
  from assms have b: "heap_but_below f xs k" by (rule is_heap_imp_below)
  have "bypass f (xs[k := x]) k"
    unfolding bypass_def
  proof (intro allI impI)
    fix c assume c: "0 < k \<and> 0 < c \<and> c < length (xs[k := x]) \<and> parent c = k"
    then have "k < c" using parent_less by auto
    moreover have "parent k < k" using c parent_less by auto
    ultimately show "f (xs[k := x] ! parent k) \<le> f (xs[k := x] ! c)"
      using b c by (simp add: heap_but_below_def bypass_def)
  qed
  moreover have "f (xs[k := x] ! parent j) \<le> f (xs[k := x] ! j)"
    if "0 < j" "j < length xs" "j \<noteq> k" "parent j \<noteq> k" for j
    using that assms by (simp add: is_heap_def)
  ultimately show ?thesis by (auto simp: heap_but_def)
qed

end
