(* ===== verification/Timer_Heap.thy ===== *)
theory Timer_Heap
  imports Array_Heap
begin

text \<open>
  \<^verbatim>\<open>include/jaal/kernel/timer_heap.hpp\<close>: the saturating clock arithmetic, the conversion of a
  deadline to a wait, and the indexed min-heap behind \<^verbatim>\<open>after\<close> and \<^verbatim>\<open>every\<close>. An entry's id is a slot
  number and a generation; the slot table maps it to the entry's place in the heap vector. Every
  operation keeps the heap order and the table, and refines the map from live ids to entries.
\<close>

section \<open>Clock arithmetic\<close>

text \<open>
  Durations arrive in a unit \<open>num\<close> clock ticks long (a millisecond is \<open>1000000\<close> ticks of a
  nanosecond clock), so the ratio \<^verbatim>\<open>R\<close> of the source has denominator 1 at every call site and the
  conversion is a multiplication. \<open>div\<close> on a negative limit is C++'s truncating division.
\<close>

definition saturate_cast :: "int \<Rightarrow> int \<Rightarrow> duration" where
  "saturate_cast num cnt =
     (if cnt > 0 \<and> cnt > rep_max div num then rep_max
      else if cnt < 0 \<and> cnt < - ((- rep_min) div num) then rep_min
      else cnt * num)"

definition saturate_add :: "int \<Rightarrow> time_point \<Rightarrow> int \<Rightarrow> time_point" where
  "saturate_add num now d =
     (let dd = saturate_cast num d
      in if dd > 0 \<and> now > rep_max - dd then rep_max else now + dd)"

text \<open>\<^verbatim>\<open>timeout_from\<close>, with \<open>num\<close> ticks to the millisecond; \<^verbatim>\<open>ceil\<close> rounds up.\<close>

definition ceil_div :: "int \<Rightarrow> int \<Rightarrow> int" where
  "ceil_div a b = - ((- a) div b)"

definition timeout_from :: "int \<Rightarrow> time_point \<Rightarrow> time_point option \<Rightarrow> int option" where
  "timeout_from num now deadline =
     (case deadline of
        None \<Rightarrow> None
      | Some d \<Rightarrow> if d \<le> now then Some 0 else Some (ceil_div (d - now) num))"

section \<open>State\<close>

type_synonym timer_id = u64

record 'p entry =
  e_when :: time_point
  e_period :: duration
  e_payload :: 'p
  e_id :: timer_id

record slot_rec =
  s_pos :: u32
  s_gen :: u32

record 'p timer_heap =
  th_heap :: "'p entry list"
  th_slots :: "slot_rec list"
  th_free :: "u32 list"

definition kFreePos :: u32 where
  "kFreePos = 0xFFFFFFFF"

definition empty_heap :: "'p timer_heap" where
  "empty_heap = \<lparr>th_heap = [], th_slots = [], th_free = []\<rparr>"

definition later_than :: "'p entry \<Rightarrow> 'p entry \<Rightarrow> bool" where
  "later_than a b \<longleftrightarrow> e_when a > e_when b"

definition index_of :: "timer_id \<Rightarrow> u32" where
  "index_of i = ucast i"

definition gen_of :: "timer_id \<Rightarrow> u32" where
  "gen_of i = ucast (drop_bit 32 i)"

definition mk_id :: "u32 \<Rightarrow> u32 \<Rightarrow> timer_id" where
  "mk_id g ix = push_bit 32 (ucast g) OR ucast ix"

section \<open>Ids and slots\<close>

definition new_id :: "'p timer_heap \<Rightarrow> timer_id \<times> 'p timer_heap" where
  "new_id h =
     (if th_free h \<noteq> [] then
        let ix = last (th_free h); h' = h\<lparr>th_free := butlast (th_free h)\<rparr>
        in (mk_id (s_gen (th_slots h' ! unat ix)) ix, h')
      else
        let ix = of_nat (length (th_slots h)) :: u32;
            h' = h\<lparr>th_slots := th_slots h @ [\<lparr>s_pos = kFreePos, s_gen = 0\<rparr>]\<rparr>
        in (mk_id (s_gen (th_slots h' ! unat ix)) ix, h'))"

definition free_id :: "timer_id \<Rightarrow> 'p timer_heap \<Rightarrow> 'p timer_heap" where
  "free_id i h =
     (let ix = unat (index_of i); r = th_slots h ! ix
      in h\<lparr>th_slots := (th_slots h)[ix := \<lparr>s_pos = kFreePos, s_gen = s_gen r + 1\<rparr>],
           th_free := th_free h @ [index_of i]\<rparr>)"

definition slot_of :: "timer_id \<Rightarrow> 'p timer_heap \<Rightarrow> nat option" where
  "slot_of i h =
     (let ix = unat (index_of i)
      in if ix \<ge> length (th_slots h) then None
         else let r = th_slots h ! ix
              in if s_pos r = kFreePos \<or> s_gen r \<noteq> gen_of i then None else Some (unat (s_pos r)))"

definition note_pos :: "nat \<Rightarrow> 'p timer_heap \<Rightarrow> 'p timer_heap" where
  "note_pos pos h =
     (let ix = unat (index_of (e_id (th_heap h ! pos)))
      in h\<lparr>th_slots := (th_slots h)[ix := (th_slots h ! ix)\<lparr>s_pos := of_nat pos\<rparr>]\<rparr>)"

text \<open>\<^verbatim>\<open>std::swap(th_heap[i], th_heap[j]); note(a); note(b)\<close>, the three lines every sift step repeats.\<close>

definition swap_note :: "nat \<Rightarrow> nat \<Rightarrow> nat \<Rightarrow> nat \<Rightarrow> 'p timer_heap \<Rightarrow> 'p timer_heap" where
  "swap_note i j a b h = note_pos b (note_pos a (h\<lparr>th_heap := aswap (th_heap h) i j\<rparr>))"

lemma length_note [simp]: "length (th_heap (note_pos p h)) = length (th_heap h)"
  by (simp add: note_pos_def Let_def)

lemma heap_note [simp]: "th_heap (note_pos p h) = th_heap h"
  by (simp add: note_pos_def Let_def)

lemma heap_swap_note [simp]: "th_heap (swap_note i j a b h) = aswap (th_heap h) i j"
  by (simp add: swap_note_def)

section \<open>Sifting\<close>

fun sift_up :: "nat \<Rightarrow> 'p timer_heap \<Rightarrow> 'p timer_heap" where
  "sift_up i h =
     (if i > 0 then
        let p = (i - 1) div 2
        in if \<not> later_than (th_heap h ! p) (th_heap h ! i) then h
           else sift_up p (swap_note p i i p h)
      else h)"

definition best_child :: "nat \<Rightarrow> 'p timer_heap \<Rightarrow> nat" where
  "best_child i h =
     (let l = 2 * i + 1; r = l + 1; n = length (th_heap h);
          best = (if l < n \<and> later_than (th_heap h ! i) (th_heap h ! l) then l else i)
      in if r < n \<and> later_than (th_heap h ! best) (th_heap h ! r) then r else best)"

lemma best_child_range:
  "best_child i h \<noteq> i \<Longrightarrow> i < best_child i h \<and> best_child i h < length (th_heap h)"
  by (auto simp: best_child_def Let_def split: if_splits)

function sift_down :: "nat \<Rightarrow> 'p timer_heap \<Rightarrow> 'p timer_heap" where
  "sift_down i h =
     (let best = best_child i h
      in if best = i then h else sift_down best (swap_note i best i best h))"
  by pat_completeness auto
termination
proof (relation "measure (\<lambda>(i, h). length (th_heap h) - i)")
  fix i :: nat and h :: "'a timer_heap" and best
  assume "best = best_child i h" "best \<noteq> i"
  then have "i < best \<and> best < length (th_heap h)" using best_child_range by metis
  then show "((best, swap_note i best i best h), i, h)
      \<in> measure (\<lambda>(i, h). length (th_heap h) - i)"
    by auto
qed simp

fun sift :: "nat \<Rightarrow> 'p timer_heap \<Rightarrow> 'p timer_heap" where
  "sift i h =
     (if i > 0 \<and> later_than (th_heap h ! ((i - 1) div 2)) (th_heap h ! i)
      then sift ((i - 1) div 2) (swap_note ((i - 1) div 2) i i ((i - 1) div 2) h)
      else sift_down i h)"

declare sift_up.simps [simp del] sift_down.simps [simp del] sift.simps [simp del]

section \<open>Operations\<close>

definition push :: "'p entry \<Rightarrow> 'p timer_heap \<Rightarrow> timer_id \<times> 'p timer_heap" where
  "push e h =
     (let h1 = h\<lparr>th_heap := th_heap h @ [e]\<rparr>; i = length (th_heap h1) - 1
      in (e_id e, sift_up i (note_pos i h1)))"

definition pop_root :: "'p timer_heap \<Rightarrow> 'p timer_heap" where
  "pop_root h =
     (let n = length (th_heap h) - 1
      in if n \<noteq> 0
         then sift_down 0 (note_pos 0 (h\<lparr>th_heap := butlast ((th_heap h)[0 := th_heap h ! n])\<rparr>))
         else h\<lparr>th_heap := butlast (th_heap h)\<rparr>)"

definition after :: "int \<Rightarrow> time_point \<Rightarrow> int \<Rightarrow> 'p \<Rightarrow> 'p timer_heap \<Rightarrow> timer_id \<times> 'p timer_heap" where
  "after num now d p h =
     (let (i, h1) = new_id h
      in push \<lparr>e_when = saturate_add num now d, e_period = 0, e_payload = p, e_id = i\<rparr> h1)"

definition every :: "int \<Rightarrow> time_point \<Rightarrow> int \<Rightarrow> 'p \<Rightarrow> 'p timer_heap \<Rightarrow> timer_id \<times> 'p timer_heap" where
  "every num now d p h =
     (let per0 = saturate_cast num d; per = (if per0 \<le> 0 then 1 else per0); (i, h1) = new_id h
      in push \<lparr>e_when = saturate_add 1 now per, e_period = per, e_payload = p, e_id = i\<rparr> h1)"

definition replace_payload :: "timer_id \<Rightarrow> 'p \<Rightarrow> 'p timer_heap \<Rightarrow> bool \<times> 'p timer_heap" where
  "replace_payload i p h =
     (case slot_of i h of
        None \<Rightarrow> (False, h)
      | Some s \<Rightarrow> (True, h\<lparr>th_heap := (th_heap h)[s := (th_heap h ! s)\<lparr>e_payload := p\<rparr>]\<rparr>))"

definition cancel :: "timer_id \<Rightarrow> 'p timer_heap \<Rightarrow> bool \<times> 'p timer_heap" where
  "cancel i h =
     (case slot_of i h of
        None \<Rightarrow> (False, h)
      | Some s \<Rightarrow>
          let h1 = free_id i h; n = length (th_heap h1) - 1
          in if s \<noteq> n
             then (True, sift s (note_pos s (h1\<lparr>th_heap := butlast ((th_heap h1)[s := th_heap h1 ! n])\<rparr>)))
             else (True, h1\<lparr>th_heap := butlast (th_heap h1)\<rparr>))"

definition next_deadline :: "'p timer_heap \<Rightarrow> time_point option" where
  "next_deadline h = (case th_heap h of [] \<Rightarrow> None | e # _ \<Rightarrow> Some (e_when e))"

text \<open>
  One turn of the loop of \<^verbatim>\<open>collect_due\<close>: pop the root, emit it, re-arm it or free its id. The loop
  itself need not end (a clock standing at its last representable instant re-arms a repeating timer
  at that instant), so it is a partial function.
\<close>

definition rearm :: "time_point \<Rightarrow> 'p entry \<Rightarrow> 'p entry" where
  "rearm now e =
     (let nxt = saturate_add 1 (e_when e) (e_period e)
      in e\<lparr>e_when := (if nxt > now then nxt else saturate_add 1 now (e_period e))\<rparr>)"

definition fire_root :: "time_point \<Rightarrow> 'p timer_heap \<Rightarrow> 'p timer_heap" where
  "fire_root now h =
     (let e = hd (th_heap h); h1 = pop_root h
      in if e_period e > 0 then snd (push (rearm now e) h1) else free_id (e_id e) h1)"

definition root_due :: "time_point \<Rightarrow> 'p timer_heap \<Rightarrow> bool" where
  "root_due now h \<longleftrightarrow> th_heap h \<noteq> [] \<and> e_when (hd (th_heap h)) \<le> now"

partial_function (option) collect_due ::
    "time_point \<Rightarrow> 'p timer_heap \<Rightarrow> 'p list \<Rightarrow> ('p timer_heap \<times> 'p list) option" where
  "collect_due now h out =
     (if root_due now h
      then collect_due now (fire_root now h) (out @ [e_payload (hd (th_heap h))])
      else Some (h, out))"

definition clear :: "'p timer_heap \<Rightarrow> 'p timer_heap" where
  "clear h =
     h\<lparr>th_heap := [],
       th_slots := map (\<lambda>r. if s_pos r \<noteq> kFreePos then \<lparr>s_pos = kFreePos, s_gen = s_gen r + 1\<rparr> else r)
                   (th_slots h),
       th_free := th_free h @ map of_nat
                  (filter (\<lambda>i. s_pos (th_slots h ! i) \<noteq> kFreePos) [0..<length (th_slots h)])\<rparr>"

section \<open>Ids\<close>

lemma index_of_mk_id [simp]: "index_of (mk_id g ix) = ix"
  unfolding index_of_def mk_id_def by (rule bit_word_eqI) (simp add: bit_simps)

lemma gen_of_mk_id [simp]: "gen_of (mk_id g ix) = g"
  unfolding gen_of_def mk_id_def
  by (rule bit_word_eqI) (auto simp: bit_simps dest: bit_imp_le_length)

lemma mk_id_parts [simp]: "mk_id (gen_of i) (index_of i) = i"
  unfolding gen_of_def index_of_def mk_id_def
  by (rule bit_word_eqI) (auto simp: bit_simps le_less_linear dest: bit_imp_le_length)

lemma id_eq_iff: "i = j \<longleftrightarrow> gen_of i = gen_of j \<and> index_of i = index_of j"
  by (metis mk_id_parts)

section \<open>The invariant\<close>

definition ix_of :: "'p entry \<Rightarrow> nat" where
  "ix_of e = unat (index_of (e_id e))"

definition used :: "'p timer_heap \<Rightarrow> nat set" where
  "used h = ix_of ` set (th_heap h)"

text \<open>
  \<open>D\<close> is the set of detached slots: allocated, but whose entry is in the hands of the running
  operation. Between operations it is empty.
\<close>

definition th_ids :: "nat set \<Rightarrow> 'p timer_heap \<Rightarrow> bool" where
  "th_ids D h \<longleftrightarrow>
     length (th_slots h) < 2 ^ 32 \<and> distinct (map ix_of (th_heap h)) \<and>
     (\<forall>e \<in> set (th_heap h). ix_of e < length (th_slots h) \<and>
        s_gen (th_slots h ! ix_of e) = gen_of (e_id e)) \<and>
     distinct (th_free h) \<and>
     (\<forall>f \<in> set (th_free h). unat f < length (th_slots h) \<and> s_pos (th_slots h ! unat f) = kFreePos \<and>
        unat f \<notin> D) \<and>
     D \<inter> used h = {} \<and>
     (\<forall>ix < length (th_slots h). ix \<in> used h \<or> ix \<in> unat ` set (th_free h) \<or> ix \<in> D)"

definition th_pos :: "'p timer_heap \<Rightarrow> bool" where
  "th_pos h \<longleftrightarrow>
     (\<forall>i < length (th_heap h). s_pos (th_slots h ! ix_of (th_heap h ! i)) = of_nat i)"

definition th_ok :: "nat set \<Rightarrow> 'p timer_heap \<Rightarrow> bool" where
  "th_ok D h \<longleftrightarrow> th_ids D h \<and> th_pos h"

definition th_inv :: "'p timer_heap \<Rightarrow> bool" where
  "th_inv h \<longleftrightarrow> th_ok {} h \<and> is_heap e_when (th_heap h)"

lemma th_len:
  assumes "th_ids D h"
  shows "length (th_heap h) \<le> length (th_slots h)"
proof -
  have "length (th_heap h) = card (used h)"
    using assms distinct_card [of "map ix_of (th_heap h)"] by (simp add: th_ids_def used_def)
  also have "\<dots> \<le> card {..<length (th_slots h)}"
    using assms by (intro card_mono) (auto simp: th_ids_def used_def)
  finally show ?thesis by simp
qed

lemma of_nat_not_free: "i < 2 ^ 32 - 1 \<Longrightarrow> of_nat i \<noteq> kFreePos"
  using unat_of_nat_u32 [of i] by (auto simp: kFreePos_def)

lemma pos_not_free:
  assumes "th_ok D h" "i < length (th_heap h)"
  shows "of_nat i \<noteq> kFreePos"
proof (rule of_nat_not_free)
  have "length (th_slots h) < 2 ^ 32" using assms by (simp add: th_ok_def th_ids_def)
  then show "i < 2 ^ 32 - 1" using assms th_len [of D h] by (simp add: th_ok_def)
qed

lemma free_not_used:
  assumes "th_ok D h" "f \<in> set (th_free h)"
  shows "unat f \<notin> used h"
proof
  assume "unat f \<in> used h"
  then obtain i where i: "i < length (th_heap h)" "ix_of (th_heap h ! i) = unat f"
    by (auto simp: used_def in_set_conv_nth)
  then have "s_pos (th_slots h ! unat f) = of_nat i" using assms by (auto simp: th_ok_def th_pos_def)
  moreover have "s_pos (th_slots h ! unat f) = kFreePos" using assms by (auto simp: th_ok_def th_ids_def)
  ultimately show False using pos_not_free [OF assms(1) i(1)] by simp
qed

lemma free_ne_ix: "th_ok D h \<Longrightarrow> e \<in> set (th_heap h) \<Longrightarrow> \<forall>f \<in> set (th_free h). unat f \<noteq> ix_of e"
  by (metis free_not_used imageI used_def)

lemma ix_of_inj:
  assumes "th_ids D h" "i < length (th_heap h)" "j < length (th_heap h)"
    "ix_of (th_heap h ! i) = ix_of (th_heap h ! j)"
  shows "i = j"
  using assms nth_eq_iff_index_eq [of "map ix_of (th_heap h)" i j] by (simp add: th_ids_def)

section \<open>Sifting keeps the invariant\<close>

text \<open>What a rearrangement of the heap vector leaves alone.\<close>

definition rearranged :: "'p timer_heap \<Rightarrow> 'p timer_heap \<Rightarrow> bool" where
  "rearranged h h' \<longleftrightarrow> mset (th_heap h') = mset (th_heap h) \<and> th_free h' = th_free h \<and>
     map s_gen (th_slots h') = map s_gen (th_slots h)"

lemma rearranged_refl [simp]: "rearranged h h"
  by (simp add: rearranged_def)

lemma rearranged_trans: "rearranged a b \<Longrightarrow> rearranged b c \<Longrightarrow> rearranged a c"
  by (simp add: rearranged_def)

lemma rearranged_length: "rearranged h h' \<Longrightarrow> length (th_heap h') = length (th_heap h)"
  unfolding rearranged_def by (metis mset_eq_length)

lemma rearranged_set: "rearranged h h' \<Longrightarrow> set (th_heap h') = set (th_heap h)"
  unfolding rearranged_def by (metis mset_eq_setD)

lemma note_slots:
  "th_slots (note_pos p h) =
     (th_slots h)[ix_of (th_heap h ! p) := (th_slots h ! ix_of (th_heap h ! p))\<lparr>s_pos := of_nat p\<rparr>]"
  by (simp add: note_pos_def Let_def ix_of_def)

lemma note_free [simp]: "th_free (note_pos p h) = th_free h"
  by (simp add: note_pos_def Let_def)

lemma note_gens [simp]: "map s_gen (th_slots (note_pos p h)) = map s_gen (th_slots h)"
  by (simp add: note_slots map_update list_update_same_conv)
     (metis list_update_beyond list_update_id length_map not_le nth_map)

lemma th_ids_perm:
  assumes "th_ids D h" "mset xs = mset (th_heap h)"
  shows "th_ids D (h\<lparr>th_heap := xs\<rparr>)"
proof -
  have "set xs = set (th_heap h)" using assms(2) by (rule mset_eq_setD)
  moreover have "distinct (map ix_of xs) = distinct (map ix_of (th_heap h))"
    using assms(2) by (metis mset_map mset_eq_imp_distinct_iff)
  ultimately show ?thesis using assms(1) by (simp add: th_ids_def used_def)
qed

lemma th_ids_note:
  assumes "th_ids D h" "p < length (th_heap h)"
    and free: "\<forall>f \<in> set (th_free h). unat f \<notin> used h"
  shows "th_ids D (note_pos p h)"
proof -
  let ?ix = "ix_of (th_heap h ! p)"
  have ix: "?ix \<in> used h" "?ix < length (th_slots h)" using assms by (auto simp: used_def th_ids_def)
  have u: "used (note_pos p h) = used h" by (simp add: used_def)
  show ?thesis
    using assms ix u unfolding th_ids_def
    by (auto simp: note_slots nth_list_update)
qed

lemma swap_note_ok:
  assumes ok: "th_ok D h" and ij: "i < length (th_heap h)" "j < length (th_heap h)" "i \<noteq> j"
    and ab: "{a, b} = {i, j}"
  shows "th_ok D (swap_note i j a b h)" and "rearranged h (swap_note i j a b h)"
proof -
  let ?xs = "aswap (th_heap h) i j"
  let ?h1 = "h\<lparr>th_heap := ?xs\<rparr>"
  let ?h2 = "note_pos a ?h1"
  have a: "a < length (th_heap h)" "b < length (th_heap h)" "a \<noteq> b" using ij ab by (auto simp: doubleton_eq_iff)
  have u: "used ?h1 = used h" using ij by (simp add: used_def)
  have free: "\<forall>f \<in> set (th_free h). unat f \<notin> used h" using free_not_used [OF ok] by blast
  have i1: "th_ids D ?h1" using ok ij by (intro th_ids_perm) (simp_all add: th_ok_def)
  have i2: "th_ids D ?h2" using i1 a free u by (intro th_ids_note) simp_all
  have i3: "th_ids D (swap_note i j a b h)"
    unfolding swap_note_def using th_ids_note [OF i2, of b] a free u by (simp add: used_def)
  have pos: "s_pos (th_slots (swap_note i j a b h) ! ix_of (?xs ! k)) = of_nat k"
    if k: "k < length (th_heap h)" for k
  proof -
    have inj: "ix_of (?xs ! m) = ix_of (?xs ! n) \<longleftrightarrow> m = n"
      if "m < length (th_heap h)" "n < length (th_heap h)" for m n
      using ix_of_inj [OF i1, of m n] that by auto
    have rng: "ix_of (?xs ! m) < length (th_slots h)" if "m < length (th_heap h)" for m
      using i1 that by (simp add: th_ids_def)
    have old: "s_pos (th_slots h ! ix_of (th_heap h ! k)) = of_nat k"
      using ok k by (simp add: th_ok_def th_pos_def)
    show ?thesis
      using k a ij ab old rng [OF k] inj [OF k a(1)] inj [OF k a(2)] rng [OF a(1)] rng [OF a(2)] inj [OF a(1,2)]
      by (cases "k = b"; cases "k = a")
        (auto simp: swap_note_def note_slots nth_list_update nth_aswap doubleton_eq_iff)
  qed
  show "th_ok D (swap_note i j a b h)" using i3 pos by (simp add: th_ok_def th_pos_def)
  show "rearranged h (swap_note i j a b h)"
    using ij by (simp add: rearranged_def) (simp add: swap_note_def)
qed

lemma sift_up_ok:
  "th_ok D h \<Longrightarrow> i < length (th_heap h) \<Longrightarrow> th_ok D (sift_up i h) \<and> rearranged h (sift_up i h)"
proof (induction i h rule: sift_up.induct)
  case (1 i h)
  let ?p = "(i - 1) div 2"
  show ?case
  proof (cases "i > 0 \<and> later_than (th_heap h ! ?p) (th_heap h ! i)")
    case True
    then have p: "?p < i" "?p < length (th_heap h)" using "1.prems" by auto
    note s = swap_note_ok [OF "1.prems"(1) p(2) "1.prems"(2), of i ?p]
    have "th_ok D (sift_up ?p (swap_note ?p i i ?p h)) \<and>
        rearranged (swap_note ?p i i ?p h) (sift_up ?p (swap_note ?p i i ?p h))"
      using "1.IH" True p s by (simp add: insert_commute)
    then show ?thesis
      using True s p by (simp add: sift_up.simps [of i h] insert_commute Let_def) (blast intro: rearranged_trans)
  qed (use "1.prems" in \<open>auto simp: sift_up.simps [of i h]\<close>)
qed

lemma sift_down_ok:
  "th_ok D h \<Longrightarrow> th_ok D (sift_down i h) \<and> rearranged h (sift_down i h)"
proof (induction i h rule: sift_down.induct)
  case (1 i h)
  let ?b = "best_child i h"
  show ?case
  proof (cases "?b = i")
    case False
    then have b: "i < ?b" "?b < length (th_heap h)" using best_child_range by blast+
    note s = swap_note_ok [OF "1.prems", of i ?b i ?b]
    have "th_ok D (sift_down ?b (swap_note i ?b i ?b h)) \<and>
        rearranged (swap_note i ?b i ?b h) (sift_down ?b (swap_note i ?b i ?b h))"
      using "1.IH" False b s by simp
    then show ?thesis
      using False s b by (simp add: sift_down.simps [of i h] Let_def) (blast intro: rearranged_trans)
  qed (use "1.prems" in \<open>simp add: sift_down.simps [of i h]\<close>)
qed

lemma sift_ok:
  "th_ok D h \<Longrightarrow> i < length (th_heap h) \<Longrightarrow> th_ok D (sift i h) \<and> rearranged h (sift i h)"
proof (induction i h rule: sift.induct)
  case (1 i h)
  let ?p = "(i - 1) div 2"
  show ?case
  proof (cases "i > 0 \<and> later_than (th_heap h ! ?p) (th_heap h ! i)")
    case True
    then have p: "?p < i" "?p < length (th_heap h)" using "1.prems" by auto
    note s = swap_note_ok [OF "1.prems"(1) p(2) "1.prems"(2), of i ?p]
    have "th_ok D (sift ?p (swap_note ?p i i ?p h)) \<and>
        rearranged (swap_note ?p i i ?p h) (sift ?p (swap_note ?p i i ?p h))"
      using "1.IH" True p s by (simp add: insert_commute)
    then show ?thesis
      using True s p by (simp add: sift.simps [of i h] insert_commute) (blast intro: rearranged_trans)
  next
    case False
    have "sift i h = sift_down i h" unfolding sift.simps [of i h] using False by (rule if_not_P)
    then show ?thesis using sift_down_ok "1.prems" by simp
  qed
qed

section \<open>Sifting restores the heap order\<close>

lemma parent_code: "(i - 1) div 2 = parent i"
  by (simp add: parent_def)

lemma sift_up_heap:
  "heap_but e_when (th_heap h) i \<Longrightarrow> kids_ok e_when (th_heap h) i \<Longrightarrow> i < length (th_heap h) \<Longrightarrow>
   is_heap e_when (th_heap (sift_up i h))"
proof (induction i h rule: sift_up.induct)
  case (1 i h)
  show ?case
  proof (cases "i > 0 \<and> later_than (th_heap h ! parent i) (th_heap h ! i)")
    case True
    then have p: "parent i < i" using parent_less by auto
    have less: "e_when (th_heap h ! i) < e_when (th_heap h ! parent i)" using True by (simp add: later_than_def)
    have "is_heap e_when (th_heap (sift_up (parent i) (swap_note (parent i) i i (parent i) h)))"
      using "1.IH" [folded One_nat_def, unfolded parent_code] True p less "1.prems"
      by (simp add: heap_but_swap_up heap_but_swap_up_kids)
    then show ?thesis using True by (simp add: sift_up.simps [of i h] parent_code [simplified] Let_def)
  next
    case False
    then have "i = 0 \<or> e_when (th_heap h ! parent i) \<le> e_when (th_heap h ! i)"
      by (auto simp: later_than_def)
    then show ?thesis
      using is_heap_kids "1.prems" False by (auto simp: sift_up.simps [of i h] parent_code [simplified] Let_def)
  qed
qed

lemma best_child_spec:
  shows "best_child i h = i \<Longrightarrow> kids_ok e_when (th_heap h) i"
    and "best_child i h \<noteq> i \<Longrightarrow> 0 < best_child i h \<and> best_child i h < length (th_heap h) \<and>
      parent (best_child i h) = i \<and> e_when (th_heap h ! best_child i h) < e_when (th_heap h ! i) \<and>
      (\<forall>c. 0 < c \<and> c < length (th_heap h) \<and> parent c = i \<longrightarrow>
         e_when (th_heap h ! best_child i h) \<le> e_when (th_heap h ! c))"
proof -
  have kids: "(\<forall>c. 0 < c \<and> c < length (th_heap h) \<and> parent c = i \<longrightarrow> x \<le> e_when (th_heap h ! c)) \<longleftrightarrow>
      (2 * i + 1 < length (th_heap h) \<longrightarrow> x \<le> e_when (th_heap h ! (2 * i + 1))) \<and>
      (2 * i + 2 < length (th_heap h) \<longrightarrow> x \<le> e_when (th_heap h ! (2 * i + 2)))" for x
    by (metis parent_child parent_left parent_right Suc_eq_plus1 add_2_eq_Suc' zero_less_Suc)
  show "best_child i h = i \<Longrightarrow> kids_ok e_when (th_heap h) i"
    unfolding kids_ok_def kids
    by (auto simp: best_child_def Let_def later_than_def split: if_splits)
  show "best_child i h \<noteq> i \<Longrightarrow> 0 < best_child i h \<and> best_child i h < length (th_heap h) \<and>
      parent (best_child i h) = i \<and> e_when (th_heap h ! best_child i h) < e_when (th_heap h ! i) \<and>
      (\<forall>c. 0 < c \<and> c < length (th_heap h) \<and> parent c = i \<longrightarrow>
         e_when (th_heap h ! best_child i h) \<le> e_when (th_heap h ! c))"
    unfolding kids
    by (auto simp: best_child_def Let_def later_than_def split: if_splits)
qed

lemma sift_down_heap:
  "heap_but_below e_when (th_heap h) i \<Longrightarrow> is_heap e_when (th_heap (sift_down i h))"
proof (induction i h rule: sift_down.induct)
  case (1 i h)
  show ?case
  proof (cases "best_child i h = i")
    case True
    then show ?thesis
      using best_child_spec(1) [OF True] heap_but_below_done [OF "1.prems"]
      by (simp add: sift_down.simps [of i h] kids_ok_def)
  next
    case False
    then show ?thesis
      using "1.IH" "1.prems" best_child_spec(2) [of i h]
      by (simp add: sift_down.simps [of i h] Let_def heap_but_below_swap_down)
  qed
qed

lemma sift_heap:
  "heap_but e_when (th_heap h) i \<Longrightarrow> i < length (th_heap h) \<Longrightarrow> is_heap e_when (th_heap (sift i h))"
proof (induction i h rule: sift.induct)
  case (1 i h)
  show ?case
  proof (cases "i > 0 \<and> later_than (th_heap h ! parent i) (th_heap h ! i)")
    case True
    then have p: "parent i < i" using parent_less by auto
    have less: "e_when (th_heap h ! i) < e_when (th_heap h ! parent i)" using True by (simp add: later_than_def)
    have "is_heap e_when (th_heap (sift (parent i) (swap_note (parent i) i i (parent i) h)))"
      using "1.IH" [folded One_nat_def, unfolded parent_code] True p less "1.prems"
      by (simp add: heap_but_swap_up)
    then show ?thesis using True by (simp add: sift.simps [of i h] parent_code [simplified])
  next
    case False
    then have "heap_but_below e_when (th_heap h) i"
      using "1.prems" heap_but_up_done by (metis gr0I later_than_def not_less)
    then show ?thesis using False sift_down_heap by (auto simp: sift.simps [of i h] parent_code [simplified])
  qed
qed

section \<open>The building blocks of the operations\<close>

lemma used_heap: "used (h\<lparr>th_heap := xs\<rparr>) = ix_of ` set xs"
  by (simp add: used_def)

lemma new_id_ok:
  assumes ok: "th_ok {} h" and room: "Suc (length (th_slots h)) < 2 ^ 32"
    and n: "new_id h = (i, h')"
  shows "th_ok {unat (index_of i)} h'" "th_heap h' = th_heap h"
    "unat (index_of i) < length (th_slots h')" "s_gen (th_slots h' ! unat (index_of i)) = gen_of i"
    "unat (index_of i) \<notin> used h"
proof -
  have *: "th_ok {unat (index_of i)} h' \<and> th_heap h' = th_heap h \<and>
      unat (index_of i) < length (th_slots h') \<and>
      s_gen (th_slots h' ! unat (index_of i)) = gen_of i \<and> unat (index_of i) \<notin> used h"
  proof (cases "th_free h = []")
    case True
    then have i: "index_of i = of_nat (length (th_slots h))"
      and h': "h' = h\<lparr>th_slots := th_slots h @ [\<lparr>s_pos = kFreePos, s_gen = 0\<rparr>]\<rparr>"
      and g: "gen_of i = 0"
      using n room by (auto simp: new_id_def Let_def nth_append unat_of_nat_u32)
    have u: "unat (index_of i) = length (th_slots h)" using i room by (simp add: unat_of_nat_u32)
    have "used h \<subseteq> {..<length (th_slots h)}" using ok by (auto simp: th_ok_def th_ids_def used_def)
    then show ?thesis using ok u h' g room True
      by (auto simp: th_ok_def th_ids_def th_pos_def used_def nth_append less_Suc_eq)
  next
    case False
    then obtain fs f where fs: "th_free h = fs @ [f]" by (metis rev_exhaust)
    have i: "index_of i = f" and h': "h' = h\<lparr>th_free := fs\<rparr>" and g: "gen_of i = s_gen (th_slots h ! unat f)"
      using n fs by (auto simp: new_id_def Let_def)
    have "unat f \<notin> used h" using free_not_used [OF ok, of f] fs by simp
    moreover have "\<forall>x \<in> set fs. unat x \<noteq> unat f"
      using ok fs unfolding th_ok_def th_ids_def word_unat_eq_iff [symmetric] by auto
    ultimately show ?thesis using ok i h' g fs
      by (auto simp: th_ok_def th_ids_def th_pos_def used_def)
  qed
  then show "th_ok {unat (index_of i)} h'" "th_heap h' = th_heap h"
    "unat (index_of i) < length (th_slots h')" "s_gen (th_slots h' ! unat (index_of i)) = gen_of i"
    "unat (index_of i) \<notin> used h" by simp_all
qed

lemma push_ok:
  assumes ok: "th_ok {ix_of e} h" and rng: "ix_of e < length (th_slots h)"
    and gen: "s_gen (th_slots h ! ix_of e) = gen_of (e_id e)"
  shows "th_ok {} (snd (push e h))" "mset (th_heap (snd (push e h))) = add_mset e (mset (th_heap h))"
    "is_heap e_when (th_heap h) \<Longrightarrow> is_heap e_when (th_heap (snd (push e h)))"
    "map s_gen (th_slots (snd (push e h))) = map s_gen (th_slots h)"
    "th_free (snd (push e h)) = th_free h"
proof -
  let ?n = "length (th_heap h)"
  let ?h1 = "h\<lparr>th_heap := th_heap h @ [e]\<rparr>"
  let ?h2 = "note_pos ?n ?h1"
  have new: "ix_of e \<notin> used h" using ok by (auto simp: th_ok_def th_ids_def)
  have ids: "th_ids {} ?h1" using ok rng gen new
    unfolding th_ok_def th_ids_def used_def by auto
  have free: "\<forall>f \<in> set (th_free ?h1). unat f \<notin> used ?h1"
  proof
    fix f assume f: "f \<in> set (th_free ?h1)"
    then have "unat f \<notin> used h" using free_not_used [OF ok, of f] by simp
    moreover have "unat f \<noteq> ix_of e" using ok f by (auto simp: th_ok_def th_ids_def)
    ultimately show "unat f \<notin> used ?h1" by (auto simp: used_def)
  qed
  have ids2: "th_ids {} ?h2" using th_ids_note [OF ids _ free, of ?n] by simp
  have pos: "th_pos ?h2"
    unfolding th_pos_def
  proof (intro allI impI)
    fix k assume k: "k < length (th_heap ?h2)"
    show "s_pos (th_slots ?h2 ! ix_of (th_heap ?h2 ! k)) = of_nat k"
    proof (cases "k = ?n")
      case True
      then show ?thesis using rng by (simp add: note_slots)
    next
      case False
      then have "k < ?n" using k by simp
      moreover from this have "ix_of (th_heap h ! k) \<noteq> ix_of e" using new by (metis imageI nth_mem used_def)
      ultimately show ?thesis using ok by (simp add: note_slots nth_append th_ok_def th_pos_def)
    qed
  qed
  have ok2: "th_ok {} ?h2" using ids2 pos by (simp add: th_ok_def)
  have push: "snd (push e h) = sift_up ?n ?h2" by (simp add: push_def Let_def)
  have s: "th_ok {} (sift_up ?n ?h2) \<and> rearranged ?h2 (sift_up ?n ?h2)"
    using sift_up_ok [OF ok2, of ?n] by simp
  then show "th_ok {} (snd (push e h))" using push by simp
  show "mset (th_heap (snd (push e h))) = add_mset e (mset (th_heap h))"
    "map s_gen (th_slots (snd (push e h))) = map s_gen (th_slots h)"
    "th_free (snd (push e h)) = th_free h"
    using s push by (simp_all add: rearranged_def)
  show "is_heap e_when (th_heap (snd (push e h)))" if "is_heap e_when (th_heap h)"
    using sift_up_heap [of ?h2 ?n] is_heap_append [OF that, of e] kids_ok_append [of e_when "th_heap h" e] push by simp
qed

lemma butlast_update_last: "xs \<noteq> [] \<Longrightarrow> k < length xs - 1 \<Longrightarrow>
    butlast (xs[k := xs ! (length xs - 1)]) = (butlast xs)[k := last xs]"
  by (simp add: butlast_list_update last_conv_nth)

text \<open>Overwriting position \<open>k\<close> with the last entry and noting its new place: the table stays right.\<close>

lemma remove_at_ok:
  assumes ok: "th_ok D h" and k: "k < length (th_heap h) - 1"
    and h': "h' = note_pos k (h\<lparr>th_heap := (butlast (th_heap h))[k := last (th_heap h)]\<rparr>)"
  shows "th_ok (insert (ix_of (th_heap h ! k)) D) h'"
    "mset (th_heap h') = mset (th_heap h) - {# th_heap h ! k #}"
    "map s_gen (th_slots h') = map s_gen (th_slots h)" "th_free h' = th_free h"
proof -
  let ?xs = "(butlast (th_heap h))[k := last (th_heap h)]"
  let ?h1 = "h\<lparr>th_heap := ?xs\<rparr>"
  let ?ix = "ix_of (th_heap h ! k)"
  have ne: "th_heap h \<noteq> []" using k by auto
  have len: "length ?xs = length (th_heap h) - 1" by simp
  have dist: "distinct (map ix_of (th_heap h))" using ok by (simp add: th_ok_def th_ids_def)
  have map: "map ix_of ?xs = (butlast (map ix_of (th_heap h)))[k := last (map ix_of (th_heap h))]"
    using ne by (simp add: map_update map_butlast last_map)
  have used: "used ?h1 = used h - {?ix}"
  proof -
    have "set (map ix_of ?xs) = set (map ix_of (th_heap h)) - {map ix_of (th_heap h) ! k}"
      unfolding map using dist k by (intro set_butlast_update) simp_all
    then show ?thesis using k by (simp add: used_def)
  qed
  have dist': "distinct (map ix_of ?xs)"
  proof -
    have "distinct (butlast (map ix_of (th_heap h)) @ [last (map ix_of (th_heap h))])"
      using dist ne by simp
    then show ?thesis unfolding map by (auto intro!: distinct_list_update)
  qed
  have sub: "set ?xs \<subseteq> set (th_heap h)"
  proof -
    have "set ?xs \<subseteq> insert (last (th_heap h)) (set (butlast (th_heap h)))"
      by (rule set_update_subset_insert)
    also have "\<dots> \<subseteq> set (th_heap h)" using ne by (auto dest: in_set_butlastD)
    finally show ?thesis .
  qed
  have ids: "th_ids (insert ?ix D) ?h1"
    using ok dist' used sub free_ne_ix [OF ok, of "th_heap h ! k"] k unfolding th_ok_def th_ids_def
    by (auto simp: used_def)
  have free: "\<forall>f \<in> set (th_free ?h1). unat f \<notin> used ?h1"
    using free_not_used [OF ok] used by simp
  have "th_ids (insert ?ix D) h'" unfolding h' using th_ids_note [OF ids _ free, of k] k by simp
  moreover have "th_pos h'"
    unfolding th_pos_def
  proof (intro allI impI)
    fix j assume j: "j < length (th_heap h')"
    then have jl: "j < length (th_heap h) - 1" by (simp add: h')
    have inj: "ix_of (?xs ! j) = ix_of (?xs ! k) \<Longrightarrow> j = k"
      using ix_of_inj [OF ids, of j k] jl k by simp
    have rng: "ix_of (?xs ! k) < length (th_slots h)" using ok ne k by (simp add: th_ok_def th_ids_def)
    show "s_pos (th_slots h' ! ix_of (th_heap h' ! j)) = of_nat j"
    proof (cases "j = k")
      case True
      then show ?thesis using rng by (simp add: h' note_slots)
    next
      case False
      then have "?xs ! j = th_heap h ! j" using jl by (simp add: nth_butlast)
      moreover from this have "ix_of (th_heap h ! j) \<noteq> ix_of (?xs ! k)" using inj False by auto
      moreover have "s_pos (th_slots h ! ix_of (th_heap h ! j)) = of_nat j"
        using ok jl by (simp add: th_ok_def th_pos_def)
      ultimately show ?thesis by (simp add: h' note_slots del: nth_list_update)
    qed
  qed
  ultimately show "th_ok (insert ?ix D) h'" by (simp add: th_ok_def)
  show "mset (th_heap h') = mset (th_heap h) - {# th_heap h ! k #}"
    using mset_butlast_update [OF k] by (simp add: h')
  show "map s_gen (th_slots h') = map s_gen (th_slots h)" "th_free h' = th_free h"
    by (simp_all add: h')
qed

lemma remove_last_ok:
  assumes ok: "th_ok D h" and ne: "th_heap h \<noteq> []"
    and h': "h' = h\<lparr>th_heap := butlast (th_heap h)\<rparr>"
  shows "th_ok (insert (ix_of (last (th_heap h))) D) h'"
    "mset (th_heap h') = mset (th_heap h) - {# last (th_heap h) #}"
proof -
  let ?ix = "ix_of (last (th_heap h))"
  have split: "th_heap h = butlast (th_heap h) @ [last (th_heap h)]" using ne by simp
  have dist: "distinct (map ix_of (butlast (th_heap h)) @ [?ix])"
    using ok split by (metis list.map(1) list.map(2) map_append th_ids_def th_ok_def)
  have used: "used h' = used h - {?ix}"
  proof -
    have "used h = insert ?ix (used h')"
      using arg_cong [OF split, of "\<lambda>xs. ix_of ` set xs"] by (simp add: used_def h')
    then show ?thesis using dist by (auto simp: used_def h')
  qed
  have "?ix \<in> used h" using ne by (simp add: used_def)
  moreover have "\<forall>f \<in> set (th_free h). unat f \<noteq> ?ix" using free_ne_ix [OF ok] ne by simp
  ultimately have "th_ids (insert ?ix D) h'"
    using ok dist used unfolding th_ok_def th_ids_def h'
    by (auto dest: in_set_butlastD)
  moreover have "th_pos h'" using ok by (simp add: th_ok_def th_pos_def h' nth_butlast)
  ultimately show "th_ok (insert ?ix D) h'" by (simp add: th_ok_def)
  show "mset (th_heap h') = mset (th_heap h) - {# last (th_heap h) #}"
    using ne by (simp add: h' mset_butlast)
qed

lemma pop_root_ok:
  assumes ok: "th_ok {} h" and ne: "th_heap h \<noteq> []"
  shows "th_ok {ix_of (hd (th_heap h))} (pop_root h)"
    "mset (th_heap (pop_root h)) = mset (th_heap h) - {# hd (th_heap h) #}"
    "is_heap e_when (th_heap h) \<Longrightarrow> is_heap e_when (th_heap (pop_root h))"
    "map s_gen (th_slots (pop_root h)) = map s_gen (th_slots h)"
proof -
  let ?r = "hd (th_heap h)"
  let ?h1 = "note_pos 0 (h\<lparr>th_heap := (butlast (th_heap h))[0 := last (th_heap h)]\<rparr>)"
  have hd: "?r = th_heap h ! 0" using ne by (simp add: hd_conv_nth)
  have "th_ok {ix_of ?r} (pop_root h) \<and> mset (th_heap (pop_root h)) = mset (th_heap h) - {# ?r #} \<and>
     (is_heap e_when (th_heap h) \<longrightarrow> is_heap e_when (th_heap (pop_root h))) \<and>
     map s_gen (th_slots (pop_root h)) = map s_gen (th_slots h)"
  proof (cases "length (th_heap h) - 1 = 0")
    case True
    then have one: "th_heap h = [?r]" using ne by (cases "th_heap h") auto
    then have "last (th_heap h) = ?r" by (metis last.simps)
    then show ?thesis
      using remove_last_ok [OF ok ne refl] True is_heap_butlast [of e_when "th_heap h"]
      by (simp add: pop_root_def)
  next
    case False
    then have k: "0 < length (th_heap h) - 1" by simp
    have pop: "pop_root h = sift_down 0 ?h1"
      using False butlast_update_last [OF ne k] by (simp add: pop_root_def Let_def)
    note r = remove_at_ok [OF ok k refl]
    have "th_ok {ix_of ?r} (sift_down 0 ?h1)" "rearranged ?h1 (sift_down 0 ?h1)"
      using sift_down_ok [of "{ix_of ?r}" ?h1 0] r(1) hd by auto
    moreover have "is_heap e_when (th_heap (sift_down 0 ?h1))" if "is_heap e_when (th_heap h)"
      using sift_down_heap [of ?h1 0] heap_but_up_done is_heap_replace [OF is_heap_butlast [OF that], of 0]
      by (metis heap_note timer_heap.select_convs(1) timer_heap.surjective timer_heap.update_convs(1))
    ultimately show ?thesis using r pop hd by (simp add: rearranged_def)
  qed
  then show "th_ok {ix_of ?r} (pop_root h)"
    "mset (th_heap (pop_root h)) = mset (th_heap h) - {# ?r #}"
    "is_heap e_when (th_heap h) \<Longrightarrow> is_heap e_when (th_heap (pop_root h))"
    "map s_gen (th_slots (pop_root h)) = map s_gen (th_slots h)" by simp_all
qed

lemma heap_free_id [simp]: "th_heap (free_id i h) = th_heap h"
  by (simp add: free_id_def Let_def)

lemma free_id_ok:
  assumes ok: "th_ok {unat (index_of i)} h" and rng: "unat (index_of i) < length (th_slots h)"
  shows "th_ok {} (free_id i h)"
    "s_gen (th_slots (free_id i h) ! unat (index_of i)) = s_gen (th_slots h ! unat (index_of i)) + 1"
proof -
  let ?ix = "unat (index_of i)"
  have new: "?ix \<notin> used h" "index_of i \<notin> set (th_free h)"
    using ok by (auto simp: th_ok_def th_ids_def)
  have slots: "th_slots (free_id i h) ! m = th_slots h ! m" if "m \<noteq> ?ix" for m
    using that by (simp add: free_id_def Let_def)
  have slot: "s_pos (th_slots (free_id i h) ! ?ix) = kFreePos"
    and len: "length (th_slots (free_id i h)) = length (th_slots h)"
    and free: "th_free (free_id i h) = th_free h @ [index_of i]"
    using rng by (simp_all add: free_id_def Let_def)
  have u: "used (free_id i h) = used h" by (simp add: used_def)
  have ne: "ix_of e \<noteq> ?ix" if "e \<in> set (th_heap h)" for e using that new(1) by (metis imageI used_def)
  have "th_ids {} (free_id i h)"
    using ok rng new slot slots ne unfolding th_ok_def th_ids_def len free u by auto
  moreover have "th_pos (free_id i h)"
    using ok slots ne unfolding th_ok_def th_pos_def by simp
  ultimately show "th_ok {} (free_id i h)" by (simp add: th_ok_def)
  show "s_gen (th_slots (free_id i h) ! ?ix) = s_gen (th_slots h ! ?ix) + 1"
    using rng by (simp add: free_id_def Let_def)
qed

section \<open>Looking an id up\<close>

definition live :: "'p timer_heap \<Rightarrow> timer_id \<Rightarrow> 'p entry option" where
  "live h = map_of (map (\<lambda>e. (e_id e, e)) (th_heap h))"

lemma e_id_inj:
  assumes "th_ids D h" "a \<in> set (th_heap h)" "b \<in> set (th_heap h)" "e_id a = e_id b"
  shows "a = b"
  using assms unfolding th_ids_def distinct_map inj_on_def ix_of_def by metis

lemma distinct_e_ids: "th_ids D h \<Longrightarrow> distinct (map e_id (th_heap h))"
  by (intro distinct_map [THEN iffD2] conjI inj_onI)
    (auto simp: th_ids_def distinct_map intro: e_id_inj)

lemma live_iff:
  assumes "th_ids D h"
  shows "live h i = Some e \<longleftrightarrow> e \<in> set (th_heap h) \<and> e_id e = i"
proof -
  have "distinct (map fst (map (\<lambda>e. (e_id e, e)) (th_heap h)))"
    using distinct_e_ids [OF assms] by (simp add: o_def)
  then show ?thesis unfolding live_def by (subst map_of_eq_Some_iff) auto
qed

lemma live_none: "live h i = None \<longleftrightarrow> i \<notin> e_id ` set (th_heap h)"
  by (simp add: live_def map_of_eq_None_iff image_image)

lemma slot_of_live:
  assumes ok: "th_ok {} h"
  shows "slot_of i h = Some s \<longleftrightarrow> s < length (th_heap h) \<and> e_id (th_heap h ! s) = i"
proof -
  let ?ix = "unat (index_of i)"
  have small: "length (th_heap h) < 2 ^ 32"
    using ok th_len [of "{}" h] by (simp add: th_ok_def th_ids_def)
  have fwd: "slot_of (e_id (th_heap h ! s)) h = Some s" if "s < length (th_heap h)" for s
  proof -
    have "ix_of (th_heap h ! s) < length (th_slots h)"
      and "s_gen (th_slots h ! ix_of (th_heap h ! s)) = gen_of (e_id (th_heap h ! s))"
      and "s_pos (th_slots h ! ix_of (th_heap h ! s)) = of_nat s"
      using ok that by (simp_all add: th_ok_def th_ids_def th_pos_def)
    then show ?thesis
      using pos_not_free [OF ok that] that small
      by (simp add: slot_of_def ix_of_def Let_def unat_of_nat_u32)
  qed
  have bwd: "s < length (th_heap h) \<and> e_id (th_heap h ! s) = i" if some: "slot_of i h = Some s"
  proof -
    have ix: "?ix < length (th_slots h)" "s_pos (th_slots h ! ?ix) \<noteq> kFreePos"
      "s_gen (th_slots h ! ?ix) = gen_of i"
      using some by (auto simp: slot_of_def Let_def split: if_splits)
    then have "?ix \<in> used h" using ok by (force simp: th_ok_def th_ids_def)
    then obtain k where k: "k < length (th_heap h)" "ix_of (th_heap h ! k) = ?ix"
      by (auto simp: used_def in_set_conv_nth)
    have "gen_of (e_id (th_heap h ! k)) = gen_of i"
      using ok k ix(3) by (metis nth_mem th_ids_def th_ok_def)
    moreover have "index_of (e_id (th_heap h ! k)) = index_of i"
      using k(2) by (simp add: ix_of_def word_unat_eq_iff)
    ultimately have "e_id (th_heap h ! k) = i" by (simp add: id_eq_iff)
    then show ?thesis using fwd [OF k(1)] k some by auto
  qed
  show ?thesis using fwd bwd by auto
qed

lemma slot_of_none: "th_ok {} h \<Longrightarrow> slot_of i h = None \<longleftrightarrow> live h i = None"
  using slot_of_live [of h i] unfolding live_none by (metis imageE imageI in_set_conv_nth not_None_eq)

section \<open>Operations refine the map of live timers\<close>

lemma live_add:
  assumes "th_ids D h" "th_ids D' h'" "mset (th_heap h') = add_mset e (mset (th_heap h))"
  shows "live h' = (live h)(e_id e \<mapsto> e)"
proof -
  have set: "set (th_heap h') = insert e (set (th_heap h))"
    using assms(3) by (metis set_mset_add_mset_insert set_mset_mset)
  show ?thesis
  proof
    fix i show "live h' i = ((live h)(e_id e \<mapsto> e)) i"
    proof (cases "live h' i")
      case None
      then show ?thesis using set live_none [of h' i] live_none [of h i] by auto
    next
      case (Some x)
      then have x: "x = e \<or> x \<in> set (th_heap h)" "e_id x = i" using live_iff [OF assms(2)] set by auto
      show ?thesis
      proof (cases "i = e_id e")
        case True
        then show ?thesis using Some x e_id_inj [OF assms(2), of x e] set by auto
      next
        case False
        then show ?thesis using Some x live_iff [OF assms(1), of i x] by auto
      qed
    qed
  qed
qed

lemma live_remove:
  assumes "th_ids D h" "th_ids D' h'" "e \<in> set (th_heap h)"
    "mset (th_heap h') = mset (th_heap h) - {#e#}"
  shows "live h' = (live h)(e_id e := None)"
proof -
  have "mset (th_heap h) = add_mset e (mset (th_heap h'))" using assms(3,4) by simp
  then have "live h = (live h')(e_id e \<mapsto> e)" using live_add [OF assms(2) assms(1)] by simp
  moreover have "live h' (e_id e) = None"
  proof (rule ccontr)
    assume "live h' (e_id e) \<noteq> None"
    then obtain x where x: "x \<in> set (th_heap h')" "e_id x = e_id e" using live_none [of h' "e_id e"] by auto
    have "x \<in> set (th_heap h)" using x assms(4) by (metis in_diffD set_mset_mset)
    then have "x = e" using e_id_inj [OF assms(1)] x assms(3) by blast
    moreover have "distinct (th_heap h)" using distinct_e_ids [OF assms(1)] by (simp add: distinct_map)
    ultimately have "count (mset (th_heap h)) e = 1" "e \<in># mset (th_heap h')"
      using assms(3) x by (auto simp: distinct_count_atmost_1)
    then show False using assms(4) by (simp add: in_diff_count)
  qed
  ultimately show ?thesis by (auto simp: fun_eq_iff)
qed

definition has_room :: "'p timer_heap \<Rightarrow> bool" where
  "has_room h \<longleftrightarrow> Suc (length (th_slots h)) < 2 ^ 32"

lemma th_invD: "th_inv h \<Longrightarrow> th_ok {} h" "th_inv h \<Longrightarrow> th_ids {} h" "th_inv h \<Longrightarrow> is_heap e_when (th_heap h)"
  by (simp_all add: th_inv_def th_ok_def)

lemma arm_ok:
  assumes inv: "th_inv h" and room: "has_room h" and n: "new_id h = (i, h1)" and e: "e_id e = i"
  shows "th_inv (snd (push e h1))" "live (snd (push e h1)) = (live h)(i \<mapsto> e)" "live h i = None"
    "fst (push e h1) = i" "mset (th_heap (snd (push e h1))) = add_mset e (mset (th_heap h))"
proof -
  note a = new_id_ok [OF th_invD(1) [OF inv] _ n]
  have ix: "ix_of e = unat (index_of i)" using e by (simp add: ix_of_def)
  have ok1: "th_ok {ix_of e} h1" and heap: "th_heap h1 = th_heap h"
    and rng: "ix_of e < length (th_slots h1)" and gen: "s_gen (th_slots h1 ! ix_of e) = gen_of (e_id e)"
    and new: "ix_of e \<notin> used h"
    using a room e ix by (simp_all add: has_room_def)
  note p = push_ok [OF ok1 rng gen]
  show inv': "th_inv (snd (push e h1))" using p(1,3) heap th_invD(3) [OF inv] by (simp add: th_inv_def)
  show m: "mset (th_heap (snd (push e h1))) = add_mset e (mset (th_heap h))" using p(2) heap by simp
  show "live (snd (push e h1)) = (live h)(i \<mapsto> e)"
    using live_add [OF th_invD(2) [OF inv] th_invD(2) [OF inv'] m] e by simp
  show "live h i = None" using new by (auto simp: live_none used_def ix_of_def e image_iff)
  show "fst (push e h1) = i" using e by (simp add: push_def Let_def)
qed

lemma after_ok:
  assumes "th_inv h" "has_room h" "after num now d p h = (i, h')"
  shows "th_inv h'" "live h i = None"
    "live h' = (live h)(i \<mapsto> \<lparr>e_when = saturate_add num now d, e_period = 0, e_payload = p, e_id = i\<rparr>)"
proof -
  obtain j h1 where n: "new_id h = (j, h1)" by (cases "new_id h")
  note a = arm_ok [OF assms(1,2) n, of "\<lparr>e_when = saturate_add num now d, e_period = 0, e_payload = p, e_id = j\<rparr>"]
  have p: "push \<lparr>e_when = saturate_add num now d, e_period = 0, e_payload = p, e_id = j\<rparr> h1 = (i, h')"
    using assms(3) n by (simp add: after_def)
  show "th_inv h'" "live h i = None"
    "live h' = (live h)(i \<mapsto> \<lparr>e_when = saturate_add num now d, e_period = 0, e_payload = p, e_id = i\<rparr>)"
    using a unfolding p by simp_all
qed

definition every_period :: "int \<Rightarrow> int \<Rightarrow> duration" where
  "every_period num d = (if saturate_cast num d \<le> 0 then 1 else saturate_cast num d)"

lemma every_period_pos [simp]: "0 < every_period num d"
  by (simp add: every_period_def)

lemma every_ok:
  assumes "th_inv h" "has_room h" "every num now d p h = (i, h')"
  shows "th_inv h'" "live h i = None"
    "live h' = (live h)(i \<mapsto> \<lparr>e_when = saturate_add 1 now (every_period num d),
       e_period = every_period num d, e_payload = p, e_id = i\<rparr>)"
proof -
  obtain j h1 where n: "new_id h = (j, h1)" by (cases "new_id h")
  let ?e = "\<lambda>i. \<lparr>e_when = saturate_add 1 now (every_period num d), e_period = every_period num d,
     e_payload = p, e_id = i\<rparr>"
  note a = arm_ok [OF assms(1,2) n, of "?e j"]
  have p: "push (?e j) h1 = (i, h')"
    using assms(3) n by (simp add: every_def every_period_def Let_def)
  show "th_inv h'" "live h i = None" "live h' = (live h)(i \<mapsto> ?e i)"
    using a unfolding p by simp_all
qed

lemma note_free_id_commute:
  assumes "ix_of (xs ! k) \<noteq> unat (index_of i)"
  shows "note_pos k ((free_id i h)\<lparr>th_heap := xs\<rparr>) = free_id i (note_pos k (h\<lparr>th_heap := xs\<rparr>))"
  using assms unfolding note_pos_def free_id_def Let_def ix_of_def
  by (simp add: list_update_swap)

lemma cancel_ok:
  assumes inv: "th_inv h" and c: "cancel i h = (b, h')"
  shows "th_inv h'" "live h' = (live h)(i := None)" "b \<longleftrightarrow> live h i \<noteq> None"
proof -
  note ok = th_invD(1) [OF inv]
  have "th_inv h' \<and> live h' = (live h)(i := None) \<and> (b \<longleftrightarrow> live h i \<noteq> None)"
  proof (cases "slot_of i h")
    case None
    then show ?thesis using c inv slot_of_none [OF ok, of i] by (auto simp: cancel_def fun_eq_iff)
  next
    case (Some s)
    then have s: "s < length (th_heap h)" "e_id (th_heap h ! s) = i" using slot_of_live [OF ok] by auto
    let ?e = "th_heap h ! s"
    have ix: "ix_of ?e = unat (index_of i)" using s by (simp add: ix_of_def)
    have rng: "unat (index_of i) < length (th_slots h)"
      using ok s ix by (metis nth_mem th_ids_def th_ok_def)
    have ne: "th_heap h \<noteq> []" using s by auto
    have b: "b \<longleftrightarrow> live h i \<noteq> None" using c Some slot_of_none [OF ok, of i] by (auto simp: cancel_def Let_def split: if_splits)
    have main: "th_inv h' \<and> mset (th_heap h') = mset (th_heap h) - {#?e#}"
    proof (cases "s = length (th_heap h) - 1")
      case True
      then have last: "last (th_heap h) = ?e" using ne by (simp add: last_conv_nth)
      let ?h1 = "h\<lparr>th_heap := butlast (th_heap h)\<rparr>"
      have h': "h' = free_id i ?h1"
        using c Some True by (auto simp: cancel_def Let_def free_id_def intro!: timer_heap.equality)
      note r = remove_last_ok [OF ok ne refl]
      have "th_ok {unat (index_of i)} ?h1" using r(1) last ix by simp
      then have "th_ok {} h'" using free_id_ok(1) [of i ?h1] rng h' by simp
      then show ?thesis using r(2) last h' is_heap_butlast [OF th_invD(3) [OF inv]] by (simp add: th_inv_def)
    next
      case False
      then have k: "s < length (th_heap h) - 1" using s by simp
      let ?xs = "(butlast (th_heap h))[s := last (th_heap h)]"
      let ?h1 = "note_pos s (h\<lparr>th_heap := ?xs\<rparr>)"
      note r = remove_at_ok [OF ok k refl]
      have ok1: "th_ok {unat (index_of i)} ?h1" using r(1) ix by simp
      have nk: "ix_of (?xs ! s) \<noteq> unat (index_of i)"
      proof -
        have "?xs ! s \<in> set (th_heap ?h1)" using k by (simp add: set_update_memI)
        then have "ix_of (?xs ! s) \<in> used ?h1" unfolding used_def by (rule imageI)
        moreover have "{unat (index_of i)} \<inter> used ?h1 = {}" using ok1 unfolding th_ok_def th_ids_def by blast
        ultimately show ?thesis by blast
      qed
      have h': "h' = sift s (free_id i ?h1)"
        using c Some False butlast_update_last [OF ne k] note_free_id_commute [OF nk, of h]
        by (simp add: cancel_def Let_def)
      have rng1: "unat (index_of i) < length (th_slots ?h1)" using rng by (simp add: note_slots)
      have "th_ok {} (free_id i ?h1)" using free_id_ok(1) [OF ok1 rng1] .
      then have sf: "th_ok {} h' \<and> rearranged (free_id i ?h1) h'" using sift_ok [of "{}" "free_id i ?h1" s] k h' by simp
      have "is_heap e_when (th_heap h')" unfolding h'
        using is_heap_replace [OF is_heap_butlast [OF th_invD(3) [OF inv]], of s "last (th_heap h)"] k
        by (intro sift_heap) simp_all
      then show ?thesis using sf r(2) by (simp add: th_inv_def rearranged_def)
    qed
    then have "live h' = (live h)(e_id ?e := None)"
      using live_remove [OF th_invD(2) [OF inv], of "{}" h' ?e] s(1) by (simp add: th_invD)
    then show ?thesis using main b s(2) by simp
  qed
  then show "th_inv h'" "live h' = (live h)(i := None)" "b \<longleftrightarrow> live h i \<noteq> None" by simp_all
qed

lemma replace_payload_ok:
  assumes inv: "th_inv h" and r: "replace_payload i p h = (b, h')"
  shows "th_inv h'" "b \<longleftrightarrow> live h i \<noteq> None"
    "live h' = (case live h i of None \<Rightarrow> live h | Some e \<Rightarrow> (live h)(i \<mapsto> e\<lparr>e_payload := p\<rparr>))"
proof -
  note ok = th_invD(1) [OF inv]
  have "th_inv h' \<and> (b \<longleftrightarrow> live h i \<noteq> None) \<and>
    live h' = (case live h i of None \<Rightarrow> live h | Some e \<Rightarrow> (live h)(i \<mapsto> e\<lparr>e_payload := p\<rparr>))"
  proof (cases "slot_of i h")
    case None
    then show ?thesis using r inv slot_of_none [OF ok, of i] by (auto simp: replace_payload_def)
  next
    case (Some s)
    then have s: "s < length (th_heap h)" "e_id (th_heap h ! s) = i" using slot_of_live [OF ok] by auto
    let ?e = "th_heap h ! s"
    let ?e' = "?e\<lparr>e_payload := p\<rparr>"
    have h': "h' = h\<lparr>th_heap := (th_heap h)[s := ?e']\<rparr>" and b: b
      using r Some by (auto simp: replace_payload_def)
    have ixs: "map ix_of (th_heap h') = map ix_of (th_heap h)"
      using s(1) by (auto simp: h' ix_of_def map_update list_update_same_conv)
    have nth: "e_when (th_heap h' ! j) = e_when (th_heap h ! j)" "ix_of (th_heap h' ! j) = ix_of (th_heap h ! j)"
      "e_id (th_heap h' ! j) = e_id (th_heap h ! j)" for j
      using s(1) unfolding h' by (simp_all add: ix_of_def nth_list_update)
    have len: "length (th_heap h') = length (th_heap h)" and same: "th_slots h' = th_slots h" "th_free h' = th_free h"
      by (simp_all add: h')
    have used: "used h' = used h" using ixs unfolding used_def by (metis list.set_map)
    have "\<forall>e \<in> set (th_heap h'). ix_of e < length (th_slots h) \<and> s_gen (th_slots h ! ix_of e) = gen_of (e_id e)"
    proof
      fix e assume "e \<in> set (th_heap h')"
      then obtain j where j: "j < length (th_heap h)" "e = th_heap h' ! j" by (auto simp: in_set_conv_nth len)
      then have "th_heap h ! j \<in> set (th_heap h)" by simp
      then show "ix_of e < length (th_slots h) \<and> s_gen (th_slots h ! ix_of e) = gen_of (e_id e)"
        using th_invD(2) [OF inv] unfolding j(2) nth th_ids_def by blast
    qed
    then have "th_ids {} h'"
      using th_invD(2) [OF inv] unfolding th_ids_def used same ixs by blast
    moreover have "th_pos h'" using ok by (simp add: th_ok_def th_pos_def nth len same)
    moreover have "is_heap e_when (th_heap h')" using th_invD(3) [OF inv] by (simp add: is_heap_def nth len)
    ultimately have inv': "th_inv h'" by (simp add: th_inv_def th_ok_def)
    have li: "live h i = Some ?e" using live_iff [OF th_invD(2) [OF inv]] s by simp
    have "live h' = (live h)(i \<mapsto> ?e')"
    proof
      fix j show "live h' j = ((live h)(i \<mapsto> ?e')) j"
      proof (cases "j = i")
        case True
        have "?e' \<in> set (th_heap h')" using s by (metis h' length_list_update nth_list_update_eq nth_mem timer_heap.select_convs(1) timer_heap.surjective timer_heap.update_convs(1))
        then show ?thesis using True live_iff [OF th_invD(2) [OF inv'], of i ?e'] s by simp
      next
        case False
        have "x \<in> set (th_heap h') \<and> e_id x = j \<longleftrightarrow> x \<in> set (th_heap h) \<and> e_id x = j" for x
          using False s unfolding in_set_conv_nth h' by (auto simp: nth_list_update)
        then show ?thesis using False live_iff [OF th_invD(2) [OF inv']] live_iff [OF th_invD(2) [OF inv]]
          by (metis fun_upd_other option.exhaust)
      qed
    qed
    then show ?thesis using inv' b li by simp
  qed
  then show "th_inv h'" "b \<longleftrightarrow> live h i \<noteq> None"
    "live h' = (case live h i of None \<Rightarrow> live h | Some e \<Rightarrow> (live h)(i \<mapsto> e\<lparr>e_payload := p\<rparr>))"
    by simp_all
qed

section \<open>Firing\<close>

lemma rearm_fields [simp]:
  "e_id (rearm now e) = e_id e" "e_payload (rearm now e) = e_payload e" "e_period (rearm now e) = e_period e"
  by (simp_all add: rearm_def Let_def)

lemma fire_root_ok:
  assumes inv: "th_inv h" and ne: "th_heap h \<noteq> []"
  shows "th_inv (fire_root now h)"
    "mset (th_heap (fire_root now h)) = mset (th_heap h) - {# hd (th_heap h) #} +
       (if e_period (hd (th_heap h)) > 0 then {# rearm now (hd (th_heap h)) #} else {#})"
proof -
  let ?e = "hd (th_heap h)"
  let ?h1 = "pop_root h"
  note p = pop_root_ok [OF th_invD(1) [OF inv] ne]
  have ix: "ix_of (rearm now ?e) = ix_of ?e" by (simp add: ix_of_def)
  have "length (th_slots ?h1) = length (th_slots h)" using p(4) by (metis length_map)
  moreover have e: "ix_of ?e < length (th_slots h)" "s_gen (th_slots h ! ix_of ?e) = gen_of (e_id ?e)"
    using th_invD(2) [OF inv] ne by (auto simp: th_ids_def)
  ultimately have rng: "ix_of ?e < length (th_slots ?h1)" and gen: "s_gen (th_slots ?h1 ! ix_of ?e) = gen_of (e_id ?e)"
    using p(4) by (auto simp: list_eq_iff_nth_eq)
  have heap: "is_heap e_when (th_heap ?h1)" using p(3) th_invD(3) [OF inv] by simp
  show "th_inv (fire_root now h)"
    using push_ok [of "rearm now ?e" ?h1] free_id_ok(1) [of "e_id ?e" ?h1] p(1) rng gen ix heap
    by (simp add: fire_root_def Let_def th_inv_def ix_of_def)
  show "mset (th_heap (fire_root now h)) = mset (th_heap h) - {# ?e #} +
       (if e_period ?e > 0 then {# rearm now ?e #} else {#})"
    using push_ok(2) [of "rearm now ?e" ?h1] p(1,2) rng gen ix by (simp add: fire_root_def Let_def)
qed

lemma saturate_add_gt:
  "0 < per \<Longrightarrow> now < rep_max \<Longrightarrow> now < saturate_add 1 now per"
  by (auto simp: saturate_add_def saturate_cast_def Let_def)

lemma rearm_later: "0 < e_period e \<Longrightarrow> now < rep_max \<Longrightarrow> now < e_when (rearm now e)"
  using saturate_add_gt by (simp add: rearm_def Let_def)

abbreviation due :: "time_point \<Rightarrow> 'p entry \<Rightarrow> bool" where
  "due now e \<equiv> e_when e \<le> now"

definition fired :: "time_point \<Rightarrow> 'p timer_heap \<Rightarrow> 'p timer_heap \<Rightarrow> 'p entry list \<Rightarrow> bool" where
  "fired now h h' es \<longleftrightarrow>
     mset es = filter_mset (due now) (mset (th_heap h)) \<and> sorted (map e_when es) \<and>
     mset (th_heap h') = filter_mset (\<lambda>e. \<not> due now e) (mset (th_heap h)) +
       image_mset (rearm now) (filter_mset (\<lambda>e. due now e \<and> e_period e > 0) (mset (th_heap h)))"

lemma not_root_due:
  assumes "th_inv h" "\<not> root_due now h"
  shows "filter_mset (due now) (mset (th_heap h)) = {#}"
proof -
  have "now < e_when x" if x: "x \<in> set (th_heap h)" for x
  proof -
    obtain k where k: "k < length (th_heap h)" "th_heap h ! k = x" using x by (auto simp: in_set_conv_nth)
    then have "e_when (th_heap h ! 0) \<le> e_when x" using heap_root_min [OF th_invD(3) [OF assms(1)]] by auto
    moreover have "th_heap h \<noteq> []" using x by auto
    then have "now < e_when (th_heap h ! 0)" using assms(2) by (simp add: root_due_def hd_conv_nth)
    ultimately show ?thesis by linarith
  qed
  then show ?thesis by (auto intro!: multiset_eqI simp: not_le count_eq_zero_iff)
qed

lemma fired_step:
  assumes inv: "th_inv h" and now: "now < rep_max" and due: "root_due now h"
    and rest: "fired now (fire_root now h) h' es"
  shows "fired now h h' (hd (th_heap h) # es)"
proof -
  let ?e = "hd (th_heap h)"
  let ?M = "mset (th_heap h)"
  have ne: "th_heap h \<noteq> []" and de: "due now ?e" using due by (auto simp: root_due_def)
  have e: "?e \<in># ?M" using ne by simp
  define R where "R = (if e_period ?e > 0 then {# rearm now ?e #} else {#})"
  have step: "mset (th_heap (fire_root now h)) = ?M - {#?e#} + R" using fire_root_ok(2) [OF inv ne] by (simp add: R_def)
  have R: "filter_mset (due now) R = {#}" "filter_mset (\<lambda>x. \<not> due now x) R = R"
    "filter_mset (\<lambda>x. due now x \<and> e_period x > 0) R = {#}"
    using rearm_later [of ?e now] now by (auto simp: R_def)
  have split: "filter_mset Q ?M = (if Q ?e then {#?e#} else {#}) + filter_mset Q (?M - {#?e#})" for Q
  proof -
    obtain M' where "?M = add_mset ?e M'" using e by (blast dest: multi_member_split)
    then show ?thesis by (simp del: mset.simps)
  qed
  have min: "e_when ?e \<le> e_when x" if "x \<in># ?M" for x
    using heap_root_min [OF th_invD(3) [OF inv]] that ne by (auto simp: in_set_conv_nth hd_conv_nth)
  have es: "mset es = filter_mset (due now) (?M - {#?e#})"
    using rest R by (simp add: fired_def step)
  have "e_when ?e \<le> e_when x" if "x \<in> set es" for x
  proof -
    have "x \<in># filter_mset (due now) (?M - {#?e#})" using that es by (metis set_mset_mset)
    then show ?thesis using min in_diffD by fastforce
  qed
  then have "sorted (map e_when (?e # es))" using rest by (auto simp: fired_def)
  moreover have "mset (?e # es) = filter_mset (due now) ?M" unfolding split [of "due now"] using es de by simp
  moreover have "mset (th_heap h') = filter_mset (\<lambda>e. \<not> due now e) ?M +
       image_mset (rearm now) (filter_mset (\<lambda>e. due now e \<and> e_period e > 0) ?M)"
    unfolding split [of "\<lambda>e. \<not> due now e"] split [of "\<lambda>e. due now e \<and> e_period e > 0"]
    using rest R de by (simp add: fired_def step) (simp add: R_def)
  ultimately show ?thesis by (simp add: fired_def)
qed

lemma collect_due_terminates:
  assumes "th_inv h" "now < rep_max"
  shows "\<exists>h' es. collect_due now h out = Some (h', out @ map e_payload es) \<and>
    th_inv h' \<and> fired now h h' es \<and> \<not> root_due now h'"
  using assms
proof (induction "size (filter_mset (due now) (mset (th_heap h)))" arbitrary: h out rule: less_induct)
  case less
  show ?case
  proof (cases "root_due now h")
    case False
    then have none: "filter_mset (due now) (mset (th_heap h)) = {#}" using not_root_due less.prems(1) by blast
    then have "filter_mset (\<lambda>e. \<not> due now e) (mset (th_heap h)) = mset (th_heap h)"
      "filter_mset (\<lambda>e. due now e \<and> e_period e > 0) (mset (th_heap h)) = {#}"
      by (auto simp: filter_mset_eq_conv multiset_eq_iff split: if_splits)
    then have "fired now h h []" using none by (simp add: fired_def)
    then show ?thesis using False less.prems
      by (intro exI [of _ h] exI [of _ "[]"]) (simp add: collect_due.simps)
  next
    case True
    let ?h1 = "fire_root now h"
    have ne: "th_heap h \<noteq> []" and de: "due now (hd (th_heap h))" using True by (auto simp: root_due_def)
    have inv1: "th_inv ?h1" using fire_root_ok(1) less.prems(1) ne by blast
    have "filter_mset (due now) (mset (th_heap ?h1)) =
        filter_mset (due now) (mset (th_heap h)) - {# hd (th_heap h) #}"
      using fire_root_ok(2) [OF less.prems(1) ne, of now] rearm_later [of "hd (th_heap h)" now] less.prems(2) de
      by (simp add: not_le)
    moreover have "hd (th_heap h) \<in># filter_mset (due now) (mset (th_heap h))" using ne de by simp
    ultimately have "size (filter_mset (due now) (mset (th_heap ?h1))) <
        size (filter_mset (due now) (mset (th_heap h)))" by (metis size_Diff1_less)
    then obtain h' es where IH: "collect_due now ?h1 (out @ [e_payload (hd (th_heap h))]) =
        Some (h', (out @ [e_payload (hd (th_heap h))]) @ map e_payload es)"
      "th_inv h'" "fired now ?h1 h' es" "\<not> root_due now h'"
      using less.hyps inv1 less.prems(2) by blast
    then show ?thesis using fired_step [OF less.prems True IH(3)] True
      by (intro exI [of _ h'] exI [of _ "hd (th_heap h) # es"]) (simp add: collect_due.simps [of now h])
  qed
qed

section \<open>Clearing\<close>

lemma clear_ok:
  assumes inv: "th_inv h"
  shows "th_inv (clear h)" "live (clear h) i = None"
proof -
  note ok = th_invD(1) [OF inv]
  let ?us = "filter (\<lambda>i. s_pos (th_slots h ! i) \<noteq> kFreePos) [0..<length (th_slots h)]"
  have len: "length (th_slots h) < 2 ^ 32" using th_invD(2) [OF inv] by (simp add: th_ids_def)
  have small: "unat (of_nat k :: u32) = k" if "k < length (th_slots h)" for k
    using that len by (simp add: unat_of_nat_u32)
  have free: "s_pos (th_slots h ! unat f) = kFreePos" "unat f < length (th_slots h)" if "f \<in> set (th_free h)" for f
    using that th_invD(2) [OF inv] by (auto simp: th_ids_def)
  have "inj_on (of_nat :: nat \<Rightarrow> u32) (set ?us)" by (rule inj_onI) (use small in \<open>fastforce dest: arg_cong [of _ _ unat]\<close>)
  then have "distinct (map (of_nat :: nat \<Rightarrow> u32) ?us)" by (simp add: distinct_map)
  moreover have "of_nat k \<notin> set (th_free h)" if "k \<in> set ?us" for k
    using that free [of "of_nat k"] small [of k] by auto
  moreover have "distinct (th_free h)" using th_invD(2) [OF inv] by (simp add: th_ids_def)
  ultimately have "distinct (th_free (clear h))" by (auto simp: clear_def)
  moreover have "unat f < length (th_slots h) \<and> s_pos (th_slots (clear h) ! unat f) = kFreePos"
    if "f \<in> set (th_free (clear h))" for f
    using that free small by (auto simp: clear_def)
  moreover have "ix \<in> unat ` set (th_free (clear h))" if ix: "ix < length (th_slots h)" for ix
  proof (cases "s_pos (th_slots h ! ix) = kFreePos")
    case True
    have "ix \<notin> used h"
    proof
      assume "ix \<in> used h"
      then obtain k where k: "k < length (th_heap h)" "ix = ix_of (th_heap h ! k)" by (auto simp: used_def in_set_conv_nth)
      then show False using True pos_not_free [OF ok k(1)] ok by (simp add: th_ok_def th_pos_def)
    qed
    then have "ix \<in> unat ` set (th_free h)" using th_invD(2) [OF inv] ix by (auto simp: th_ids_def)
    then show ?thesis by (auto simp: clear_def)
  next
    case False
    then have "of_nat ix \<in> set (th_free (clear h))" using ix by (simp add: clear_def)
    then show ?thesis using small [OF ix] by (metis imageI)
  qed
  ultimately show "th_inv (clear h)" using len
    by (simp add: th_inv_def th_ok_def th_ids_def th_pos_def used_def is_heap_def) (simp add: clear_def)
  show "live (clear h) i = None" by (simp add: live_none clear_def)
qed

section \<open>The contract of a timer store\<close>

text \<open>
  What the kernel relies on: a store holds a finite view from ids to entries; arming adds a fresh id
  and touches no other; cancelling removes exactly the id it names and says whether it was there.
\<close>

locale timer_store =
  fixes inv :: "'s \<Rightarrow> bool" and view :: "'s \<Rightarrow> 'i \<Rightarrow> 'e option" and room :: "'s \<Rightarrow> bool"
    and arm :: "'a \<Rightarrow> 's \<Rightarrow> 'i \<times> 's" and mk :: "'i \<Rightarrow> 'a \<Rightarrow> 'e"
    and drop_id :: "'i \<Rightarrow> 's \<Rightarrow> bool \<times> 's"
  assumes arm_law: "inv s \<Longrightarrow> room s \<Longrightarrow> arm a s = (i, s') \<Longrightarrow>
      inv s' \<and> view s i = None \<and> view s' = (view s)(i \<mapsto> mk i a)"
    and drop_law: "inv s \<Longrightarrow> drop_id i s = (b, s') \<Longrightarrow>
      inv s' \<and> view s' = (view s)(i := None) \<and> (b \<longleftrightarrow> view s i \<noteq> None)"
begin

lemma arm_then_drop:
  assumes "inv s" "room s" "arm a s = (i, s1)" "drop_id i s1 = (b, s2)"
  shows "b \<and> inv s2 \<and> view s2 = view s"
  using arm_law [OF assms(1-3)] drop_law [OF _ assms(4)] by (auto simp: fun_eq_iff)

lemma drop_twice:
  assumes "inv s" "drop_id i s = (b, s1)" "drop_id i s1 = (b', s2)"
  shows "\<not> b' \<and> view s2 = view s1"
  using drop_law [OF assms(1,2)] drop_law [OF _ assms(3)] by (auto simp: fun_eq_iff)

lemma arm_keeps:
  assumes "inv s" "room s" "arm a s = (i, s')" "view s j = Some e"
  shows "view s' j = Some e \<and> i \<noteq> j"
  using arm_law [OF assms(1-3)] assms(4) by auto

end

interpretation after_store: timer_store th_inv live has_room "\<lambda>(num, now, d, p). after num now d p"
  "\<lambda>i (num, now, d, p). \<lparr>e_when = saturate_add num now d, e_period = 0, e_payload = p, e_id = i\<rparr>" cancel
proof (unfold_locales, goal_cases)
  case (1 s a i s')
  then show ?case using after_ok [of s] by (cases a) simp
next
  case (2 s i b s')
  then show ?case using cancel_ok by blast
qed

interpretation every_store: timer_store th_inv live has_room "\<lambda>(num, now, d, p). every num now d p"
  "\<lambda>i (num, now, d, p). \<lparr>e_when = saturate_add 1 now (every_period num d),
     e_period = every_period num d, e_payload = p, e_id = i\<rparr>" cancel
proof (unfold_locales, goal_cases)
  case (1 s a i s')
  then show ?case using every_ok [of s] by (cases a) simp
next
  case (2 s i b s')
  then show ?case using cancel_ok by blast
qed

end
