(* ===== verification/Timer_Props.thy ===== *)
theory Timer_Props
  imports Timer_Heap
begin

text \<open>
  The properties of the timer heap: the states its operations can reach, what one call of
  \<^verbatim>\<open>collect_due\<close> fires, the fate of an id after it is cancelled, and the bounds of the clock
  arithmetic.
\<close>

section \<open>Reachable heaps\<close>

inductive th_reach :: "'p timer_heap \<Rightarrow> bool" where
  r_init: "th_reach empty_heap"
| r_after: "th_reach h \<Longrightarrow> has_room h \<Longrightarrow> th_reach (snd (after num now d p h))"
| r_every: "th_reach h \<Longrightarrow> has_room h \<Longrightarrow> th_reach (snd (every num now d p h))"
| r_cancel: "th_reach h \<Longrightarrow> th_reach (snd (cancel i h))"
| r_replace: "th_reach h \<Longrightarrow> th_reach (snd (replace_payload i p h))"
| r_collect: "th_reach h \<Longrightarrow> now < rep_max \<Longrightarrow> collect_due now h [] = Some (h', out) \<Longrightarrow> th_reach h'"
| r_clear: "th_reach h \<Longrightarrow> th_reach (clear h)"

lemma empty_heap_inv [simp]: "th_inv empty_heap"
  by (simp add: th_inv_def th_ok_def th_ids_def th_pos_def used_def is_heap_def empty_heap_def)

lemma th_reach_inv: "th_reach h \<Longrightarrow> th_inv h"
proof (induction rule: th_reach.induct)
  case (r_after h num now d p)
  then show ?case using after_ok(1) by (metis prod.collapse)
next
  case (r_every h num now d p)
  then show ?case using every_ok(1) by (metis prod.collapse)
next
  case (r_cancel h i)
  then show ?case using cancel_ok(1) by (metis prod.collapse)
next
  case (r_replace h i p)
  then show ?case using replace_payload_ok(1) by (metis prod.collapse)
next
  case (r_collect h now h' out)
  then show ?case using collect_due_terminates [of h now "[]"] by fastforce
qed (simp_all add: clear_ok)

lemma ran_live: "th_inv h \<Longrightarrow> ran (live h) = set (th_heap h)"
  using live_iff [OF th_invD(2)] by (auto simp: ran_def)

lemma next_deadline_min:
  assumes "th_inv h"
  shows "next_deadline h = (if ran (live h) = {} then None else Some (Min (e_when ` ran (live h))))"
proof (cases "th_heap h")
  case Nil
  then show ?thesis using ran_live [OF assms] by (simp add: next_deadline_def)
next
  case (Cons e es)
  have "e_when e \<le> e_when x" if "x \<in> set (th_heap h)" for x
    using heap_root_min [OF th_invD(3) [OF assms]] that Cons by (metis in_set_conv_nth nth_Cons_0)
  then have "Min (e_when ` set (th_heap h)) = e_when e" using Cons by (intro Min_eqI) auto
  then show ?thesis using Cons ran_live [OF assms] by (simp add: next_deadline_def)
qed

section \<open>What fires\<close>

lemma fired_live:
  assumes inv: "th_inv h" "th_inv h'" and f: "fired now h h' es"
  shows "live h' i = (case live h i of None \<Rightarrow> None
     | Some e \<Rightarrow> if now < e_when e then Some e else if 0 < e_period e then Some (rearm now e) else None)"
proof -
  have set': "x \<in> set (th_heap h') \<longleftrightarrow> x \<in> set (th_heap h) \<and> now < e_when x \<or>
      (\<exists>e \<in> set (th_heap h). e_when e \<le> now \<and> 0 < e_period e \<and> x = rearm now e)" for x
  proof -
    have "set_mset (mset (th_heap h')) = {x \<in> set (th_heap h). now < e_when x} \<union>
        rearm now ` {e \<in> set (th_heap h). e_when e \<le> now \<and> 0 < e_period e}"
      using f by (auto simp: fired_def not_le)
    then show ?thesis by auto
  qed
  note L = live_iff [OF th_invD(2) [OF inv(1)]] and L' = live_iff [OF th_invD(2) [OF inv(2)]]
  show ?thesis
  proof (cases "live h i")
    case None
    then have "i \<notin> e_id ` set (th_heap h)" by (simp add: live_none)
    then have "i \<notin> e_id ` set (th_heap h')" using set' by auto
    then show ?thesis using None live_none [of h' i] by simp
  next
    case (Some e)
    then have e: "e \<in> set (th_heap h)" "e_id e = i" using L by auto
    have only: "x = e" if "x \<in> set (th_heap h)" "e_id x = i" for x
      using that L [of i x] Some by simp
    show ?thesis
    proof (cases "now < e_when e \<or> 0 < e_period e")
      case True
      let ?x = "if now < e_when e then e else rearm now e"
      have "?x \<in> set (th_heap h')" unfolding set' using True e(1) by (cases "now < e_when e") (auto simp: not_less)
      then have "live h' i = Some ?x" using L' e by simp
      then show ?thesis using Some True by auto
    next
      case False
      then have "i \<notin> e_id ` set (th_heap h')" using set' only by auto
      then show ?thesis using Some False live_none [of h' i] by simp
    qed
  qed
qed

section \<open>A freed id\<close>

definition same_gens :: "'p timer_heap \<Rightarrow> 'p timer_heap \<Rightarrow> bool" where
  "same_gens h h' \<longleftrightarrow> map s_gen (th_slots h') = map s_gen (th_slots h) \<and> th_free h' = th_free h"

lemma swap_note_gens: "same_gens h (swap_note i j a b h)"
  by (simp add: same_gens_def swap_note_def)

lemma sift_down_gens: "same_gens h (sift_down i h)"
proof (induction i h rule: sift_down.induct)
  case (1 i h)
  then show ?case
    using swap_note_gens [of h i "best_child i h" i "best_child i h"]
    by (auto simp: sift_down.simps [of i h] Let_def same_gens_def)
qed

lemma sift_gens: "same_gens h (sift i h)"
proof (induction i h rule: sift.induct)
  case (1 i h)
  then show ?case
    using swap_note_gens [of h "(i - 1) div 2" i i "(i - 1) div 2"] sift_down_gens [of h i]
    by (auto simp: sift.simps [of i h] same_gens_def)
qed

lemma free_id_tables:
  "map s_gen (th_slots (free_id i h)) = (map s_gen (th_slots h))[unat (index_of i) := s_gen (th_slots h ! unat (index_of i)) + 1]"
  "th_free (free_id i h) = th_free h @ [index_of i]"
  by (simp_all add: free_id_def Let_def map_update)

lemma cancel_tables:
  assumes "cancel i h = (True, h')"
  shows "map s_gen (th_slots h') = (map s_gen (th_slots h))[unat (index_of i) := gen_of i + 1]"
    "th_free h' = th_free h @ [index_of i]" "unat (index_of i) < length (th_slots h)"
proof -
  obtain s where s: "slot_of i h = Some s" using assms by (auto simp: cancel_def split: option.splits)
  then have g: "s_gen (th_slots h ! unat (index_of i)) = gen_of i" and r: "unat (index_of i) < length (th_slots h)"
    by (auto simp: slot_of_def Let_def split: if_splits)
  have "same_gens (free_id i h) h'"
    using assms s sift_gens [of "note_pos s ((free_id i h)\<lparr>th_heap := xs\<rparr>)" s for xs]
    by (auto simp: cancel_def Let_def same_gens_def split: if_splits)
  then show "map s_gen (th_slots h') = (map s_gen (th_slots h))[unat (index_of i) := gen_of i + 1]"
    "th_free h' = th_free h @ [index_of i]"
    using free_id_tables [of i h] g by (simp_all add: same_gens_def)
  show "unat (index_of i) < length (th_slots h)" by (rule r)
qed

lemma fst_after: "fst (after num now d p h) = fst (new_id h)"
  by (simp add: after_def push_def Let_def split: prod.splits)

lemma new_id_after_cancel:
  assumes "cancel i h = (True, h')"
  shows "fst (new_id h') = mk_id (gen_of i + 1) (index_of i)"
proof -
  note t = cancel_tables [OF assms]
  have len: "length (th_slots h') = length (th_slots h)" using t(1) by (metis length_list_update length_map)
  have "s_gen (th_slots h' ! unat (index_of i)) = map s_gen (th_slots h') ! unat (index_of i)" using t(3) len by simp
  also have "\<dots> = gen_of i + 1" unfolding t(1) using t(3) by simp
  finally show ?thesis using t(2) by (simp add: new_id_def Let_def)
qed

section \<open>A clock at its last instant\<close>

lemma fire_root_periodic:
  assumes "th_inv h" "\<forall>e \<in> set (th_heap h). e_when e \<le> rep_max" "e \<in> set (th_heap h)" "0 < e_period e" "th_heap h \<noteq> []"
  shows "\<exists>x \<in> set (th_heap (fire_root rep_max h)). 0 < e_period x"
    "\<forall>x \<in> set (th_heap (fire_root rep_max h)). e_when x \<le> rep_max"
proof -
  have rearm: "e_when (rearm rep_max x) \<le> rep_max" if "0 < e_period x" "e_when x \<le> rep_max" for x :: "'a entry"
    using that by (auto simp: rearm_def saturate_add_def saturate_cast_def Let_def)
  have m: "set_mset (mset (th_heap (fire_root rep_max h))) = set_mset (mset (th_heap h) - {# hd (th_heap h) #}) \<union>
       (if e_period (hd (th_heap h)) > 0 then {rearm rep_max (hd (th_heap h))} else {})"
    by (simp only: fire_root_ok(2) [OF assms(1,5)]) simp
  show "\<exists>x \<in> set (th_heap (fire_root rep_max h)). 0 < e_period x"
  proof (cases "0 < e_period (hd (th_heap h))")
    case False
    then have "e \<noteq> hd (th_heap h)" using assms(4) by auto
    then have "e \<in># mset (th_heap h) - {# hd (th_heap h) #}" using assms(3) by (simp add: in_diff_count)
    then show ?thesis using m assms(4) by auto
  qed (use m in auto)
  show "\<forall>x \<in> set (th_heap (fire_root rep_max h)). e_when x \<le> rep_max"
  proof
    fix x assume "x \<in> set (th_heap (fire_root rep_max h))"
    then consider "x \<in> set (th_heap h)" | "0 < e_period (hd (th_heap h))" "x = rearm rep_max (hd (th_heap h))"
      using m by (auto dest: in_diffD split: if_splits)
    then show "e_when x \<le> rep_max" using assms(2,5) rearm by cases auto
  qed
qed

definition stuck :: "time_point \<Rightarrow> 'p timer_heap \<Rightarrow> bool" where
  "stuck now h \<longleftrightarrow> now = rep_max \<and> th_inv h \<and> (\<forall>e \<in> set (th_heap h). e_when e \<le> rep_max) \<and>
     (\<exists>e \<in> set (th_heap h). 0 < e_period e)"

lemma stuck_step:
  assumes "stuck now h"
  shows "root_due now h \<and> stuck now (fire_root now h)"
proof -
  obtain e where e: "e \<in> set (th_heap h)" "0 < e_period e" using assms by (auto simp: stuck_def)
  then have ne: "th_heap h \<noteq> []" by auto
  then show ?thesis
    using assms fire_root_periodic [OF _ _ e ne] fire_root_ok(1) [OF _ ne] unfolding stuck_def root_due_def
    by (metis hd_in_set)
qed

lemma collect_due_stuck:
  assumes "collect_due now h out = Some r"
  shows "\<not> stuck now h"
proof (rule collect_due.raw_induct [where P = "\<lambda>now h out r. \<not> stuck now h", OF _ assms])
  fix f now h out and r :: "'a timer_heap \<times> 'a list"
  assume IH: "\<And>now h out r. f now h out = Some r \<Longrightarrow> \<not> stuck now h"
    and body: "(if root_due now h then f now (fire_root now h) (out @ [e_payload (hd (th_heap h))]) else Some (h, out)) = Some r"
  show "\<not> stuck now h"
  proof
    assume "stuck now h"
    then have "root_due now h \<and> stuck now (fire_root now h)" by (rule stuck_step)
    then show False using body IH by (metis (full_types))
  qed
qed

section \<open>A concrete heap\<close>

definition sample_heap :: "char timer_heap" where
  "sample_heap = snd (after 1 0 5 CHR ''a'' (snd (every 1 0 3 CHR ''b'' empty_heap)))"

lemma sample_heap_reach: "th_reach sample_heap"
  unfolding sample_heap_def
  by (intro r_after r_every r_init)
    (simp_all add: has_room_def empty_heap_def every_def new_id_def push_def note_pos_def sift_up.simps Let_def)

lemma sample_heap_val:
  "sample_heap = \<lparr>th_heap = [\<lparr>e_when = 3, e_period = 3, e_payload = CHR ''b'', e_id = 0\<rparr>,
       \<lparr>e_when = 5, e_period = 0, e_payload = CHR ''a'', e_id = 1\<rparr>],
     th_slots = [\<lparr>s_pos = 0, s_gen = 0\<rparr>, \<lparr>s_pos = 1, s_gen = 0\<rparr>], th_free = []\<rparr>"
  by code_simp

section \<open>Properties\<close>

lemma collect_due_live:
  assumes "th_inv h" "now < rep_max"
  shows "\<exists>h' es. collect_due now h [] = Some (h', map e_payload es) \<and> th_inv h' \<and>
     mset es = filter_mset (due now) (mset (th_heap h)) \<and> sorted (map e_when es) \<and>
     (\<forall>i. live h' i = (case live h i of None \<Rightarrow> None
        | Some e \<Rightarrow> if now < e_when e then Some e else if 0 < e_period e then Some (rearm now e) else None))"
proof -
  obtain h' es where c: "collect_due now h [] = Some (h', [] @ map e_payload es)"
    and i: "th_inv h'" and f: "fired now h h' es"
    using collect_due_terminates [OF assms] by blast
  show ?thesis
    using c i f fired_live [OF assms(1) i f]
    by (intro exI [of _ h'] exI [of _ es]) (simp add: fired_def)
qed

lemma saturate_cast_spec:
  assumes "0 < num" "in_rep d"
  shows "in_rep (saturate_cast num d)" "0 \<le> d \<Longrightarrow> saturate_cast num d = min rep_max (d * num)"
proof -
  have pos: "d * num \<le> rep_max \<longleftrightarrow> d \<le> rep_max div num"
    using assms(1) by (simp only: int_le_div_iff)
  have neg: "rep_min \<le> d * num \<longleftrightarrow> - ((- rep_min) div num) \<le> d"
  proof -
    have "rep_min \<le> d * num \<longleftrightarrow> (- d) * num \<le> - rep_min" by auto
    also have "\<dots> \<longleftrightarrow> - d \<le> (- rep_min) div num" using assms(1) by (simp only: int_le_div_iff)
    finally show ?thesis by linarith
  qed
  show "in_rep (saturate_cast num d)"
  proof -
    have "d * num \<le> 0" if "d \<le> 0" using that assms(1) by (simp add: mult_nonpos_nonneg)
    moreover have "0 \<le> d * num" if "0 \<le> d" using that assms(1) by simp
    ultimately show ?thesis using pos neg unfolding in_rep_def saturate_cast_def by auto
  qed
  show "0 \<le> d \<Longrightarrow> saturate_cast num d = min rep_max (d * num)"
    using pos unfolding saturate_cast_def by auto
qed

text \<open>C38: every heap that the public operations can build keeps the heap order and a consistent slot
  table, and \<^verbatim>\<open>next_deadline\<close> is the least deadline among the live timers (none when there is none).\<close>

theorem timer_reach_ok:
  "th_reach h \<Longrightarrow> th_inv h \<and>
     next_deadline h = (if ran (live h) = {} then None else Some (Min (e_when ` ran (live h))))"
  using th_reach_inv next_deadline_min by blast

theorem timer_reach_ok_witness: "th_inv sample_heap \<and> ran (live sample_heap) \<noteq> {} \<and> next_deadline sample_heap = Some 3"
proof -
  have n: "next_deadline sample_heap = Some 3" unfolding sample_heap_val by (simp add: next_deadline_def)
  then show ?thesis using timer_reach_ok [OF sample_heap_reach] by auto
qed

text \<open>\<^verbatim>\<open>after\<close> hands out an id no live timer has and adds exactly one timer under it, at the
  saturated deadline and without a period; cancelling that id succeeds and restores the map of live
  timers to what it was before.\<close>

theorem after_cancel_roundtrip:
  assumes "th_inv h" "has_room h" "after num now d p h = (i, h1)" "cancel i h1 = (b, h2)"
  shows "live h i = None \<and>
     live h1 = (live h)(i \<mapsto> \<lparr>e_when = saturate_add num now d, e_period = 0, e_payload = p, e_id = i\<rparr>) \<and>
     b \<and> th_inv h2 \<and> live h2 = live h"
  using after_ok [OF assms(1-3)] after_store.arm_then_drop [OF assms(1,2) _ assms(4), of "(num, now, d, p)"] assms(3) by simp

theorem after_cancel_roundtrip_witness:
  "fst (after 1 9 2 CHR ''c'' sample_heap) = 2 \<and>
   live (snd (cancel 2 (snd (after 1 9 2 CHR ''c'' sample_heap)))) = live sample_heap"
proof -
  have i: "fst (after 1 9 2 CHR ''c'' sample_heap) = 2" unfolding sample_heap_val by code_simp
  have "has_room sample_heap" by (simp add: sample_heap_val has_room_def)
  then show ?thesis
    using after_cancel_roundtrip [OF th_reach_inv [OF sample_heap_reach], of 1 9 2 "CHR ''c''"] i
    by (metis prod.collapse)
qed

text \<open>\<^verbatim>\<open>cancel\<close> answers whether the id was live, removes that timer and no other, and keeps the
  heap well formed, wherever in the heap the timer stands; a second cancel of the same id is refused
  and changes nothing.\<close>

theorem cancel_refines:
  assumes "th_inv h" "cancel i h = (b, h1)" "cancel i h1 = (b', h2)"
  shows "th_inv h1 \<and> live h1 = (live h)(i := None) \<and> (b \<longleftrightarrow> live h i \<noteq> None) \<and> \<not> b' \<and> live h2 = live h1"
  using cancel_ok [OF assms(1,2)] after_store.drop_twice [OF assms] by simp

theorem cancel_refines_witness:
  "fst (cancel 0 sample_heap) \<and> live (snd (cancel 0 sample_heap)) 0 = None"
proof -
  have "fst (cancel 0 sample_heap)" unfolding sample_heap_val by code_simp
  then show ?thesis
    using cancel_refines [OF th_reach_inv [OF sample_heap_reach], of 0 "fst (cancel 0 sample_heap)"
        "snd (cancel 0 sample_heap)"]
    by (metis fun_upd_same prod.collapse)
qed

text \<open>After a successful cancel the next timer takes over the slot under the next generation, so
  its id differs from the cancelled one: an id held past its timer's life never names another timer
  until the 32-bit generation has gone all the way round.\<close>

theorem cancelled_id_not_reused:
  assumes "cancel i h = (True, h1)" "after num now d p h1 = (j, h2)"
  shows "index_of j = index_of i \<and> gen_of j = gen_of i + 1 \<and> j \<noteq> i"
proof -
  have j: "j = mk_id (gen_of i + 1) (index_of i)"
    using new_id_after_cancel [OF assms(1)] fst_after [of num now d p h1] assms(2) by simp
  then have "gen_of j \<noteq> gen_of i" by simp
  then have "j \<noteq> i" by blast
  then show ?thesis using j by simp
qed

theorem cancelled_id_not_reused_witness:
  "fst (cancel 0 sample_heap) \<and> fst (after 1 9 2 CHR ''c'' (snd (cancel 0 sample_heap))) \<noteq> 0"
proof -
  have c: "fst (cancel 0 sample_heap)" unfolding sample_heap_val by code_simp
  then show ?thesis
    using cancelled_id_not_reused [of 0 sample_heap "snd (cancel 0 sample_heap)" 1 9 2 "CHR ''c''"]
    by (metis (full_types) prod.collapse)
qed

text \<open>C37: one call of \<^verbatim>\<open>collect_due\<close> returns (the clock being below its last instant), fires exactly
  the timers that are due, each once, in the order of their deadlines, and leaves behind every
  other timer untouched and every repeating one re-armed; a one-shot timer that fired is gone.\<close>

theorem collect_due_ok:
  "th_inv h \<Longrightarrow> now < rep_max \<Longrightarrow>
   \<exists>h' es. collect_due now h [] = Some (h', map e_payload es) \<and> th_inv h' \<and>
     mset es = filter_mset (due now) (mset (th_heap h)) \<and> sorted (map e_when es) \<and>
     (\<forall>i. live h' i = (case live h i of None \<Rightarrow> None
        | Some e \<Rightarrow> if now < e_when e then Some e else if 0 < e_period e then Some (rearm now e) else None))"
  by (rule collect_due_live)

theorem collect_due_ok_witness:
  "\<exists>h'. collect_due 4 sample_heap [] = Some (h', ''b'') \<and> th_inv h'"
proof -
  have "filter_mset (due 4) (mset (th_heap sample_heap)) =
      {# \<lparr>e_when = 3, e_period = 3, e_payload = CHR ''b'', e_id = 0\<rparr> #}"
    by (simp add: sample_heap_val)
  then obtain h' es where "collect_due 4 sample_heap [] = Some (h', map e_payload es)" "th_inv h'"
    "mset es = {# \<lparr>e_when = 3, e_period = 3, e_payload = CHR ''b'', e_id = 0\<rparr> #}"
    using collect_due_ok [OF th_reach_inv [OF sample_heap_reach], of 4] by auto
  then show ?thesis by (intro exI [of _ h']) simp
qed

text \<open>A repeating timer and a clock that stands at its last representable instant: the re-armed
  deadline saturates at that same instant, so the loop of \<^verbatim>\<open>collect_due\<close> never ends.\<close>

theorem collect_due_diverges_at_max:
  assumes "th_inv h" "\<forall>e \<in> set (th_heap h). e_when e \<le> rep_max" "\<exists>e \<in> set (th_heap h). 0 < e_period e"
  shows "collect_due rep_max h out = None"
  using collect_due_stuck [of rep_max h out] assms by (cases "collect_due rep_max h out") (simp_all add: stuck_def)

theorem collect_due_diverges_at_max_witness: "collect_due rep_max sample_heap [] = None"
  by (rule collect_due_diverges_at_max [OF th_reach_inv [OF sample_heap_reach]]) (simp_all add: sample_heap_val)

text \<open>the clock arithmetic never leaves the representation, and up to the limit it is exact: a
  deadline is \<open>now + d\<close> units away or the clock's last instant, whatever the unit.\<close>

theorem saturate_add_bounds:
  assumes "0 < num" "0 \<le> now" "in_rep now" "in_rep d"
  shows "in_rep (saturate_add num now d) \<and> (0 \<le> d \<longrightarrow> saturate_add num now d = min rep_max (now + d * num))"
proof -
  note c = saturate_cast_spec [OF assms(1,4)]
  have "in_rep (saturate_add num now d)" using c(1) assms(2,3)
    by (auto simp: saturate_add_def Let_def in_rep_def)
  moreover have "saturate_add num now d = min rep_max (now + d * num)" if "0 \<le> d"
    using c(2) [OF that] assms that by (auto simp: saturate_add_def Let_def in_rep_def min_def)
  ultimately show ?thesis by blast
qed

theorem saturate_add_bounds_witness:
  "in_rep (saturate_add 1000000 5 9223372036854775000) \<and> saturate_add 1000000 5 9223372036854775000 = rep_max"
  using saturate_add_bounds [of 1000000 5 9223372036854775000] by (simp add: in_rep_def)

text \<open>the wait computed for a deadline reaches it, exceeds it by less than a millisecond, and is
  zero only for a deadline that has passed: the loop never wakes early, so it never spins.\<close>

theorem timeout_from_rounds_up:
  assumes "0 < num" "timeout_from num now (Some d) = Some w"
  shows "0 \<le> w \<and> (w = 0 \<longleftrightarrow> d \<le> now) \<and> d \<le> now + w * num \<and> (now < d \<longrightarrow> now + (w - 1) * num < d)"
proof (cases "d \<le> now")
  case False
  let ?q = "(now - d) div num"
  have w: "w = - ?q" using assms(2) False by (simp add: timeout_from_def ceil_div_def)
  have q: "?q * num \<le> now - d" "now - d < (?q + 1) * num"
    using int_le_div_iff [OF assms(1), of ?q "now - d"] int_le_div_iff [OF assms(1), of "?q + 1" "now - d"] by auto
  have "?q < 0" using int_le_div_iff [OF assms(1), of 0 "now - d"] False by simp
  then show ?thesis using q False by (auto simp: w algebra_simps)
qed (use assms in \<open>auto simp: timeout_from_def\<close>)

theorem timeout_from_rounds_up_witness: "timeout_from 1000000 7 (Some 300007) = Some 1"
proof -
  have "timeout_from 1000000 7 (Some 300007) = Some 1" by (simp add: timeout_from_def ceil_div_def)
  then show ?thesis using timeout_from_rounds_up [of 1000000 7 300007 1] by simp
qed

end
