(* ===== verification/Rng.thy ===== *)
theory Rng
  imports Complex_Main Jaal_Prelude
begin

text \<open>
  \<^verbatim>\<open>include/jaal/core/rng.hpp\<close>: the splitmix64 generator, whose only state is one 64-bit word. The
  draws are functions from the state to the value and the next state. The rejection loop of
  \<^verbatim>\<open>below\<close> is a partial function, proved to return for every seed. \<^verbatim>\<open>uniform\<close> and \<^verbatim>\<open>chance\<close> are exact
  in binary floating point (53 bits times a power of two), so they are over the reals here;
  \<^verbatim>\<open>between\<close> rounds and is not modelled.
\<close>

section \<open>The generator\<close>

definition golden :: u64 where
  "golden = 0x9E3779B97F4A7C15"

definition xorshift :: "nat \<Rightarrow> u64 \<Rightarrow> u64" where
  "xorshift k z = z XOR drop_bit k z"

definition mix :: "u64 \<Rightarrow> u64" where
  "mix z =
     (let z1 = xorshift 30 z * 0xBF58476D1CE4E5B9;
          z2 = xorshift 27 z1 * 0x94D049BB133111EB
      in xorshift 31 z2)"

definition rng_next :: "u64 \<Rightarrow> u64 \<times> u64" where
  "rng_next s = (let s' = s + golden in (mix s', s'))"

definition limit :: "u64 \<Rightarrow> u64" where
  "limit n = - 1 - ((- 1) mod n) - 1"

partial_function (option) draw :: "u64 \<Rightarrow> u64 \<Rightarrow> (u64 \<times> u64) option" where
  "draw cap s = (let (x, s') = rng_next s in if x > cap then draw cap s' else Some (x, s'))"

declare draw.simps [code]

definition below :: "u64 \<Rightarrow> u64 \<Rightarrow> (u64 \<times> u64) option" where
  "below n s =
     (if n = 0 then Some (0, s)
      else case draw (limit n) s of None \<Rightarrow> None | Some (x, s') \<Rightarrow> Some (x mod n, s'))"

definition pick :: "u64 \<Rightarrow> u64 \<Rightarrow> (int \<times> u64) option" where
  "pick n s =
     (if n = 0 then Some (-1, s)
      else case below n s of None \<Rightarrow> None | Some (x, s') \<Rightarrow> Some (sint x, s'))"

definition split_rng :: "u64 \<Rightarrow> u64 \<times> u64" where
  "split_rng s = rng_next s"

definition uniform :: "u64 \<Rightarrow> real \<times> u64" where
  "uniform s = (let (x, s') = rng_next s in (real (unat (drop_bit 11 x)) / 2 ^ 53, s'))"

definition chance :: "real \<Rightarrow> u64 \<Rightarrow> bool \<times> u64" where
  "chance p s =
     (if p \<le> 0 then (False, s)
      else if p \<ge> 1 then (True, s)
      else let (u, s') = uniform s in (u < p, s'))"

text \<open>
  \<^verbatim>\<open>in<I>(lo, hi)\<close> for an integer type of width \<open>w\<close>, signed or not. A type narrower than \<^verbatim>\<open>int\<close> is
  promoted to \<^verbatim>\<open>int\<close> before the subtraction, so there the difference keeps its sign until the cast to
  64 bits.
\<close>

definition to_unsigned :: "nat \<Rightarrow> int \<Rightarrow> int" where
  "to_unsigned w x = x mod 2 ^ w"

definition to_int_type :: "bool \<Rightarrow> nat \<Rightarrow> int \<Rightarrow> int" where
  "to_int_type signed_ty w x =
     (if signed_ty then (x + 2 ^ (w - 1)) mod 2 ^ w - 2 ^ (w - 1) else x mod 2 ^ w)"

definition in_span :: "nat \<Rightarrow> int \<Rightarrow> int \<Rightarrow> u64" where
  "in_span w lo hi =
     (let diff = to_unsigned w hi - to_unsigned w lo
      in word_of_int (if w < 32 then diff else diff mod 2 ^ w))"

definition rng_in :: "bool \<Rightarrow> nat \<Rightarrow> int \<Rightarrow> int \<Rightarrow> u64 \<Rightarrow> (int \<times> u64) option" where
  "rng_in signed_ty w a b s =
     (let lo = (if b < a then b else a); hi = (if b < a then a else b)
      in case below (in_span w lo hi + 1) s of
           None \<Rightarrow> None
         | Some (x, s') \<Rightarrow> Some (to_int_type signed_ty w (to_unsigned w lo + to_unsigned w (uint x)), s'))"

section \<open>The output function is a bijection\<close>

lemma xorshift_inj:
  assumes "0 < k" "xorshift k x = xorshift k y"
  shows "x = y"
proof (rule bit_word_eqI)
  have eq: "(bit x n \<noteq> bit x (k + n)) = (bit y n \<noteq> bit y (k + n))" if "n < 64" for n
    using arg_cong [OF assms(2), of "\<lambda>z. bit z n"] that
    by (simp add: xorshift_def bit_xor_iff bit_drop_bit_eq)
  have "bit x n = bit y n" for n
  proof (induction "64 - n" arbitrary: n rule: less_induct)
    case less
    show ?case
    proof (cases "n < 64")
      case True
      then have "bit x (k + n) = bit y (k + n)" using less assms(1) by (metis diff_less_mono2 less_add_same_cancel2)
      then show ?thesis using eq [OF True] by blast
    next
      case False
      then show ?thesis by (auto dest: bit_imp_le_length)
    qed
  qed
  then show "bit x n = bit y n" for n .
qed

lemma mult_unit_inj:
  fixes a b x y :: u64
  assumes "b * a = 1" "x * a = y * a"
  shows "x = y"
proof -
  have "x * a * b = y * a * b" using assms(2) by simp
  then have "x * (b * a) = y * (b * a)" by (simp only: mult.assoc mult.commute [of b a])
  then show ?thesis using assms(1) by simp
qed

lemma mult_unit_1: "(0x96de1b173f119089 :: u64) * 0xBF58476D1CE4E5B9 = 1"
  by simp

lemma mult_unit_2: "(0x319642b2d24d8ec3 :: u64) * 0x94D049BB133111EB = 1"
  by simp

lemma mix_inj: "mix x = mix y \<Longrightarrow> x = y"
proof -
  assume "mix x = mix y"
  then have "xorshift 27 (xorshift 30 x * 0xBF58476D1CE4E5B9) * 0x94D049BB133111EB =
      xorshift 27 (xorshift 30 y * 0xBF58476D1CE4E5B9) * 0x94D049BB133111EB"
    unfolding mix_def Let_def by (rule xorshift_inj [rotated]) simp
  then have "xorshift 27 (xorshift 30 x * 0xBF58476D1CE4E5B9) = xorshift 27 (xorshift 30 y * 0xBF58476D1CE4E5B9)"
    by (rule mult_unit_inj [rotated]) (rule mult_unit_2)
  then have "xorshift 30 x * 0xBF58476D1CE4E5B9 = xorshift 30 y * 0xBF58476D1CE4E5B9"
    by (rule xorshift_inj [rotated]) simp
  then have "xorshift 30 x = xorshift 30 y" by (rule mult_unit_inj [rotated]) (rule mult_unit_1)
  then show "x = y" by (rule xorshift_inj [rotated]) simp
qed

lemma mix_zero [simp]: "mix 0 = 0"
  by (simp add: mix_def xorshift_def)

section \<open>The rejection loop returns\<close>

lemma golden_unit: "0xf1de83e19937733d * golden = 1"
  by (simp add: golden_def)

lemma draw_returns_within:
  "s + of_nat (Suc n) * golden = 0 \<Longrightarrow> \<exists>x s'. draw cap s = Some (x, s') \<and> x \<le> cap"
proof (induction n arbitrary: s)
  case 0
  then have "rng_next s = (0, 0)" by (simp add: rng_next_def)
  then show ?case by (simp add: draw.simps [of cap s])
next
  case (Suc n)
  show ?case
  proof (cases "fst (rng_next s) > cap")
    case True
    have "(s + golden) + of_nat (Suc n) * golden = 0" using Suc.prems by (simp add: algebra_simps)
    then obtain x s' where "draw cap (s + golden) = Some (x, s') \<and> x \<le> cap" using Suc.IH by blast
    then show ?thesis using True by (auto simp: draw.simps [of cap s] rng_next_def Let_def)
  next
    case False
    then show ?thesis by (auto simp: draw.simps [of cap s] rng_next_def Let_def)
  qed
qed

lemma draw_returns: "\<exists>x s'. draw cap s = Some (x, s') \<and> x \<le> cap"
proof -
  define n where "n = unat (- s * 0xf1de83e19937733d - 1)"
  have "of_nat (Suc n) = - s * 0xf1de83e19937733d" by (simp add: n_def)
  then have "s + of_nat (Suc n) * golden = s + - s * (0xf1de83e19937733d * golden)" by (simp only: mult.assoc)
  then have "s + of_nat (Suc n) * golden = 0" by (simp only: golden_unit) simp
  then show ?thesis by (rule draw_returns_within)
qed

section \<open>The accepted range is a whole number of copies of the residues\<close>

lemma unat_u64_less: "unat (n :: u64) < 2 ^ 64"
  using unsigned_less [where ?'a = nat, of n] by simp

lemma unat_limit:
  assumes "n \<noteq> 0"
  shows "unat (limit n) + 1 = (2 ^ 64 - 1) div unat n * unat n"
proof -
  have p: "0 < unat n" using assms by (simp add: unat_gt_0)
  have m1: "unat (- 1 :: u64) = 2 ^ 64 - 1" by (simp add: unsigned_minus_1_eq_mask mask_eq_exp_minus_1)
  have m: "unat ((- 1 :: u64) mod n) = (2 ^ 64 - 1) mod unat n" by (simp add: unat_mod_distrib m1)
  have "unat n \<le> 2 ^ 64 - 1" using unat_u64_less [of n] by simp
  then have q: "1 \<le> (2 ^ 64 - 1) div unat n" using p by (simp add: div_greater_zero_iff Suc_le_eq)
  have e: "(2 ^ 64 - 1) - (2 ^ 64 - 1) mod unat n = (2 ^ 64 - 1) div unat n * unat n"
    by (metis minus_mod_eq_div_mult)
  have "unat ((- 1 :: u64) - (- 1) mod n) = (2 ^ 64 - 1) div unat n * unat n"
    using e by (subst unat_sub) (simp_all add: m m1 word_n1_ge)
  moreover have "1 \<le> (2 ^ 64 - 1) div unat n * unat n" using q p by simp
  ultimately show ?thesis unfolding limit_def by (subst unat_sub) (simp_all add: word_le_nat_alt)
qed

lemma card_residue:
  assumes "(r :: nat) < n"
  shows "card {x. x < q * n \<and> x mod n = r} = q"
proof -
  have "{x. x < q * n \<and> x mod n = r} = (\<lambda>j. j * n + r) ` {..<q}"
  proof (intro set_eqI iffI)
    fix x assume x: "x \<in> {x. x < q * n \<and> x mod n = r}"
    then have "x = x div n * n + r" by auto
    moreover have "x div n < q" using x by (simp add: less_mult_imp_div_less)
    ultimately show "x \<in> (\<lambda>j. j * n + r) ` {..<q}" by blast
  next
    fix x assume "x \<in> (\<lambda>j. j * n + r) ` {..<q}"
    then obtain j where j: "j < q" "x = j * n + r" by auto
    then have "x < Suc j * n" using assms by simp
    also have "\<dots> \<le> q * n" using j(1) by (intro mult_right_mono) auto
    finally show "x \<in> {x. x < q * n \<and> x mod n = r}" using j assms by simp
  qed
  moreover have "inj_on (\<lambda>j. j * n + r) {..<q}" using assms by (auto intro: inj_onI)
  ultimately show ?thesis by (simp add: card_image)
qed

section \<open>Bounded draws\<close>

lemma below_spec:
  assumes "n \<noteq> 0"
  shows "\<exists>x s'. below n s = Some (x, s') \<and> x < n"
proof -
  obtain x s' where "draw (limit n) s = Some (x, s')" using draw_returns by blast
  then have "below n s = Some (x mod n, s')" using assms by (simp add: below_def)
  moreover have "x mod n < n" using assms by (simp add: word_less_nat_alt unat_mod_distrib unat_gt_0)
  ultimately show ?thesis by blast
qed

text \<open>The values an integer type of width \<open>w\<close> holds.\<close>

definition in_type :: "bool \<Rightarrow> nat \<Rightarrow> int \<Rightarrow> bool" where
  "in_type signed_ty w x \<longleftrightarrow>
     (if signed_ty then - (2 ^ (w - 1)) \<le> x \<and> x < 2 ^ (w - 1) else 0 \<le> x \<and> x < 2 ^ w)"

lemma two_halves: "1 \<le> w \<Longrightarrow> (2 :: int) ^ w = 2 ^ (w - 1) + 2 ^ (w - 1)"
  by (cases w) auto

lemma to_int_type_cong:
  assumes "1 \<le> w" "in_type signed_ty w y" "x mod 2 ^ w = y mod 2 ^ w"
  shows "to_int_type signed_ty w x = y"
proof (cases signed_ty)
  case True
  have "(x + 2 ^ (w - 1)) mod 2 ^ w = (y + 2 ^ (w - 1)) mod 2 ^ w" using assms(3) by (rule mod_add_cong) simp
  also have "\<dots> = y + 2 ^ (w - 1)"
    using assms(2) True two_halves [OF assms(1)] by (intro mod_pos_pos_trivial) (auto simp: in_type_def)
  finally show ?thesis using True by (simp add: to_int_type_def)
qed (use assms in \<open>simp add: to_int_type_def in_type_def\<close>)

lemma in_type_diff:
  assumes "1 \<le> w" "in_type signed_ty w lo" "in_type signed_ty w hi" "lo \<le> hi"
  shows "0 \<le> hi - lo \<and> hi - lo < 2 ^ w"
  using assms two_halves [OF assms(1)] by (auto simp: in_type_def split: if_splits)

lemma in_span_diff:
  assumes "1 \<le> w" "in_type signed_ty w lo" "in_type signed_ty w hi" "lo \<le> hi" "32 \<le> w \<or> \<not> (lo < 0 \<and> 0 \<le> hi)"
  shows "in_span w lo hi = word_of_int (hi - lo)"
proof (cases "32 \<le> w")
  case True
  have "(to_unsigned w hi - to_unsigned w lo) mod 2 ^ w = hi - lo"
    using in_type_diff [OF assms(1-4)] by (simp add: to_unsigned_def mod_diff_eq)
  then show ?thesis using True by (simp add: in_span_def Let_def)
next
  case False
  have neg: "x mod 2 ^ w = x + 2 ^ w" if "x < 0" "in_type signed_ty w x" for x
  proof -
    have "(x + 2 ^ w) mod 2 ^ w = x + 2 ^ w"
      using that two_halves [OF assms(1)] by (intro mod_pos_pos_trivial) (auto simp: in_type_def split: if_splits)
    then show ?thesis by simp
  qed
  have pos: "x mod 2 ^ w = x" if "0 \<le> x" "in_type signed_ty w x" for x
    using that two_halves [OF assms(1)] by (intro mod_pos_pos_trivial) (auto simp: in_type_def split: if_splits)
  have "to_unsigned w hi - to_unsigned w lo = hi - lo"
    using assms(2-5) False pos neg by (cases "lo < 0") (auto simp: to_unsigned_def)
  then show ?thesis using False by (simp add: in_span_def Let_def)
qed

section \<open>Properties\<close>

text \<open>\<^verbatim>\<open>below\<close> returns for every bound and every seed (the state walks through all of
  \<open>2 ^ 64\<close> values, one of which is always accepted), with a number below the bound, and 0 without a
  draw for the bound 0.\<close>

theorem below_returns: "\<exists>x s'. below n s = Some (x, s') \<and> (if n = 0 then x = 0 \<and> s' = s else x < n)"
  using below_spec [of n s] by (auto simp: below_def)

text \<open>\<^verbatim>\<open>below\<close> is unbiased: among the 64-bit outputs its loop accepts, every residue below the
  bound occurs equally often.\<close>

theorem below_unbiased:
  assumes "r < n"
  shows "card {x. x \<le> limit n \<and> x mod n = r} = (2 ^ 64 - 1) div unat n"
proof -
  have n: "n \<noteq> 0" using assms by auto
  let ?q = "(2 ^ 64 - 1) div unat n"
  have img: "unat ` {x. x \<le> limit n \<and> x mod n = r} = {x. x < ?q * unat n \<and> x mod unat n = unat r}" (is "_ = ?R")
  proof (intro set_eqI iffI)
    fix y assume "y \<in> unat ` {x. x \<le> limit n \<and> x mod n = r}"
    then obtain x where "y = unat x" "x \<le> limit n" "x mod n = r" by auto
    then show "y \<in> ?R" using unat_limit [OF n] by (auto simp: word_le_nat_alt unat_mod_distrib)
  next
    fix y assume y: "y \<in> ?R"
    then have "y \<le> unat (limit n)" using unat_limit [OF n] by simp
    then have u: "unat (of_nat y :: u64) = y"
      using unat_u64_less [of "limit n"] by (simp add: unat_of_nat take_bit_nat_eq_self)
    have "(of_nat y :: u64) \<le> limit n" using u \<open>y \<le> unat (limit n)\<close> by (simp only: word_le_nat_alt)
    moreover have "unat ((of_nat y :: u64) mod n) = unat r" using y by (simp only: unat_mod_distrib u) simp
    then have "(of_nat y :: u64) mod n = r" by (rule word_unat_eq_iff [THEN iffD2])
    ultimately have "of_nat y \<in> {x. x \<le> limit n \<and> x mod n = r}" by blast
    then show "y \<in> unat ` {x. x \<le> limit n \<and> x mod n = r}" by (intro image_eqI [where f = unat and x = "of_nat y"]) (simp_all only: u)
  qed
  have inj: "inj_on unat {x. x \<le> limit n \<and> x mod n = r}" by (rule inj_onI) (simp add: word_unat_eq_iff)
  have "card {x. x \<le> limit n \<and> x mod n = r} = card ?R" using card_image [OF inj] by (simp only: img)
  then show ?thesis using card_residue [of "unat r" "unat n" ?q] assms by (simp add: word_less_nat_alt)
qed

theorem below_unbiased_witness: "card {x :: u64. x \<le> limit 6 \<and> x mod 6 = 5} = 3074457345618258602"
  using below_unbiased [of 5 6] by simp

text \<open>the output function is injective, so over one period every 64-bit value is drawn exactly
  once, and the child streams of \<^verbatim>\<open>split\<close> taken from different states have different seeds.\<close>

theorem rng_next_inj: "fst (rng_next s) = fst (rng_next t) \<longleftrightarrow> s = t"
  by (auto simp: rng_next_def Let_def dest: mix_inj)

text \<open>\<^verbatim>\<open>in\<close> stays within its bounds for every type at least as wide as \<^verbatim>\<open>int\<close>, and for a
  narrower one when both bounds have the same sign, provided the range is not the whole 64-bit type.\<close>

theorem rng_in_range:
  assumes "1 \<le> w" "in_type signed_ty w lo" "in_type signed_ty w hi" "lo \<le> hi"
    "32 \<le> w \<or> \<not> (lo < 0 \<and> 0 \<le> hi)" "hi - lo < 2 ^ 64 - 1"
  shows "\<exists>x s'. rng_in signed_ty w lo hi s = Some (x, s') \<and> lo \<le> x \<and> x \<le> hi"
proof -
  note d = in_type_diff [OF assms(1-4)]
  let ?n = "in_span w lo hi + 1"
  have n: "?n = word_of_int (hi - lo + 1)" using in_span_diff [OF assms(1-5)] by simp
  have u: "uint ?n = hi - lo + 1"
    unfolding n uint_word_of_int using d assms(6) by (intro mod_pos_pos_trivial) auto
  then have "?n \<noteq> 0" using d by (auto simp: word_uint_eq_iff)
  then obtain x s' where b: "below ?n s = Some (x, s')" "x < ?n" using below_spec by blast
  then have x: "0 \<le> uint x" "uint x \<le> hi - lo" using u by (auto simp: word_less_def)
  have "to_unsigned w (uint x) = uint x"
    unfolding to_unsigned_def using x d by (intro mod_pos_pos_trivial) auto
  then have m: "(to_unsigned w lo + to_unsigned w (uint x)) mod 2 ^ w = (lo + uint x) mod 2 ^ w"
    by (simp add: to_unsigned_def mod_add_left_eq)
  have "lo \<le> lo + uint x" "lo + uint x \<le> hi" using x by linarith+
  then have "in_type signed_ty w (lo + uint x)" using assms(2,3) unfolding in_type_def by (metis order_trans le_less_trans)
  then have "to_int_type signed_ty w (to_unsigned w lo + to_unsigned w (uint x)) = lo + uint x"
    using assms(1) m by (intro to_int_type_cong)
  then show ?thesis using b x assms(4) by (simp add: rng_in_def Let_def)
qed

theorem rng_in_range_witness: "\<exists>x s'. rng_in True 32 (-3) 9 1 = Some (x, s') \<and> -3 \<le> x \<and> x \<le> 9"
  by (rule rng_in_range) (simp_all add: in_type_def)

text \<open>Where \<^verbatim>\<open>in\<close> does not keep its promise: over the whole range of a 64-bit type the size of the
  range wraps to 0, so the result is always the lower bound and nothing is drawn; and for an 8-bit
  signed type with bounds of opposite sign the promoted difference is negative, so a result can lie
  outside the bounds.\<close>

theorem rng_in_wraps:
  "rng_in True 64 (- (2 ^ 63)) (2 ^ 63 - 1) s = Some (- (2 ^ 63), s) \<and>
   map_option fst (rng_in True 8 (-1) 1 1) = Some (- 64)"
proof -
  have "rng_in True 64 (- (2 ^ 63)) (2 ^ 63 - 1) s = Some (- (2 ^ 63), s)"
    by (simp add: rng_in_def in_span_def to_unsigned_def to_int_type_def below_def Let_def)
  moreover have "map_option fst (rng_in True 8 (-1) 1 1) = Some (- 64)" by code_simp
  ultimately show ?thesis by blast
qed

end
