(* ===== verification/Debounce.thy ===== *)
theory Debounce
  imports Jaal_Prelude
begin

text \<open>
  \<^verbatim>\<open>include/jaal/core/debounce.hpp\<close>: \<^verbatim>\<open>debounce\<close>, a value whose last change alone is current, and
  \<^verbatim>\<open>throttle\<close>, which lets something through at most once per interval. Both are values in a model, so
  their methods are functions on a record.
\<close>

section \<open>Debounce\<close>

record 'a debounce =
  db_value :: 'a
  db_token :: u64

definition set_value :: "'a \<Rightarrow> 'a debounce \<Rightarrow> u64 \<times> 'a debounce" where
  "set_value v d = (let d' = d\<lparr>db_value := v, db_token := db_token d + 1\<rparr> in (db_token d', d'))"

definition invalidate :: "'a debounce \<Rightarrow> u64 \<times> 'a debounce" where
  "invalidate d = (let d' = d\<lparr>db_token := db_token d + 1\<rparr> in (db_token d', d'))"

definition ready :: "u64 \<Rightarrow> 'a debounce \<Rightarrow> bool" where
  "ready t d \<longleftrightarrow> t = db_token d \<and> t \<noteq> 0"

definition db_empty :: "'a debounce \<Rightarrow> bool" where
  "db_empty d \<longleftrightarrow> db_token d = 0"

text \<open>A history of changes: \<open>Some v\<close> is \<^verbatim>\<open>set(v)\<close>, \<open>None\<close> is \<^verbatim>\<open>invalidate()\<close>.\<close>

fun changes :: "'a option list \<Rightarrow> 'a debounce \<Rightarrow> u64 list \<times> 'a debounce" where
  "changes [] d = ([], d)"
| "changes (c # cs) d =
     (let (t, d1) = (case c of Some v \<Rightarrow> set_value v d | None \<Rightarrow> invalidate d); (ts, d2) = changes cs d1
      in (t # ts, d2))"

lemma changes_tokens:
  "changes cs d = (ts, d') \<Longrightarrow>
   ts = map (\<lambda>k. db_token d + 1 + of_nat k) [0..<length cs] \<and> db_token d' = db_token d + of_nat (length cs)"
proof (induction cs arbitrary: d ts)
  case (Cons c cs)
  obtain t d1 where s: "(case c of Some v \<Rightarrow> set_value v d | None \<Rightarrow> invalidate d) = (t, d1)" by fastforce
  then have t: "t = db_token d + 1" "db_token d1 = db_token d + 1"
    by (auto simp: set_value_def invalidate_def Let_def split: option.splits)
  obtain ts' where r: "changes cs d1 = (ts', d')" "ts = t # ts'"
    using Cons.prems s by (auto split: prod.splits)
  have "map (\<lambda>k. db_token d + 1 + of_nat k) [0..<length (c # cs)] =
      (db_token d + 1) # map (\<lambda>k. db_token d1 + 1 + of_nat k) [0..<length cs]"
    by (simp add: upt_conv_Cons map_Suc_upt [symmetric] t(2) add.assoc del: upt_Suc)
  then show ?case using Cons.IH [OF r(1)] r(2) t by (simp add: add.assoc)
qed simp

section \<open>Throttle\<close>

record throttle =
  th_every :: int
  th_last :: "time_point option"
  th_pending :: bool

definition ns_per_ms :: int where
  "ns_per_ms = 1000000"

definition allow :: "time_point \<Rightarrow> throttle \<Rightarrow> bool \<times> throttle" where
  "allow now t =
     (if th_last t = None \<or> now - the (th_last t) \<ge> th_every t * ns_per_ms
      then (True, t\<lparr>th_last := Some now, th_pending := False\<rparr>)
      else (False, t\<lparr>th_pending := True\<rparr>))"

definition take_pending :: "throttle \<Rightarrow> bool \<times> throttle" where
  "take_pending t = (th_pending t, t\<lparr>th_pending := False\<rparr>)"

definition next_allowed :: "throttle \<Rightarrow> time_point option" where
  "next_allowed t = (case th_last t of None \<Rightarrow> None | Some l \<Rightarrow> Some (l + th_every t * ns_per_ms))"

definition set_interval :: "int \<Rightarrow> throttle \<Rightarrow> throttle" where
  "set_interval d t = t\<lparr>th_every := d\<rparr>"

definition reset :: "throttle \<Rightarrow> throttle" where
  "reset t = t\<lparr>th_last := None, th_pending := False\<rparr>"

text \<open>A burst of attempts: the answers of \<^verbatim>\<open>allow\<close>, and the throttle afterwards.\<close>

fun attempts :: "time_point list \<Rightarrow> throttle \<Rightarrow> bool list \<times> throttle" where
  "attempts [] t = ([], t)"
| "attempts (n # ns) t = (let (ok, t1) = allow n t; (oks, t2) = attempts ns t1 in (ok # oks, t2))"

definition allowed :: "time_point list \<Rightarrow> bool list \<Rightarrow> time_point list" where
  "allowed ns oks = map fst (filter snd (zip ns oks))"

fun spaced :: "int \<Rightarrow> time_point option \<Rightarrow> time_point list \<Rightarrow> bool" where
  "spaced g l [] \<longleftrightarrow> True"
| "spaced g l (a # as) \<longleftrightarrow> (case l of None \<Rightarrow> True | Some b \<Rightarrow> a - b \<ge> g) \<and> spaced g (Some a) as"

lemma allow_every [simp]: "th_every (snd (allow n t)) = th_every t"
  by (simp add: allow_def)

lemma attempts_every: "th_every (snd (attempts ns t)) = th_every t"
  by (induction ns arbitrary: t) (auto simp: split_beta Let_def)

lemma attempts_spaced: "spaced (th_every t * ns_per_ms) (th_last t) (allowed ns (fst (attempts ns t)))"
proof (induction ns arbitrary: t)
  case (Cons n ns)
  have IH: "spaced (th_every t * ns_per_ms) (th_last (snd (allow n t)))
      (allowed ns (fst (attempts ns (snd (allow n t)))))"
    using Cons.IH [of "snd (allow n t)"] by simp
  show ?case
  proof (cases "fst (allow n t)")
    case True
    then have "th_last (snd (allow n t)) = Some n" "case th_last t of None \<Rightarrow> True | Some b \<Rightarrow> n - b \<ge> th_every t * ns_per_ms"
      by (auto simp: allow_def split: if_splits option.splits)
    then show ?thesis using IH True by (simp add: allowed_def split_beta Let_def)
  next
    case False
    then have "th_last (snd (allow n t)) = th_last t" by (auto simp: allow_def split: if_splits)
    then show ?thesis using IH False by (simp add: allowed_def split_beta Let_def)
  qed
qed (simp add: allowed_def)

lemma attempts_pending:
  "ns \<noteq> [] \<Longrightarrow> th_pending (snd (attempts ns t)) \<longleftrightarrow> \<not> last (fst (attempts ns t))"
proof (induction ns arbitrary: t)
  case (Cons n ns)
  then show ?case
    by (cases ns) (simp_all add: allow_def split_beta Let_def)
qed simp

section \<open>Properties\<close>

text \<open>Through any history of fewer than \<open>2 ^ 64\<close> changes from a fresh value, the tokens handed out
  are all different, and in the end exactly the last of them is ready: a superseded timer or a late
  answer is never taken for the current one.\<close>

theorem debounce_only_last_ready:
  assumes "changes cs \<lparr>db_value = v, db_token = 0\<rparr> = (ts, d)" "length cs < 2 ^ 64" "k < length cs"
  shows "distinct ts \<and> (ready (ts ! k) d \<longleftrightarrow> Suc k = length cs)"
proof -
  have ts: "ts = map (\<lambda>k. 1 + of_nat k) [0..<length cs]" and tok: "db_token d = of_nat (length cs)"
    using changes_tokens [OF assms(1)] by simp_all
  have inj: "(1 + of_nat i :: u64) = of_nat j \<longleftrightarrow> Suc i = j" if "i < length cs" "j \<le> length cs" for i j
    using of_nat_u64_inject [of "Suc i" j] that assms(2) by simp
  have "inj_on (\<lambda>k. 1 + of_nat k :: u64) {0..<length cs}"
  proof (rule inj_onI)
    fix i j assume "i \<in> {0..<length cs}" "j \<in> {0..<length cs}" "1 + of_nat i = (1 + of_nat j :: u64)"
    then show "i = j" using of_nat_u64_inject [of i j] assms(2) by simp
  qed
  then have "distinct ts" unfolding ts by (simp add: distinct_map)
  moreover have "ready (ts ! k) d \<longleftrightarrow> Suc k = length cs"
    using assms(3) inj [of k "length cs"] inj [of k 0] by (simp add: ready_def ts tok)
  ultimately show ?thesis by blast
qed

theorem debounce_only_last_ready_witness:
  "changes [Some CHR ''a'', None, Some CHR ''b''] \<lparr>db_value = CHR ''x'', db_token = 0\<rparr> =
     ([1, 2, 3], \<lparr>db_value = CHR ''b'', db_token = 3\<rparr>) \<and>
   \<not> ready 2 \<lparr>db_value = CHR ''b'', db_token = 3\<rparr>"
proof -
  have c: "changes [Some CHR ''a'', None, Some CHR ''b''] \<lparr>db_value = CHR ''x'', db_token = 0\<rparr> =
     ([1, 2, 3], \<lparr>db_value = CHR ''b'', db_token = 3\<rparr>)"
    by (simp add: set_value_def invalidate_def)
  show ?thesis using c debounce_only_last_ready [OF c, of 1] by simp
qed

text \<open>A throttle lets at most one attempt through per interval, however the attempts come, and
  after the last of them the pending flag says exactly whether that last one was dropped.\<close>

theorem throttle_spaced:
  assumes "attempts ns t = (oks, t')" "ns \<noteq> []"
  shows "spaced (th_every t * ns_per_ms) (th_last t) (allowed ns oks) \<and> (th_pending t' \<longleftrightarrow> \<not> last oks)"
  using attempts_spaced [of t ns] attempts_pending [OF assms(2), of t] assms(1) by simp

theorem throttle_spaced_witness:
  "fst (attempts [0, 20000000, 33000000] \<lparr>th_every = 33, th_last = None, th_pending = False\<rparr>) = [True, False, True] \<and>
   spaced 33000000 None [0, 33000000]"
proof -
  have c: "attempts [0, 20000000, 33000000] \<lparr>th_every = 33, th_last = None, th_pending = False\<rparr> =
      ([True, False, True], \<lparr>th_every = 33, th_last = Some 33000000, th_pending = False\<rparr>)"
    by (simp add: allow_def ns_per_ms_def)
  show ?thesis using c throttle_spaced [OF c] by (simp add: allowed_def ns_per_ms_def)
qed

text \<open>\<^verbatim>\<open>next_allowed\<close> is the first instant at which \<^verbatim>\<open>allow\<close> answers yes, and it is empty only
  for a throttle that has let nothing through.\<close>

theorem next_allowed_exact:
  "fst (allow now t) \<longleftrightarrow> (case next_allowed t of None \<Rightarrow> True | Some a \<Rightarrow> a \<le> now)"
  by (cases "th_last t") (auto simp: allow_def next_allowed_def)

end
