(* ===== verification/Stop_Group.thy ===== *)
theory Stop_Group
  imports Jaal_Prelude
begin

text \<open>
  \<^verbatim>\<open>include/jaal/kernel/stop_group.hpp\<close>: members enter a group and leave it when they are destroyed; the owner
  closes admission, asks all of them to stop and waits for the count to reach zero. Every critical section
  is one definition; a step relation interleaves the members, the notifications in flight and the owner.
\<close>

section \<open>State and critical sections\<close>

record group_core =
  sg_live :: nat
  sg_closed :: bool
  sg_stop :: bool

definition new_group :: group_core where
  "new_group = \<lparr>sg_live = 0, sg_closed = False, sg_stop = False\<rparr>"

text \<open>\<open>None\<close> is the refusal.\<close>

definition join :: "group_core \<Rightarrow> group_core option" where
  "join c = (if sg_closed c then None else Some (c\<lparr>sg_live := sg_live c + 1\<rparr>))"

text \<open>Leaving under the lock; whether the last member left, and so owes a notification.\<close>

definition leave :: "group_core \<Rightarrow> bool \<times> group_core" where
  "leave c = (let c1 = c\<lparr>sg_live := sg_live c - 1\<rparr> in (sg_live c1 = 0, c1))"

definition close_admission :: "group_core \<Rightarrow> group_core" where
  "close_admission c = c\<lparr>sg_closed := True\<rparr>"

definition request_stop :: "group_core \<Rightarrow> group_core" where
  "request_stop c = c\<lparr>sg_stop := True\<rparr>"

text \<open>The predicate of the wait, and what \<^verbatim>\<open>stop_and_wait\<close> returns once it holds or the grace is over.\<close>

definition all_out :: "group_core \<Rightarrow> bool" where
  "all_out c \<longleftrightarrow> sg_live c = 0"

definition still_running :: "group_core \<Rightarrow> nat" where
  "still_running c = sg_live c"

text \<open>What a member sees; a moved-from one has no core.\<close>

definition stop_requested :: "group_core \<Rightarrow> bool \<Rightarrow> bool" where
  "stop_requested c holds \<longleftrightarrow> holds \<and> sg_stop c"

section \<open>Members, notifications and the owner\<close>

text \<open>
  The owner's place in \<^verbatim>\<open>stop_and_wait\<close>: not in it, admission closed, holding the lock and about to test the
  count, asleep, returned. \<open>gs_members\<close> are the member objects that hold the core, \<open>gs_notes\<close> the leavers
  that owe a notification they have not sent yet.
\<close>

datatype owner = Outside | Closing | Testing | Asleep | Back nat

record group_sys =
  gs_core :: group_core
  gs_members :: "nat set"
  gs_notes :: nat
  gs_owner :: owner

definition group_init :: group_sys where
  "group_init = \<lparr>gs_core = new_group, gs_members = {}, gs_notes = 0, gs_owner = Outside\<rparr>"

inductive gstep :: "group_sys \<Rightarrow> group_sys \<Rightarrow> bool" where
  g_join: "join (gs_core s) = Some c \<Longrightarrow> h \<notin> gs_members s \<Longrightarrow>
    gstep s (s\<lparr>gs_core := c, gs_members := insert h (gs_members s)\<rparr>)"
| g_leave: "h \<in> gs_members s \<Longrightarrow> leave (gs_core s) = (lst, c) \<Longrightarrow>
    gstep s (s\<lparr>gs_core := c, gs_members := gs_members s - {h}, gs_notes := gs_notes s + (if lst then 1 else 0)\<rparr>)"
| g_move: "h \<in> gs_members s \<Longrightarrow> h' \<notin> gs_members s \<Longrightarrow> gstep s (s\<lparr>gs_members := insert h' (gs_members s - {h})\<rparr>)"
| g_notify: "0 < gs_notes s \<Longrightarrow>
    gstep s (s\<lparr>gs_notes := gs_notes s - 1, gs_owner := (if gs_owner s = Asleep then Testing else gs_owner s)\<rparr>)"
| g_close: "gs_owner s = Outside \<or> (\<exists>n. gs_owner s = Back n) \<Longrightarrow>
    gstep s (s\<lparr>gs_core := close_admission (gs_core s), gs_owner := Closing\<rparr>)"
| g_request: "gs_owner s = Closing \<Longrightarrow> gstep s (s\<lparr>gs_core := request_stop (gs_core s), gs_owner := Testing\<rparr>)"
| g_out: "gs_owner s = Testing \<Longrightarrow> all_out (gs_core s) \<Longrightarrow> gstep s (s\<lparr>gs_owner := Back (still_running (gs_core s))\<rparr>)"
| g_sleep: "gs_owner s = Testing \<Longrightarrow> \<not> all_out (gs_core s) \<Longrightarrow> gstep s (s\<lparr>gs_owner := Asleep\<rparr>)"
| g_spurious: "gs_owner s = Asleep \<Longrightarrow> gstep s (s\<lparr>gs_owner := Testing\<rparr>)"
| g_grace: "gs_owner s = Asleep \<Longrightarrow> gstep s (s\<lparr>gs_owner := Back (still_running (gs_core s))\<rparr>)"

definition group_inv :: "group_sys \<Rightarrow> bool" where
  "group_inv s \<longleftrightarrow> finite (gs_members s) \<and> sg_live (gs_core s) = card (gs_members s) \<and>
     (gs_owner s \<noteq> Outside \<longrightarrow> sg_closed (gs_core s)) \<and>
     (gs_owner s = Asleep \<and> sg_live (gs_core s) = 0 \<longrightarrow> 0 < gs_notes s) \<and>
     (gs_owner s \<noteq> Outside \<and> gs_owner s \<noteq> Closing \<longrightarrow> sg_stop (gs_core s)) \<and>
     (\<forall>n. gs_owner s = Back n \<longrightarrow> sg_live (gs_core s) \<le> n)"

lemma card_moved:
  assumes "finite A" "h \<in> A" "h' \<notin> A"
  shows "card (insert h' (A - {h})) = card A"
  using card_Suc_Diff1 [OF assms(1,2)] assms(1,3) by (simp add: card_insert_if del: card_Diff_insert card_Diff_singleton)

lemma gstep_inv: "gstep s s' \<Longrightarrow> group_inv s \<Longrightarrow> group_inv s'"
proof (induction rule: gstep.induct)
  case (g_move h s h')
  have "card (insert h' (gs_members s - {h})) = card (gs_members s)"
    using g_move by (intro card_moved) (simp_all add: group_inv_def)
  then show ?case using g_move by (auto simp: group_inv_def)
next
  case (g_leave h s lst c)
  then show ?case by (auto simp: group_inv_def leave_def Let_def card_Diff_singleton)
qed (auto simp: group_inv_def join_def close_admission_def request_stop_def all_out_def still_running_def split: if_splits)

lemma gsteps_inv: "gstep\<^sup>*\<^sup>* s s' \<Longrightarrow> group_inv s \<Longrightarrow> group_inv s'"
  by (induction rule: rtranclp_induct) (auto intro: gstep_inv)

lemma group_init_inv: "group_inv group_init"
  by (simp add: group_inv_def group_init_def new_group_def)

section \<open>Properties\<close>

text \<open>Waiting for a group misses nobody and is never stuck. In every reachable state the count is the number
  of members; an owner asleep with nobody left has a notification on its way; once \<^verbatim>\<open>stop_and_wait\<close> has
  closed admission nobody enters any more, so what it returned bounds the members from then on, and after
  a return of zero there is no member ever again.\<close>

theorem stop_group_waits:
  assumes "gstep\<^sup>*\<^sup>* group_init s" "gstep\<^sup>*\<^sup>* s s'"
  shows "sg_live (gs_core s) = card (gs_members s) \<and>
    (gs_owner s = Asleep \<and> gs_members s = {} \<longrightarrow> 0 < gs_notes s) \<and>
    (gs_owner s = Back n \<longrightarrow> card (gs_members s') \<le> n \<and> join (gs_core s') = None)"
proof -
  have i: "group_inv s" by (rule gsteps_inv [OF assms(1) group_init_inv])
  have "card (gs_members s') \<le> n \<and> join (gs_core s') = None" if b: "gs_owner s = Back n"
  proof -
    have "finite (gs_members s') \<and> sg_closed (gs_core s') \<and> card (gs_members s') \<le> n"
      using assms(2)
    proof (induction rule: rtranclp_induct)
      case base
      then show ?case using i b by (auto simp: group_inv_def)
    next
      case (step t u)
      from step(2,3) show ?case
      proof (induction rule: gstep.induct)
        case (g_move h t h')
        then have "card (insert h' (gs_members t - {h})) = card (gs_members t)" by (intro card_moved) simp_all
        then show ?case using g_move by simp
      next
        case (g_leave h t lst c)
        then show ?case by (auto simp: leave_def Let_def intro: order_trans [OF card_Diff1_le])
      qed (auto simp: join_def close_admission_def request_stop_def split: if_splits)
    qed
    then show ?thesis by (simp add: join_def)
  qed
  then show ?thesis using i by (auto simp: group_inv_def)
qed

theorem stop_group_waits_witness:
  "\<exists>s. gstep\<^sup>*\<^sup>* group_init s \<and> gs_owner s = Back 0 \<and> join (gs_core s) = None"
proof -
  let ?a = "group_init\<lparr>gs_core := close_admission (gs_core group_init), gs_owner := Closing\<rparr>"
  let ?b = "?a\<lparr>gs_core := request_stop (gs_core ?a), gs_owner := Testing\<rparr>"
  let ?c = "?b\<lparr>gs_owner := Back (still_running (gs_core ?b))\<rparr>"
  have "gstep group_init ?a" by (rule g_close) (simp add: group_init_def)
  moreover have "gstep ?a ?b" by (rule g_request) simp
  moreover have "gstep ?b ?c"
    by (rule g_out) (simp_all add: all_out_def group_init_def new_group_def close_admission_def request_stop_def)
  ultimately have r: "gstep\<^sup>*\<^sup>* group_init ?c" by (meson converse_rtranclp_into_rtranclp rtranclp.rtrancl_refl)
  have b: "gs_owner ?c = Back 0"
    by (simp add: still_running_def group_init_def new_group_def close_admission_def request_stop_def)
  show ?thesis using stop_group_waits [OF r rtranclp.rtrancl_refl, of 0] b r by blast
qed

end
