(* ===== verification/Effects.thy ===== *)
theory Effects
  imports Jaal_Prelude
begin

text \<open>
  What a program returns to the kernel: commands (\<^verbatim>\<open>core/cmd.hpp\<close>, \<^verbatim>\<open>core/fx.hpp\<close>,
  \<^verbatim>\<open>core/report.hpp\<close>) and subscriptions (\<^verbatim>\<open>core/sub.hpp\<close>, \<^verbatim>\<open>core/stream.hpp\<close>), with their maps,
  batches and resolution. A task or stream body is the tree of what it does next: post a message and
  see whether the loop still listened, read its stop token, throw, or return. An effect or a source
  added by a host is carried as an opaque value with no message in it.
\<close>

section \<open>Bodies\<close>

datatype exc = StdException string | OtherException

codatatype ('r, 'm) act =
    Done 'r
  | Throw exc
  | SendM 'm "bool \<Rightarrow> ('r, 'm) act"
  | StopTest "bool \<Rightarrow> ('r, 'm) act"

text \<open>
  \<^verbatim>\<open>task_thunk::from_mapped\<close> and \<^verbatim>\<open>stream_factory::from_mapped\<close>: a forwarding mailbox between the body
  and the real sink maps each message and hands the sink's answer back. The \<^verbatim>\<open>_with\<close> variants pass an id
  they own along with every message.
\<close>

primcorec from_mapped :: "('a \<Rightarrow> 'b) \<Rightarrow> ('r, 'a) act \<Rightarrow> ('r, 'b) act" where
  "from_mapped f t =
     (case t of
        Done r \<Rightarrow> Done r
      | Throw e \<Rightarrow> Throw e
      | SendM m k \<Rightarrow> SendM (f m) (\<lambda>b. from_mapped f (k b))
      | StopTest k \<Rightarrow> StopTest (\<lambda>b. from_mapped f (k b)))"

primcorec from_mapped_with :: "'i \<Rightarrow> ('i \<Rightarrow> 'a \<Rightarrow> 'b) \<Rightarrow> ('r, 'a) act \<Rightarrow> ('r, 'b) act" where
  "from_mapped_with i f t =
     (case t of
        Done r \<Rightarrow> Done r
      | Throw e \<Rightarrow> Throw e
      | SendM m k \<Rightarrow> SendM (f i m) (\<lambda>b. from_mapped_with i f (k b))
      | StopTest k \<Rightarrow> StopTest (\<lambda>b. from_mapped_with i f (k b)))"

text \<open>
  \<^verbatim>\<open>perform\<close> and \<^verbatim>\<open>attempt\<close>: the body is a computation that returns a value (it is given no sink);
  \<^verbatim>\<open>shim\<close> posts the wrapped result. With a failure case a throw is posted instead of escaping, built
  from whichever of the message, the exception or nothing the case can hold.
\<close>

datatype 'm failure_case = FromWhat "string \<Rightarrow> 'm" | FromPtr "exc \<Rightarrow> 'm" | FromNothing 'm

definition make_failure :: "'m failure_case \<Rightarrow> exc \<Rightarrow> 'm" where
  "make_failure fc e =
     (case fc of
        FromWhat f \<Rightarrow> f (case e of StdException s \<Rightarrow> s | OtherException \<Rightarrow> ''unknown exception'')
      | FromPtr f \<Rightarrow> f e
      | FromNothing m \<Rightarrow> m)"

codatatype 'r comp = Ret 'r | is_Raise: Raise (raised: exc) | is_Poll: Poll (polled: "bool \<Rightarrow> 'r comp")

fun posted :: "('r \<Rightarrow> 'm) \<Rightarrow> 'm failure_case option \<Rightarrow> 'r comp \<Rightarrow> 'm option" where
  "posted ok fc t =
     (case t of
        Ret r \<Rightarrow> Some (ok r)
      | Raise e \<Rightarrow> (case fc of None \<Rightarrow> None | Some f \<Rightarrow> Some (make_failure f e))
      | Poll k \<Rightarrow> None)"

primcorec shim :: "('r \<Rightarrow> 'm) \<Rightarrow> 'm failure_case option \<Rightarrow> 'r comp \<Rightarrow> (unit, 'm) act" where
  "shim ok fc t =
     (if is_Poll t then StopTest (\<lambda>b. shim ok fc (polled t b))
      else case posted ok fc t of
             Some m \<Rightarrow> SendM m (\<lambda>_. Done ())
           | None \<Rightarrow> Throw (raised t))"

datatype 'r outcome = Returned 'r | Threw exc

inductive returns :: "'r comp \<Rightarrow> 'r outcome \<Rightarrow> bool" where
  c_ret: "returns (Ret r) (Returned r)"
| c_raise: "returns (Raise e) (Threw e)"
| c_poll: "returns (k b) r \<Longrightarrow> returns (Poll k) r"

text \<open>A finished run: what was posted, in order, and how the body ended.\<close>

inductive runs :: "('r, 'm) act \<Rightarrow> 'm list \<Rightarrow> 'r outcome \<Rightarrow> bool" where
  r_done: "runs (Done r) [] (Returned r)"
| r_throw: "runs (Throw e) [] (Threw e)"
| r_send: "runs (k b) ms r \<Longrightarrow> runs (SendM m k) (m # ms) r"
| r_stop: "runs (k b) ms r \<Longrightarrow> runs (StopTest k) ms r"

inductive_cases runs_DoneE [elim!]: "runs (Done r) ms o'"
inductive_cases runs_ThrowE [elim!]: "runs (Throw e) ms o'"
inductive_cases runs_SendE [elim!]: "runs (SendM m k) ms o'"
inductive_cases runs_StopE [elim!]: "runs (StopTest k) ms o'"

section \<open>Commands\<close>

datatype placement = Pool | Isolated

record task_key =
  tk_name :: string
  tk_where :: placement

datatype ('h, 'o, 'm) cmd =
    CNone
  | Batch "('h, 'o, 'm) cmd list"
  | Quit int
  | Send 'm
  | After int 'm string
  | Task "(unit, 'm) act" placement string
  | Cancel string
  | Now "time_point \<Rightarrow> 'm"
  | Random "u64 \<Rightarrow> 'm \<times> u64"
  | Report 'o
  | HostFx 'h

text \<open>The constructors that take a key: a keyed task runs where the key says, the rest ignore it.\<close>

definition keyed_task :: "task_key \<Rightarrow> (unit, 'm) act \<Rightarrow> ('h, 'o, 'm) cmd" where
  "keyed_task k body = Task body (tk_where k) (tk_name k)"

definition keyed_after :: "task_key \<Rightarrow> int \<Rightarrow> 'm \<Rightarrow> ('h, 'o, 'm) cmd" where
  "keyed_after k d m = After d m (tk_name k)"

definition make_perform :: "('r \<Rightarrow> 'm) \<Rightarrow> 'm failure_case option \<Rightarrow> task_key \<Rightarrow> 'r comp \<Rightarrow> ('h, 'o, 'm) cmd" where
  "make_perform ok fc k body = Task (shim ok fc body) (tk_where k) (tk_name k)"

fun is_none :: "('h, 'o, 'm) cmd \<Rightarrow> bool" where
  "is_none CNone = True"
| "is_none _ = False"

text \<open>\<^verbatim>\<open>batch\<close> flattens one level and drops what is none; a batch of one is that one.\<close>

fun batch_parts :: "('h, 'o, 'm) cmd \<Rightarrow> ('h, 'o, 'm) cmd list" where
  "batch_parts (Batch cs) = cs"
| "batch_parts CNone = []"
| "batch_parts c = [c]"

definition batch :: "('h, 'o, 'm) cmd list \<Rightarrow> ('h, 'o, 'm) cmd" where
  "batch cs = (case concat (map batch_parts cs) of [] \<Rightarrow> CNone | [c] \<Rightarrow> c | out \<Rightarrow> Batch out)"

fun cmd_map :: "('m \<Rightarrow> 'n) \<Rightarrow> ('h, 'o, 'm) cmd \<Rightarrow> ('h, 'o, 'n) cmd" where
  "cmd_map f CNone = CNone"
| "cmd_map f (Batch cs) = Batch (map (cmd_map f) cs)"
| "cmd_map f (Quit c) = Quit c"
| "cmd_map f (Send m) = Send (f m)"
| "cmd_map f (After d m k) = After d (f m) k"
| "cmd_map f (Task b w k) = Task (from_mapped f b) w k"
| "cmd_map f (Cancel k) = Cancel k"
| "cmd_map f (Now g) = Now (\<lambda>t. f (g t))"
| "cmd_map f (Random g) = Random (\<lambda>r. let (m, r') = g r in (f m, r'))"
| "cmd_map f (Report out) = Report out"
| "cmd_map f (HostFx h) = HostFx h"

fun cmd_map_with :: "'i \<Rightarrow> ('i \<Rightarrow> 'm \<Rightarrow> 'n) \<Rightarrow> ('h, 'o, 'm) cmd \<Rightarrow> ('h, 'o, 'n) cmd" where
  "cmd_map_with i f CNone = CNone"
| "cmd_map_with i f (Batch cs) = Batch (map (cmd_map_with i f) cs)"
| "cmd_map_with i f (Quit c) = Quit c"
| "cmd_map_with i f (Send m) = Send (f i m)"
| "cmd_map_with i f (After d m k) = After d (f i m) k"
| "cmd_map_with i f (Task b w k) = Task (from_mapped_with i f b) w k"
| "cmd_map_with i f (Cancel k) = Cancel k"
| "cmd_map_with i f (Now g) = Now (\<lambda>t. f i (g t))"
| "cmd_map_with i f (Random g) = Random (\<lambda>r. let (m, r') = g r in (f i m, r'))"
| "cmd_map_with i f (Report out) = Report out"
| "cmd_map_with i f (HostFx h) = HostFx h"

text \<open>Row widening: the same effects, one type up; only batches are rebuilt.\<close>

fun widen :: "('h, 'o, 'm) cmd \<Rightarrow> ('h, 'o, 'm) cmd" where
  "widen CNone = CNone"
| "widen (Batch cs) = Batch (map widen cs)"
| "widen c = c"

fun resolve :: "('o \<Rightarrow> ('h, 'o, 'm) cmd) \<Rightarrow> ('h, 'o, 'm) cmd \<Rightarrow> ('h, 'o, 'm) cmd" where
  "resolve f CNone = CNone"
| "resolve f (Batch cs) = batch (map (resolve f) cs)"
| "resolve f (Report out) = f out"
| "resolve f c = c"

text \<open>\<^verbatim>\<open>contains<D>\<close>, the kind \<open>D\<close> given by its test on a single effect.\<close>

fun contains :: "(('h, 'o, 'm) cmd \<Rightarrow> bool) \<Rightarrow> ('h, 'o, 'm) cmd \<Rightarrow> bool" where
  "contains D (Batch cs) = (\<exists>c \<in> set cs. contains D c)"
| "contains D CNone = False"
| "contains D c = D c"

fun is_report :: "('h, 'o, 'm) cmd \<Rightarrow> bool" where
  "is_report (Report _) = True"
| "is_report _ = False"

section \<open>Subscriptions\<close>

datatype ('k, 'e, 'm) sub =
    SNone
  | SBatch "('k, 'e, 'm) sub list"
  | Every int 'm
  | Stream string "(unit, 'm) act"
  | HostSrc 'k "'e \<Rightarrow> 'm"

fun sub_parts :: "('k, 'e, 'm) sub \<Rightarrow> ('k, 'e, 'm) sub list" where
  "sub_parts (SBatch ss) = ss"
| "sub_parts SNone = []"
| "sub_parts s = [s]"

definition sub_batch :: "('k, 'e, 'm) sub list \<Rightarrow> ('k, 'e, 'm) sub" where
  "sub_batch ss = (case concat (map sub_parts ss) of [] \<Rightarrow> SNone | [s] \<Rightarrow> s | out \<Rightarrow> SBatch out)"

fun sub_map :: "('m \<Rightarrow> 'n) \<Rightarrow> ('k, 'e, 'm) sub \<Rightarrow> ('k, 'e, 'n) sub" where
  "sub_map f SNone = SNone"
| "sub_map f (SBatch ss) = SBatch (map (sub_map f) ss)"
| "sub_map f (Every i m) = Every i (f m)"
| "sub_map f (Stream k b) = Stream k (from_mapped f b)"
| "sub_map f (HostSrc k g) = HostSrc k (\<lambda>e. f (g e))"

fun sub_map_with :: "'i \<Rightarrow> ('i \<Rightarrow> 'm \<Rightarrow> 'n) \<Rightarrow> ('k, 'e, 'm) sub \<Rightarrow> ('k, 'e, 'n) sub" where
  "sub_map_with i f SNone = SNone"
| "sub_map_with i f (SBatch ss) = SBatch (map (sub_map_with i f) ss)"
| "sub_map_with i f (Every n m) = Every n (f i m)"
| "sub_map_with i f (Stream k b) = Stream k (from_mapped_with i f b)"
| "sub_map_with i f (HostSrc k g) = HostSrc k (\<lambda>e. f i (g e))"

fun sub_widen :: "('k, 'e, 'm) sub \<Rightarrow> ('k, 'e, 'm) sub" where
  "sub_widen SNone = SNone"
| "sub_widen (SBatch ss) = SBatch (map sub_widen ss)"
| "sub_widen s = s"

text \<open>The leaves \<^verbatim>\<open>for_each\<close> visits, in order.\<close>

fun sub_leaves :: "('k, 'e, 'm) sub \<Rightarrow> ('k, 'e, 'm) sub list" where
  "sub_leaves SNone = []"
| "sub_leaves (SBatch ss) = concat (map sub_leaves ss)"
| "sub_leaves s = [s]"

text \<open>
  Identities of running sources: an interval with an ordinal, a stream's name, or the key of a
  host's kind. They are a sum, so keys of different kinds never compare equal.
\<close>

datatype 'k source_key = EveryKey int u32 | StreamKey string | HostKey 'k

fun base_key :: "('k, 'e, 'm) sub \<Rightarrow> 'k source_key option" where
  "base_key (Every i m) = Some (EveryKey i 0)"
| "base_key (Stream k b) = Some (StreamKey k)"
| "base_key (HostSrc k g) = Some (HostKey k)"
| "base_key _ = None"

definition numbered :: "'k source_key \<Rightarrow> bool" where
  "numbered k = (case k of EveryKey _ _ \<Rightarrow> True | _ \<Rightarrow> False)"

definition every_hash :: "int \<Rightarrow> u32 \<Rightarrow> u64" where
  "every_hash interval_ms ordinal = (word_of_int interval_ms * 0x9E3779B97F4A7C15) XOR ucast ordinal"

section \<open>Mapping a body\<close>

lemma from_mapped_simps [simp]:
  "from_mapped f (Done r) = Done r" "from_mapped f (Throw e) = Throw e"
  "from_mapped f (SendM m k) = SendM (f m) (\<lambda>b. from_mapped f (k b))"
  "from_mapped f (StopTest k) = StopTest (\<lambda>b. from_mapped f (k b))"
  by (simp_all add: from_mapped.code)

lemma from_mapped_with_simps [simp]:
  "from_mapped_with i f (Done r) = Done r" "from_mapped_with i f (Throw e) = Throw e"
  "from_mapped_with i f (SendM m k) = SendM (f i m) (\<lambda>b. from_mapped_with i f (k b))"
  "from_mapped_with i f (StopTest k) = StopTest (\<lambda>b. from_mapped_with i f (k b))"
  by (simp_all add: from_mapped_with.code)

lemma from_mapped_id [simp]: "from_mapped (\<lambda>m. m) t = t"
proof (coinduction arbitrary: t)
  case Eq_act
  then show ?case by (cases t) (auto simp: rel_fun_def)
qed

lemma from_mapped_comp: "from_mapped g (from_mapped f t) = from_mapped (\<lambda>m. g (f m)) t"
proof (coinduction arbitrary: t)
  case Eq_act
  then show ?case by (cases t) (auto simp: rel_fun_def)
qed

lemma from_mapped_with_eq: "from_mapped_with i f t = from_mapped (f i) t"
proof (coinduction arbitrary: t)
  case Eq_act
  then show ?case by (cases t) (auto simp: rel_fun_def)
qed

lemma runs_mappedD: "runs t' ms' r \<Longrightarrow> t' = from_mapped f t \<Longrightarrow> \<exists>ms. runs t ms r \<and> ms' = map f ms"
proof (induction arbitrary: t rule: runs.induct)
  case (r_done r)
  then show ?case by (cases t) (auto intro: runs.intros)
next
  case (r_throw e)
  then show ?case by (cases t) (auto intro: runs.intros)
next
  case (r_send k b ms r m)
  then obtain m0 k0 where t: "t = SendM m0 k0" "m = f m0" "k b = from_mapped f (k0 b)" by (cases t) (auto dest: fun_cong)
  then obtain ms0 where "runs (k0 b) ms0 r" "ms = map f ms0" using r_send.IH by blast
  then show ?case using t by (intro exI [of _ "m0 # ms0"]) (auto intro: runs.intros)
next
  case (r_stop k b ms r)
  then obtain k0 where t: "t = StopTest k0" "k b = from_mapped f (k0 b)" by (cases t) (auto dest: fun_cong)
  then obtain ms0 where "runs (k0 b) ms0 r" "ms = map f ms0" using r_stop.IH by blast
  then show ?case using t by (intro exI [of _ ms0]) (auto intro: runs.intros)
qed

lemma runs_mappedI: "runs t ms r \<Longrightarrow> runs (from_mapped f t) (map f ms) r"
  by (induction rule: runs.induct) (auto intro: runs.intros)

lemma runs_from_mapped: "runs (from_mapped f t) ms' r \<longleftrightarrow> (\<exists>ms. runs t ms r \<and> ms' = map f ms)"
  using runs_mappedD [OF _ refl] runs_mappedI by blast

lemma shim_simps [simp]:
  "shim ok fc (Ret r) = SendM (ok r) (\<lambda>_. Done ())"
  "shim ok None (Raise e) = Throw e"
  "shim ok (Some f) (Raise e) = SendM (make_failure f e) (\<lambda>_. Done ())"
  "shim ok fc (Poll k) = StopTest (\<lambda>b. shim ok fc (k b))"
  by (simp_all add: shim.code)

text \<open>What a finished computation makes its task do.\<close>

fun reported :: "('r \<Rightarrow> 'm) \<Rightarrow> 'm failure_case option \<Rightarrow> 'r outcome \<Rightarrow> 'm list \<times> unit outcome" where
  "reported ok fc (Returned r) = ([ok r], Returned ())"
| "reported ok None (Threw e) = ([], Threw e)"
| "reported ok (Some f) (Threw e) = ([make_failure f e], Returned ())"

lemma runs_shimD: "runs t ms r \<Longrightarrow> t = shim ok fc c \<Longrightarrow> \<exists>x. returns c x \<and> (ms, r) = reported ok fc x"
proof (induction arbitrary: c rule: runs.induct)
  case (r_done r)
  then show ?case by (cases c; cases fc) auto
next
  case (r_throw e)
  then show ?case by (cases c; cases fc) (auto intro!: exI [of _ "Threw e"] intro: returns.intros)
next
  case (r_send k b ms r m)
  then show ?case
  proof (cases c)
    case (Ret x)
    then show ?thesis using r_send by (intro exI [of _ "Returned x"]) (auto intro: returns.intros)
  next
    case (Raise e)
    then show ?thesis using r_send by (cases fc) (auto intro!: exI [of _ "Threw e"] intro: returns.intros)
  qed auto
next
  case (r_stop k b ms r)
  then obtain k0 where c: "c = Poll k0" "k b = shim ok fc (k0 b)"
    by (cases c; cases fc) (auto dest: fun_cong)
  then obtain x where "returns (k0 b) x" "(ms, r) = reported ok fc x" using r_stop.IH by blast
  then show ?case using c by (intro exI [of _ x]) (auto intro: returns.intros)
qed

lemma runs_shimI: "returns c x \<Longrightarrow> runs (shim ok fc c) (fst (reported ok fc x)) (snd (reported ok fc x))"
proof (induction rule: returns.induct)
  case (c_ret r)
  show ?case by (simp) (rule r_send [of _ True], rule r_done)
next
  case (c_raise e)
  show ?case
  proof (cases fc)
    case None
    then show ?thesis by (auto intro: runs.intros)
  next
    case (Some f)
    then show ?thesis by simp (rule r_send [of _ True], rule r_done)
  qed
next
  case (c_poll k b r)
  then show ?case by (auto intro: runs.intros)
qed

section \<open>The effects of a command, in order\<close>

fun leaves :: "('h, 'o, 'm) cmd \<Rightarrow> ('h, 'o, 'm) cmd list" where
  "leaves CNone = []"
| "leaves (Batch cs) = concat (map leaves cs)"
| "leaves c = [c]"

lemma leaves_parts: "concat (map leaves (batch_parts c)) = leaves c"
  by (cases c) auto

lemma leaves_batch: "leaves (batch cs) = concat (map leaves cs)"
proof -
  have "leaves (batch cs) = concat (map leaves (concat (map batch_parts cs)))"
    by (auto simp: batch_def split: list.split)
  also have "\<dots> = concat (map leaves cs)" by (induction cs) (simp_all add: leaves_parts)
  finally show ?thesis .
qed

lemma leaves_map: "leaves (cmd_map f c) = map (cmd_map f) (leaves c)"
  by (induction f c rule: cmd_map.induct) (auto simp: map_concat intro!: arg_cong [of _ _ concat])

lemma cmd_map_id [simp]: "cmd_map (\<lambda>m. m) c = c"
proof (induction c)
  case (Batch cs)
  then show ?case by (simp add: map_idI)
qed (auto simp: split_def)

lemma cmd_map_comp: "cmd_map g (cmd_map f c) = cmd_map (\<lambda>m. g (f m)) c"
  by (induction c) (auto simp: from_mapped_comp split_def Let_def)

lemma cmd_map_with_eq: "cmd_map_with i f c = cmd_map (f i) c"
  by (induction c) (auto simp: from_mapped_with_eq)

lemma widen_id: "widen c = c"
  by (induction c) (auto simp: map_idI)

lemma leaves_resolve:
  "leaves (resolve f c) = concat (map (\<lambda>e. case e of Report out \<Rightarrow> leaves (f out) | _ \<Rightarrow> [e]) (leaves c))"
proof (induction c)
  case (Batch cs)
  let ?g = "\<lambda>e. case e of Report out \<Rightarrow> leaves (f out) | _ \<Rightarrow> [e]"
  have "leaves (resolve f (Batch cs)) = concat (map (\<lambda>c. leaves (resolve f c)) cs)"
    by (simp add: leaves_batch o_def)
  also have "map (\<lambda>c. leaves (resolve f c)) cs = map (\<lambda>c. concat (map ?g (leaves c))) cs"
    using Batch by (intro map_cong) auto
  also have "concat (map (\<lambda>c. concat (map ?g (leaves c))) cs) = concat (map ?g (concat (map leaves cs)))"
    by (induction cs) auto
  finally show ?case by simp
qed auto

lemma contains_leaves: "contains D c \<longleftrightarrow> (\<exists>e \<in> set (leaves c). D e)"
  by (induction c) auto

lemma leaves_leaf: "e \<in> set (leaves c) \<Longrightarrow> leaves e = [e]"
  by (induction c) auto

section \<open>Subscription leaves\<close>

lemma sub_leaves_parts: "concat (map sub_leaves (sub_parts s)) = sub_leaves s"
  by (cases s) auto

lemma sub_leaves_batch: "sub_leaves (sub_batch ss) = concat (map sub_leaves ss)"
proof -
  have "sub_leaves (sub_batch ss) = concat (map sub_leaves (concat (map sub_parts ss)))"
    by (auto simp: sub_batch_def split: list.split)
  also have "\<dots> = concat (map sub_leaves ss)" by (induction ss) (simp_all add: sub_leaves_parts)
  finally show ?thesis .
qed

lemma sub_leaves_map: "sub_leaves (sub_map f s) = map (sub_map f) (sub_leaves s)"
  by (induction s) (auto simp: map_concat intro!: arg_cong [of _ _ concat])

lemma sub_map_with_eq: "sub_map_with i f s = sub_map (f i) s"
  by (induction s) (auto simp: from_mapped_with_eq)

lemma sub_map_comp: "sub_map g (sub_map f s) = sub_map (\<lambda>m. g (f m)) s"
  by (induction s) (auto simp: from_mapped_comp)

lemma base_key_map [simp]: "base_key (sub_map f s) = base_key s"
  by (cases s) auto

section \<open>Properties\<close>

text \<open>batching loses, repeats and reorders nothing: the effects of a batch are the effects of its
  parts, in order, however deep the parts were batched themselves.\<close>

theorem batch_keeps_effects: "leaves (batch cs) = concat (map leaves cs) \<and> leaves (widen c) = leaves c"
  by (simp add: leaves_batch widen_id)

text \<open>mapping a command is a functor, on every effect including the bodies of tasks, so mapping
  through two parents is mapping once through their composition; mapping with an id carried by value
  is mapping with the id applied; and mapping acts effect by effect.\<close>

theorem cmd_map_functor:
  "cmd_map (\<lambda>m. m) c = c \<and> cmd_map g (cmd_map f c) = cmd_map (\<lambda>m. g (f m)) c \<and>
   cmd_map_with i h c = cmd_map (h i) c \<and> leaves (cmd_map f c) = map (cmd_map f) (leaves c)"
  by (simp add: cmd_map_comp cmd_map_with_eq leaves_map)

text \<open>a mapped body posts exactly the messages the original posts, each one mapped, in the same
  order, ends the same way, and sees the same answers from the sink.\<close>

theorem mapped_body_posts: "runs (from_mapped f t) ms' r \<longleftrightarrow> (\<exists>ms. runs t ms r \<and> ms' = map f ms)"
  by (rule runs_from_mapped)

text \<open>A task made by \<^verbatim>\<open>perform\<close> posts the wrapped result once when its body returns and faults
  when it throws; one made by \<^verbatim>\<open>attempt\<close> never faults: it posts exactly one message, the wrapped
  result or the failure.\<close>

theorem shim_posts_once:
  "runs (shim ok fc c) ms r \<longleftrightarrow> (\<exists>x. returns c x \<and> (ms, r) = reported ok fc x)"
  using runs_shimD [OF _ refl] runs_shimI [of c _ ok fc] by (metis fst_conv snd_conv)

text \<open>resolving reports replaces each report, where it stands, by the effects its handler gives
  and leaves everything else alone; when the handler's commands report nothing, no report is left.\<close>

theorem resolve_reports_away:
  "leaves (resolve f c) = concat (map (\<lambda>e. case e of Report out \<Rightarrow> leaves (f out) | _ \<Rightarrow> [e]) (leaves c)) \<and>
   ((\<forall>out. \<not> contains is_report (f out)) \<longrightarrow> \<not> contains is_report (resolve f c))"
proof -
  have "\<not> contains is_report (resolve f c)" if no: "\<forall>out. \<not> contains is_report (f out)"
  proof
    assume "contains is_report (resolve f c)"
    then obtain e x where x: "x \<in> set (leaves c)" "is_report e"
        "e \<in> set (case x of Report out \<Rightarrow> leaves (f out) | _ \<Rightarrow> [x])"
      by (auto simp: contains_leaves leaves_resolve)
    then show False using no by (cases x rule: cmd.exhaust) (simp_all add: contains_leaves)
  qed
  then show ?thesis by (simp add: leaves_resolve)
qed

theorem resolve_reports_away_witness:
  "leaves (resolve (\<lambda>n. Send (n + 1)) (Batch [Quit 0, Report 4, Send 7] :: (unit, nat, nat) cmd)) =
     [Quit 0, Send 5, Send 7] \<and>
   \<not> contains is_report (resolve (\<lambda>n. Send (n + 1)) (Batch [Quit 0, Report 4, Send 7] :: (unit, nat, nat) cmd))"
  using resolve_reports_away [of "\<lambda>n. Send (n + 1)" "Batch [Quit 0, Report 4, Send 7] :: (unit, nat, nat) cmd"]
  by simp

end
