(* ===== verification/Counting.thy ===== *)
theory Counting
  imports Main
begin

text \<open>
  Counting and summing over a list of threads when one of them moves: the step relations of the pool and of
  the parallel loop keep their threads in a list and change one element at a time.
\<close>

definition cnt :: "('a \<Rightarrow> bool) \<Rightarrow> 'a list \<Rightarrow> nat" where
  "cnt P ts = length (filter P ts)"

lemma cnt_append [simp]: "cnt P (xs @ ys) = cnt P xs + cnt P ys"
  by (simp add: cnt_def)

lemma cnt_single [simp]: "cnt P [] = 0" "cnt P [t] = (if P t then 1 else 0)"
  by (simp_all add: cnt_def)

lemma cnt_pos: "i < length ts \<Longrightarrow> P (ts ! i) \<Longrightarrow> 0 < cnt P ts"
  unfolding cnt_def using nth_mem by (fastforce simp: filter_empty_conv length_greater_0_conv)

lemma cnt_posD: "0 < cnt P ts \<Longrightarrow> \<exists>i < length ts. P (ts ! i)"
  unfolding cnt_def by (metis filter_False in_set_conv_nth length_greater_0_conv)

lemma cnt_mono: "(\<And>t. P t \<Longrightarrow> Q t) \<Longrightarrow> cnt P ts \<le> cnt Q ts"
  unfolding cnt_def by (induction ts) (auto intro: le_SucI)

lemma cnt_update_sum:
  "i < length ts \<Longrightarrow> cnt P (ts[i := t]) + (if P (ts ! i) then 1 else 0) = cnt P ts + (if P t then 1 else 0)"
  unfolding cnt_def
proof (induction ts arbitrary: i)
  case (Cons a ts)
  then show ?case by (cases i) (force split: if_splits)+
qed simp

lemma cnt_update:
  "i < length ts \<Longrightarrow>
   cnt P (ts[i := t]) = (if P (ts ! i) then if P t then cnt P ts else cnt P ts - 1 else if P t then Suc (cnt P ts) else cnt P ts)"
  using cnt_update_sum [of i ts P t] cnt_pos [of i ts P] by (auto split: if_splits)

definition total :: "('a \<Rightarrow> 'b :: comm_monoid_add) \<Rightarrow> 'a list \<Rightarrow> 'b" where
  "total f ts = sum_list (map f ts)"

text \<open>The sum over all elements but one.\<close>

definition total_but :: "('a \<Rightarrow> 'b :: comm_monoid_add) \<Rightarrow> nat \<Rightarrow> 'a list \<Rightarrow> 'b" where
  "total_but f i ts = total f (take i ts) + total f (drop (Suc i) ts)"

lemma total_append [simp]: "total f (xs @ ys) = total f xs + total f ys"
  by (simp add: total_def)

lemma total_single [simp]: "total f [] = 0" "total f [t] = f t"
  by (simp_all add: total_def)

lemma total_replicate_zero: "f t = 0 \<Longrightarrow> total f (replicate n t) = 0"
  by (induction n) (simp_all add: total_def)

lemma total_update [simp]: "i < length ts \<Longrightarrow> total f (ts[i := t]) = total_but f i ts + f t"
  by (simp add: upd_conv_take_nth_drop total_but_def total_def ac_simps)

lemma total_at: "i < length ts \<Longrightarrow> total f ts = total_but f i ts + f (ts ! i)"
  using total_update [of i ts f "ts ! i"] by simp

end
