(* ===== verification/Pool.thy ===== *)
theory Pool
  imports Effects Counting "HOL-Library.Multiset"
begin

text \<open>
  \<^verbatim>\<open>include/jaal/kernel/pool.hpp\<close>: shared workers over one queue, isolated threads counted in before they exist,
  and a shutdown that waits for both within one grace. Each critical section is a definition on the core;
  a step relation interleaves posters, workers, isolated threads, their notifications and the thread that
  shuts down. Jobs are names; what one throws is given when it ends.
\<close>

section \<open>The core and its critical sections\<close>

record 'j core =
  pl_queue :: "'j list"
  pl_isolated :: "nat list"
  pl_idle :: nat
  pl_exited :: nat
  pl_to_exit :: nat
  pl_iso_running :: nat
  pl_max :: nat
  pl_stopping :: bool

definition new_core :: "nat \<Rightarrow> nat \<Rightarrow> 'j core" where
  "new_core max_workers hardware =
     \<lparr>pl_queue = [], pl_isolated = [], pl_idle = 0, pl_exited = 0, pl_to_exit = 0, pl_iso_running = 0,
      pl_max = (if max_workers \<noteq> 0 then max_workers else max 4 hardware), pl_stopping = False\<rparr>"

text \<open>
  \<^verbatim>\<open>post_job\<close> with \<open>n\<close> workers: whether the job is taken, and whether a worker is spawned, which the operating
  system may refuse.
\<close>

definition post_job :: "bool \<Rightarrow> 'j \<Rightarrow> nat \<Rightarrow> 'j core \<Rightarrow> bool \<times> bool \<times> 'j core" where
  "post_job os_ok j n c =
     (if pl_stopping c then (False, False, c)
      else let c1 = c\<lparr>pl_queue := pl_queue c @ [j]\<rparr>
           in (True, length (pl_queue c1) > pl_idle c1 \<and> n < pl_max c1 \<and> os_ok, c1))"

definition iso_enter :: "'j core \<Rightarrow> 'j core option" where
  "iso_enter c = (if pl_stopping c then None else Some (c\<lparr>pl_iso_running := pl_iso_running c + 1\<rparr>))"

definition iso_leave :: "'j core \<Rightarrow> 'j core" where
  "iso_leave c = c\<lparr>pl_iso_running := pl_iso_running c - 1\<rparr>"

text \<open>
  Registering the new thread's stop source, for which there may be no memory; whether the thread has to be
  stopped at once.
\<close>

definition iso_register :: "bool \<Rightarrow> nat \<Rightarrow> 'j core \<Rightarrow> bool \<times> 'j core" where
  "iso_register mem_ok k c =
     (if pl_stopping c then (True, c)
      else if mem_ok then (False, c\<lparr>pl_isolated := pl_isolated c @ [k]\<rparr>) else (True, c))"

definition worker_idle :: "'j core \<Rightarrow> 'j core" where
  "worker_idle c = c\<lparr>pl_idle := pl_idle c + 1\<rparr>"

definition worker_ready :: "bool \<Rightarrow> 'j core \<Rightarrow> bool" where
  "worker_ready st c \<longleftrightarrow> pl_stopping c \<or> st \<or> pl_queue c \<noteq> []"

definition worker_take :: "bool \<Rightarrow> 'j core \<Rightarrow> 'j option \<times> 'j core" where
  "worker_take st c =
     (let c1 = c\<lparr>pl_idle := pl_idle c - 1\<rparr>
      in if pl_stopping c1 \<or> st then (None, c1) else (Some (hd (pl_queue c1)), c1\<lparr>pl_queue := tl (pl_queue c1)\<rparr>))"

definition worker_exit :: "'j core \<Rightarrow> 'j core" where
  "worker_exit c = c\<lparr>pl_exited := pl_exited c + 1\<rparr>"

text \<open>The start of a shutdown with \<open>n\<close> workers: whether it goes on to wait, the jobs dropped, the isolated
  threads asked to stop, whether the workers were taken over.\<close>

definition shut_begin :: "bool \<Rightarrow> nat \<Rightarrow> 'j core \<Rightarrow> bool \<times> 'j list \<times> nat list \<times> bool \<times> 'j core" where
  "shut_begin rewait n c =
     (if pl_stopping c then (rewait, [], [], False, c)
      else (True, pl_queue c, pl_isolated c, True,
            c\<lparr>pl_stopping := True, pl_queue := [], pl_isolated := [], pl_to_exit := n\<rparr>))"

definition shut_done :: "nat \<Rightarrow> 'j core \<Rightarrow> bool" where
  "shut_done n c \<longleftrightarrow> n \<le> pl_exited c \<and> pl_iso_running c = 0"

definition shut_abandoned :: "nat \<Rightarrow> 'j core \<Rightarrow> nat" where
  "shut_abandoned n c = (n - min (pl_exited c) n) + pl_iso_running c"

section \<open>Threads\<close>

text \<open>
  A worker before its wait, waiting, running a job, past the loop, counted out and about to notify, ended; a
  poster of an isolated job that is counted in, refused a thread, about to register it; an isolated thread
  running, past its job, counted out and about to notify; and anything over.
\<close>

datatype 'j thread =
    WEnter | WWait | WRun 'j | WLeave | WOut | WEnd
  | PCount 'j | PRefused 'j | PReg nat | IRun 'j | ILeave | IOut | Gone

datatype shutter = SOff | STest nat | SAsleep nat | SLate nat | SBack nat

record 'j psys =
  ps_core :: "'j core"
  ps_workers :: nat
  ps_threads :: "'j thread list"
  ps_stop :: "nat set"
  ps_shut :: shutter
  ps_posted :: "'j multiset"
  ps_ended :: "'j multiset"
  ps_dropped :: "'j multiset"
  ps_errors :: "exc list"

definition pool_init :: "nat \<Rightarrow> nat \<Rightarrow> 'j psys" where
  "pool_init mx hw =
     \<lparr>ps_core = new_core mx hw, ps_workers = 0, ps_threads = [], ps_stop = {}, ps_shut = SOff, ps_posted = {#}, ps_ended = {#},
      ps_dropped = {#}, ps_errors = []\<rparr>"

text \<open>A taken job on the queue, with the worker spawned for it.\<close>

definition enqueued :: "bool \<Rightarrow> 'j core \<Rightarrow> 'j psys \<Rightarrow> 'j psys" where
  "enqueued spawn c s =
     (if spawn then s\<lparr>ps_core := c, ps_workers := ps_workers s + 1, ps_threads := ps_threads s @ [WEnter]\<rparr> else s\<lparr>ps_core := c\<rparr>)"

definition at_thread :: "nat \<Rightarrow> 'j thread \<Rightarrow> 'j psys \<Rightarrow> bool" where
  "at_thread i t s \<longleftrightarrow> i < length (ps_threads s) \<and> ps_threads s ! i = t"

definition goto :: "nat \<Rightarrow> 'j thread \<Rightarrow> 'j psys \<Rightarrow> 'j psys" where
  "goto i t s = s\<lparr>ps_threads := (ps_threads s)[i := t]\<rparr>"

text \<open>\<^verbatim>\<open>run_guarded\<close> ends: an exception goes to the error callback and no further.\<close>

definition job_over :: "'j \<Rightarrow> exc option \<Rightarrow> 'j psys \<Rightarrow> 'j psys" where
  "job_over j x s = s\<lparr>ps_ended := add_mset j (ps_ended s), ps_errors := ps_errors s @ (case x of None \<Rightarrow> [] | Some ex \<Rightarrow> [ex])\<rparr>"

fun is_worker :: "'j thread \<Rightarrow> bool" where
  "is_worker WEnter = True" | "is_worker WWait = True" | "is_worker (WRun _) = True" | "is_worker WLeave = True"
| "is_worker WOut = True" | "is_worker WEnd = True" | "is_worker _ = False"

text \<open>The workers a shutdown takes over, by the index of their thread.\<close>

definition taken_over :: "bool \<Rightarrow> 'j psys \<Rightarrow> nat set" where
  "taken_over taken s = (if taken then set (filter (\<lambda>i. is_worker (ps_threads s ! i)) [0..<length (ps_threads s)]) else {})"

definition woken :: "shutter \<Rightarrow> shutter" where
  "woken w = (case w of SAsleep n \<Rightarrow> STest n | _ \<Rightarrow> w)"

text \<open>
  The steps. \<open>reliable\<close> says that the operating system never refuses a thread. The notification of a leaver
  is a step of its own; a refused poster counts out without one.
\<close>

inductive pstep :: "bool \<Rightarrow> 'j psys \<Rightarrow> 'j psys \<Rightarrow> bool" for reliable where
  p_post: "post_job ok j (ps_workers s) (ps_core s) = (True, spawn, c) \<Longrightarrow> ok \<or> \<not> reliable \<Longrightarrow>
    pstep reliable s (enqueued spawn c (s\<lparr>ps_posted := add_mset j (ps_posted s)\<rparr>))"
| p_iso: "iso_enter (ps_core s) = Some c \<Longrightarrow>
    pstep reliable s (s\<lparr>ps_core := c, ps_threads := ps_threads s @ [PCount j], ps_posted := add_mset j (ps_posted s)\<rparr>)"
| p_create: "at_thread i (PCount j) s \<Longrightarrow>
    pstep reliable s (s\<lparr>ps_threads := (ps_threads s)[i := PReg (length (ps_threads s))] @ [IRun j]\<rparr>)"
| p_refuse: "at_thread i (PCount j) s \<Longrightarrow> \<not> reliable \<Longrightarrow>
    pstep reliable s (goto i (PRefused j) (s\<lparr>ps_core := iso_leave (ps_core s)\<rparr>))"
| p_repost: "at_thread i (PRefused j) s \<Longrightarrow> post_job ok j (ps_workers s) (ps_core s) = (True, spawn, c) \<Longrightarrow> ok \<or> \<not> reliable \<Longrightarrow>
    pstep reliable s (enqueued spawn c (goto i Gone s))"
| p_redrop: "at_thread i (PRefused j) s \<Longrightarrow> post_job ok j (ps_workers s) (ps_core s) = (False, spawn, c) \<Longrightarrow>
    pstep reliable s (goto i Gone (s\<lparr>ps_dropped := add_mset j (ps_dropped s)\<rparr>))"
| p_register: "at_thread i (PReg k) s \<Longrightarrow> iso_register mem_ok k (ps_core s) = (stp, c) \<Longrightarrow>
    pstep reliable s (goto i Gone (s\<lparr>ps_core := c, ps_stop := (if stp then insert k (ps_stop s) else ps_stop s)\<rparr>))"
| p_iso_over: "at_thread i (IRun j) s \<Longrightarrow> pstep reliable s (goto i ILeave (job_over j x s))"
| p_iso_leave: "at_thread i ILeave s \<Longrightarrow> pstep reliable s (goto i IOut (s\<lparr>ps_core := iso_leave (ps_core s)\<rparr>))"
| p_iso_note: "at_thread i IOut s \<Longrightarrow> pstep reliable s (goto i Gone (s\<lparr>ps_shut := woken (ps_shut s)\<rparr>))"
| p_enter: "at_thread i WEnter s \<Longrightarrow> pstep reliable s (goto i WWait (s\<lparr>ps_core := worker_idle (ps_core s)\<rparr>))"
| p_take: "at_thread i WWait s \<Longrightarrow> worker_ready (i \<in> ps_stop s) (ps_core s) \<Longrightarrow>
    worker_take (i \<in> ps_stop s) (ps_core s) = (Some j, c) \<Longrightarrow> pstep reliable s (goto i (WRun j) (s\<lparr>ps_core := c\<rparr>))"
| p_break: "at_thread i WWait s \<Longrightarrow> worker_ready (i \<in> ps_stop s) (ps_core s) \<Longrightarrow>
    worker_take (i \<in> ps_stop s) (ps_core s) = (None, c) \<Longrightarrow> pstep reliable s (goto i WLeave (s\<lparr>ps_core := c\<rparr>))"
| p_over: "at_thread i (WRun j) s \<Longrightarrow> pstep reliable s (goto i WEnter (job_over j x s))"
| p_exit: "at_thread i WLeave s \<Longrightarrow> pstep reliable s (goto i WOut (s\<lparr>ps_core := worker_exit (ps_core s)\<rparr>))"
| p_note: "at_thread i WOut s \<Longrightarrow> pstep reliable s (goto i WEnd (s\<lparr>ps_shut := woken (ps_shut s)\<rparr>))"
| p_shut: "ps_shut s = SOff \<or> (\<exists>a. ps_shut s = SBack a) \<Longrightarrow> shut_begin True (ps_workers s) (ps_core s) = (True, ds, ks, taken, c) \<Longrightarrow>
    pstep reliable s (s\<lparr>ps_core := c, ps_dropped := ps_dropped s + mset ds, ps_stop := ps_stop s \<union> set ks \<union> taken_over taken s,
      ps_workers := (if taken then 0 else ps_workers s), ps_shut := STest (pl_to_exit c)\<rparr>)"
| p_done: "ps_shut s = STest n \<Longrightarrow> shut_done n (ps_core s) \<Longrightarrow> pstep reliable s (s\<lparr>ps_shut := SBack 0\<rparr>)"
| p_sleep: "ps_shut s = STest n \<Longrightarrow> \<not> shut_done n (ps_core s) \<Longrightarrow> pstep reliable s (s\<lparr>ps_shut := SAsleep n\<rparr>)"
| p_spurious: "ps_shut s = SAsleep n \<Longrightarrow> pstep reliable s (s\<lparr>ps_shut := STest n\<rparr>)"
| p_grace: "ps_shut s = SAsleep n \<Longrightarrow> \<not> shut_done n (ps_core s) \<Longrightarrow> pstep reliable s (s\<lparr>ps_shut := SLate n\<rparr>)"
| p_late: "ps_shut s = SLate n \<Longrightarrow> pstep reliable s (s\<lparr>ps_shut := SBack (shut_abandoned n (ps_core s))\<rparr>)"

section \<open>Counting threads\<close>

fun worker_out :: "'j thread \<Rightarrow> bool" where
  "worker_out WOut = True" | "worker_out WEnd = True" | "worker_out _ = False"

fun iso_busy :: "'j thread \<Rightarrow> bool" where
  "iso_busy (PCount _) = True" | "iso_busy (IRun _) = True" | "iso_busy ILeave = True" | "iso_busy _ = False"

fun owes_note :: "'j thread \<Rightarrow> bool" where
  "owes_note WOut = True" | "owes_note IOut = True" | "owes_note _ = False"

fun waiting :: "'j thread \<Rightarrow> bool" where
  "waiting WWait = True" | "waiting _ = False"

text \<open>Neither counted out nor done: what a shutdown waits for.\<close>

definition still_in :: "'j thread \<Rightarrow> bool" where
  "still_in t \<longleftrightarrow> is_worker t \<and> \<not> worker_out t \<or> iso_busy t"

fun runs_job :: "'j thread \<Rightarrow> bool" where
  "runs_job (WRun _) = True" | "runs_job (IRun _) = True" | "runs_job _ = False"

fun job_of :: "'j thread \<Rightarrow> 'j multiset" where
  "job_of (WRun j) = {#j#}" | "job_of (PCount j) = {#j#}" | "job_of (PRefused j) = {#j#}" | "job_of (IRun j) = {#j#}"
| "job_of _ = {#}"

abbreviation jobs_in :: "'j thread list \<Rightarrow> 'j multiset" where
  "jobs_in \<equiv> total job_of"

lemma at_thread_jobs:
  "at_thread i t s \<Longrightarrow>
   i < length (ps_threads s) \<and> ps_threads s ! i = t \<and> jobs_in (ps_threads s) = total_but job_of i (ps_threads s) + job_of t"
  unfolding at_thread_def using total_at by blast

lemma still_in_split: "cnt still_in ts = (cnt is_worker ts - cnt worker_out ts) + cnt iso_busy ts"
proof -
  have "cnt worker_out ts \<le> cnt is_worker ts \<and> cnt still_in ts + cnt worker_out ts = cnt is_worker ts + cnt iso_busy ts"
    unfolding cnt_def
  proof (induction ts)
    case (Cons t ts)
    then show ?case by (cases t) (auto simp: still_in_def)
  qed simp
  then show ?thesis by linarith
qed

lemma counted_in: "i < length ts \<Longrightarrow> ts ! i = PCount j \<Longrightarrow> 0 < cnt iso_busy ts"
  by (rule cnt_pos) auto

lemmas pool_core_defs =
  post_job_def iso_enter_def iso_leave_def iso_register_def worker_idle_def worker_ready_def worker_take_def
  worker_exit_def shut_begin_def enqueued_def at_thread_def goto_def job_over_def Let_def

section \<open>What every step keeps\<close>

definition counts_ok :: "'j psys \<Rightarrow> bool" where
  "counts_ok s \<longleftrightarrow> pl_iso_running (ps_core s) = cnt iso_busy (ps_threads s)
     \<and> pl_exited (ps_core s) = cnt worker_out (ps_threads s) \<and> pl_idle (ps_core s) = cnt waiting (ps_threads s)"

lemma counts_ok_step: "pstep r s s' \<Longrightarrow> counts_ok s \<Longrightarrow> counts_ok s'"
  unfolding counts_ok_def
  by (induction rule: pstep.induct)
    (auto simp: pool_core_defs cnt_update dest: counted_in split: if_splits)

definition phase_ok :: "'j psys \<Rightarrow> bool" where
  "phase_ok s \<longleftrightarrow>
     (if pl_stopping (ps_core s)
      then pl_to_exit (ps_core s) = cnt is_worker (ps_threads s) \<and> pl_queue (ps_core s) = [] \<and> ps_shut s \<noteq> SOff
      else ps_workers s = cnt is_worker (ps_threads s) \<and> ps_shut s = SOff \<and> ps_dropped s = {#})"

lemma phase_ok_step: "pstep r s s' \<Longrightarrow> phase_ok s \<Longrightarrow> phase_ok s'"
  unfolding phase_ok_def
  by (induction rule: pstep.induct)
    (auto simp: pool_core_defs woken_def cnt_update split: if_splits shutter.splits)

definition shutter_ok :: "'j psys \<Rightarrow> bool" where
  "shutter_ok s \<longleftrightarrow>
     (case ps_shut s of SOff \<Rightarrow> True
      | STest n \<Rightarrow> n = pl_to_exit (ps_core s) | SAsleep n \<Rightarrow> n = pl_to_exit (ps_core s) | SLate n \<Rightarrow> n = pl_to_exit (ps_core s)
      | SBack a \<Rightarrow> pl_to_exit (ps_core s) - pl_exited (ps_core s) + pl_iso_running (ps_core s) \<le> a)"

lemma shutter_ok_step: "pstep r s s' \<Longrightarrow> phase_ok s \<Longrightarrow> shutter_ok s \<Longrightarrow> shutter_ok s'"
  unfolding shutter_ok_def phase_ok_def
  by (induction rule: pstep.induct)
    (auto simp: pool_core_defs woken_def shut_done_def shut_abandoned_def min_def split: if_splits shutter.splits)

text \<open>A sleeping shutdown whose condition holds has a notification on its way, when no thread was refused.\<close>

definition wake_ok :: "'j psys \<Rightarrow> bool" where
  "wake_ok s \<longleftrightarrow> (\<forall>n. ps_shut s = SAsleep n \<longrightarrow> shut_done n (ps_core s) \<longrightarrow> 0 < cnt owes_note (ps_threads s))"

lemma wake_ok_step: "pstep True s s' \<Longrightarrow> phase_ok s \<Longrightarrow> wake_ok s \<Longrightarrow> wake_ok s'"
  unfolding wake_ok_def phase_ok_def
  by (induction rule: pstep.induct)
    (auto simp: pool_core_defs woken_def shut_done_def cnt_update split: if_splits shutter.splits)

definition jobs_ok :: "'j psys \<Rightarrow> bool" where
  "jobs_ok s \<longleftrightarrow> ps_posted s = mset (pl_queue (ps_core s)) + jobs_in (ps_threads s) + ps_ended s + ps_dropped s"

lemma jobs_ok_step: "pstep r s s' \<Longrightarrow> phase_ok s \<Longrightarrow> jobs_ok s \<Longrightarrow> jobs_ok s'"
  unfolding jobs_ok_def phase_ok_def
  by (induction rule: pstep.induct)
    (auto simp: post_job_def iso_enter_def iso_leave_def iso_register_def worker_idle_def worker_ready_def worker_take_def
       worker_exit_def shut_begin_def enqueued_def goto_def job_over_def Let_def neq_Nil_conv dest!: at_thread_jobs split: if_splits)

text \<open>Every thread that runs a job can be told to stop, and is once the pool is stopping.\<close>

definition told :: "'j thread list \<Rightarrow> nat set \<Rightarrow> nat list \<Rightarrow> bool \<Rightarrow> bool" where
  "told ts st is b \<longleftrightarrow> (\<forall>i < length ts.
     (\<forall>j. ts ! i = IRun j \<longrightarrow> PReg i \<in> set ts \<or> i \<in> st \<or> i \<in> set is) \<and> (b \<longrightarrow> is_worker (ts ! i) \<longrightarrow> i \<in> st))
     \<and> (b \<longrightarrow> is = [])"

abbreviation stops_ok :: "'j psys \<Rightarrow> bool" where
  "stops_ok s \<equiv> told (ps_threads s) (ps_stop s) (pl_isolated (ps_core s)) (pl_stopping (ps_core s))"

lemma set_update_other: "x \<in> set ts \<Longrightarrow> i < length ts \<Longrightarrow> x \<noteq> ts ! i \<Longrightarrow> x \<in> set (ts[i := u])"
  by (metis in_set_conv_nth length_list_update nth_list_update_neq)

lemma told_move:
  assumes "told ts st is b" "i < length ts" "\<forall>k. ts ! i \<noteq> PReg k" "\<forall>j. u \<noteq> IRun j" "is_worker u \<longrightarrow> is_worker (ts ! i)"
  shows "told (ts[i := u]) st is b"
proof -
  have "PReg k \<in> set (ts[i := u])" if "PReg k \<in> set ts" for k
    using that assms(2,3) set_update_other [of "PReg k" ts i u] by metis
  then show ?thesis
    using assms unfolding told_def by (auto simp: nth_list_update)
qed

lemma told_append:
  "told ts st is b \<Longrightarrow> \<forall>j. u \<noteq> IRun j \<Longrightarrow> is_worker u \<longrightarrow> \<not> b \<Longrightarrow> told (ts @ [u]) st is b"
  unfolding told_def by (auto simp: nth_append less_Suc_eq)

lemma told_create:
  assumes "told ts st is b" "i < length ts" "ts ! i = PCount j"
  shows "told (ts[i := PReg (length ts)] @ [IRun j]) st is b"
proof -
  have "x \<in> set ts \<Longrightarrow> x \<in> set (ts[i := PReg (length ts)]) \<or> x = PCount j" for x
    using assms set_update_other [of x ts i] by auto
  then show ?thesis
    using assms set_update_memI [of i ts "PReg (length ts)"] unfolding told_def
    by (auto simp: nth_append less_Suc_eq nth_list_update)
qed

lemma told_register:
  assumes "told ts st is b" "i < length ts" "ts ! i = PReg k"
  shows "told (ts[i := Gone]) (insert k st) is b" "\<not> b \<Longrightarrow> told (ts[i := Gone]) st (is @ [k]) b"
proof -
  have "PReg m \<in> set (ts[i := Gone]) \<or> m = k" if "PReg m \<in> set ts" for m
    using that assms(2,3) set_update_other [of "PReg m" ts i Gone] by auto
  then show "told (ts[i := Gone]) (insert k st) is b" "\<not> b \<Longrightarrow> told (ts[i := Gone]) st (is @ [k]) b"
    using assms unfolding told_def by (auto simp: nth_list_update)
qed

lemma told_shut: "told ts st is b \<Longrightarrow> told ts (st \<union> set is \<union> {i. i < length ts \<and> is_worker (ts ! i)}) [] True"
  unfolding told_def by auto

lemma stops_ok_step: "pstep r s s' \<Longrightarrow> stops_ok s \<Longrightarrow> stops_ok s'"
  by (induction rule: pstep.induct)
    (auto simp: pool_core_defs taken_over_def told_append told_create told_register told_shut told_move split: if_splits)

definition names_ok :: "'j psys \<Rightarrow> bool" where
  "names_ok s \<longleftrightarrow> (\<not> pl_stopping (ps_core s) \<longrightarrow>
     (\<forall>k. PReg k \<in> set (ps_threads s) \<or> k \<in> ps_stop s \<or> k \<in> set (pl_isolated (ps_core s)) \<longrightarrow>
        k < length (ps_threads s) \<and> \<not> is_worker (ps_threads s ! k)))"

lemma set_update_memD: "x \<in> set (ts[i := u]) \<Longrightarrow> x = u \<or> x \<in> set ts"
  using set_update_subset_insert by fastforce

lemma reg_mem: "i < length ts \<Longrightarrow> ts ! i = PReg k \<Longrightarrow> PReg k \<in> set ts"
  by (metis nth_mem)

lemma names_ok_step: "pstep r s s' \<Longrightarrow> names_ok s \<Longrightarrow> names_ok s'"
  unfolding names_ok_def
  by (induction rule: pstep.induct)
    (auto simp: pool_core_defs taken_over_def nth_list_update nth_append dest!: set_update_memD dest: reg_mem split: if_splits)

text \<open>Until the pool stops no worker leaves its loop.\<close>

fun past_loop :: "'j thread \<Rightarrow> bool" where
  "past_loop WLeave = True" | "past_loop WOut = True" | "past_loop WEnd = True" | "past_loop _ = False"

definition stays_ok :: "'j psys \<Rightarrow> bool" where
  "stays_ok s \<longleftrightarrow> (\<not> pl_stopping (ps_core s) \<longrightarrow> cnt past_loop (ps_threads s) = 0)"

lemma stays_ok_step: "pstep r s s' \<Longrightarrow> names_ok s \<Longrightarrow> stays_ok s \<Longrightarrow> stays_ok s'"
  unfolding stays_ok_def names_ok_def
  by (induction rule: pstep.induct)
    (auto simp: pool_core_defs cnt_update split: if_splits)

text \<open>A queued job has a worker, when no thread was refused.\<close>

definition served_ok :: "'j psys \<Rightarrow> bool" where
  "served_ok s \<longleftrightarrow> (0 < pl_max (ps_core s) \<and> (pl_queue (ps_core s) \<noteq> [] \<longrightarrow> 0 < cnt is_worker (ps_threads s)))"

lemma waiting_worker: "cnt is_worker ts = 0 \<Longrightarrow> cnt waiting ts = 0"
  using cnt_mono [of waiting is_worker ts] by (metis bot_nat_0.extremum_uniqueI is_worker.simps(2) waiting.elims(2))

lemma served_ok_step: "pstep True s s' \<Longrightarrow> counts_ok s \<Longrightarrow> phase_ok s \<Longrightarrow> served_ok s \<Longrightarrow> served_ok s'"
  unfolding served_ok_def phase_ok_def counts_ok_def
  by (induction rule: pstep.induct) (auto simp: pool_core_defs cnt_update waiting_worker split: if_splits)

section \<open>The reachable pools\<close>

definition pool_reach :: "bool \<Rightarrow> nat \<Rightarrow> nat \<Rightarrow> 'j psys \<Rightarrow> bool" where
  "pool_reach reliable mx hw s \<longleftrightarrow> (pstep reliable)\<^sup>*\<^sup>* (pool_init mx hw) s"

lemma pool_reach_inv:
  assumes "pool_reach r mx hw s"
  shows "counts_ok s \<and> phase_ok s \<and> shutter_ok s \<and> jobs_ok s \<and> stops_ok s \<and> names_ok s \<and> stays_ok s
    \<and> (r \<longrightarrow> wake_ok s \<and> served_ok s)"
  using assms unfolding pool_reach_def
proof (induction rule: rtranclp_induct)
  case base
  show ?case
    by (simp add: pool_init_def new_core_def counts_ok_def phase_ok_def shutter_ok_def jobs_ok_def told_def names_ok_def
      stays_ok_def wake_ok_def served_ok_def less_max_iff_disj)
next
  case (step s s')
  then have "r \<longrightarrow> wake_ok s' \<and> served_ok s'"
    by (cases r) (simp_all add: wake_ok_step [of s s'] served_ok_step [of s s'])
  with step show ?case
    by (meson counts_ok_step phase_ok_step shutter_ok_step jobs_ok_step stops_ok_step names_ok_step stays_ok_step)
qed

section \<open>A shutdown that drains\<close>

text \<open>How far each thread and the shutting thread are from the end, once the pool is stopping.\<close>

fun left :: "'j thread \<Rightarrow> nat" where
  "left WEnd = 0" | "left WOut = 1" | "left WLeave = 2" | "left WWait = 3" | "left WEnter = 4" | "left (WRun _) = 5"
| "left Gone = 0" | "left IOut = 1" | "left ILeave = 2" | "left (IRun _) = 3" | "left (PReg _) = 1" | "left (PCount _) = 5"
| "left (PRefused _) = 1"

fun shutter_left :: "shutter \<Rightarrow> nat" where
  "shutter_left SOff = 4" | "shutter_left (STest _) = 3" | "shutter_left (SAsleep _) = 2" | "shutter_left (SLate _) = 1"
| "shutter_left (SBack _) = 0"

abbreviation lefts :: "'j thread list \<Rightarrow> nat" where
  "lefts \<equiv> total left"

definition drain :: "'j psys \<Rightarrow> nat" where
  "drain s = 2 * lefts (ps_threads s) + shutter_left (ps_shut s)"

lemma lefts_less [simp]: "i < length ts \<Longrightarrow> lefts (ts[i := t]) < lefts ts \<longleftrightarrow> left t < left (ts ! i)"
  using total_at [of i ts left] total_update [of i ts left t] by linarith

lemma noted_less:
  "i < length ts \<Longrightarrow> left t < left (ts ! i) \<Longrightarrow>
   2 * lefts (ts[i := t]) + shutter_left (woken w) < 2 * lefts ts + shutter_left w"
  using total_at [of i ts left] by (cases w) (auto simp: woken_def)

text \<open>Only a wake-up nobody asked for leaves the distance as it was.\<close>

lemma drain_decreases:
  "pstep r s s' \<Longrightarrow> phase_ok s \<Longrightarrow> pl_stopping (ps_core s) \<Longrightarrow> (\<forall>a. ps_shut s \<noteq> SBack a) \<Longrightarrow>
   drain s' < drain s \<or> (\<exists>n. ps_shut s = SAsleep n \<and> s' = s\<lparr>ps_shut := STest n\<rparr>)"
proof (induction rule: pstep.induct)
  case (p_create i j s)
  then show ?case
    using total_at [of i "ps_threads s" left] by (simp add: at_thread_def drain_def)
qed (auto simp: pool_core_defs phase_ok_def drain_def noted_less simp del: total_update split: if_splits)

text \<open>The step that every unfinished thread of a stopping pool can take.\<close>

lemma still_in_steps:
  assumes "at_thread i t s" "still_in t \<or> owes_note t" "pl_stopping (ps_core s)"
  shows "\<exists>s'. pstep r s s' \<and> ps_threads s' \<noteq> ps_threads s"
proof -
  have *: ?thesis if "pstep r s s'" "ps_threads s' = (ps_threads s)[i := u]" "u \<noteq> t" for s' u
    using that assms(1) unfolding at_thread_def by (metis nth_list_update_eq)
  show ?thesis
  proof (cases t)
    case (PCount j)
    then have "pstep r s (s\<lparr>ps_threads := (ps_threads s)[i := PReg (length (ps_threads s))] @ [IRun j]\<rparr>)"
      using assms(1) by (intro p_create) simp
    moreover have "(ps_threads s)[i := PReg (length (ps_threads s))] @ [IRun j] \<noteq> ps_threads s"
      by (metis length_append_singleton length_list_update n_not_Suc_n)
    ultimately show ?thesis by force
  next
    case WWait
    then have "pstep r s (goto i WLeave (s\<lparr>ps_core := (ps_core s)\<lparr>pl_idle := pl_idle (ps_core s) - 1\<rparr>\<rparr>))"
      using assms by (intro p_break) (auto simp: worker_take_def worker_ready_def Let_def)
    then show ?thesis by (rule * [where u = WLeave]) (simp_all add: goto_def WWait)
  next
    case WEnter
    then show ?thesis using assms(1) * [OF p_enter [of i s r]] by (simp add: goto_def)
  next
    case (WRun j)
    then show ?thesis using assms(1) * [OF p_over [of i j s r None]] by (simp add: goto_def job_over_def)
  next
    case WLeave
    then show ?thesis using assms(1) * [OF p_exit [of i s r]] by (simp add: goto_def)
  next
    case WOut
    then show ?thesis using assms(1) * [OF p_note [of i s r]] by (simp add: goto_def)
  next
    case (IRun j)
    then show ?thesis using assms(1) * [OF p_iso_over [of i j s r None]] by (simp add: goto_def job_over_def)
  next
    case ILeave
    then show ?thesis using assms(1) * [OF p_iso_leave [of i s r]] by (simp add: goto_def)
  next
    case IOut
    then show ?thesis using assms(1) * [OF p_iso_note [of i s r]] by (simp add: goto_def)
  qed (use assms(2) in \<open>simp_all add: still_in_def\<close>)
qed

lemma shutter_steps:
  assumes "phase_ok s" "shutter_ok s" "counts_ok s" "wake_ok s" "pl_stopping (ps_core s)" "\<forall>a. ps_shut s \<noteq> SBack a"
  shows "\<exists>s'. pstep r s s' \<and> drain s' < drain s"
proof (cases "\<exists>i t. at_thread i t s \<and> (still_in t \<or> owes_note t)")
  case True
  then obtain s' where s': "pstep r s s'" "ps_threads s' \<noteq> ps_threads s"
    using still_in_steps assms(5) by blast
  then have "drain s' < drain s" using drain_decreases [OF s'(1) assms(1,5,6)] by auto
  with s'(1) show ?thesis by blast
next
  case False
  then have none: "cnt still_in (ps_threads s) = 0" "cnt owes_note (ps_threads s) = 0"
    unfolding at_thread_def using cnt_posD [of still_in "ps_threads s"] cnt_posD [of owes_note "ps_threads s"] by blast+
  have out: "shut_done (pl_to_exit (ps_core s)) (ps_core s)"
    using none(1) assms(1,3,5) by (simp add: still_in_split shut_done_def phase_ok_def counts_ok_def)
  show ?thesis
  proof (cases "ps_shut s")
    case (STest n)
    with out assms(2) have "pstep r s (s\<lparr>ps_shut := SBack 0\<rparr>)" by (intro p_done) (auto simp: shutter_ok_def)
    then show ?thesis using STest by (force simp: drain_def)
  next
    case (SAsleep n)
    with out none assms(2,4) show ?thesis by (auto simp: shutter_ok_def wake_ok_def)
  next
    case (SLate n)
    then have "pstep r s (s\<lparr>ps_shut := SBack (shut_abandoned n (ps_core s))\<rparr>)" by (rule p_late)
    then show ?thesis using SLate by (force simp: drain_def)
  qed (use assms in \<open>auto simp: phase_ok_def\<close>)
qed

section \<open>Two runs\<close>

text \<open>One job posted and never taken, and an isolated one; each pool is then shut down.\<close>

lemma pool_step: "pool_reach r mx hw s \<Longrightarrow> pstep r s s' \<Longrightarrow> pool_reach r mx hw s'"
  unfolding pool_reach_def by (rule rtranclp.rtrancl_into_rtrancl)

definition demo_core :: "nat list \<Rightarrow> nat list \<Rightarrow> nat \<Rightarrow> nat \<Rightarrow> bool \<Rightarrow> nat core" where
  "demo_core q is n k b =
     \<lparr>pl_queue = q, pl_isolated = is, pl_idle = 0, pl_exited = 0, pl_to_exit = n, pl_iso_running = k, pl_max = 1, pl_stopping = b\<rparr>"

definition demo_posted :: "nat psys" where
  "demo_posted = \<lparr>ps_core = demo_core [7] [] 0 0 False, ps_workers = 1, ps_threads = [WEnter], ps_stop = {}, ps_shut = SOff,
     ps_posted = {#7#}, ps_ended = {#}, ps_dropped = {#}, ps_errors = []\<rparr>"

definition demo_shut :: "shutter \<Rightarrow> nat psys" where
  "demo_shut w = \<lparr>ps_core = demo_core [] [] 1 0 True, ps_workers = 0, ps_threads = [WEnter], ps_stop = {0}, ps_shut = w,
     ps_posted = {#7#}, ps_ended = {#}, ps_dropped = {#7#}, ps_errors = []\<rparr>"

definition demo_iso :: "nat thread list \<Rightarrow> nat list \<Rightarrow> nat set \<Rightarrow> bool \<Rightarrow> shutter \<Rightarrow> nat psys" where
  "demo_iso ts is st b w = \<lparr>ps_core = demo_core [] is 0 1 b, ps_workers = 0, ps_threads = ts, ps_stop = st, ps_shut = w,
     ps_posted = {#7#}, ps_ended = {#}, ps_dropped = {#}, ps_errors = []\<rparr>"

lemmas demo_defs = demo_core_def demo_posted_def demo_shut_def demo_iso_def pool_init_def new_core_def

lemma demo_posted_reach: "pool_reach r 1 1 demo_posted"
proof -
  have "pstep r (pool_init 1 1) demo_posted"
    using p_post [of True 7 "pool_init 1 1" True "demo_core [7] [] 0 0 False" r]
    by (simp add: demo_defs post_job_def enqueued_def Let_def)
  then show ?thesis by (simp add: pool_reach_def)
qed

lemma demo_shut_reach: "pool_reach r 1 1 (demo_shut (STest 1))"
proof -
  have "pstep r demo_posted (demo_shut (STest 1))"
    using p_shut [of demo_posted "[7]" "[]" True "demo_core [] [] 1 0 True" r]
    by (simp add: demo_defs shut_begin_def taken_over_def)
  then show ?thesis by (rule pool_step [OF demo_posted_reach])
qed

lemma demo_late_reach: "pool_reach r 1 1 (demo_shut (SBack 1))"
proof -
  have "pstep r (demo_shut (STest 1)) (demo_shut (SAsleep 1))"
    using p_sleep [of "demo_shut (STest 1)" 1 r] by (simp add: demo_defs shut_done_def)
  moreover have "pstep r (demo_shut (SAsleep 1)) (demo_shut (SLate 1))"
    using p_grace [of "demo_shut (SAsleep 1)" 1 r] by (simp add: demo_defs shut_done_def)
  moreover have "pstep r (demo_shut (SLate 1)) (demo_shut (SBack 1))"
    using p_late [of "demo_shut (SLate 1)" 1 r] by (simp add: demo_defs shut_abandoned_def)
  ultimately show ?thesis by (metis demo_shut_reach pool_step)
qed

lemma demo_counted_reach: "pool_reach r 1 1 (demo_iso [PCount 7] [] {} False SOff)"
proof -
  have "pstep r (pool_init 1 1) (demo_iso [PCount 7] [] {} False SOff)"
    using p_iso [of "pool_init 1 1" "demo_core [] [] 0 1 False" r 7] by (simp add: demo_defs iso_enter_def)
  then show ?thesis by (simp add: pool_reach_def)
qed

lemma demo_iso_reach: "pool_reach r 1 1 (demo_iso [Gone, IRun 7] [] {1} True (STest 0))"
proof -
  have "pstep r (demo_iso [PCount 7] [] {} False SOff) (demo_iso [PReg 1, IRun 7] [] {} False SOff)"
    using p_create [of 0 7 "demo_iso [PCount 7] [] {} False SOff" r] by (simp add: demo_defs at_thread_def)
  moreover have "pstep r (demo_iso [PReg 1, IRun 7] [] {} False SOff) (demo_iso [Gone, IRun 7] [1] {} False SOff)"
    using p_register [of 0 1 "demo_iso [PReg 1, IRun 7] [] {} False SOff" True False "demo_core [] [1] 0 1 False" r]
    by (simp add: demo_defs at_thread_def goto_def iso_register_def)
  moreover have "pstep r (demo_iso [Gone, IRun 7] [1] {} False SOff) (demo_iso [Gone, IRun 7] [] {1} True (STest 0))"
    using p_shut [of "demo_iso [Gone, IRun 7] [1] {} False SOff" "[]" "[1]" True "demo_core [] [] 0 1 True" r]
    by (simp add: demo_defs shut_begin_def taken_over_def)
  ultimately show ?thesis by (metis demo_counted_reach pool_step)
qed

definition demo_refused :: "nat thread list \<Rightarrow> nat \<Rightarrow> nat multiset \<Rightarrow> shutter \<Rightarrow> nat psys" where
  "demo_refused ts k ds w = \<lparr>ps_core = demo_core [] [] 0 k True, ps_workers = 0, ps_threads = ts, ps_stop = {}, ps_shut = w,
     ps_posted = {#7#}, ps_ended = {#}, ps_dropped = ds, ps_errors = []\<rparr>"

lemma demo_refused_reach: "pool_reach False 1 1 (demo_refused [Gone] 0 {#7#} (SAsleep 0))"
proof -
  have "pstep False (demo_iso [PCount 7] [] {} False SOff) (demo_refused [PCount 7] 1 {#} (STest 0))"
    using p_shut [of "demo_iso [PCount 7] [] {} False SOff" "[]" "[]" True "demo_core [] [] 0 1 True" False]
    by (simp add: demo_defs demo_refused_def shut_begin_def taken_over_def)
  moreover have "pstep False (demo_refused [PCount 7] 1 {#} (STest 0)) (demo_refused [PCount 7] 1 {#} (SAsleep 0))"
    using p_sleep [of "demo_refused [PCount 7] 1 {#} (STest 0)" 0 False] by (simp add: demo_defs demo_refused_def shut_done_def)
  moreover have "pstep False (demo_refused [PCount 7] 1 {#} (SAsleep 0)) (demo_refused [PRefused 7] 0 {#} (SAsleep 0))"
    using p_refuse [of 0 7 "demo_refused [PCount 7] 1 {#} (SAsleep 0)" False]
    by (simp add: demo_defs demo_refused_def at_thread_def goto_def iso_leave_def)
  moreover have "pstep False (demo_refused [PRefused 7] 0 {#} (SAsleep 0)) (demo_refused [Gone] 0 {#7#} (SAsleep 0))"
    using p_redrop [of 0 7 "demo_refused [PRefused 7] 0 {#} (SAsleep 0)" True False "demo_core [] [] 0 0 True" False]
    by (simp add: demo_defs demo_refused_def at_thread_def goto_def post_job_def)
  ultimately show ?thesis by (metis demo_counted_reach pool_step)
qed

section \<open>What the pool promises\<close>

text \<open>C16: what \<^verbatim>\<open>shutdown\<close> returns bounds what is still running: when it has returned \<open>a\<close>, and ever after, at most
  \<open>a\<close> workers and isolated threads have not left, whatever thread was refused; when it returned 0 nothing runs.\<close>

theorem pool_shutdown_bound:
  assumes "pool_reach r mx hw s" "ps_shut s = SBack a"
  shows "pl_stopping (ps_core s) \<and> cnt still_in (ps_threads s) \<le> a"
  using pool_reach_inv [OF assms(1)] assms(2)
  by (auto simp: still_in_split counts_ok_def phase_ok_def shutter_ok_def split: if_splits)

theorem pool_shutdown_bound_witness:
  "ps_shut (demo_shut (SBack 1)) = SBack 1 \<and> pl_stopping (ps_core (demo_shut (SBack 1)))
   \<and> cnt still_in (ps_threads (demo_shut (SBack 1))) \<le> 1"
  using pool_shutdown_bound [OF demo_late_reach, of 1] by (simp add: demo_shut_def)



text \<open>C18: no job is lost or run twice: the jobs taken are, counted with their repetitions, those queued, those a
  thread has in hand, those that ended and those dropped, and none is dropped before the pool is shut down.\<close>

theorem pool_jobs_conserved:
  assumes "pool_reach r mx hw s"
  shows "ps_posted s = mset (pl_queue (ps_core s)) + jobs_in (ps_threads s) + ps_ended s + ps_dropped s
     \<and> (pl_stopping (ps_core s) \<or> ps_dropped s = {#})"
  using pool_reach_inv [OF assms] by (simp add: jobs_ok_def phase_ok_def split: if_splits)

theorem pool_jobs_conserved_witness:
  "ps_posted demo_posted = mset (pl_queue (ps_core demo_posted)) + jobs_in (ps_threads demo_posted) + ps_ended demo_posted
     + ps_dropped demo_posted \<and> ps_dropped demo_posted = {#}"
  using pool_jobs_conserved [OF demo_posted_reach [of True]] by (simp add: demo_posted_def demo_core_def)

text \<open>A queued job has somebody to run it, when every thread asked for is created: a worker that has not left
  its loop.\<close>

theorem pool_jobs_served:
  assumes "pool_reach True mx hw s" "pl_queue (ps_core s) \<noteq> []"
  shows "\<exists>i t. at_thread i t s \<and> is_worker t \<and> \<not> past_loop t"
proof -
  have "0 < cnt is_worker (ps_threads s)" and out: "cnt past_loop (ps_threads s) = 0"
    using pool_reach_inv [OF assms(1)] assms(2) by (auto simp: served_ok_def stays_ok_def phase_ok_def split: if_splits)
  then obtain i where "i < length (ps_threads s)" "is_worker (ps_threads s ! i)" using cnt_posD by blast
  with out show ?thesis using cnt_pos [of i "ps_threads s" past_loop] unfolding at_thread_def by auto
qed

theorem pool_jobs_served_witness:
  "\<exists>i t. at_thread i t demo_posted \<and> is_worker t \<and> \<not> past_loop t"
  using pool_jobs_served [OF demo_posted_reach] by (simp add: demo_posted_def demo_core_def)

text \<open>Once a pool is stopping, every job still running has been asked to stop, or is about to be by the poster
  that has its stop source in hand.\<close>

theorem pool_asks_to_stop:
  assumes "pool_reach r mx hw s" "pl_stopping (ps_core s)" "at_thread i t s" "runs_job t"
  shows "i \<in> ps_stop s \<or> (\<exists>k. at_thread k (PReg i) s)"
proof -
  have "stops_ok s" using pool_reach_inv [OF assms(1)] by blast
  with assms(2-4) show ?thesis
    by (cases t) (auto simp: told_def at_thread_def in_set_conv_nth)
qed

theorem pool_asks_to_stop_witness:
  "runs_job (IRun 7 :: nat thread) \<and> (1 \<in> ps_stop (demo_iso [Gone, IRun 7] [] {1} True (STest 0))
     \<or> (\<exists>k. at_thread k (PReg 1) (demo_iso [Gone, IRun 7] [] {1} True (STest 0))))"
  using pool_asks_to_stop [OF demo_iso_reach, of 1 "IRun 7"] by (simp add: demo_iso_def demo_core_def at_thread_def)

text \<open>When the operating system refuses the thread of an isolated job that a shutdown is already waiting for,
  the count goes to zero without a notification: the shutdown sleeps with its condition true, and nothing but a
  wake-up nobody asked for can move it.\<close>

theorem pool_refused_thread_unnotified:
  "\<exists>s :: nat psys. pool_reach False 1 1 s \<and> ps_shut s = SAsleep 0 \<and> shut_done 0 (ps_core s)
     \<and> {s'. pstep False s s'} = {s\<lparr>ps_shut := STest 0\<rparr>}"
proof -
  let ?s = "demo_refused [Gone] 0 {#7#} (SAsleep 0)"
  have "s' = ?s\<lparr>ps_shut := STest 0\<rparr>" if "pstep False ?s s'" for s'
    using that by (auto elim!: pstep.cases simp: demo_refused_def demo_core_def pool_core_defs less_Suc_eq shut_done_def)
  moreover have "pstep False ?s (?s\<lparr>ps_shut := STest 0\<rparr>)" by (rule p_spurious) (simp add: demo_refused_def)
  ultimately have "{s'. pstep False ?s s'} = {?s\<lparr>ps_shut := STest 0\<rparr>}" by blast
  moreover have "ps_shut ?s = SAsleep 0 \<and> shut_done 0 (ps_core ?s)"
    by (simp add: demo_refused_def demo_core_def shut_done_def)
  ultimately show ?thesis using demo_refused_reach by blast
qed

end
