(* ===== verification/Scope.thy ===== *)
theory Scope
  imports Effects Counting "HOL-Library.Multiset"
begin

text \<open>
  \<^verbatim>\<open>include/jaal/kernel/scope.hpp\<close>: \<^verbatim>\<open>scope\<close>, whose nursery joins every helper before it returns, and
  \<^verbatim>\<open>parallel_for\<close>, whose shares claim indices from one counter. Helpers are threads that interleave with
  the owner; a join is a step that is possible only when the thread has ended.
\<close>

section \<open>The nursery\<close>

text \<open>
  One helper: whether it still runs, the error in its slot, and whether \<^verbatim>\<open>join\<close> has looked at it. A helper whose
  thread could not be created never ran.
\<close>

record helper =
  h_running :: bool
  h_error :: "exc option"
  h_observed :: bool

definition new_helper :: "bool \<Rightarrow> helper" where
  "new_helper created = \<lparr>h_running = created, h_error = None, h_observed = False\<rparr>"

text \<open>The owner: in the block, waiting for a helper whose handle is joined (with the group it belongs to) or
  destroyed, joining those it started when the next was refused a thread, unwinding with an error, waiting for all helpers, and returned.\<close>

datatype 'v owner =
    InBlock
  | Joining "nat list"
  | Dropping nat
  | Draining "nat list" exc
  | Unwinding exc
  | JoinAll "exc option" "'v option"
  | Returned_with "exc + 'v option"

record 'v nursery =
  n_stop :: bool
  n_entries :: "helper list"
  n_owner :: "'v owner"

definition new_nursery :: "bool \<Rightarrow> 'v nursery" where
  "new_nursery parent_stopped = \<lparr>n_stop = parent_stopped, n_entries = [], n_owner = InBlock\<rparr>"

text \<open>\<^verbatim>\<open>take_error\<close>: the error leaves the slot.\<close>

definition take_error :: "nat \<Rightarrow> helper list \<Rightarrow> exc option \<times> helper list" where
  "take_error i hs = (h_error (hs ! i), hs[i := (hs ! i)\<lparr>h_error := None\<rparr>])"

text \<open>The end of \<^verbatim>\<open>handle::join\<close> and \<^verbatim>\<open>helper_group::join\<close>: the first error among these helpers is taken.\<close>

fun first_error :: "nat list \<Rightarrow> helper list \<Rightarrow> exc option \<times> helper list" where
  "first_error [] hs = (None, hs)"
| "first_error (i # is) hs =
     (case take_error i hs of (Some x, hs1) \<Rightarrow> (Some x, hs1) | (None, hs1) \<Rightarrow> first_error is hs1)"

definition observe :: "nat list \<Rightarrow> helper list \<Rightarrow> helper list" where
  "observe is hs = map (\<lambda>(i, h). if i \<in> set is then h\<lparr>h_observed := True\<rparr> else h) (enumerate 0 hs)"

definition ended :: "nat list \<Rightarrow> helper list \<Rightarrow> bool" where
  "ended is hs \<longleftrightarrow> (\<forall>i \<in> set is. i < length hs \<and> \<not> h_running (hs ! i))"

text \<open>\<^verbatim>\<open>join_all\<close> after the joins: the first error nobody observed.\<close>

definition unobserved_error :: "helper list \<Rightarrow> exc option" where
  "unobserved_error hs = (case filter (\<lambda>h. \<not> h_observed h \<and> h_error h \<noteq> None) hs of [] \<Rightarrow> None | h # _ \<Rightarrow> h_error h)"

text \<open>What \<^verbatim>\<open>scope\<close> leaves with: the block's error, else a helper's, else the block's result.\<close>

definition scope_result :: "exc option \<Rightarrow> 'v option \<Rightarrow> helper list \<Rightarrow> exc + 'v option" where
  "scope_result block_error r hs =
     (case block_error of Some x \<Rightarrow> Inl x
      | None \<Rightarrow> (case unobserved_error hs of Some x \<Rightarrow> Inl x | None \<Rightarrow> Inr r))"

definition set_helper :: "nat \<Rightarrow> helper \<Rightarrow> 'v nursery \<Rightarrow> 'v nursery" where
  "set_helper i h s = s\<lparr>n_entries := (n_entries s)[i := h]\<rparr>"

text \<open>
  The steps. The block is the caller's code: it may spawn, join or drop a helper, throw or return, in any
  order. An exception asks the helpers to stop; the handles it unwinds are joined with all the rest.
\<close>

inductive nstep :: "'v nursery \<Rightarrow> 'v nursery \<Rightarrow> bool" where
  n_parent: "nstep s (s\<lparr>n_stop := True\<rparr>)"
| n_spawn: "n_owner s = InBlock \<Longrightarrow> nstep s (s\<lparr>n_entries := n_entries s @ [new_helper True]\<rparr>)"
| n_spawn_n: "n_owner s = InBlock \<Longrightarrow> nstep s (s\<lparr>n_entries := n_entries s @ replicate k (new_helper True)\<rparr>)"
| n_refused: "n_owner s = InBlock \<Longrightarrow> nstep s (s\<lparr>n_entries := n_entries s @ [new_helper False], n_owner := Unwinding x\<rparr>)"
| n_refused_n: "n_owner s = InBlock \<Longrightarrow>
    nstep s (s\<lparr>n_entries := n_entries s @ replicate k (new_helper True) @ [new_helper False], n_stop := True,
      n_owner := Draining [length (n_entries s)..<length (n_entries s) + k] x\<rparr>)"
| n_drained: "n_owner s = Draining is x \<Longrightarrow> ended is (n_entries s) \<Longrightarrow> nstep s (s\<lparr>n_owner := Unwinding x\<rparr>)"
| n_done: "i < length (n_entries s) \<Longrightarrow> h_running (n_entries s ! i) \<Longrightarrow>
    nstep s (set_helper i ((n_entries s ! i)\<lparr>h_running := False\<rparr>) s)"
| n_fail: "i < length (n_entries s) \<Longrightarrow> h_running (n_entries s ! i) \<Longrightarrow>
    nstep s (set_helper i ((n_entries s ! i)\<lparr>h_running := False, h_error := Some x\<rparr>) (s\<lparr>n_stop := True\<rparr>))"
| n_join: "n_owner s = InBlock \<Longrightarrow> \<forall>i \<in> set is. i < length (n_entries s) \<Longrightarrow>
    nstep s (s\<lparr>n_entries := observe is (n_entries s), n_owner := Joining is\<rparr>)"
| n_joined: "n_owner s = Joining is \<Longrightarrow> ended is (n_entries s) \<Longrightarrow> first_error is (n_entries s) = (r, hs) \<Longrightarrow>
    nstep s (case r of None \<Rightarrow> s\<lparr>n_entries := hs, n_owner := InBlock\<rparr> | Some x \<Rightarrow> s\<lparr>n_entries := hs, n_owner := Unwinding x\<rparr>)"
| n_drop: "n_owner s = InBlock \<Longrightarrow> i < length (n_entries s) \<Longrightarrow> nstep s (s\<lparr>n_owner := Dropping i\<rparr>)"
| n_dropped: "n_owner s = Dropping i \<Longrightarrow> ended [i] (n_entries s) \<Longrightarrow> nstep s (s\<lparr>n_owner := InBlock\<rparr>)"
| n_throw: "n_owner s = InBlock \<Longrightarrow> nstep s (s\<lparr>n_owner := Unwinding x\<rparr>)"
| n_unwound: "n_owner s = Unwinding x \<Longrightarrow> nstep s (s\<lparr>n_stop := True, n_owner := JoinAll (Some x) None\<rparr>)"
| n_caught: "n_owner s = Unwinding x \<Longrightarrow> nstep s (s\<lparr>n_owner := InBlock\<rparr>)"
| n_return: "n_owner s = InBlock \<Longrightarrow> nstep s (s\<lparr>n_owner := JoinAll None r\<rparr>)"
| n_joined_all: "n_owner s = JoinAll b r \<Longrightarrow> ended [0..<length (n_entries s)] (n_entries s) \<Longrightarrow>
    nstep s (s\<lparr>n_owner := Returned_with (scope_result b r (n_entries s))\<rparr>)"

section \<open>Shares of a parallel loop\<close>

text \<open>A share: at the loop's test, about to claim, in the body of an index, with an exception in hand, with the
  failure noted, left, ended by an exception.\<close>

datatype share = Top | Claim | Body nat | Caught exc | Failed exc | Out | Ended_by exc

record pfor =
  pf_next :: nat
  pf_failed :: bool
  pf_stop :: bool
  pf_shares :: "share list"
  pf_done :: "nat list"

definition pfor_width :: "nat \<Rightarrow> nat \<Rightarrow> nat" where
  "pfor_width width n = min (max width 1) n"

text \<open>Share 0 is the caller's, when it runs one.\<close>

definition pfor_init :: "nat \<Rightarrow> pfor" where
  "pfor_init k = \<lparr>pf_next = 0, pf_failed = False, pf_stop = False, pf_shares = replicate k Top, pf_done = []\<rparr>"

definition at_share :: "nat \<Rightarrow> share \<Rightarrow> pfor \<Rightarrow> bool" where
  "at_share k t s \<longleftrightarrow> k < length (pf_shares s) \<and> pf_shares s ! k = t"

definition go :: "nat \<Rightarrow> share \<Rightarrow> pfor \<Rightarrow> pfor" where
  "go k t s = s\<lparr>pf_shares := (pf_shares s)[k := t]\<rparr>"

definition claim :: "nat \<Rightarrow> nat \<Rightarrow> pfor \<Rightarrow> pfor" where
  "claim n k s = go k (if pf_next s \<ge> n then Out else Body (pf_next s)) (s\<lparr>pf_next := pf_next s + 1\<rparr>)"

text \<open>\<open>throws i\<close> is what the body throws at index \<open>i\<close>, if anything.\<close>

inductive fstep :: "nat \<Rightarrow> (nat \<Rightarrow> exc option) \<Rightarrow> pfor \<Rightarrow> pfor \<Rightarrow> bool" for n throws where
  f_test: "at_share k Top s \<Longrightarrow> \<not> pf_stop s \<Longrightarrow> \<not> pf_failed s \<Longrightarrow> fstep n throws s (go k Claim s)"
| f_quit: "at_share k Top s \<Longrightarrow> pf_stop s \<or> pf_failed s \<Longrightarrow> fstep n throws s (go k Out s)"
| f_claim: "at_share k Claim s \<Longrightarrow> fstep n throws s (claim n k s)"
| f_ok: "at_share k (Body i) s \<Longrightarrow> throws i = None \<Longrightarrow> fstep n throws s (go k Top (s\<lparr>pf_done := pf_done s @ [i]\<rparr>))"
| f_throw: "at_share k (Body i) s \<Longrightarrow> throws i = Some x \<Longrightarrow> fstep n throws s (go k (Caught x) s)"
| f_failed: "at_share k (Caught x) s \<Longrightarrow> fstep n throws s (go k (Failed x) (s\<lparr>pf_failed := True\<rparr>))"
| f_stopped: "at_share k (Failed x) s \<Longrightarrow> fstep n throws s (go k (Ended_by x) (s\<lparr>pf_stop := True\<rparr>))"

fun share_over :: "share \<Rightarrow> bool" where
  "share_over Out = True" | "share_over (Ended_by _) = True" | "share_over _ = False"

fun share_error :: "share \<Rightarrow> exc option" where
  "share_error (Ended_by x) = Some x" | "share_error _ = None"

text \<open>What the call leaves with once every share is over: the caller's own exception, else the first among the
  helpers in the order they were started.\<close>

definition pfor_result :: "pfor \<Rightarrow> exc option" where
  "pfor_result s = (case filter (\<lambda>r. r \<noteq> None) (map share_error (pf_shares s)) of [] \<Rightarrow> None | r # _ \<Rightarrow> r)"

text \<open>The call with one share: a plain loop; the exception and the indices whose body returned.\<close>

fun pfor_seq :: "nat \<Rightarrow> nat \<Rightarrow> (nat \<Rightarrow> exc option) \<Rightarrow> exc option \<times> nat list" where
  "pfor_seq i 0 throws = (None, [])"
| "pfor_seq i (Suc m) throws =
     (case throws i of Some x \<Rightarrow> (Some x, []) | None \<Rightarrow> (let (r, done) = pfor_seq (i + 1) m throws in (r, i # done)))"

text \<open>
  \<^verbatim>\<open>parallel_for\<close>: nothing to do, one share, or shares that have all ended. \<open>refused k\<close> is what starting helper
  \<open>k\<close> throws when the system has no thread for it: the helpers already started are asked to stop and
  joined, the caller runs no share, and the call leaves with that error.
\<close>

inductive parallel_for ::
  "nat \<Rightarrow> nat \<Rightarrow> (nat \<Rightarrow> exc option) \<Rightarrow> (nat \<Rightarrow> exc option) \<Rightarrow> exc option \<Rightarrow> nat list \<Rightarrow> bool"
  for n width refused throws where
  pf_none: "n = 0 \<Longrightarrow> parallel_for n width refused throws None []"
| pf_one: "n \<noteq> 0 \<Longrightarrow> pfor_width width n = 1 \<Longrightarrow> pfor_seq 0 n throws = (r, done) \<Longrightarrow>
    parallel_for n width refused throws r done"
| pf_many: "n \<noteq> 0 \<Longrightarrow> pfor_width width n \<noteq> 1 \<Longrightarrow> \<forall>k < pfor_width width n - 1. refused k = None \<Longrightarrow>
    (fstep n throws)\<^sup>*\<^sup>* (pfor_init (pfor_width width n)) s \<Longrightarrow> \<forall>t \<in> set (pf_shares s). share_over t \<Longrightarrow>
    parallel_for n width refused throws (pfor_result s) (pf_done s)"
| pf_refused: "n \<noteq> 0 \<Longrightarrow> k < pfor_width width n - 1 \<Longrightarrow> \<forall>j < k. refused j = None \<Longrightarrow> refused k = Some x \<Longrightarrow>
    (fstep n throws)\<^sup>*\<^sup>* (pfor_init k) s \<Longrightarrow> (fstep n throws)\<^sup>*\<^sup>* (s\<lparr>pf_stop := True\<rparr>) s' \<Longrightarrow>
    \<forall>t \<in> set (pf_shares s'). share_over t \<Longrightarrow> parallel_for n width refused throws (Some x) (pf_done s')"

section \<open>What the shares keep\<close>

fun body_of :: "share \<Rightarrow> nat multiset" where
  "body_of (Body i) = {#i#}" | "body_of _ = {#}"

fun err_of :: "share \<Rightarrow> exc option" where
  "err_of (Caught x) = Some x" | "err_of (Failed x) = Some x" | "err_of (Ended_by x) = Some x" | "err_of _ = None"

abbreviation erring :: "share \<Rightarrow> bool" where
  "erring t \<equiv> err_of t \<noteq> None"

text \<open>Every claimed index returned, is in a body, or threw.\<close>

definition claims_ok :: "nat \<Rightarrow> (nat \<Rightarrow> exc option) \<Rightarrow> pfor \<Rightarrow> bool" where
  "claims_ok n throws s \<longleftrightarrow> (\<exists>T. mset (pf_done s) + total body_of (pf_shares s) + T = mset [0..<min (pf_next s) n]
     \<and> size T = cnt erring (pf_shares s) \<and> (\<forall>i \<in># T. throws i \<noteq> None)) \<and> (\<forall>i \<in> set (pf_done s). throws i = None)"

definition exits_ok :: "nat \<Rightarrow> (nat \<Rightarrow> exc option) \<Rightarrow> pfor \<Rightarrow> bool" where
  "exits_ok n throws s \<longleftrightarrow> (pf_stop s \<or> pf_failed s \<longrightarrow> 0 < cnt erring (pf_shares s))
     \<and> (Out \<in> set (pf_shares s) \<longrightarrow> n \<le> pf_next s \<or> 0 < cnt erring (pf_shares s))
     \<and> (\<forall>t \<in> set (pf_shares s). (\<forall>i. t = Body i \<longrightarrow> i < n) \<and> (\<forall>x. err_of t = Some x \<longrightarrow> (\<exists>i < n. throws i = Some x)))"

lemma share_total: "at_share k t s \<Longrightarrow> total f (pf_shares s) = total_but f k (pf_shares s) + f t"
  unfolding at_share_def using total_at by blast

lemma upt_min: "m < n \<Longrightarrow> mset [0..<min (Suc m) n] = add_mset m (mset [0..<m])"
  by (simp add: min_def)

text \<open>A share that moves without claiming or throwing.\<close>

lemma claims_move:
  assumes "claims_ok n throws s" "at_share k t s" "pf_shares s' = (pf_shares s)[k := u]" "pf_next s' = pf_next s"
    "pf_done s' = pf_done s @ ds" "mset ds + body_of u = body_of t" "erring u = erring t" "\<forall>i \<in> set ds. throws i = None"
  shows "claims_ok n throws s'"
proof -
  obtain T where T: "mset (pf_done s) + total body_of (pf_shares s) + T = mset [0..<min (pf_next s) n]"
    "size T = cnt erring (pf_shares s)" "\<forall>i \<in># T. throws i \<noteq> None" "\<forall>i \<in> set (pf_done s). throws i = None"
    using assms(1) unfolding claims_ok_def by blast
  have "mset (pf_done s') + total body_of (pf_shares s') = mset (pf_done s) + total body_of (pf_shares s)"
    using assms(2,3,5) share_total [OF assms(2), of body_of] assms(6) [symmetric] by (simp add: at_share_def ac_simps)
  moreover have "cnt erring (pf_shares s') = cnt erring (pf_shares s)"
    using assms(2,3,7) by (auto simp: at_share_def cnt_update)
  ultimately show ?thesis using T assms(4,5,8) unfolding claims_ok_def
    by (intro conjI exI [of _ T]) (auto simp del: mset_append mset_upt)
qed

lemma claims_ok_step:
  assumes "fstep n throws s s'" "claims_ok n throws s"
  shows "claims_ok n throws s'"
proof -
  obtain T where T: "mset (pf_done s) + total body_of (pf_shares s) + T = mset [0..<min (pf_next s) n]"
    "size T = cnt erring (pf_shares s)" "\<forall>i \<in># T. throws i \<noteq> None" "\<forall>i \<in> set (pf_done s). throws i = None"
    using assms(2) unfolding claims_ok_def by blast
  show ?thesis
    using assms(1)
  proof cases
    case (f_claim k)
    show ?thesis
    proof (cases "pf_next s < n")
      case True
      then show ?thesis using T f_claim share_total [of k Claim s body_of] upt_min [OF True]
        unfolding claims_ok_def at_share_def claim_def go_def by (intro conjI exI [of _ T]) (auto simp: cnt_update)
    next
      case False
      then show ?thesis using T f_claim share_total [of k Claim s body_of]
        unfolding claims_ok_def at_share_def claim_def go_def by (intro conjI exI [of _ T]) (auto simp: cnt_update min_def)
    qed
  next
    case (f_throw k i x)
    then show ?thesis using T share_total [of k "Body i" s body_of]
      unfolding claims_ok_def at_share_def go_def by (intro conjI exI [of _ "add_mset i T"]) (auto simp: cnt_update)
  next
    case (f_ok k i)
    then show ?thesis by (intro claims_move [OF assms(2), of k "Body i" s' Top "[i]"]) (simp_all add: go_def)
  next
    case (f_test k)
    then show ?thesis by (intro claims_move [OF assms(2), of k Top s' Claim "[]"]) (simp_all add: go_def)
  next
    case (f_quit k)
    then show ?thesis by (intro claims_move [OF assms(2), of k Top s' Out "[]"]) (simp_all add: go_def)
  next
    case (f_failed k x)
    then show ?thesis by (intro claims_move [OF assms(2), of k "Caught x" s' "Failed x" "[]"]) (simp_all add: go_def)
  next
    case (f_stopped k x)
    then show ?thesis by (intro claims_move [OF assms(2), of k "Failed x" s' "Ended_by x" "[]"]) (simp_all add: go_def)
  qed
qed

lemma exits_ok_step:
  assumes "fstep n throws s s'" "exits_ok n throws s"
  shows "exits_ok n throws s'"
  using assms
proof (induction rule: fstep.induct)
  case (f_throw k i s x)
  then have "i < n" unfolding exits_ok_def at_share_def by (metis nth_mem)
  with f_throw show ?case unfolding exits_ok_def at_share_def go_def
    by (auto simp: cnt_update dest!: set_update_subset_insert [THEN subsetD])
next
  case (f_failed k x s)
  then have "0 < cnt erring (pf_shares s)" "\<exists>i < n. throws i = Some x"
    unfolding exits_ok_def at_share_def using cnt_pos [of k "pf_shares s" erring] by (auto dest!: nth_mem)
  with f_failed show ?case unfolding exits_ok_def at_share_def go_def
    by (auto simp: cnt_update dest!: set_update_subset_insert [THEN subsetD])
next
  case (f_stopped k x s)
  then have "0 < cnt erring (pf_shares s)" "\<exists>i < n. throws i = Some x"
    unfolding exits_ok_def at_share_def using cnt_pos [of k "pf_shares s" erring] by (auto dest!: nth_mem)
  with f_stopped show ?case unfolding exits_ok_def at_share_def go_def
    by (auto simp: cnt_update dest!: set_update_subset_insert [THEN subsetD])
qed (auto simp: exits_ok_def at_share_def go_def claim_def cnt_update dest!: set_update_subset_insert [THEN subsetD] split: if_splits)

lemma cnt_replicate: "\<not> P t \<Longrightarrow> cnt P (replicate n t) = 0"
  by (simp add: cnt_def)

lemma length_shares: "fstep n throws s s' \<Longrightarrow> length (pf_shares s') = length (pf_shares s)"
  by (induction rule: fstep.induct) (simp_all add: go_def claim_def)

lemma pfor_reach_ok:
  assumes "(fstep n throws)\<^sup>*\<^sup>* (pfor_init k) s"
  shows "claims_ok n throws s \<and> exits_ok n throws s \<and> length (pf_shares s) = k"
  using assms
proof (induction rule: rtranclp_induct)
  case base
  show ?case
    by (auto simp: pfor_init_def claims_ok_def exits_ok_def total_replicate_zero cnt_replicate)
qed (use claims_ok_step exits_ok_step length_shares in metis)

lemma claims_reach: "(fstep n throws)\<^sup>*\<^sup>* s s' \<Longrightarrow> claims_ok n throws s \<Longrightarrow> claims_ok n throws s'"
  by (induction rule: rtranclp_induct) (use claims_ok_step in blast)+

lemma over_bodies: "\<forall>t \<in> set ts. share_over t \<Longrightarrow> total body_of ts = {#}"
  by (induction ts) (auto simp: total_def elim: share_over.elims)

lemma over_result:
  assumes "\<forall>t \<in> set (pf_shares s). share_over t"
  shows "case pfor_result s of None \<Rightarrow> cnt erring (pf_shares s) = 0 | Some x \<Rightarrow> \<exists>t \<in> set (pf_shares s). err_of t = Some x"
proof -
  have "share_over t \<Longrightarrow> share_error t = err_of t" for t by (cases t) auto
  then have e: "map share_error (pf_shares s) = map err_of (pf_shares s)" using assms by simp
  then have p: "pfor_result s = (case filter (\<lambda>r. r \<noteq> None) (map err_of (pf_shares s)) of [] \<Rightarrow> None | r # _ \<Rightarrow> r)"
    by (simp only: pfor_result_def)
  show ?thesis
  proof (cases "filter (\<lambda>r. r \<noteq> None) (map err_of (pf_shares s))")
    case Nil
    then have "\<forall>t \<in> set (pf_shares s). err_of t = None" by (simp add: filter_empty_conv)
    then have "cnt erring (pf_shares s) = 0" by (simp add: cnt_def filter_empty_conv)
    then show ?thesis using p Nil by simp
  next
    case (Cons r rs)
    then have "r \<in> set (filter (\<lambda>r. r \<noteq> None) (map err_of (pf_shares s)))" by simp
    then obtain x t where "r = Some x" "t \<in> set (pf_shares s)" "err_of t = Some x" by auto
    then show ?thesis using p Cons by auto
  qed
qed

lemma pfor_seq_spec:
  "pfor_seq i m throws = (r, done) \<Longrightarrow>
   \<exists>k \<le> m. done = [i..<i + k] \<and> (\<forall>j \<in> set done. throws j = None)
     \<and> (case r of None \<Rightarrow> k = m | Some x \<Rightarrow> k < m \<and> throws (i + k) = Some x)"
proof (induction m arbitrary: i r "done")
  case (Suc m)
  show ?case
  proof (cases "throws i")
    case None
    then obtain ds where ds: "pfor_seq (i + 1) m throws = (r, ds)" "done = i # ds" using Suc.prems by (auto split: prod.splits)
    from Suc.IH [OF ds(1)] obtain k where "k \<le> m" "ds = [i + 1..<i + 1 + k]" "\<forall>j \<in> set ds. throws j = None"
      "case r of None \<Rightarrow> k = m | Some x \<Rightarrow> k < m \<and> throws (i + 1 + k) = Some x" by blast
    then show ?thesis using None ds(2) by (intro exI [of _ "Suc k"]) (auto simp: upt_conv_Cons split: option.splits)
  qed (use Suc.prems in \<open>auto intro!: exI [of _ 0] split: option.splits\<close>)
qed simp

text \<open>When every share is over, the indices whose body returned and those that threw are the claimed ones.\<close>

lemma over_claims:
  assumes "claims_ok n throws s" "\<forall>t \<in> set (pf_shares s). share_over t"
  obtains T where "distinct (pf_done s)" "set (pf_done s) \<union> set_mset T = {..<min (pf_next s) n}"
    "size T = cnt erring (pf_shares s)" "\<forall>i \<in> set (pf_done s). throws i = None"
proof -
  obtain T where T: "mset (pf_done s) + T = mset [0..<min (pf_next s) n]" "size T = cnt erring (pf_shares s)"
    "\<forall>i \<in> set (pf_done s). throws i = None"
    using assms(1) over_bodies [OF assms(2)] unfolding claims_ok_def by auto
  obtain ts where "mset ts = T" using ex_mset by blast
  then have "mset (pf_done s @ ts) = mset [0..<min (pf_next s) n]" using T(1) by simp
  from mset_eq_imp_distinct_iff [OF this] mset_eq_setD [OF this]
  have "distinct (pf_done s)" "set (pf_done s) \<union> set_mset T = {..<min (pf_next s) n}"
    using \<open>mset ts = T\<close> by (auto simp: atLeast0LessThan)
  then show ?thesis using that T by blast
qed

text \<open>C19: a parallel loop runs the body at most once for an index, however its shares interleave, and exactly once
  for each when it returns normally; it returns normally exactly when no body throws and every helper got its
  thread, and otherwise leaves with an exception of a body or of the refused thread.\<close>

theorem parallel_for_exact:
  assumes "parallel_for n width refused throws r done"
  shows "distinct done \<and> set done \<subseteq> {i. i < n \<and> throws i = None}
    \<and> (r = None \<longleftrightarrow> (\<forall>i < n. throws i = None) \<and> (\<forall>k < pfor_width width n - 1. refused k = None))
    \<and> (r = None \<longrightarrow> set done = {..<n})
    \<and> (\<forall>x. r = Some x \<longrightarrow> (\<exists>i < n. throws i = Some x) \<or> (\<exists>k < pfor_width width n - 1. refused k = Some x))"
  using assms
proof cases
  case pf_one
  obtain k where k: "k \<le> n" "done = [0..<k]" "\<forall>j \<in> set done. throws j = None"
    "case r of None \<Rightarrow> k = n | Some x \<Rightarrow> k < n \<and> throws k = Some x"
    using pfor_seq_spec [OF pf_one(3), unfolded add_0_left] by blast
  then show ?thesis using pf_one(2) by (cases r) auto
next
  case (pf_refused k x s s')
  have "claims_ok n throws (s\<lparr>pf_stop := True\<rparr>)" using pfor_reach_ok [OF pf_refused(7)] by (simp add: claims_ok_def)
  then have "claims_ok n throws s'" using claims_reach [OF pf_refused(8)] by blast
  then obtain T where "distinct done" "set done \<union> set_mset T = {..<min (pf_next s') n}" "\<forall>i \<in> set done. throws i = None"
    using over_claims [OF _ pf_refused(9)] pf_refused(2) by metis
  then show ?thesis using pf_refused(1,4,6) by auto
next
  case (pf_many s)
  have ok: "claims_ok n throws s" "exits_ok n throws s" "length (pf_shares s) = pfor_width width n"
    using pfor_reach_ok [OF pf_many(6)] by auto
  obtain T where d: "distinct done" "set done \<union> set_mset T = {..<min (pf_next s) n}"
    and T: "size T = cnt erring (pf_shares s)" "\<forall>i \<in> set done. throws i = None"
    using over_claims [OF ok(1) pf_many(7)] pf_many(2) by metis
  note res = over_result [OF pf_many(7), folded pf_many(1)]
  show ?thesis
  proof (cases "cnt erring (pf_shares s) = 0")
    case True
    have "\<not> erring t" if "t \<in> set (pf_shares s)" for t
      using True that cnt_pos [of _ "pf_shares s" erring] by (metis in_set_conv_nth less_irrefl)
    note none = this
    have "pf_shares s \<noteq> []" using ok(3) pf_many(3) by (auto simp: pfor_width_def)
    then have "hd (pf_shares s) \<in> set (pf_shares s)" by simp
    then have "hd (pf_shares s) = Out" using none pf_many(7) by (metis err_of.simps(3) option.distinct(1) share_over.elims(2))
    then have "n \<le> pf_next s" using ok(2) True \<open>pf_shares s \<noteq> []\<close> by (metis exits_ok_def hd_in_set less_irrefl)
    then have "set done = {..<n}" using d(2) T(1) True by (auto simp: min_def)
    moreover have "r = None" using res none by (cases r) auto
    ultimately show ?thesis using d(1) T(2) pf_many(5) by auto
  next
    case False
    then obtain x t where x: "r = Some x" "t \<in> set (pf_shares s)" "err_of t = Some x" using res by (auto split: option.splits)
    then obtain i where "i < n" "throws i = Some x" using ok(2) unfolding exits_ok_def by blast
    then show ?thesis using d T(2) x(1) by auto
  qed
qed (simp add: pfor_width_def)

theorem parallel_for_exact_witness:
  "parallel_for 2 1 (\<lambda>_. None) (\<lambda>_. None) None [0, 1] \<and> set [0, 1] = {..<(2 :: nat)}"
proof -
  have "parallel_for 2 1 (\<lambda>_. None) (\<lambda>_. None) None [0, 1]"
    by (rule pf_one) (simp_all add: pfor_width_def numeral_2_eq_2)
  with parallel_for_exact [OF this] show ?thesis by blast
qed

section \<open>The loop ends\<close>

fun share_rank :: "share \<Rightarrow> nat" where
  "share_rank (Body _) = 6" | "share_rank Top = 5" | "share_rank Claim = 4" | "share_rank (Caught _) = 3"
| "share_rank (Failed _) = 2" | "share_rank (Ended_by _) = 1" | "share_rank Out = 0"

definition pfor_measure :: "nat \<Rightarrow> pfor \<Rightarrow> nat \<times> nat" where
  "pfor_measure n s = (n - pf_next s, total share_rank (pf_shares s))"

lemma fstep_decreases: "fstep n throws s s' \<Longrightarrow> (pfor_measure n s', pfor_measure n s) \<in> less_than <*lex*> less_than"
  by (induction rule: fstep.induct)
    (auto simp: pfor_measure_def go_def claim_def at_share_def total_at [of _ _ share_rank])

lemma fstep_wfp: "wfp (fstep n throws)\<inverse>\<inverse>"
proof -
  have "wf (inv_image (less_than <*lex*> less_than) (pfor_measure n))" by (intro wf_inv_image wf_lex_prod wf_less_than)
  then show ?thesis unfolding wfp_def by (rule wf_subset) (auto simp: fstep_decreases)
qed

lemma share_moves: "at_share k t s \<Longrightarrow> \<not> share_over t \<Longrightarrow> \<exists>s'. fstep n throws s s'"
proof (cases t)
  case (Body i)
  assume "at_share k t s"
  then show ?thesis using Body fstep.intros(4,5) by (cases "throws i") blast+
next
  case Top
  assume "at_share k t s"
  then show ?thesis using Top fstep.intros(1,2) by (cases "pf_stop s \<or> pf_failed s") blast+
qed (auto intro: fstep.intros)

lemma fstep_stuck: "(\<nexists>s'. fstep n throws s s') = list_all share_over (pf_shares s)"
proof
  assume "\<nexists>s'. fstep n throws s s'"
  then show "list_all share_over (pf_shares s)"
    using share_moves unfolding list_all_length at_share_def by blast
next
  assume over: "list_all share_over (pf_shares s)"
  have "\<not> fstep n throws s s'" for s'
  proof
    assume "fstep n throws s s'"
    then have "\<exists>k t. at_share k t s \<and> \<not> share_over t" by cases force+
    then show False using over by (auto simp: list_all_length at_share_def)
  qed
  then show "\<nexists>s'. fstep n throws s s'" by blast
qed

lemma fstep_ends: "\<exists>s'. (fstep n throws)\<^sup>*\<^sup>* s s' \<and> list_all share_over (pf_shares s')"
proof (induction s rule: wfp_induct_rule [OF fstep_wfp [of n throws]])
  case (1 s)
  show ?case
  proof (cases "\<exists>s'. fstep n throws s s'")
    case True
    then show ?thesis using 1 by (metis conversepI converse_rtranclp_into_rtranclp)
  qed (use fstep_stuck in blast)
qed

text \<open>C20: a parallel loop whose bodies end, ends: no run of the shares is infinite, a state without a next step is
  one where every share is over, and the call has an outcome whatever throws and whichever thread is refused.\<close>

theorem parallel_for_ends:
  "wfp (fstep n throws)\<inverse>\<inverse> \<and> (\<nexists>s'. fstep n throws s s') = list_all share_over (pf_shares s)
   \<and> (\<exists>r done. parallel_for n width refused throws r done)"
proof (intro conjI fstep_wfp fstep_stuck)
  show "\<exists>r done. parallel_for n width refused throws r done"
  proof (cases "n = 0 \<or> pfor_width width n = 1")
    case True
    then show ?thesis by (metis parallel_for.pf_none parallel_for.pf_one surj_pair)
  next
    case False
    show ?thesis
    proof (cases "\<forall>k < pfor_width width n - 1. refused k = None")
      case True
      then show ?thesis using fstep_ends [of n throws "pfor_init (pfor_width width n)"] False
        by (metis list_all_iff parallel_for.pf_many)
    next
      case some: False
      define k where "k = (LEAST k. k < pfor_width width n - 1 \<and> refused k \<noteq> None)"
      have k: "k < pfor_width width n - 1" "refused k \<noteq> None"
        using some LeastI [of "\<lambda>k. k < pfor_width width n - 1 \<and> refused k \<noteq> None"] unfolding k_def by blast+
      have "\<forall>j < k. refused j = None"
        using not_less_Least k(1) unfolding k_def by (metis (mono_tags, lifting) order_less_trans)
      moreover obtain x where "refused k = Some x" using k(2) by blast
      ultimately show ?thesis
        using fstep_ends [of n throws "(pfor_init k)\<lparr>pf_stop := True\<rparr>"] False k(1)
          parallel_for.pf_refused [of n k width refused x throws "pfor_init k"]
        by (metis list_all_iff rtranclp.rtrancl_refl)
    qed
  qed
qed

section \<open>What the nursery keeps\<close>

lemma length_observe [simp]: "length (observe is hs) = length hs"
  by (simp add: observe_def)

lemma observe_nth [simp]: "i < length hs \<Longrightarrow> h_running (observe is hs ! i) = h_running (hs ! i)"
  "i < length hs \<Longrightarrow> h_error (observe is hs ! i) = h_error (hs ! i)"
  by (simp_all add: observe_def nth_enumerate_eq)

lemma first_error_keeps:
  "first_error is hs = (r, hs') \<Longrightarrow> \<forall>i \<in> set is. i < length hs \<Longrightarrow>
   length hs' = length hs \<and> (\<forall>i < length hs. h_running (hs' ! i) = h_running (hs ! i) \<and> h_error (hs' ! i) \<in> {None, h_error (hs ! i)})"
proof (induction "is" arbitrary: hs)
  case (Cons i "is")
  let ?hs = "hs[i := (hs ! i)\<lparr>h_error := None\<rparr>]"
  show ?case
  proof (cases "h_error (hs ! i)")
    case None
    then have "first_error is ?hs = (r, hs')" using Cons.prems(1) by (simp add: take_error_def)
    from Cons.IH [OF this] Cons.prems(2) show ?thesis by (auto simp: nth_list_update split: if_splits)
  qed (use Cons.prems in \<open>auto simp: take_error_def nth_list_update split: if_splits\<close>)
qed simp

text \<open>The helpers an owner waits for are the nursery's; an error left in a slot, or on its way out of the scope,
  has asked the helpers to stop; a scope that returned has joined every helper.\<close>

fun owner_ok :: "bool \<Rightarrow> helper list \<Rightarrow> 'v owner \<Rightarrow> bool" where
  "owner_ok stop hs (Joining is) \<longleftrightarrow> (\<forall>i \<in> set is. i < length hs)"
| "owner_ok stop hs (Dropping i) \<longleftrightarrow> i < length hs"
| "owner_ok stop hs (Draining is x) \<longleftrightarrow> (\<forall>i \<in> set is. i < length hs)"
| "owner_ok stop hs (JoinAll b r) \<longleftrightarrow> (b \<noteq> None \<longrightarrow> stop)"
| "owner_ok stop hs (Returned_with res) \<longleftrightarrow>
     (\<forall>i < length hs. \<not> h_running (hs ! i)) \<and> (\<exists>b r. res = scope_result b r hs \<and> (b \<noteq> None \<longrightarrow> stop))"
| "owner_ok stop hs _ \<longleftrightarrow> True"

definition nursery_ok :: "'v nursery \<Rightarrow> bool" where
  "nursery_ok s \<longleftrightarrow> owner_ok (n_stop s) (n_entries s) (n_owner s)
     \<and> ((\<exists>h \<in> set (n_entries s). h_error h \<noteq> None) \<longrightarrow> n_stop s)"

lemma owner_ok_update:
  "i < length hs \<Longrightarrow> h_running (hs ! i) \<Longrightarrow> owner_ok stop hs ow \<Longrightarrow> owner_ok (stop \<or> b) (hs[i := h]) ow"
  by (cases ow) auto

lemma owner_ok_stop: "owner_ok stop hs ow \<Longrightarrow> owner_ok True hs ow"
  by (cases ow) auto

lemma nursery_ok_step:
  assumes "nstep s s'" "nursery_ok s"
  shows "nursery_ok s'"
  using assms
proof (induction rule: nstep.induct)
  case (n_parent s)
  then show ?case by (auto simp: nursery_ok_def owner_ok_stop)
next
  case (n_done i s)
  then have "owner_ok (n_stop s \<or> False) ((n_entries s)[i := (n_entries s ! i)\<lparr>h_running := False\<rparr>]) (n_owner s)"
    by (intro owner_ok_update) (auto simp: nursery_ok_def)
  with n_done show ?case
    by (auto simp: nursery_ok_def set_helper_def dest!: set_update_subset_insert [THEN subsetD] dest: nth_mem)
next
  case (n_fail i s x)
  then have "owner_ok (n_stop s \<or> True) ((n_entries s)[i := (n_entries s ! i)\<lparr>h_running := False, h_error := Some x\<rparr>]) (n_owner s)"
    by (intro owner_ok_update) (auto simp: nursery_ok_def)
  with n_fail show ?case by (auto simp: nursery_ok_def set_helper_def)
next
  case (n_joined s "is" r hs)
  then have "length hs = length (n_entries s)"
    "\<forall>i < length hs. h_error (hs ! i) \<in> {None, h_error (n_entries s ! i)}"
    using first_error_keeps [OF n_joined(3)] by (auto simp: ended_def)
  then have "(\<exists>h \<in> set hs. h_error h \<noteq> None) \<longrightarrow> (\<exists>h \<in> set (n_entries s). h_error h \<noteq> None)"
    by (force simp: in_set_conv_nth)
  with n_joined show ?case by (auto simp: nursery_ok_def split: option.splits)
next
  case (n_join s "is")
  then have "(\<exists>h \<in> set (observe is (n_entries s)). h_error h \<noteq> None) \<longrightarrow> (\<exists>h \<in> set (n_entries s). h_error h \<noteq> None)"
    by (force simp: in_set_conv_nth)
  with n_join show ?case by (auto simp: nursery_ok_def)
next
  case (n_joined_all s b r)
  then show ?case by (auto simp: nursery_ok_def ended_def)
qed (auto simp: nursery_ok_def new_helper_def)

lemma nursery_reach_ok: "nstep\<^sup>*\<^sup>* (new_nursery p) s \<Longrightarrow> nursery_ok s"
  by (induction rule: rtranclp_induct) (use nursery_ok_step in \<open>auto simp: nursery_ok_def new_nursery_def\<close>)

lemma unobserved_error_None: "unobserved_error hs = None \<Longrightarrow> h \<in> set hs \<Longrightarrow> \<not> h_observed h \<Longrightarrow> h_error h = None"
  unfolding unobserved_error_def by (auto simp: filter_empty_conv split: list.splits dest: filter_eq_ConsD)

lemma unobserved_error_Some: "unobserved_error hs = Some x \<Longrightarrow> \<exists>h \<in> set hs. h_error h \<noteq> None"
  unfolding unobserved_error_def by (auto split: list.splits dest!: filter_eq_ConsD)

text \<open>C21: when \<^verbatim>\<open>scope\<close> returns, no helper runs. It returns a value only if no helper left an error that nobody
  joined; when it leaves with an exception, the helpers had been asked to stop.\<close>

theorem scope_returns:
  assumes "nstep\<^sup>*\<^sup>* (new_nursery p) s" "n_owner s = Returned_with res"
  shows "(\<forall>h \<in> set (n_entries s). \<not> h_running h)
    \<and> (case res of Inl x \<Rightarrow> n_stop s | Inr v \<Rightarrow> \<forall>h \<in> set (n_entries s). h_observed h \<or> h_error h = None)"
proof -
  have ok: "owner_ok (n_stop s) (n_entries s) (Returned_with res)"
    "(\<exists>h \<in> set (n_entries s). h_error h \<noteq> None) \<longrightarrow> n_stop s"
    using nursery_reach_ok [OF assms(1)] assms(2) by (simp_all add: nursery_ok_def)
  then obtain b r where br: "res = scope_result b r (n_entries s)" "b \<noteq> None \<longrightarrow> n_stop s" by auto
  have "\<forall>h \<in> set (n_entries s). \<not> h_running h" using ok(1) by (auto simp: in_set_conv_nth)
  moreover have "case res of Inl x \<Rightarrow> n_stop s | Inr v \<Rightarrow> \<forall>h \<in> set (n_entries s). h_observed h \<or> h_error h = None"
    using br ok(2) unobserved_error_Some [of "n_entries s"] unobserved_error_None [of "n_entries s"]
    by (fastforce simp: scope_result_def split: option.splits)
  ultimately show ?thesis by blast
qed

text \<open>The owner only ever waits for a helper that still runs: in every reachable state before the return, some
  helper runs or the owner can move. Helpers cannot wait for the owner, so a scope whose helpers end does not
  deadlock.\<close>

theorem scope_never_deadlocks:
  assumes "nstep\<^sup>*\<^sup>* (new_nursery p) s" "\<forall>res. n_owner s \<noteq> Returned_with res"
  shows "(\<exists>h \<in> set (n_entries s). h_running h) \<or> (\<exists>s'. nstep s s' \<and> n_owner s' \<noteq> n_owner s)"
proof (cases "\<exists>h \<in> set (n_entries s). h_running h")
  case False
  then have idle: "\<forall>i \<in> set is. i < length (n_entries s) \<Longrightarrow> ended is (n_entries s)" for "is"
    by (auto simp: ended_def)
  have ok: "owner_ok (n_stop s) (n_entries s) (n_owner s)" using nursery_reach_ok [OF assms(1)] by (simp add: nursery_ok_def)
  have "\<exists>s'. nstep s s' \<and> n_owner s' \<noteq> n_owner s"
  proof (cases "n_owner s")
    case (Joining "is")
    obtain r hs where fe: "first_error is (n_entries s) = (r, hs)" by fastforce
    have "ended is (n_entries s)" using idle ok Joining by simp
    from n_joined [OF Joining this fe] show ?thesis using Joining by (intro exI conjI) (auto split: option.splits)
  next
    case (Dropping i)
    then have "ended [i] (n_entries s)" using idle [of "[i]"] ok by simp
    from n_dropped [OF Dropping this] show ?thesis using Dropping by (intro exI conjI) auto
  next
    case (Draining "is" x)
    then have "ended is (n_entries s)" using idle ok by simp
    from n_drained [OF Draining this] show ?thesis using Draining by (intro exI conjI) auto
  next
    case (JoinAll b r)
    have "ended [0..<length (n_entries s)] (n_entries s)" using idle by simp
    from n_joined_all [OF JoinAll this] show ?thesis using JoinAll by (intro exI conjI) auto
  next
    case InBlock
    from n_return [OF InBlock] show ?thesis using InBlock by (intro exI conjI) auto
  next
    case (Unwinding x)
    from n_unwound [OF Unwinding] show ?thesis using Unwinding by (intro exI conjI) auto
  qed (use assms(2) in blast)
  then show ?thesis ..
qed blast

text \<open>A run: a helper is started and fails, the block returns 7, and the scope leaves with the helper's error.\<close>

definition one_failing :: "bool \<Rightarrow> nat owner \<Rightarrow> nat nursery" where
  "one_failing failed ow = \<lparr>n_stop = failed,
     n_entries = [\<lparr>h_running = \<not> failed, h_error = (if failed then Some OtherException else None), h_observed = False\<rparr>], n_owner = ow\<rparr>"

lemma one_failing_run:
  "nstep\<^sup>*\<^sup>* (new_nursery False) (one_failing True InBlock)"
  "nstep\<^sup>*\<^sup>* (new_nursery False) (one_failing True (JoinAll None (Some 7)))"
  "nstep\<^sup>*\<^sup>* (new_nursery False) (one_failing True (Returned_with (Inl OtherException)))"
proof -
  have "nstep (new_nursery False) (one_failing False InBlock)"
    using n_spawn [of "new_nursery False"] by (simp add: new_nursery_def one_failing_def new_helper_def)
  moreover have "nstep (one_failing False InBlock) (one_failing True InBlock)"
    using n_fail [of 0 "one_failing False InBlock" OtherException] by (simp add: one_failing_def set_helper_def)
  ultimately show 1: "nstep\<^sup>*\<^sup>* (new_nursery False) (one_failing True InBlock)" by simp
  have "nstep (one_failing True InBlock) (one_failing True (JoinAll None (Some 7)))"
    using n_return [of "one_failing True InBlock" "Some 7"] by (simp add: one_failing_def)
  with 1 show 2: "nstep\<^sup>*\<^sup>* (new_nursery False) (one_failing True (JoinAll None (Some 7)))" by simp
  have "nstep (one_failing True (JoinAll None (Some 7))) (one_failing True (Returned_with (Inl OtherException)))"
    using n_joined_all [of "one_failing True (JoinAll None (Some 7))" None "Some 7"]
    by (simp add: one_failing_def scope_result_def unobserved_error_def ended_def)
  with 2 show "nstep\<^sup>*\<^sup>* (new_nursery False) (one_failing True (Returned_with (Inl OtherException)))" by simp
qed

theorem scope_returns_witness:
  "n_owner (one_failing True (Returned_with (Inl OtherException))) = Returned_with (Inl OtherException)
   \<and> n_stop (one_failing True (Returned_with (Inl OtherException)))"
  using scope_returns [OF one_failing_run(3), of "Inl OtherException"] by (simp add: one_failing_def)

theorem scope_never_deadlocks_witness:
  "\<exists>s'. nstep (one_failing True (JoinAll None (Some 7))) s' \<and> n_owner s' \<noteq> JoinAll None (Some 7)"
  using scope_never_deadlocks [OF one_failing_run(2)] by (simp add: one_failing_def)

end
