(* ===== verification/Children.thy ===== *)
theory Children
  imports Effects
begin

text \<open>
  Programs (\<^verbatim>\<open>core/program.hpp\<close>) and programs inside programs: one child in a fixed slot
  (\<^verbatim>\<open>core/child.hpp\<close>) and a keyed list of them (\<^verbatim>\<open>core/children.hpp\<close>). A child's effects are lifted into its
  parent: task and stream keys go under the child's prefix, messages are wrapped, reports become
  messages of the parent.
\<close>

section \<open>Programs\<close>

text \<open>
  A program's four functions. An update edits the model in place and returns a command or throws, in
  which case the model stays as far as the update had got. A program that does not ask for the time
  ignores the third argument of its update.
\<close>

record ('md, 'm, 'h, 'o, 'k, 'e, 'ev) program =
  p_init :: "'md \<times> ('h, 'o, 'm) cmd"
  p_update :: "'md \<Rightarrow> 'm \<Rightarrow> time_point \<Rightarrow> 'md \<times> (exc + ('h, 'o, 'm) cmd)"
  p_subscribe :: "'md \<Rightarrow> ('k, 'e, 'm) sub"
  p_on :: "'md \<Rightarrow> 'ev \<Rightarrow> 'm option"

text \<open>\<^verbatim>\<open>prog::init\<close>, \<^verbatim>\<open>prog::subscribe\<close> and \<^verbatim>\<open>prog::on\<close> for a program that may not define the function.\<close>

definition prog_init :: "'md \<Rightarrow> ('md \<Rightarrow> 'md \<times> ('h, 'o, 'm) cmd) option \<Rightarrow> 'md \<times> ('h, 'o, 'm) cmd" where
  "prog_init m0 ini = (case ini of None \<Rightarrow> (m0, CNone) | Some f \<Rightarrow> f m0)"

definition prog_subscribe :: "('md \<Rightarrow> ('k, 'e, 'm) sub) option \<Rightarrow> 'md \<Rightarrow> ('k, 'e, 'm) sub" where
  "prog_subscribe s m = (case s of None \<Rightarrow> SNone | Some f \<Rightarrow> f m)"

definition prog_on :: "('md \<Rightarrow> 'ev \<Rightarrow> 'm option) option \<Rightarrow> 'md \<Rightarrow> 'ev \<Rightarrow> 'm option" where
  "prog_on h m ev = (case h of None \<Rightarrow> None | Some f \<Rightarrow> f m ev)"

section \<open>Prefixing keys\<close>

fun prefix_streams :: "string \<Rightarrow> ('k, 'e, 'm) sub \<Rightarrow> ('k, 'e, 'm) sub" where
  "prefix_streams p (SBatch ss) = SBatch (map (prefix_streams p) ss)"
| "prefix_streams p (Stream k b) = Stream (p @ k) b"
| "prefix_streams p s = s"

fun prefix_task_keys :: "string \<Rightarrow> ('h, 'o, 'm) cmd \<Rightarrow> ('h, 'o, 'm) cmd" where
  "prefix_task_keys p (Batch cs) = Batch (map (prefix_task_keys p) cs)"
| "prefix_task_keys p (Task b w k) = Task b w (if k = '''' then k else p @ k)"
| "prefix_task_keys p (After d m k) = After d m (if k = '''' then k else p @ k)"
| "prefix_task_keys p (Cancel k) = Cancel (p @ k)"
| "prefix_task_keys p c = c"

definition resolve_reports :: "('o \<Rightarrow> 'm) option \<Rightarrow> ('h, 'o, 'm) cmd \<Rightarrow> ('h, 'o, 'm) cmd" where
  "resolve_reports to_parent c =
     (case to_parent of None \<Rightarrow> c | Some f \<Rightarrow> resolve (\<lambda>out. Send (f out)) c)"

section \<open>One child\<close>

text \<open>
  A child slot is given by the wrapper case of the parent's message, the case its reports arrive as
  (none when the child cannot report), and the wrapper's name, which prefixes its keys.
\<close>

record ('m, 'o, 'pm) child_slot =
  cs_wrap :: "'m \<Rightarrow> 'pm"
  cs_from :: "('o \<Rightarrow> 'pm) option"
  cs_name :: string

definition lift :: "('m, 'o, 'pm) child_slot \<Rightarrow> ('h, 'o, 'm) cmd \<Rightarrow> ('h, 'o, 'pm) cmd" where
  "lift S c = resolve_reports (cs_from S) (cmd_map (cs_wrap S) (prefix_task_keys (cs_name S @ ''/'') c))"

definition child_init ::
    "('m, 'o, 'pm) child_slot \<Rightarrow> ('md, 'm, 'h, 'o, 'k, 'e, 'ev) program \<Rightarrow> 'md \<times> ('h, 'o, 'pm) cmd" where
  "child_init S P = (let (m, c) = p_init P in (m, lift S c))"

definition child_update ::
    "('m, 'o, 'pm) child_slot \<Rightarrow> ('md, 'm, 'h, 'o, 'k, 'e, 'ev) program \<Rightarrow> 'md \<Rightarrow> 'm \<Rightarrow> time_point \<Rightarrow>
     'md \<times> (exc + ('h, 'o, 'pm) cmd)" where
  "child_update S P slot w now =
     (case p_update P slot w now of
        (slot', Inl e) \<Rightarrow> (slot', Inl e)
      | (slot', Inr c) \<Rightarrow> (slot', Inr (lift S c)))"

definition child_on ::
    "('m, 'o, 'pm) child_slot \<Rightarrow> ('md, 'm, 'h, 'o, 'k, 'e, 'ev) program \<Rightarrow> 'md \<Rightarrow> 'ev \<Rightarrow> 'pm option" where
  "child_on S P m ev = map_option (cs_wrap S) (p_on P m ev)"

definition child_subscribe ::
    "('m, 'o, 'pm) child_slot \<Rightarrow> ('md, 'm, 'h, 'o, 'k, 'e, 'ev) program \<Rightarrow> 'md \<Rightarrow> string \<Rightarrow> ('k, 'e, 'pm) sub" where
  "child_subscribe S P m prefix =
     (let s = p_subscribe P m;
          s' = (if prefix \<noteq> '''' then prefix_streams (prefix @ ''/'') s else s)
      in sub_map (cs_wrap S) s')"

section \<open>A keyed list of children\<close>

text \<open>\<^verbatim>\<open>std::map\<close>: an association list sorted by key, so that iteration is in key order.\<close>

type_synonym ('i, 'md) kids = "('i \<times> 'md) list"

fun insert_or_assign :: "'i :: linorder \<Rightarrow> 'md \<Rightarrow> ('i, 'md) kids \<Rightarrow> ('i, 'md) kids" where
  "insert_or_assign i m [] = [(i, m)]"
| "insert_or_assign i m ((j, n) # ms) =
     (if i < j then (i, m) # (j, n) # ms
      else if i = j then (i, m) # ms
      else (j, n) # insert_or_assign i m ms)"

definition erase :: "'i \<Rightarrow> ('i, 'md) kids \<Rightarrow> bool \<times> ('i, 'md) kids" where
  "erase i ms = (map_of ms i \<noteq> None, filter (\<lambda>(j, _). j \<noteq> i) ms)"

text \<open>\<^verbatim>\<open>std::to_string\<close> of an integer, the default \<^verbatim>\<open>key_of\<close> of an integer or enum id.\<close>

definition digit :: "nat \<Rightarrow> char" where
  "digit n = char_of (48 + n)"

fun dec :: "nat \<Rightarrow> string" where
  "dec n = (if n < 10 then [digit n] else dec (n div 10) @ [digit (n mod 10)])"

definition to_string :: "int \<Rightarrow> string" where
  "to_string i = (if i < 0 then CHR ''-'' # dec (nat (- i)) else dec (nat i))"

text \<open>
  The list is given by the wrapper taking the id, the case its reports arrive as, and \<^verbatim>\<open>key_of\<close>,
  which a program may replace by its own \<^verbatim>\<open>to_key\<close>.
\<close>

record ('i, 'm, 'o, 'pm) kids_slot =
  ks_wrap :: "'i \<Rightarrow> 'm \<Rightarrow> 'pm"
  ks_from :: "('i \<Rightarrow> 'o \<Rightarrow> 'pm) option"
  ks_key_of :: "'i \<Rightarrow> string"

definition kids_lift :: "('i, 'm, 'o, 'pm) kids_slot \<Rightarrow> 'i \<Rightarrow> ('h, 'o, 'm) cmd \<Rightarrow> ('h, 'o, 'pm) cmd" where
  "kids_lift S i c =
     resolve_reports (map_option (\<lambda>f. f i) (ks_from S))
       (cmd_map_with i (ks_wrap S) (prefix_task_keys (ks_key_of S i @ ''/'') c))"

definition kids_add ::
    "('i :: linorder, 'm, 'o, 'pm) kids_slot \<Rightarrow> ('md, 'm, 'h, 'o, 'k, 'e, 'ev) program \<Rightarrow> 'i \<Rightarrow> ('i, 'md) kids \<Rightarrow>
     ('h, 'o, 'pm) cmd \<times> ('i, 'md) kids" where
  "kids_add S P i ms = (let (m, c) = p_init P in (kids_lift S i c, insert_or_assign i m ms))"

definition next_id :: "(int, 'md) kids \<Rightarrow> int" where
  "next_id ms = (if ms = [] then 0 else fst (last ms) + 1)"

definition kids_add_next ::
    "(int, 'm, 'o, 'pm) kids_slot \<Rightarrow> ('md, 'm, 'h, 'o, 'k, 'e, 'ev) program \<Rightarrow> (int, 'md) kids \<Rightarrow>
     (int \<times> ('h, 'o, 'pm) cmd) \<times> (int, 'md) kids" where
  "kids_add_next S P ms = (let i = next_id ms; (c, ms') = kids_add S P i ms in ((i, c), ms'))"

definition kids_has :: "'i \<Rightarrow> ('i, 'md) kids \<Rightarrow> bool" where
  "kids_has i ms \<longleftrightarrow> map_of ms i \<noteq> None"

definition kids_find :: "'i \<Rightarrow> ('i, 'md) kids \<Rightarrow> 'md option" where
  "kids_find i ms = map_of ms i"

definition kids_update ::
    "('i :: linorder, 'm, 'o, 'pm) kids_slot \<Rightarrow> ('md, 'm, 'h, 'o, 'k, 'e, 'ev) program \<Rightarrow> 'i \<Rightarrow> 'm \<Rightarrow> time_point \<Rightarrow>
     ('i, 'md) kids \<Rightarrow> (exc + ('h, 'o, 'pm) cmd) \<times> ('i, 'md) kids" where
  "kids_update S P i msg now ms =
     (case map_of ms i of
        None \<Rightarrow> (Inr CNone, ms)
      | Some m \<Rightarrow>
          (case p_update P m msg now of
             (m', Inl e) \<Rightarrow> (Inl e, insert_or_assign i m' ms)
           | (m', Inr c) \<Rightarrow> (Inr (kids_lift S i c), insert_or_assign i m' ms)))"

definition kids_subscribe ::
    "('i, 'm, 'o, 'pm) kids_slot \<Rightarrow> ('md, 'm, 'h, 'o, 'k, 'e, 'ev) program \<Rightarrow> ('i, 'md) kids \<Rightarrow> ('k, 'e, 'pm) sub" where
  "kids_subscribe S P ms =
     (let subs = map (\<lambda>(i, m). sub_map_with i (ks_wrap S) (prefix_streams (ks_key_of S i @ ''/'') (p_subscribe P m)))
                   (filter (\<lambda>(i, m). p_subscribe P m \<noteq> SNone) ms)
      in if subs = [] then SNone else sub_batch subs)"

definition kids_on ::
    "('i, 'm, 'o, 'pm) kids_slot \<Rightarrow> ('md, 'm, 'h, 'o, 'k, 'e, 'ev) program \<Rightarrow> ('i, 'md) kids \<Rightarrow> 'i \<Rightarrow> 'ev \<Rightarrow> 'pm option" where
  "kids_on S P ms i ev =
     (case map_of ms i of None \<Rightarrow> None | Some m \<Rightarrow> map_option (ks_wrap S i) (p_on P m ev))"

section \<open>The ordered map\<close>

abbreviation kids_ok :: "('i :: linorder, 'md) kids \<Rightarrow> bool" where
  "kids_ok ms \<equiv> sorted_wrt (<) (map fst ms)"

lemma insert_or_assign_map: "kids_ok ms \<Longrightarrow> map_of (insert_or_assign i m ms) = (map_of ms)(i \<mapsto> m)"
proof (induction i m ms rule: insert_or_assign.induct)
  case (2 i m j n ms)
  then show ?case by (auto simp: fun_eq_iff)
qed auto

lemma insert_or_assign_keys: "fst ` set (insert_or_assign i m ms) = insert i (fst ` set ms)"
  by (induction i m ms rule: insert_or_assign.induct) auto

lemma insert_or_assign_ok: "kids_ok ms \<Longrightarrow> kids_ok (insert_or_assign i m ms)"
proof (induction i m ms rule: insert_or_assign.induct)
  case (2 i m j n ms)
  then show ?case using insert_or_assign_keys [of i m ms] by (auto simp: not_less_iff_gr_or_eq)
qed simp

lemma erase_spec: "kids_ok ms \<Longrightarrow> kids_ok (snd (erase i ms)) \<and> map_of (snd (erase i ms)) = (map_of ms)(i := None)"
proof -
  have "map_of (filter (\<lambda>(j, _). j \<noteq> i) ms) = (map_of ms)(i := None)"
    by (induction ms) (auto simp: fun_eq_iff)
  moreover have "kids_ok ms \<Longrightarrow> kids_ok (filter (\<lambda>(j, _). j \<noteq> i) ms)"
    by (induction ms) auto
  ultimately show "kids_ok ms \<Longrightarrow> ?thesis" by (simp add: erase_def)
qed

lemma kids_ok_last: "kids_ok ms \<Longrightarrow> x \<in> set ms \<Longrightarrow> fst x \<le> fst (last ms)"
proof (induction ms)
  case (Cons y ys)
  then show ?case by (cases "ys = []") (auto intro: less_imp_le dest: bspec)
qed simp

lemma next_id_fresh: "kids_ok ms \<Longrightarrow> map_of ms (next_id ms) = None"
  using kids_ok_last [of ms] by (force simp: next_id_def map_of_eq_None_iff)

section \<open>Prefixes\<close>

declare dec.simps [simp del]

lemma dec_digits: "c \<in> set (dec n) \<Longrightarrow> (48 :: nat) \<le> of_char c \<and> of_char c < (58 :: nat)"
proof (induction n rule: dec.induct)
  case (1 n)
  show ?case
  proof (cases "n < 10")
    case True
    then show ?thesis using "1.prems" by (simp add: dec.simps [of n] digit_def)
  next
    case False
    have "n mod 10 < 10" by simp
    then show ?thesis using 1 False by (auto simp: dec.simps [of n] digit_def)
  qed
qed

lemma no_slash_dec: "CHR ''/'' \<notin> set (dec n)"
  using dec_digits [of "CHR ''/''" n] by auto

lemma no_minus_dec: "CHR ''-'' \<notin> set (dec n)"
  using dec_digits [of "CHR ''-''" n] by auto

fun undec :: "string \<Rightarrow> nat" where
  "undec cs = fold (\<lambda>c n. 10 * n + (of_char c - 48)) cs 0"

lemma undec_dec: "undec (dec n) = n"
proof (induction n rule: dec.induct)
  case (1 n)
  show ?case
  proof (cases "n < 10")
    case True
    then show ?thesis by (simp add: dec.simps [of n] digit_def)
  next
    case False
    have "n mod 10 < 10" by simp
    then have "(48 + n mod 10) mod 256 - 48 = n mod 10" by simp
    then show ?thesis using 1 False by (simp add: dec.simps [of n] digit_def)
  qed
qed


lemma to_string_inj: "to_string i = to_string j \<Longrightarrow> i = j"
proof -
  assume eq: "to_string i = to_string j"
  have d: "dec m = dec n \<Longrightarrow> m = n" for m n by (metis undec_dec)
  have h: "dec m \<noteq> CHR ''-'' # cs" for m cs using no_minus_dec [of m] by auto
  show "i = j"
  proof (cases "i < 0"; cases "j < 0")
    assume "i < 0" "j < 0"
    then show ?thesis using eq d [of "nat (- i)" "nat (- j)"] by (simp add: to_string_def)
  next
    assume "\<not> i < 0" "\<not> j < 0"
    then show ?thesis using eq d [of "nat i" "nat j"] by (simp add: to_string_def)
  qed (use eq h in \<open>auto simp: to_string_def\<close>, metis h)
qed

lemma no_slash_to_string: "CHR ''/'' \<notin> set (to_string i)"
  by (simp add: to_string_def no_slash_dec)

lemma slash_split:
  assumes "x @ ''/'' @ k = y @ ''/'' @ l" "CHR ''/'' \<notin> set x" "CHR ''/'' \<notin> set y"
  shows "x = y \<and> k = l"
proof -
  have t: "takeWhile (\<lambda>c. c \<noteq> CHR ''/'') (z @ ''/'' @ w) = z" if "CHR ''/'' \<notin> set z" for z w
    using that by (simp add: takeWhile_append)
  have "x = y" using t [OF assms(2), of k] t [OF assms(3), of l] assms(1) by simp
  then show ?thesis using assms(1) by simp
qed

section \<open>Lifting acts effect by effect\<close>

text \<open>What lifting does to a single effect.\<close>

fun lifted :: "('m \<Rightarrow> 'pm) \<Rightarrow> ('o \<Rightarrow> 'pm) option \<Rightarrow> string \<Rightarrow> ('h, 'o, 'm) cmd \<Rightarrow> ('h, 'o, 'pm) cmd" where
  "lifted w fr p (Report out) = (case fr of None \<Rightarrow> Report out | Some f \<Rightarrow> Send (f out))"
| "lifted w fr p (Task b wh k) = Task (from_mapped w b) wh (if k = '''' then k else p @ k)"
| "lifted w fr p (After d m k) = After d (w m) (if k = '''' then k else p @ k)"
| "lifted w fr p (Cancel k) = Cancel (p @ k)"
| "lifted w fr p c = cmd_map w c"

lemma leaves_prefix: "leaves (prefix_task_keys p c) = map (prefix_task_keys p) (leaves c)"
  by (induction c) (auto simp: map_concat intro!: arg_cong [of _ _ concat])

fun settle :: "('o \<Rightarrow> 'm) option \<Rightarrow> ('h, 'o, 'm) cmd \<Rightarrow> ('h, 'o, 'm) cmd" where
  "settle (Some f) (Report out) = Send (f out)"
| "settle fr c = c"

fun is_leaf :: "('h, 'o, 'm) cmd \<Rightarrow> bool" where
  "is_leaf CNone = False"
| "is_leaf (Batch cs) = False"
| "is_leaf c = True"

lemma leaves_is_leaf: "e \<in> set (leaves c) \<Longrightarrow> is_leaf e"
  by (induction c) auto

lemma settle_None [simp]: "settle None c = c"
  by (cases c) auto

lemma settle_report: "(case e of Report out \<Rightarrow> leaves (Send (f out)) | _ \<Rightarrow> [e]) = [settle (Some f) e]"
  by (cases e) auto

lemma leaves_resolve_reports: "leaves (resolve_reports fr c) = map (settle fr) (leaves c)"
proof (cases fr)
  case None
  then show ?thesis by (simp add: resolve_reports_def map_idI)
next
  case (Some f)
  then have "resolve_reports fr c = resolve (\<lambda>out. Send (f out)) c" by (simp add: resolve_reports_def)
  then have "leaves (resolve_reports fr c) = concat (map (\<lambda>e. [settle (Some f) e]) (leaves c))"
    by (simp only: leaves_resolve settle_report)
  then show ?thesis using Some by simp
qed

lemma lifted_leaf: "is_leaf e \<Longrightarrow> settle fr (cmd_map w (prefix_task_keys p e)) = lifted w fr p e"
  by (cases e; cases fr) auto

lemma leaves_lift: "leaves (resolve_reports fr (cmd_map w (prefix_task_keys p c))) = map (lifted w fr p) (leaves c)"
  by (simp add: leaves_resolve_reports leaves_map leaves_prefix lifted_leaf leaves_is_leaf)

section \<open>Stream keys\<close>

definition stream_keys :: "('k, 'e, 'm) sub \<Rightarrow> string list" where
  "stream_keys s = concat (map (\<lambda>x. case x of Stream k b \<Rightarrow> [k] | _ \<Rightarrow> []) (sub_leaves s))"

lemma sub_leaves_leaf: "x \<in> set (sub_leaves s) \<Longrightarrow> (\<exists>i m. x = Every i m) \<or> (\<exists>k b. x = Stream k b) \<or> (\<exists>k g. x = HostSrc k g)"
  by (induction s) auto

lemma stream_keys_map [simp]: "stream_keys (sub_map f s) = stream_keys s"
  unfolding stream_keys_def sub_leaves_map
  by (auto intro!: arg_cong [of _ _ concat] dest!: sub_leaves_leaf)

lemma stream_keys_SBatch: "stream_keys (SBatch ss) = concat (map stream_keys ss)"
  unfolding stream_keys_def by (induction ss) auto

lemma stream_keys_prefix: "stream_keys (prefix_streams p s) = map (\<lambda>k. p @ k) (stream_keys s)"
proof (induction s)
  case (SBatch ss)
  have "stream_keys (prefix_streams p (SBatch ss)) = concat (map (\<lambda>s. stream_keys (prefix_streams p s)) ss)"
    by (simp add: stream_keys_SBatch o_def)
  also have "\<dots> = concat (map (\<lambda>s. map (\<lambda>k. p @ k) (stream_keys s)) ss)"
    using SBatch by (intro arg_cong [of _ _ concat] map_cong) auto
  finally show ?case by (simp add: stream_keys_SBatch map_concat o_def)
qed (auto simp: stream_keys_def)

lemma stream_keys_batch: "stream_keys (sub_batch ss) = concat (map stream_keys ss)"
  unfolding stream_keys_def sub_leaves_batch by (induction ss) auto

lemma kids_stream_keys:
  "stream_keys (kids_subscribe S P ms) =
     concat (map (\<lambda>(i, m). map (\<lambda>k. ks_key_of S i @ ''/'' @ k) (stream_keys (p_subscribe P m))) ms)"
proof -
  let ?f = "\<lambda>(i, m). sub_map_with i (ks_wrap S) (prefix_streams (ks_key_of S i @ ''/'') (p_subscribe P m))"
  let ?g = "\<lambda>(i, m). map (\<lambda>k. ks_key_of S i @ ''/'' @ k) (stream_keys (p_subscribe P m))"
  let ?ms = "filter (\<lambda>(i, m). p_subscribe P m \<noteq> SNone) ms"
  have f: "stream_keys (?f x) = ?g x" for x
    by (cases x) (simp add: sub_map_with_eq stream_keys_prefix)
  have "stream_keys (kids_subscribe S P ms) = concat (map (\<lambda>x. stream_keys (?f x)) ?ms)"
    by (auto simp: kids_subscribe_def Let_def stream_keys_batch o_def stream_keys_def [of SNone])
  also have "\<dots> = concat (map ?g ?ms)" by (simp only: f)
  also have "\<dots> = concat (map ?g ms)" by (induction ms) (auto simp: stream_keys_def)
  finally show ?thesis .
qed

section \<open>A concrete list\<close>

definition tab_slot :: "(int, nat, unit, int \<times> nat) kids_slot" where
  "tab_slot = \<lparr>ks_wrap = Pair, ks_from = None, ks_key_of = to_string\<rparr>"

definition tab_prog :: "(nat, nat, unit, unit, unit, unit, unit) program" where
  "tab_prog = \<lparr>p_init = (0, CNone), p_update = (\<lambda>md m now. (md + m, Inr (Send m))),
     p_subscribe = (\<lambda>md. Stream ''fetch'' (Done ())), p_on = (\<lambda>md ev. None)\<rparr>"

section \<open>Properties\<close>

text \<open>A child's command reaches its parent effect by effect and in order: each message wrapped
  (with the child's id, in a list of children), each keyed task, timer and cancel under the child's
  prefix, an unkeyed one left unkeyed, and each report turned into a send of the parent's message.\<close>

theorem lift_effects:
  "leaves (lift CS c) = map (lifted (cs_wrap CS) (cs_from CS) (cs_name CS @ ''/'')) (leaves c) \<and>
   leaves (kids_lift KS i c) =
     map (lifted (ks_wrap KS i) (map_option (\<lambda>f. f i) (ks_from KS)) (ks_key_of KS i @ ''/'')) (leaves c)"
  by (simp add: lift_def kids_lift_def cmd_map_with_eq leaves_lift)

text \<open>With integer ids no two children share a stream: when each child's own keys are distinct, so
  are all the keys the list subscribes to, and each is the child's id, a slash and the child's key.\<close>

theorem kids_streams_distinct:
  assumes "kids_ok ms" "ks_key_of S = to_string" "\<forall>(i, m) \<in> set ms. distinct (stream_keys (p_subscribe P m))"
  shows "distinct (stream_keys (kids_subscribe S P ms)) \<and>
    set (stream_keys (kids_subscribe S P ms)) =
      {to_string i @ ''/'' @ k |i m k. (i, m) \<in> set ms \<and> k \<in> set (stream_keys (p_subscribe P m))}"
proof -
  let ?g = "\<lambda>(i, m). map (\<lambda>k. to_string i @ ''/'' @ k) (stream_keys (p_subscribe P m))"
  have keys: "stream_keys (kids_subscribe S P ms) = concat (map ?g ms)"
    using kids_stream_keys [of S P ms] assms(2) by simp
  have "distinct (concat (map ?g ms))"
    using assms(1,3)
  proof (induction ms)
    case (Cons x ms)
    obtain i m where x: "x = (i, m)" by fastforce
    have "set (?g (i, m)) \<inter> set (concat (map ?g ms)) = {}"
    proof (rule ccontr)
      assume "set (?g (i, m)) \<inter> set (concat (map ?g ms)) \<noteq> {}"
      then obtain k j n l where *: "(j, n) \<in> set ms" "to_string i @ ''/'' @ k = to_string j @ ''/'' @ l" by fastforce
      then have "i = j" using slash_split no_slash_to_string to_string_inj by metis
      then show False using Cons.prems(1) * x by force
    qed
    moreover have "distinct (?g (i, m))" using Cons.prems(2) x by (auto simp: distinct_map inj_on_def)
    ultimately show ?case using Cons x by simp
  qed simp
  then show ?thesis using keys by (auto simp: split_def) force+
qed

theorem kids_streams_distinct_witness:
  "distinct (stream_keys (kids_subscribe tab_slot tab_prog [(1, 10), (2, 20)]))"
  by (rule kids_streams_distinct [THEN conjunct1]) (simp_all add: tab_slot_def tab_prog_def stream_keys_def)

text \<open>string ids give no such guarantee: two different children with different keys can ask for
  one and the same stream, because the id may itself hold the separator.\<close>

theorem kids_string_ids_collide:
  "stream_keys (kids_subscribe \<lparr>ks_wrap = (\<lambda>i m. m), ks_from = None, ks_key_of = (\<lambda>i. i)\<rparr>
     \<lparr>p_init = ('''', CNone), p_update = (\<lambda>md m now. (md, Inr CNone)), p_subscribe = (\<lambda>md. Stream md (Done ())),
      p_on = (\<lambda>md ev. None)\<rparr> [(''a'', ''b/c''), (''a/b'', ''c'')]) = [''a/b/c'', ''a/b/c'']"
  by (subst kids_stream_keys) (simp add: stream_keys_def)

text \<open>a message for a child that is gone changes nothing and has no effect; one for a live child
  runs that child's update on that child's model, touches no other child, and hands on the lifted
  command or the exception.\<close>

theorem kids_update_frame:
  assumes "kids_ok ms" "kids_update S P i msg now ms = (r, ms')"
  shows "kids_ok ms' \<and> (case map_of ms i of
      None \<Rightarrow> r = Inr CNone \<and> ms' = ms
    | Some m \<Rightarrow> map_of ms' = (map_of ms)(i \<mapsto> fst (p_update P m msg now)) \<and>
        r = (case snd (p_update P m msg now) of Inl e \<Rightarrow> Inl e | Inr c \<Rightarrow> Inr (kids_lift S i c)))"
  using assms insert_or_assign_ok [OF assms(1)] insert_or_assign_map [OF assms(1)]
  by (auto simp: kids_update_def split: option.splits prod.splits sum.splits)

theorem kids_update_frame_witness:
  "kids_update tab_slot tab_prog 2 5 0 [(1, 10), (2, 20)] = (Inr (Send (2, 5)), [(1, 10), (2, 25)]) \<and>
   kids_ok (snd (kids_update tab_slot tab_prog 2 5 0 [(1, 10), (2, 20)]))"
proof -
  have u: "kids_update tab_slot tab_prog 2 5 0 [(1, 10), (2, 20)] = (Inr (Send (2, 5)), [(1, 10), (2, 25)])"
    by (simp add: kids_update_def kids_lift_def resolve_reports_def tab_slot_def tab_prog_def)
  show ?thesis using u kids_update_frame [OF _ u] by simp
qed

text \<open>the list is a map: adding under an id replaces exactly that child's model with a fresh one,
  adding under the next id never replaces anything, and removing takes away exactly the child named
  and says whether it was there.\<close>

theorem kids_list_ops:
  assumes "kids_ok ms"
  shows "map_of (snd (kids_add S P i ms)) = (map_of ms)(i \<mapsto> fst (p_init P)) \<and> kids_ok (snd (kids_add S P i ms)) \<and>
    map_of (snd (erase i ms)) = (map_of ms)(i := None) \<and> kids_ok (snd (erase i ms)) \<and>
    (fst (erase i ms) \<longleftrightarrow> kids_has i ms)"
  using insert_or_assign_ok [OF assms] insert_or_assign_map [OF assms] erase_spec [OF assms]
  by (auto simp: kids_add_def kids_has_def erase_def split: prod.splits)

theorem kids_list_ops_witness:
  "map_of (snd (erase (2 :: int) [(1, CHR ''a''), (2, CHR ''b'')])) = (map_of [(1, CHR ''a''), (2, CHR ''b'')])(2 := None)"
  by (rule kids_list_ops [of "[(1 :: int, CHR ''a''), (2, CHR ''b'')]" _ _ 2, THEN conjunct2, THEN conjunct2, THEN conjunct1]) simp

text \<open>the id \<^verbatim>\<open>add\<close> picks is free, and one past the largest in use; so after the child with the
  largest id has been removed that id is handed out again.\<close>

theorem kids_next_id:
  "(kids_ok ms \<longrightarrow> \<not> kids_has (next_id ms) ms) \<and>
   next_id (snd (erase 1 [(0, m), (1, m')])) = 1"
  using next_id_fresh [of ms] by (simp add: kids_has_def) (simp add: next_id_def erase_def)

theorem kids_next_id_witness: "\<not> kids_has (next_id [(3, CHR ''x'')]) [(3, CHR ''x'')]"
  using kids_next_id [of "[(3, CHR ''x'')]", THEN conjunct1] by simp

end
