(* ===== verification/Mailbox.thy ===== *)
theory Mailbox
  imports Jaal_Prelude
begin

text \<open>
  \<^verbatim>\<open>include/jaal/kernel/mailbox.hpp\<close>: the queue other threads post into and the loop drains. A method
  body runs under the lock, so it is one atomic step; a sender that must wait for room gives the lock
  up and resumes in a step of its own, and a wake is called after unlocking, so a started wake and a
  finished one are two steps. The step relation interleaves all of them freely.
\<close>

section \<open>State\<close>

datatype overflow = Block | DropNewest | DropOldest

type_synonym origin_id = u64

record mailbox_stats =
  st_dropped :: nat
  st_blocked :: nat
  st_loop_full :: nat
  st_retired :: nat
  st_high_water :: nat

record 'm mailbox =
  mb_q :: "(origin_id \<times> 'm) list"
  mb_head :: nat
  mb_nonempty :: bool
  mb_waking :: nat
  mb_wake :: bool
  mb_capacity :: nat
  mb_on_full :: overflow
  mb_stats :: mailbox_stats
  mb_live :: "origin_id list"
  mb_last_origin :: origin_id
  mb_closed :: bool

definition no_stats :: mailbox_stats where
  "no_stats = \<lparr>st_dropped = 0, st_blocked = 0, st_loop_full = 0, st_retired = 0, st_high_water = 0\<rparr>"

definition new_mailbox :: "bool \<Rightarrow> nat \<Rightarrow> overflow \<Rightarrow> 'm mailbox" where
  "new_mailbox wake capacity on_full =
     \<lparr>mb_q = [], mb_head = 0, mb_nonempty = False, mb_waking = 0, mb_wake = wake, mb_capacity = capacity,
      mb_on_full = on_full, mb_stats = no_stats, mb_live = [], mb_last_origin = 0, mb_closed = False\<rparr>"

definition live_count :: "'m mailbox \<Rightarrow> nat" where
  "live_count b = length (mb_q b) - mb_head b"

definition full :: "'m mailbox \<Rightarrow> bool" where
  "full b \<longleftrightarrow> mb_capacity b \<noteq> 0 \<and> live_count b \<ge> mb_capacity b"

definition is_retired :: "origin_id \<Rightarrow> 'm mailbox \<Rightarrow> bool" where
  "is_retired i b \<longleftrightarrow> i \<le> mb_last_origin b \<and> i \<notin> set (mb_live b)"

section \<open>Operations\<close>

text \<open>How a post ends, or that it waits. \<open>Queued True\<close> owes a wake.\<close>

datatype post_result = Refused | Queued bool | Waiting

definition enqueue :: "origin_id \<Rightarrow> 'm \<Rightarrow> 'm mailbox \<Rightarrow> post_result \<times> 'm mailbox" where
  "enqueue src m b =
     (let first = (live_count b = 0);
          b1 = b\<lparr>mb_q := mb_q b @ [(src, m)], mb_nonempty := True\<rparr>;
          b2 = (if live_count b1 > st_high_water (mb_stats b1)
                then b1\<lparr>mb_stats := (mb_stats b1)\<lparr>st_high_water := live_count b1\<rparr>\<rparr> else b1)
      in if \<not> first \<or> \<not> mb_wake b2 then (Queued False, b2)
         else (Queued True, b2\<lparr>mb_waking := mb_waking b2 + 1\<rparr>))"

definition evict :: "'m mailbox \<Rightarrow> 'm mailbox" where
  "evict b =
     (let b1 = b\<lparr>mb_head := mb_head b + 1\<rparr>;
          b2 = (if mb_head b1 \<ge> mb_capacity b1 then b1\<lparr>mb_q := drop (mb_head b1) (mb_q b1), mb_head := 0\<rparr> else b1)
      in b2\<lparr>mb_stats := (mb_stats b2)\<lparr>st_dropped := st_dropped (mb_stats b2) + 1\<rparr>\<rparr>)"

text \<open>
  \<^verbatim>\<open>post_from\<close> up to the point where it returns, wakes or waits. \<open>must_not_wait\<close> is the deadlock test:
  the caller is the loop, the loop waits for it, or it holds a lock.
\<close>

definition post_from :: "bool \<Rightarrow> origin_id \<Rightarrow> 'm \<Rightarrow> 'm mailbox \<Rightarrow> post_result \<times> 'm mailbox" where
  "post_from must_not_wait src m b =
     (if mb_closed b then (Refused, b)
      else if src \<noteq> 0 \<and> is_retired src b then (Refused, b)
      else if full b then
        (case mb_on_full b of
           DropNewest \<Rightarrow> (Refused, b\<lparr>mb_stats := (mb_stats b)\<lparr>st_dropped := st_dropped (mb_stats b) + 1\<rparr>\<rparr>)
         | DropOldest \<Rightarrow> enqueue src m (evict b)
         | Block \<Rightarrow>
             if must_not_wait
             then (Refused, b\<lparr>mb_stats := (mb_stats b)\<lparr>st_loop_full := st_loop_full (mb_stats b) + 1\<rparr>\<rparr>)
             else (Waiting, b\<lparr>mb_stats := (mb_stats b)\<lparr>st_blocked := st_blocked (mb_stats b) + 1\<rparr>\<rparr>))
      else enqueue src m b)"

text \<open>A waiting sender resumes once the mailbox is closed or has room.\<close>

definition may_resume :: "'m mailbox \<Rightarrow> bool" where
  "may_resume b \<longleftrightarrow> mb_closed b \<or> \<not> full b"

definition post_resume :: "origin_id \<Rightarrow> 'm \<Rightarrow> 'm mailbox \<Rightarrow> post_result \<times> 'm mailbox" where
  "post_resume src m b =
     (if mb_closed b then (Refused, b)
      else if src \<noteq> 0 \<and> is_retired src b then (Refused, b)
      else enqueue src m b)"

definition wake_done :: "'m mailbox \<Rightarrow> 'm mailbox" where
  "wake_done b = b\<lparr>mb_waking := mb_waking b - 1\<rparr>"

definition drain_tagged :: "'m mailbox \<Rightarrow> (origin_id \<times> 'm) list \<times> 'm mailbox" where
  "drain_tagged b =
     (if \<not> mb_nonempty b then ([], b)
      else
        let b1 = b\<lparr>mb_nonempty := False\<rparr>
        in if live_count b1 = 0 then ([], b1)
           else
             let out = drop (mb_head b1) (mb_q b1);
                 b2 = b1\<lparr>mb_q := [], mb_head := 0\<rparr>
             in if mb_last_origin b2 \<noteq> 0 then
                  let kept = filter (\<lambda>e. \<not> (fst e \<noteq> 0 \<and> is_retired (fst e) b2)) out
                  in (kept, b2\<lparr>mb_stats := (mb_stats b2)\<lparr>st_retired := st_retired (mb_stats b2) + (length out - length kept)\<rparr>\<rparr>)
                else (out, b2))"

definition drain :: "'m mailbox \<Rightarrow> 'm list \<times> 'm mailbox" where
  "drain b = (let (tmp, b') = drain_tagged b in (map snd tmp, b'))"

definition maybe_nonempty :: "'m mailbox \<Rightarrow> bool" where
  "maybe_nonempty b = mb_nonempty b"

text \<open>\<^verbatim>\<open>open_origin\<close> asserts that the counter does not wrap; the failed assertion is \<open>None\<close>.\<close>

definition open_origin :: "'m mailbox \<Rightarrow> (origin_id \<times> 'm mailbox) option" where
  "open_origin b =
     (if mb_last_origin b < - 1 then
        let i = mb_last_origin b + 1
        in Some (i, b\<lparr>mb_last_origin := i, mb_live := i # mb_live b\<rparr>)
      else None)"

definition retire :: "origin_id \<Rightarrow> 'm mailbox \<Rightarrow> 'm mailbox" where
  "retire i b = b\<lparr>mb_live := filter (\<lambda>j. j \<noteq> i) (mb_live b)\<rparr>"

definition mb_close :: "'m mailbox \<Rightarrow> 'm mailbox" where
  "mb_close b = b\<lparr>mb_closed := True, mb_q := [], mb_head := 0, mb_live := [], mb_nonempty := False\<rparr>"

text \<open>\<^verbatim>\<open>close\<close> returns when no wake is in flight any more.\<close>

definition close_returns :: "'m mailbox \<Rightarrow> bool" where
  "close_returns b \<longleftrightarrow> mb_closed b \<and> mb_waking b = 0"

definition wake_if_open :: "'m mailbox \<Rightarrow> bool \<times> 'm mailbox" where
  "wake_if_open b =
     (if mb_closed b \<or> \<not> mb_wake b then (False, b) else (True, b\<lparr>mb_waking := mb_waking b + 1\<rparr>))"

definition count_retired :: "'m mailbox \<Rightarrow> 'm mailbox" where
  "count_retired b = b\<lparr>mb_stats := (mb_stats b)\<lparr>st_retired := st_retired (mb_stats b) + 1\<rparr>\<rparr>"

section \<open>The system of senders, wakes and the loop\<close>

text \<open>
  \<open>sy_waiters\<close> are the senders blocked for room. \<open>sy_signalled\<close> says that a finished wake has not
  been answered by a drain yet: the reactor will return at once.
\<close>

record 'm system =
  sy_box :: "'m mailbox"
  sy_waiters :: "(origin_id \<times> 'm) multiset"
  sy_signalled :: bool

inductive sys_step :: "'m system \<Rightarrow> 'm system \<Rightarrow> bool" where
  s_post: "post_from w src m (sy_box s) = (r, b) \<Longrightarrow> r \<noteq> Waiting \<Longrightarrow> sys_step s (s\<lparr>sy_box := b\<rparr>)"
| s_block: "post_from w src m (sy_box s) = (Waiting, b) \<Longrightarrow>
    sys_step s (s\<lparr>sy_box := b, sy_waiters := add_mset (src, m) (sy_waiters s)\<rparr>)"
| s_resume: "(src, m) \<in># sy_waiters s \<Longrightarrow> may_resume (sy_box s) \<Longrightarrow> post_resume src m (sy_box s) = (r, b) \<Longrightarrow>
    sys_step s (s\<lparr>sy_box := b, sy_waiters := sy_waiters s - {# (src, m) #}\<rparr>)"
| s_wake: "mb_waking (sy_box s) > 0 \<Longrightarrow> sys_step s (s\<lparr>sy_box := wake_done (sy_box s), sy_signalled := True\<rparr>)"
| s_drain: "drain_tagged (sy_box s) = (out, b) \<Longrightarrow> sys_step s (s\<lparr>sy_box := b, sy_signalled := False\<rparr>)"
| s_open: "open_origin (sy_box s) = Some (i, b) \<Longrightarrow> sys_step s (s\<lparr>sy_box := b\<rparr>)"
| s_retire: "sys_step s (s\<lparr>sy_box := retire i (sy_box s)\<rparr>)"
| s_close: "sys_step s (s\<lparr>sy_box := mb_close (sy_box s)\<rparr>)"
| s_wake_open: "wake_if_open (sy_box s) = (r, b) \<Longrightarrow> sys_step s (s\<lparr>sy_box := b\<rparr>)"
| s_count: "sys_step s (s\<lparr>sy_box := count_retired (sy_box s)\<rparr>)"

inductive sys_reach :: "'m system \<Rightarrow> bool" where
  sr_init: "sys_reach \<lparr>sy_box = new_mailbox wake capacity on_full, sy_waiters = {#}, sy_signalled = False\<rparr>"
| sr_step: "sys_reach s \<Longrightarrow> sys_step s s' \<Longrightarrow> sys_reach s'"

section \<open>The invariant\<close>

definition queued :: "'m mailbox \<Rightarrow> (origin_id \<times> 'm) list" where
  "queued b = drop (mb_head b) (mb_q b)"

lemma length_queued [simp]: "length (queued b) = live_count b"
  by (simp add: queued_def live_count_def)

text \<open>Everything but the hint: what holds in the middle of a post that has just evicted.\<close>

definition mb_pre :: "'m mailbox \<Rightarrow> bool" where
  "mb_pre b \<longleftrightarrow>
     mb_head b \<le> length (mb_q b) \<and>
     (mb_capacity b = 0 \<longrightarrow> mb_head b = 0) \<and>
     (mb_capacity b \<noteq> 0 \<longrightarrow> live_count b \<le> mb_capacity b \<and> mb_head b < mb_capacity b) \<and>
     (\<forall>i \<in> set (mb_live b). 0 < i \<and> i \<le> mb_last_origin b) \<and>
     (mb_closed b \<longrightarrow> mb_q b = [] \<and> mb_head b = 0)"

definition mb_inv :: "'m mailbox \<Rightarrow> bool" where
  "mb_inv b \<longleftrightarrow> mb_pre b \<and> (mb_nonempty b \<longleftrightarrow> live_count b \<noteq> 0)"

lemmas mb_simps = live_count_def full_def queued_def is_retired_def

text \<open>What every operation of a sender leaves alone.\<close>

definition same_frame :: "'m mailbox \<Rightarrow> 'm mailbox \<Rightarrow> bool" where
  "same_frame b b' \<longleftrightarrow> mb_live b' = mb_live b \<and> mb_last_origin b' = mb_last_origin b \<and>
     mb_closed b' = mb_closed b \<and> mb_capacity b' = mb_capacity b \<and> mb_on_full b' = mb_on_full b \<and>
     mb_wake b' = mb_wake b"

lemma enqueue_eq:
  "\<exists>st. enqueue src m b = (Queued (live_count b = 0 \<and> mb_wake b),
     b\<lparr>mb_q := mb_q b @ [(src, m)], mb_nonempty := True, mb_stats := st,
       mb_waking := mb_waking b + (if live_count b = 0 \<and> mb_wake b then 1 else 0)\<rparr>)"
  by (cases b, rule exI [of _ "mb_stats (snd (enqueue src m b))"]) (simp add: enqueue_def Let_def live_count_def)

lemma enqueue_spec:
  assumes "mb_pre b" "\<not> mb_closed b" "\<not> full b" "enqueue src m b = (r, b')"
  shows "mb_inv b' \<and> queued b' = queued b @ [(src, m)] \<and> r = Queued (live_count b = 0 \<and> mb_wake b) \<and>
    same_frame b b' \<and> mb_waking b' = mb_waking b + (if live_count b = 0 \<and> mb_wake b then 1 else 0)"
proof -
  obtain st where e: "enqueue src m b = (Queued (live_count b = 0 \<and> mb_wake b),
     b\<lparr>mb_q := mb_q b @ [(src, m)], mb_nonempty := True, mb_stats := st,
       mb_waking := mb_waking b + (if live_count b = 0 \<and> mb_wake b then 1 else 0)\<rparr>)"
    using enqueue_eq [of src m b] by (elim exE)
  then have b': "b' = b\<lparr>mb_q := mb_q b @ [(src, m)], mb_nonempty := True, mb_stats := st,
       mb_waking := mb_waking b + (if live_count b = 0 \<and> mb_wake b then 1 else 0)\<rparr>"
    and r: "r = Queued (live_count b = 0 \<and> mb_wake b)"
    using assms(4) by simp_all
  have h: "mb_head b \<le> length (mb_q b)" using assms(1) by (simp add: mb_pre_def)
  then have lc: "live_count b' = live_count b + 1" by (simp add: b' live_count_def)
  moreover have "queued b' = queued b @ [(src, m)]" using h by (simp add: b' queued_def)
  moreover have "mb_pre b'" using assms(1-3) lc unfolding mb_pre_def full_def by (auto simp: b')
  ultimately show ?thesis using r by (simp add: mb_inv_def same_frame_def b')
qed

lemma evict_eq:
  "\<exists>st. evict b =
     (if mb_head b + 1 \<ge> mb_capacity b
      then b\<lparr>mb_q := drop (mb_head b + 1) (mb_q b), mb_head := 0, mb_stats := st\<rparr>
      else b\<lparr>mb_head := mb_head b + 1, mb_stats := st\<rparr>)"
  by (auto simp: evict_def Let_def)

lemma evict_spec:
  assumes "mb_inv b" "full b"
  shows "mb_pre (evict b) \<and> queued (evict b) = tl (queued b) \<and> \<not> full (evict b) \<and> same_frame b (evict b) \<and>
    mb_waking (evict b) = mb_waking b"
proof -
  obtain st where e: "evict b =
     (if mb_head b + 1 \<ge> mb_capacity b
      then b\<lparr>mb_q := drop (mb_head b + 1) (mb_q b), mb_head := 0, mb_stats := st\<rparr>
      else b\<lparr>mb_head := mb_head b + 1, mb_stats := st\<rparr>)"
    using evict_eq [of b] by (elim exE)
  have f: "mb_capacity b \<noteq> 0" "mb_capacity b \<le> length (mb_q b) - mb_head b"
    using assms(2) by (simp_all add: full_def live_count_def)
  have i: "mb_head b \<le> length (mb_q b)" "length (mb_q b) - mb_head b \<le> mb_capacity b" "mb_head b < mb_capacity b"
    "\<forall>i \<in> set (mb_live b). 0 < i \<and> i \<le> mb_last_origin b" "mb_closed b \<longrightarrow> mb_q b = [] \<and> mb_head b = 0"
    using assms(1) f(1) unfolding mb_inv_def mb_pre_def live_count_def by blast+
  have "queued (evict b) = tl (queued b)" by (simp add: e queued_def tl_drop drop_Suc)
  moreover have "live_count (evict b) = mb_capacity b - 1" using f i by (simp add: e live_count_def)
  moreover have "mb_pre (evict b)" using f i unfolding mb_pre_def by (auto simp: e live_count_def)
  ultimately show ?thesis using f by (simp add: full_def e same_frame_def)
qed

lemma same_frame_refl [simp]: "same_frame b b"
  by (simp add: same_frame_def)

lemma same_frame_trans: "same_frame a b \<Longrightarrow> same_frame b c \<Longrightarrow> same_frame a c"
  by (simp add: same_frame_def)

text \<open>The four ways a post goes.\<close>

lemma post_from_cases:
  assumes inv: "mb_inv b" and p: "post_from w src m b = (r, b')"
  obtains
    (keep) "r = Refused \<or> r = Waiting" "mb_inv b'" "queued b' = queued b" "same_frame b b'" "mb_waking b' = mb_waking b"
      "r = Waiting \<longrightarrow> full b \<and> \<not> mb_closed b"
  | (add) k where "r = Queued (live_count (if k then evict b else b) = 0 \<and> mb_wake b)" "\<not> mb_closed b"
      "src = 0 \<or> \<not> is_retired src b" "mb_inv b'" "same_frame b b'" "k \<longleftrightarrow> full b" "k \<longrightarrow> mb_on_full b = DropOldest"
      "queued b' = (if k then tl (queued b) else queued b) @ [(src, m)]"
      "mb_waking b' = mb_waking b + (if live_count (if k then evict b else b) = 0 \<and> mb_wake b then 1 else 0)"
proof -
  have stats: "mb_inv (b\<lparr>mb_stats := st\<rparr>) \<and> queued (b\<lparr>mb_stats := st\<rparr>) = queued b \<and> same_frame b (b\<lparr>mb_stats := st\<rparr>)" for st
    using inv by (simp add: mb_inv_def mb_pre_def mb_simps same_frame_def)
  have pre: "mb_pre b" using inv by (simp add: mb_inv_def)
  show thesis
  proof (cases "mb_closed b \<or> (src \<noteq> 0 \<and> is_retired src b)")
    case True
    then have "post_from w src m b = (Refused, b)" by (auto simp: post_from_def)
    then have "r = Refused" "b' = b" using p by simp_all
    then show thesis using inv by (intro keep) simp_all
  next
    case ok: False
    show thesis
    proof (cases "full b")
      case False
      then have "post_from w src m b = enqueue src m b" using ok by (auto simp: post_from_def)
      then have "enqueue src m b = (r, b')" using p by simp
      from enqueue_spec [OF pre _ False this] show thesis using ok False by (intro add [of False]) auto
    next
      case True
      show thesis
      proof (cases "mb_on_full b")
        case DropOldest
        then have "post_from w src m b = enqueue src m (evict b)" using ok True by (auto simp: post_from_def)
        then have "enqueue src m (evict b) = (r, b')" using p by simp
        moreover note v = evict_spec [OF inv True]
        moreover have "mb_closed (evict b) = mb_closed b" "mb_wake (evict b) = mb_wake b" using v by (simp_all add: same_frame_def)
        ultimately have "mb_inv b' \<and> queued b' = queued (evict b) @ [(src, m)] \<and>
            r = Queued (live_count (evict b) = 0 \<and> mb_wake b) \<and> same_frame (evict b) b' \<and>
            mb_waking b' = mb_waking b + (if live_count (evict b) = 0 \<and> mb_wake b then 1 else 0)"
          using enqueue_spec [of "evict b" src m r b'] ok by simp
        then show thesis using ok True DropOldest v same_frame_trans [of b "evict b" b'] by (intro add [of True]) auto
      next
        case Block
        then have "post_from w src m b = (if w then (Refused, b\<lparr>mb_stats := (mb_stats b)\<lparr>st_loop_full := st_loop_full (mb_stats b) + 1\<rparr>\<rparr>)
            else (Waiting, b\<lparr>mb_stats := (mb_stats b)\<lparr>st_blocked := st_blocked (mb_stats b) + 1\<rparr>\<rparr>))"
          using ok True by (auto simp: post_from_def)
        then show thesis using p ok True stats by (intro keep) (auto split: if_splits)
      next
        case DropNewest
        then have "post_from w src m b = (Refused, b\<lparr>mb_stats := (mb_stats b)\<lparr>st_dropped := st_dropped (mb_stats b) + 1\<rparr>\<rparr>)"
          using ok True by (auto simp: post_from_def)
        then show thesis using p stats by (intro keep) auto
      qed
    qed
  qed
qed

lemma post_resume_cases:
  assumes inv: "mb_inv b" and p: "post_resume src m b = (r, b')" and may: "may_resume b"
  obtains (keep) "r = Refused" "b' = b"
  | (add) "r = Queued (live_count b = 0 \<and> mb_wake b)" "src = 0 \<or> \<not> is_retired src b" "mb_inv b'" "same_frame b b'"
      "queued b' = queued b @ [(src, m)]" "\<not> mb_closed b"
      "mb_waking b' = mb_waking b + (if live_count b = 0 \<and> mb_wake b then 1 else 0)"
proof -
  have pre: "mb_pre b" using inv by (simp add: mb_inv_def)
  show thesis
  proof (cases "mb_closed b \<or> (src \<noteq> 0 \<and> is_retired src b)")
    case True
    then have "post_resume src m b = (Refused, b)" by (auto simp: post_resume_def)
    then show thesis using p by (intro keep) simp_all
  next
    case False
    then have "post_resume src m b = enqueue src m b" by (auto simp: post_resume_def)
    then have e: "enqueue src m b = (r, b')" using p by simp
    have "\<not> full b" "\<not> mb_closed b" using may False by (auto simp: may_resume_def)
    then show thesis using enqueue_spec [OF pre _ _ e] False by (intro add) auto
  qed
qed

text \<open>What the loop takes: the queue, oldest first, less what retired origins sent.\<close>

definition stale :: "'m mailbox \<Rightarrow> origin_id \<Rightarrow> bool" where
  "stale b i \<longleftrightarrow> i \<noteq> 0 \<and> is_retired i b"

lemma drain_spec:
  assumes inv: "mb_inv b" and d: "drain_tagged b = (out, b')"
  shows "mb_inv b' \<and> queued b' = [] \<and> out = filter (\<lambda>e. \<not> stale b (fst e)) (queued b) \<and> same_frame b b' \<and>
    mb_waking b' = mb_waking b"
proof (cases "live_count b = 0")
  case True
  then have q: "queued b = []" by (metis length_queued length_0_conv)
  have "mb_nonempty b = False" using inv True by (simp add: mb_inv_def)
  then show ?thesis using d inv q by (simp add: drain_tagged_def)
next
  case False
  then have ne: "mb_nonempty b" using inv by (simp add: mb_inv_def)
  have all: "filter (\<lambda>e. \<not> stale b (fst e)) (queued b) = queued b" if "mb_last_origin b = 0"
    using that by (intro filter_True) (auto simp: stale_def is_retired_def word_le_0_iff)
  have l: "live_count (b\<lparr>mb_nonempty := False\<rparr>) = live_count b" by (simp add: live_count_def)
  have pre: "mb_pre (b\<lparr>mb_nonempty := False, mb_q := [], mb_head := 0, mb_stats := st\<rparr>)"
    "mb_pre (b\<lparr>mb_nonempty := False, mb_q := [], mb_head := 0\<rparr>)" for st
    using inv by (auto simp: mb_inv_def mb_pre_def live_count_def)
  show ?thesis
    using d ne False l pre all
    by (auto simp: drain_tagged_def Let_def mb_inv_def queued_def same_frame_def stale_def is_retired_def
        live_count_def split: if_splits)
qed

section \<open>The contract the loop relies on\<close>

locale origin_queue =
  fixes inv :: "'s \<Rightarrow> bool" and content :: "'s \<Rightarrow> ('i \<times> 'm) list" and dead :: "'s \<Rightarrow> 'i \<Rightarrow> bool"
    and take_all :: "'s \<Rightarrow> ('i \<times> 'm) list \<times> 's" and drop_origin :: "'i \<Rightarrow> 's \<Rightarrow> 's"
    and issued :: "'s \<Rightarrow> 'i \<Rightarrow> bool"
  assumes take_law: "inv s \<Longrightarrow> take_all s = (out, s') \<Longrightarrow>
      inv s' \<and> content s' = [] \<and> out = filter (\<lambda>e. \<not> dead s (fst e)) (content s) \<and> dead s' = dead s"
    and drop_law: "inv s \<Longrightarrow> issued s i \<Longrightarrow>
      inv (drop_origin i s) \<and> content (drop_origin i s) = content s \<and> (\<forall>j. dead (drop_origin i s) j \<longleftrightarrow> j = i \<or> dead s j)"
begin

lemma dropped_never_taken:
  assumes "inv s" "issued s i" "take_all (drop_origin i s) = (out, s')"
  shows "i \<notin> fst ` set out"
  using take_law [OF _ assms(3)] drop_law [OF assms(1,2)] by auto

lemma others_still_taken:
  assumes "inv s" "issued s i" "take_all (drop_origin i s) = (out, s')"
  shows "out = filter (\<lambda>e. fst e \<noteq> i \<and> \<not> dead s (fst e)) (content s)"
  using take_law [OF _ assms(3)] drop_law [OF assms(1,2)] by (auto intro!: filter_cong)

end

lemma retire_inv: "mb_inv b \<Longrightarrow> mb_inv (retire i b)"
  by (auto simp: mb_inv_def mb_pre_def retire_def live_count_def)

interpretation box: origin_queue mb_inv queued stale drain_tagged retire
  "\<lambda>b i. i \<noteq> 0 \<and> i \<le> mb_last_origin b"
proof (unfold_locales, goal_cases)
  case (1 s out s')
  then show ?case using drain_spec [OF 1] by (auto simp: fun_eq_iff stale_def is_retired_def same_frame_def)
next
  case (2 s i)
  then show ?case using retire_inv [of s i] by (auto simp: queued_def stale_def is_retired_def retire_def)
qed

section \<open>The system keeps the invariant\<close>

text \<open>
  A wake is owed whenever there is something to drain: either a finished wake has not been answered,
  or one is on its way.
\<close>

definition sys_inv :: "'m system \<Rightarrow> bool" where
  "sys_inv s \<longleftrightarrow> mb_inv (sy_box s) \<and>
     (mb_wake (sy_box s) \<and> live_count (sy_box s) \<noteq> 0 \<longrightarrow> sy_signalled s \<or> 0 < mb_waking (sy_box s))"

lemma live_count_grow: "queued b' = queued b @ [x] \<Longrightarrow> live_count b' = live_count b + 1"
  by (metis length_queued length_append_singleton Suc_eq_plus1)

lemma sys_inv_post:
  assumes "sys_inv s" "post_from w src m (sy_box s) = (r, b)"
  shows "sys_inv (s\<lparr>sy_box := b, sy_waiters := W\<rparr>)"
proof -
  have inv: "mb_inv (sy_box s)" using assms(1) by (simp add: sys_inv_def)
  from inv assms(2) show ?thesis
  proof (cases rule: post_from_cases)
    case keep
    then have "live_count b = live_count (sy_box s)" by (metis length_queued)
    then show ?thesis using keep assms(1) by (auto simp: sys_inv_def same_frame_def)
  next
    case (add k)
    have "live_count (evict (sy_box s)) = live_count (sy_box s) - 1" if "full (sy_box s)"
      using evict_spec [OF inv that] length_tl [of "queued (sy_box s)"] length_queued [of "evict (sy_box s)"] by simp
    then show ?thesis using add assms(1) unfolding sys_inv_def same_frame_def by (cases k) auto
  qed
qed

lemma sys_inv_resume:
  assumes "sys_inv s" "may_resume (sy_box s)" "post_resume src m (sy_box s) = (r, b)"
  shows "sys_inv (s\<lparr>sy_box := b, sy_waiters := W\<rparr>)"
proof -
  have inv: "mb_inv (sy_box s)" using assms(1) by (simp add: sys_inv_def)
  from inv assms(3,2) show ?thesis
  proof (cases rule: post_resume_cases)
    case keep
    then show ?thesis using assms(1) by (simp add: sys_inv_def)
  next
    case add
    then show ?thesis using assms(1) by (auto simp: sys_inv_def same_frame_def)
  qed
qed

lemma sys_step_inv: "sys_step s s' \<Longrightarrow> sys_inv s \<Longrightarrow> sys_inv s'"
proof (induction rule: sys_step.induct)
  case (s_post w src m s r b)
  then show ?case using sys_inv_post [of s w src m r b "sy_waiters s"] by simp
next
  case (s_block w src m s b)
  show ?case using s_block(2,1) by (rule sys_inv_post)
next
  case (s_resume src m s r b)
  show ?case using s_resume(4,2,3) by (rule sys_inv_resume)
next
  case (s_wake s)
  then show ?case by (simp add: sys_inv_def wake_done_def mb_inv_def mb_pre_def live_count_def)
next
  case (s_drain s out b)
  then have inv: "mb_inv (sy_box s)" by (simp add: sys_inv_def)
  have "queued b = []" "mb_inv b" using drain_spec [OF inv s_drain(1)] by simp_all
  then have "live_count b = 0" by (metis length_queued list.size(3))
  then show ?case using \<open>mb_inv b\<close> by (simp add: sys_inv_def)
next
  case (s_open s i b)
  then have l: "mb_last_origin (sy_box s) < - 1"
    and b: "b = (sy_box s)\<lparr>mb_last_origin := mb_last_origin (sy_box s) + 1,
        mb_live := (mb_last_origin (sy_box s) + 1) # mb_live (sy_box s)\<rparr>"
    by (auto simp: open_origin_def Let_def split: if_splits)
  have up: "mb_last_origin (sy_box s) < mb_last_origin (sy_box s) + 1"
    using l by (rule u64_less_inc)
  have live: "0 < i \<and> i \<le> mb_last_origin (sy_box s) + 1" if "i \<in> set (mb_live b)" for i
  proof (cases "i = mb_last_origin (sy_box s) + 1")
    case True
    then show ?thesis using up by (metis le_less_trans order_refl word_zero_le)
  next
    case False
    then have "0 < i \<and> i \<le> mb_last_origin (sy_box s)"
      using that s_open(2) by (simp add: b sys_inv_def mb_inv_def mb_pre_def)
    then show ?thesis using up by (meson le_less_trans less_imp_le)
  qed
  have "mb_inv b" using s_open(2) live unfolding sys_inv_def mb_inv_def mb_pre_def
    by (simp add: b live_count_def)
  then show ?case using s_open(2) by (simp add: sys_inv_def b live_count_def)
next
  case (s_retire s i)
  then show ?case using retire_inv [of "sy_box s" i] by (simp add: sys_inv_def retire_def live_count_def)
next
  case (s_close s)
  then show ?case by (simp add: sys_inv_def mb_inv_def mb_pre_def mb_close_def live_count_def)
next
  case (s_wake_open s r b)
  then show ?case
    by (auto simp: sys_inv_def mb_inv_def mb_pre_def wake_if_open_def live_count_def split: if_splits)
next
  case (s_count s)
  then show ?case by (simp add: sys_inv_def mb_inv_def mb_pre_def count_retired_def live_count_def)
qed

lemma sys_reach_inv: "sys_reach s \<Longrightarrow> sys_inv s"
proof (induction rule: sys_reach.induct)
  case (sr_init wake capacity on_full)
  then show ?case by (simp add: sys_inv_def mb_inv_def mb_pre_def new_mailbox_def live_count_def)
qed (use sys_step_inv in blast)

section \<open>What never comes back\<close>

lemma frame_stale: "same_frame b b' \<Longrightarrow> stale b' i = stale b i"
  by (simp add: same_frame_def stale_def is_retired_def)

lemma sys_step_stale:
  assumes "sys_step s s'" "sys_inv s" "stale (sy_box s) i"
  shows "stale (sy_box s') i"
  using assms
proof (cases rule: sys_step.cases)
  case (s_post w src m r b)
  have "mb_inv (sy_box s)" using assms(2) by (simp add: sys_inv_def)
  then have "same_frame (sy_box s) b" using s_post(2) by (cases rule: post_from_cases) auto
  then show ?thesis using s_post(1) assms(3) by (simp add: frame_stale)
next
  case (s_block w src m b)
  have "mb_inv (sy_box s)" using assms(2) by (simp add: sys_inv_def)
  then have "same_frame (sy_box s) b" using s_block(2) by (cases rule: post_from_cases) auto
  then show ?thesis using s_block(1) assms(3) by (simp add: frame_stale)
next
  case (s_resume src m r b)
  have "mb_inv (sy_box s)" using assms(2) by (simp add: sys_inv_def)
  then have "same_frame (sy_box s) b" using s_resume(4,3) by (cases rule: post_resume_cases) auto
  then show ?thesis using s_resume(1) assms(3) by (simp add: frame_stale)
next
  case (s_drain out b)
  have "mb_inv (sy_box s)" using assms(2) by (simp add: sys_inv_def)
  then have "same_frame (sy_box s) b" using drain_spec s_drain(2) by blast
  then show ?thesis using s_drain(1) assms(3) by (simp add: frame_stale)
next
  case (s_open j b)
  then have l: "mb_last_origin (sy_box s) < - 1"
    and b: "b = (sy_box s)\<lparr>mb_last_origin := mb_last_origin (sy_box s) + 1,
        mb_live := (mb_last_origin (sy_box s) + 1) # mb_live (sy_box s)\<rparr>"
    by (auto simp: open_origin_def Let_def split: if_splits)
  have "i < mb_last_origin (sy_box s) + 1"
    using assms(3) u64_less_inc [OF l] by (auto simp: stale_def is_retired_def intro: le_less_trans)
  then show ?thesis using s_open(1) assms(3) by (auto simp: stale_def is_retired_def b)
qed (use assms(3) in \<open>auto simp: stale_def is_retired_def wake_done_def retire_def mb_close_def count_retired_def
      wake_if_open_def split: if_splits\<close>)

lemma sys_steps_stale:
  "sys_step\<^sup>*\<^sup>* s s' \<Longrightarrow> sys_inv s \<Longrightarrow> stale (sy_box s) i \<Longrightarrow> sys_inv s' \<and> stale (sy_box s') i"
  by (induction rule: rtranclp_induct) (auto intro: sys_step_inv sys_step_stale)

lemma sys_step_closed:
  assumes "sys_step s s'" "close_returns (sy_box s)"
  shows "close_returns (sy_box s')"
  using assms
  by (cases rule: sys_step.cases)
    (auto simp: close_returns_def post_from_def post_resume_def wake_done_def drain_tagged_def open_origin_def
      retire_def mb_close_def wake_if_open_def count_retired_def Let_def split: if_splits)

section \<open>Concrete systems\<close>

definition sys_of :: "char mailbox \<Rightarrow> char system" where
  "sys_of b = \<lparr>sy_box = b, sy_waiters = {#}, sy_signalled = False\<rparr>"

definition one_posted :: "char mailbox" where
  "one_posted = snd (post_from False 0 CHR ''a'' (new_mailbox True 1 Block))"

lemma one_posted_fields:
  "fst (post_from False 0 CHR ''a'' (new_mailbox True 1 Block)) = Queued True"
  "mb_wake one_posted" "queued one_posted = [(0, CHR ''a'')]"
  by (simp_all add: one_posted_def post_from_def enqueue_def new_mailbox_def full_def live_count_def no_stats_def queued_def)

lemma one_posted_reach: "sys_reach (sys_of one_posted)"
proof -
  have p: "post_from False 0 CHR ''a'' (sy_box (sys_of (new_mailbox True 1 Block))) = (Queued True, one_posted)"
    using one_posted_fields(1) by (simp add: one_posted_def sys_of_def prod_eq_iff)
  have "sys_reach (sys_of (new_mailbox True 1 Block))" unfolding sys_of_def by (rule sr_init)
  from sr_step [OF this s_post [OF p]] show ?thesis by (simp add: sys_of_def)
qed

definition one_stream :: "char mailbox" where
  "one_stream = (new_mailbox True 0 Block)\<lparr>mb_q := [(1, CHR ''x''), (0, CHR ''y'')], mb_nonempty := True,
     mb_live := [1], mb_last_origin := 1, mb_waking := 1\<rparr>"

lemma one_stream_inv: "sys_inv (sys_of one_stream)"
  by (simp add: one_stream_def sys_of_def sys_inv_def mb_inv_def mb_pre_def new_mailbox_def live_count_def)

section \<open>Properties\<close>

text \<open>C40: however senders, wakes and the loop interleave, nothing queued is forgotten: the lock-free
  hint is false only when the queue is empty, and while anything is queued a wake is on its way or
  waits to be answered. A bounded mailbox never holds more than its capacity, and its buffer less than
  twice that.\<close>

theorem mailbox_no_lost_wake:
  "sys_reach s \<Longrightarrow>
     (\<not> maybe_nonempty (sy_box s) \<longrightarrow> queued (sy_box s) = []) \<and>
     (mb_wake (sy_box s) \<and> queued (sy_box s) \<noteq> [] \<longrightarrow> sy_signalled s \<or> 0 < mb_waking (sy_box s)) \<and>
     (mb_capacity (sy_box s) \<noteq> 0 \<longrightarrow> length (queued (sy_box s)) \<le> mb_capacity (sy_box s) \<and>
        length (mb_q (sy_box s)) < 2 * mb_capacity (sy_box s))"
proof (intro conjI impI)
  assume "sys_reach s"
  then have si: "sys_inv s" by (rule sys_reach_inv)
  then have inv: "mb_inv (sy_box s)" by (simp add: sys_inv_def)
  have q: "queued (sy_box s) = [] \<longleftrightarrow> live_count (sy_box s) = 0"
    using length_queued [of "sy_box s"] by (metis length_0_conv)
  show "queued (sy_box s) = []" if "\<not> maybe_nonempty (sy_box s)"
    using that inv unfolding q by (simp add: mb_inv_def maybe_nonempty_def)
  show "sy_signalled s \<or> 0 < mb_waking (sy_box s)" if "mb_wake (sy_box s) \<and> queued (sy_box s) \<noteq> []"
    using that si unfolding q by (simp add: sys_inv_def)
  assume c: "mb_capacity (sy_box s) \<noteq> 0"
  then have "live_count (sy_box s) \<le> mb_capacity (sy_box s)" "mb_head (sy_box s) < mb_capacity (sy_box s)"
    using inv unfolding mb_inv_def mb_pre_def by blast+
  then show "length (queued (sy_box s)) \<le> mb_capacity (sy_box s)" "length (mb_q (sy_box s)) < 2 * mb_capacity (sy_box s)"
    by (simp_all add: live_count_def)
qed

theorem mailbox_no_lost_wake_witness:
  "queued one_posted \<noteq> [] \<and>
   (sy_signalled (sys_of one_posted) \<or> 0 < mb_waking (sy_box (sys_of one_posted)))"
  using mailbox_no_lost_wake [OF one_posted_reach] one_posted_fields by (simp add: sys_of_def)

text \<open>A post that succeeds adds its message at the end and nothing else, except that a full
  mailbox set to drop the oldest loses exactly its oldest message; a post that is refused or has to
  wait leaves the queue alone; what the loop drains is the queue in order, less what retired origins
  sent, and the queue is then empty.\<close>

theorem mailbox_fifo:
  assumes "mb_inv b"
  shows "(\<forall>w src m r b'. post_from w src m b = (r, b') \<longrightarrow> mb_inv b' \<and>
        queued b' = (case r of Queued _ \<Rightarrow> (if full b then tl (queued b) else queued b) @ [(src, m)] | _ \<Rightarrow> queued b)) \<and>
    (\<forall>out b'. drain_tagged b = (out, b') \<longrightarrow> mb_inv b' \<and> queued b' = [] \<and>
        out = filter (\<lambda>e. \<not> stale b (fst e)) (queued b))"
proof (intro conjI allI impI)
  fix w src m r b' assume "post_from w src m b = (r, b')"
  with assms show "mb_inv b'" by (cases rule: post_from_cases) auto
next
  fix w src m r b' assume "post_from w src m b = (r, b')"
  with assms show "queued b' = (case r of Queued _ \<Rightarrow> (if full b then tl (queued b) else queued b) @ [(src, m)] | _ \<Rightarrow> queued b)"
    by (cases rule: post_from_cases) auto
qed (use drain_spec [OF assms] in auto)

theorem mailbox_fifo_witness:
  "queued (snd (post_from False 0 CHR ''c'' (new_mailbox True 2 DropOldest\<lparr>mb_q := [(0, CHR ''a''), (0, CHR ''b'')], mb_nonempty := True\<rparr>))) =
     [(0, CHR ''b''), (0, CHR ''c'')]"
proof -
  let ?b = "new_mailbox True 2 DropOldest\<lparr>mb_q := [(0, CHR ''a''), (0, CHR ''b'')], mb_nonempty := True\<rparr>"
  have inv: "mb_inv ?b" by (simp add: mb_inv_def mb_pre_def new_mailbox_def live_count_def)
  obtain r b' where p: "post_from False 0 CHR ''c'' ?b = (r, b')" by fastforce
  moreover have "r = Queued False"
    using p by (auto simp: post_from_def enqueue_def evict_def new_mailbox_def full_def live_count_def no_stats_def)
  moreover have "full ?b" "queued ?b = [(0, CHR ''a''), (0, CHR ''b'')]"
    by (simp_all add: new_mailbox_def full_def live_count_def queued_def)
  ultimately show ?thesis using mailbox_fifo [OF inv] by fastforce
qed

text \<open>Once an origin is retired nothing it sent reaches the loop again: not what it had queued,
  not what a sender was blocked with, not what it posts later, whatever else happens in between; and
  retiring it holds back no other origin's messages.\<close>

theorem retired_origin_silent:
  assumes "sys_inv s" "i \<noteq> 0" "i \<le> mb_last_origin (sy_box s)"
    "sys_step\<^sup>*\<^sup>* (s\<lparr>sy_box := retire i (sy_box s)\<rparr>) s'" "drain_tagged (sy_box s') = (out, b')"
  shows "i \<notin> fst ` set out \<and> fst (post_from w i m (sy_box s')) = Refused \<and>
    (s' = s\<lparr>sy_box := retire i (sy_box s)\<rparr> \<longrightarrow>
       out = filter (\<lambda>e. fst e \<noteq> i \<and> \<not> stale (sy_box s) (fst e)) (queued (sy_box s)))"
proof -
  let ?s1 = "s\<lparr>sy_box := retire i (sy_box s)\<rparr>"
  have inv1: "sys_inv ?s1" by (rule sys_step_inv [OF s_retire assms(1)])
  have "stale (sy_box ?s1) i" using assms(2,3) by (simp add: stale_def is_retired_def retire_def)
  then have s': "sys_inv s'" "stale (sy_box s') i" using sys_steps_stale [OF assms(4) inv1] by auto
  have "i \<notin> fst ` set out" using drain_spec [OF _ assms(5)] s' by (auto simp: sys_inv_def)
  moreover have "fst (post_from w i m (sy_box s')) = Refused" using s'(2) by (simp add: post_from_def stale_def)
  moreover have "out = filter (\<lambda>e. fst e \<noteq> i \<and> \<not> stale (sy_box s) (fst e)) (queued (sy_box s))"
    if "s' = ?s1"
    using box.others_still_taken [of "sy_box s" i out b'] that assms by (simp add: sys_inv_def)
  ultimately show ?thesis by blast
qed

theorem retired_origin_silent_witness:
  "fst (drain_tagged (retire 1 one_stream)) = [(0, CHR ''y'')]"
proof -
  let ?s' = "(sys_of one_stream)\<lparr>sy_box := retire 1 (sy_box (sys_of one_stream))\<rparr>"
  obtain out b' where d: "drain_tagged (sy_box ?s') = (out, b')" by fastforce
  have "out = filter (\<lambda>e. fst e \<noteq> 1 \<and> \<not> stale one_stream (fst e)) (queued one_stream)"
    using retired_origin_silent [OF one_stream_inv _ _ rtranclp.rtrancl_refl d]
    by (simp add: sys_of_def one_stream_def)
  then show ?thesis using d by (simp add: sys_of_def one_stream_def queued_def stale_def new_mailbox_def)
qed

text \<open>Once \<^verbatim>\<open>close\<close> has returned no wake is in flight and none ever starts again, so none can reach
  a reactor that is gone; and every later post, also one that was waiting for room, is refused.\<close>

theorem closed_stays_quiet:
  assumes "sys_step\<^sup>*\<^sup>* s s'" "close_returns (sy_box s)"
  shows "mb_waking (sy_box s') = 0 \<and> fst (post_from w src m (sy_box s')) = Refused \<and>
    fst (post_resume src m (sy_box s')) = Refused \<and> fst (wake_if_open (sy_box s')) = False"
proof -
  have "close_returns (sy_box s')"
    using assms by (induction rule: rtranclp_induct) (auto intro: sys_step_closed)
  then show ?thesis by (simp add: close_returns_def post_from_def post_resume_def wake_if_open_def)
qed

theorem closed_stays_quiet_witness:
  "fst (post_from False 0 CHR ''a'' (mb_close (new_mailbox True 1 Block))) = Refused"
  using closed_stays_quiet [OF rtranclp.rtrancl_refl, of "sys_of (mb_close (new_mailbox True 1 Block))"]
  by (simp add: sys_of_def mb_close_def close_returns_def new_mailbox_def)

end
