(* ===== verification/Flat_Index.thy ===== *)
theory Flat_Index
  imports Jaal_Prelude
begin

text \<open>
  The flat open-addressed index of \<^verbatim>\<open>include/jaal/kernel/reconcile.hpp\<close>: a vector of positions into a
  list of keys, a power of two long, probed linearly from the key's hash. \<^verbatim>\<open>kEmpty\<close> is \<open>None\<close>, and masking
  by \<^verbatim>\<open>size - 1\<close> is the remainder modulo the size (the hash itself for a table of size 0, whose mask is
  all ones). Reading past a vector and probing for ever are the two ways a lookup can go wrong; both
  are values here. A probe that has looked at every slot would go round for ever.
\<close>

datatype fault = OutOfRange | Forever | Aborted

section \<open>Definitions\<close>

type_synonym slots = "nat option list"

definition find :: "'k list \<Rightarrow> 'k \<Rightarrow> nat option" where
  "find ks k = List.find (\<lambda>i. ks ! i = k) [0..<length ks]"

function table_cap :: "nat \<Rightarrow> nat \<Rightarrow> nat" where
  "table_cap cap n = (if 0 < cap \<and> cap < n * 2 then table_cap (cap * 2) n else cap)"
  by pat_completeness auto
termination by (relation "measure (\<lambda>(cap, n). n * 2 - cap)") auto

declare table_cap.simps [simp del]

fun free_steps :: "nat \<Rightarrow> slots \<Rightarrow> nat \<Rightarrow> fault + nat" where
  "free_steps 0 ix h = Inl Forever"
| "free_steps (Suc n) ix h =
     (if h \<ge> length ix then Inl OutOfRange
      else if ix ! h = None then Inr h
      else free_steps n ix ((h + 1) mod length ix))"

definition ix_insert :: "('k \<Rightarrow> nat) \<Rightarrow> 'k list \<Rightarrow> nat \<Rightarrow> slots \<Rightarrow> fault + slots" where
  "ix_insert hash ks i ix =
     (case free_steps (Suc (length ix)) ix (hash (ks ! i) mod length ix) of
        Inl e \<Rightarrow> Inl e
      | Inr h \<Rightarrow> Inr (ix[h := Some i]))"

fun ix_fill :: "('k \<Rightarrow> nat) \<Rightarrow> 'k list \<Rightarrow> nat \<Rightarrow> slots \<Rightarrow> fault + slots" where
  "ix_fill hash ks 0 ix = Inr ix"
| "ix_fill hash ks (Suc n) ix =
     (case ix_fill hash ks n ix of Inl e \<Rightarrow> Inl e | Inr ix' \<Rightarrow> ix_insert hash ks n ix')"

definition build_index :: "('k \<Rightarrow> nat) \<Rightarrow> 'k list \<Rightarrow> fault + slots" where
  "build_index hash ks =
     ix_fill hash ks (length ks) (replicate (table_cap 16 (length ks)) None)"

text \<open>Add the last key of a list: rebuild when the table would be over half full, else insert.\<close>

definition ix_add :: "('k \<Rightarrow> nat) \<Rightarrow> 'k list \<Rightarrow> slots \<Rightarrow> fault + slots" where
  "ix_add hash ks ix =
     (if length ks * 2 > length ix then build_index hash ks else ix_insert hash ks (length ks - 1) ix)"

fun probe_steps :: "nat \<Rightarrow> slots \<Rightarrow> 'k list \<Rightarrow> 'k \<Rightarrow> nat \<Rightarrow> fault + nat option" where
  "probe_steps 0 ix ks k h = Inl Forever"
| "probe_steps (Suc n) ix ks k h =
     (if h \<ge> length ix then Inl OutOfRange
      else case ix ! h of
             None \<Rightarrow> Inr None
           | Some s \<Rightarrow>
               if s \<ge> length ks then Inl OutOfRange
               else if ks ! s = k then Inr (Some s)
               else probe_steps n ix ks k ((h + 1) mod length ix))"

definition probe :: "('k \<Rightarrow> nat) \<Rightarrow> slots \<Rightarrow> 'k list \<Rightarrow> 'k \<Rightarrow> fault + nat option" where
  "probe hash ix ks k = probe_steps (Suc (length ix)) ix ks k (hash k mod length ix)"

section \<open>A consistent index\<close>

text \<open>\<open>at ix h d\<close> is the slot \<open>d\<close> steps after \<open>h\<close>.\<close>

definition at :: "slots \<Rightarrow> nat \<Rightarrow> nat \<Rightarrow> nat option" where
  "at ix h d = ix ! ((h + d) mod length ix)"

definition reaches :: "('k \<Rightarrow> nat) \<Rightarrow> slots \<Rightarrow> 'k list \<Rightarrow> nat \<Rightarrow> bool" where
  "reaches hash ix ks i \<longleftrightarrow>
     (\<exists>d < length ix. at ix (hash (ks ! i)) d = Some i \<and> (\<forall>e < d. at ix (hash (ks ! i)) e \<noteq> None))"

definition ix_ok :: "('k \<Rightarrow> nat) \<Rightarrow> slots \<Rightarrow> 'k list \<Rightarrow> bool" where
  "ix_ok hash ix ks \<longleftrightarrow>
     length ks < length ix \<and> (\<forall>p < length ix. \<forall>s. ix ! p = Some s \<longrightarrow> s < length ks) \<and>
     (\<forall>i < length ks. reaches hash ix ks i) \<and>
     card {p. p < length ix \<and> ix ! p \<noteq> None} \<le> length ks"

lemma table_cap_ge: "0 < cap \<Longrightarrow> n * 2 \<le> table_cap cap n \<and> cap \<le> table_cap cap n"
proof (induction cap n rule: table_cap.induct)
  case (1 cap n)
  then show ?case by (cases "cap < n * 2") (simp_all add: table_cap.simps [of cap n])
qed

lemma at_mod [simp]: "at ix (h mod length ix) d = at ix h d"
  by (simp add: at_def mod_add_left_eq)

lemma at_Suc [simp]: "at ix (Suc h) d = at ix h (Suc d)"
  by (simp add: at_def)

lemma ix_free_slot:
  assumes "card {p. p < length ix \<and> ix ! p \<noteq> None} < length ix" "h < length ix"
  shows "\<exists>d < length ix. at ix h d = None"
proof -
  have "\<exists>p < length ix. ix ! p = None"
  proof (rule ccontr)
    assume "\<not> ?thesis"
    then have "{p. p < length ix \<and> ix ! p \<noteq> None} = {..<length ix}" by auto
    then show False using assms(1) by simp
  qed
  then obtain p where p: "p < length ix" "ix ! p = None" by blast
  have "(h + (p + length ix - h) mod length ix) mod length ix = p"
    using p(1) assms(2) by (simp add: mod_add_right_eq)
  moreover have "(p + length ix - h) mod length ix < length ix" using p(1) by (intro mod_less_divisor) linarith
  ultimately show ?thesis using p
    by (intro exI [of _ "(p + length ix - h) mod length ix"]) (simp add: at_def)
qed

text \<open>The first slot from \<open>h\<close> on at which a predicate holds.\<close>

lemma first_slot:
  assumes "\<exists>d < length ix. P (at ix h d)"
  obtains d where "d < length ix" "P (at ix h d)" "\<forall>e < d. \<not> P (at ix h e)"
proof -
  let ?d = "LEAST d. P (at ix h d)"
  have "P (at ix h ?d)" using assms by (auto intro: LeastI)
  moreover have "?d < length ix" using assms by (metis Least_le le_less_trans)
  moreover have "\<forall>e < ?d. \<not> P (at ix h e)" using not_less_Least by blast
  ultimately show thesis using that by blast
qed

lemma free_steps_run:
  "h < length ix \<Longrightarrow> d < n \<Longrightarrow> at ix h d = None \<Longrightarrow> \<forall>e < d. at ix h e \<noteq> None \<Longrightarrow>
   free_steps n ix h = Inr ((h + d) mod length ix)"
proof (induction d arbitrary: h n)
  case 0
  then show ?case by (cases n) (auto simp: at_def)
next
  case (Suc d)
  obtain n' where n: "n = Suc n'" using Suc.prems(2) by (cases n) auto
  let ?h = "(h + 1) mod length ix"
  have "ix ! h \<noteq> None" using Suc.prems(1,4) by (auto simp: at_def dest!: spec [of _ 0])
  moreover have "free_steps n' ix ?h = Inr ((?h + d) mod length ix)"
  proof (rule Suc.IH)
    show "?h < length ix" using Suc.prems(1) by (intro mod_less_divisor) linarith
    show "d < n'" using Suc.prems(2) n by simp
    show "at ix ?h d = None" using Suc.prems(3) by simp
    show "\<forall>e < d. at ix ?h e \<noteq> None" using Suc.prems(4) by simp
  qed
  moreover have "(?h + d) mod length ix = (h + Suc d) mod length ix" by (simp add: mod_add_left_eq)
  ultimately show ?case using Suc.prems(1) n by auto
qed

lemma probe_steps_run:
  assumes "\<forall>p < length ix. \<forall>s. ix ! p = Some s \<longrightarrow> s < length ks"
  shows "h < length ix \<Longrightarrow> d < n \<Longrightarrow> (\<forall>e < d. \<exists>s. at ix h e = Some s \<and> ks ! s \<noteq> k) \<Longrightarrow>
    at ix h d = r \<Longrightarrow> (case r of None \<Rightarrow> True | Some s \<Rightarrow> ks ! s = k) \<Longrightarrow> probe_steps n ix ks k h = Inr r"
proof (induction d arbitrary: h n)
  case 0
  then show ?case using assms by (cases n) (auto simp: at_def split: option.splits)
next
  case (Suc d)
  obtain n' where n: "n = Suc n'" using Suc.prems(2) by (cases n) auto
  let ?h = "(h + 1) mod length ix"
  obtain s where s: "ix ! h = Some s" "ks ! s \<noteq> k"
    using Suc.prems(1,3) by (auto simp: at_def dest!: spec [of _ 0])
  moreover have "probe_steps n' ix ks k ?h = Inr r"
  proof (rule Suc.IH)
    show "?h < length ix" using Suc.prems(1) by (intro mod_less_divisor) linarith
    show "d < n'" using Suc.prems(2) n by simp
    show "\<forall>e < d. \<exists>s. at ix ?h e = Some s \<and> ks ! s \<noteq> k" using Suc.prems(3) by simp
    show "at ix ?h d = r" using Suc.prems(4) by simp
    show "case r of None \<Rightarrow> True | Some s \<Rightarrow> ks ! s = k" by (rule Suc.prems(5))
  qed
  ultimately show ?case using Suc.prems(1) n assms by auto
qed

lemma probe_spec:
  assumes ok: "ix_ok hash ix ks"
  shows "\<exists>r. probe hash ix ks k = Inr r \<and> (r \<noteq> None \<longleftrightarrow> k \<in> set ks)"
proof -
  let ?h = "hash k mod length ix"
  have N: "length ks < length ix" and rng: "\<forall>p < length ix. \<forall>s. ix ! p = Some s \<longrightarrow> s < length ks"
    and free: "card {p. p < length ix \<and> ix ! p \<noteq> None} < length ix"
    using ok by (auto simp: ix_ok_def)
  then have h: "?h < length ix" by (intro mod_less_divisor) linarith
  let ?P = "\<lambda>x. case x of None \<Rightarrow> True | Some s \<Rightarrow> ks ! s = k"
  have "\<exists>d < length ix. ?P (at ix ?h d)" using ix_free_slot [OF free h] by force
  then obtain d where d: "d < length ix" "?P (at ix ?h d)" "\<forall>e < d. \<not> ?P (at ix ?h e)" by (rule first_slot)
  have run: "probe hash ix ks k = Inr (at ix ?h d)" unfolding probe_def
    by (rule probe_steps_run [OF rng h _ _ refl d(2)]) (use d in \<open>auto split: option.splits\<close>)
  have "at ix ?h d \<noteq> None \<longleftrightarrow> k \<in> set ks"
  proof
    assume "at ix ?h d \<noteq> None"
    then obtain s where s: "at ix ?h d = Some s" "ks ! s = k" using d(2) by auto
    moreover have "(?h + d) mod length ix < length ix" using N by (intro mod_less_divisor) linarith
    ultimately have "s < length ks" using rng unfolding at_def by blast
    then show "k \<in> set ks" using s(2) by auto
  next
    assume "k \<in> set ks"
    then obtain i where i: "i < length ks" "ks ! i = k" by (auto simp: in_set_conv_nth)
    then obtain c where c: "at ix (hash k) c = Some i" "\<forall>e < c. at ix (hash k) e \<noteq> None"
      using ok by (auto simp: ix_ok_def reaches_def)
    have "d \<le> c" using d(3) c(1) i(2) by (force simp: not_less [symmetric])
    then show "at ix ?h d \<noteq> None" using c by (cases "d = c") auto
  qed
  then show ?thesis using run by blast
qed

lemma ix_insert_spec:
  assumes ok: "ix_ok hash ix ks" and room: "Suc (length ks) < length ix"
  shows "\<exists>ix'. ix_insert hash (ks @ [k]) (length ks) ix = Inr ix' \<and> ix_ok hash ix' (ks @ [k]) \<and> length ix' = length ix"
proof -
  let ?h = "hash k mod length ix"
  have N: "0 < length ix" and rng: "\<forall>p < length ix. \<forall>s. ix ! p = Some s \<longrightarrow> s < length ks"
    and crd: "card {p. p < length ix \<and> ix ! p \<noteq> None} \<le> length ks"
    using ok by (auto simp: ix_ok_def)
  then have h: "?h < length ix" by simp
  have free: "card {p. p < length ix \<and> ix ! p \<noteq> None} < length ix" using crd room by simp
  obtain d where d: "d < length ix" "at ix ?h d = None" "\<forall>e < d. at ix ?h e \<noteq> None"
    using first_slot [of ix "\<lambda>x. x = None" ?h] ix_free_slot [OF free h] by blast
  let ?p = "(?h + d) mod length ix"
  let ?ix = "ix[?p := Some (length ks)]"
  have p: "?p < length ix" using N by simp
  have ins: "ix_insert hash (ks @ [k]) (length ks) ix = Inr ?ix"
    using free_steps_run [OF h _ d(2,3), of "Suc (length ix)"] d(1) by (simp add: ix_insert_def)
  have at': "at ?ix g e = (if (g + e) mod length ix = ?p then Some (length ks) else at ix g e)" for g e
    using p by (simp add: at_def nth_list_update)
  have "reaches hash ?ix (ks @ [k]) i" if i: "i < Suc (length ks)" for i
  proof (cases "i = length ks")
    case True
    have "(hash k + d) mod length ix = ?p" by (simp add: mod_add_left_eq)
    then have "at ?ix (hash k) d = Some (length ks)" "\<forall>e < d. at ?ix (hash k) e \<noteq> None"
      using d(3) unfolding at' by simp_all
    then show ?thesis using True d(1) by (auto simp: reaches_def)
  next
    case False
    then have i': "i < length ks" using i by simp
    then obtain c where c: "c < length ix" "at ix (hash (ks ! i)) c = Some i" "\<forall>e < c. at ix (hash (ks ! i)) e \<noteq> None"
      using ok by (auto simp: ix_ok_def reaches_def)
    have "(hash (ks ! i) + c) mod length ix \<noteq> ?p" using c(2) d(2) by (auto simp: at_def)
    then have "at ?ix (hash (ks ! i)) c = Some i" "\<forall>e < c. at ?ix (hash (ks ! i)) e \<noteq> None"
      using c unfolding at' by simp_all
    then show ?thesis using c(1) i' by (auto simp: reaches_def nth_append)
  qed
  moreover have "card {q. q < length ?ix \<and> ?ix ! q \<noteq> None} \<le> Suc (length ks)"
  proof -
    have "{q. q < length ?ix \<and> ?ix ! q \<noteq> None} = insert ?p {q. q < length ix \<and> ix ! q \<noteq> None}"
      using p by (auto simp: nth_list_update)
    then show ?thesis using crd card_insert_le_m1 by (simp add: card_insert_if)
  qed
  moreover have "\<forall>q < length ?ix. \<forall>s. ?ix ! q = Some s \<longrightarrow> s < Suc (length ks)"
    using rng p by (auto simp: nth_list_update less_SucI split: if_splits)
  ultimately have "ix_ok hash ?ix (ks @ [k])" using room by (simp add: ix_ok_def)
  then show ?thesis using ins by simp
qed

lemma ix_fill_spec:
  assumes "2 * length ks \<le> N" "0 < N"
  shows "n \<le> length ks \<Longrightarrow>
    \<exists>ix. ix_fill hash ks n (replicate N None) = Inr ix \<and> ix_ok hash ix (take n ks) \<and> length ix = N"
proof (induction n)
  case 0
  have none: "{p. p < N \<and> replicate N None ! p \<noteq> (None :: nat option)} = {}" by auto
  show ?case using assms(2) by (simp add: ix_ok_def none)
next
  case (Suc n)
  then obtain ix where ix: "ix_fill hash ks n (replicate N None) = Inr ix" "ix_ok hash ix (take n ks)" "length ix = N"
    by auto
  have t: "take (Suc n) ks = take n ks @ [ks ! n]" using Suc.prems by (simp add: take_Suc_conv_app_nth)
  have l: "length (take n ks) = n" using Suc.prems by simp
  have same: "ix_insert hash ks n ix = ix_insert hash (take n ks @ [ks ! n]) (length (take n ks)) ix"
    using Suc.prems by (simp add: ix_insert_def nth_append l)
  have "Suc (length (take n ks)) < length ix" using assms Suc.prems ix(3) l by linarith
  then obtain ix' where "ix_insert hash ks n ix = Inr ix'" "ix_ok hash ix' (take (Suc n) ks)" "length ix' = N"
    using ix_insert_spec [OF ix(2)] unfolding same t ix(3) by blast
  then show ?case using ix(1) by simp
qed

lemma build_index_spec:
  "\<exists>ix. build_index hash ks = Inr ix \<and> ix_ok hash ix ks \<and> 2 * length ks \<le> length ix"
proof -
  have c: "2 * length ks \<le> table_cap 16 (length ks)" "16 \<le> table_cap 16 (length ks)"
    using table_cap_ge [of 16 "length ks"] by simp_all
  then show ?thesis using ix_fill_spec [OF c(1), of "length ks" hash] by (auto simp: build_index_def)
qed

lemma ix_add_spec:
  assumes "ix_ok hash ix ks"
  shows "\<exists>ix'. ix_add hash (ks @ [k]) ix = Inr ix' \<and> ix_ok hash ix' (ks @ [k])"
proof (cases "length (ks @ [k]) * 2 > length ix")
  case True
  then show ?thesis using build_index_spec [of hash "ks @ [k]"] by (auto simp: ix_add_def)
next
  case False
  then have "Suc (length ks) < length ix" by simp
  then show ?thesis using False ix_insert_spec [OF assms, of k] by (auto simp: ix_add_def)
qed

lemma find_spec: "find ks k \<noteq> None \<longleftrightarrow> k \<in> set ks"
  by (auto simp: find_def find_None_iff in_set_conv_nth)

section \<open>The contract of a key lookup\<close>

text \<open>
  The diff needs one thing of a lookup: that it says whether a key is in the list. The scan gives it
  always, the probe given a consistent index.
\<close>

locale key_lookup =
  fixes ready :: "'s \<Rightarrow> 'k list \<Rightarrow> bool" and look :: "'s \<Rightarrow> 'k list \<Rightarrow> 'k \<Rightarrow> fault + nat option"
  assumes look_law: "ready s ks \<Longrightarrow> \<exists>r. look s ks k = Inr r \<and> (r \<noteq> None \<longleftrightarrow> k \<in> set ks)"
begin

lemma look_no_fault: "ready s ks \<Longrightarrow> look s ks k \<noteq> Inl e"
  using look_law [of s ks k] by auto

lemma look_none: "ready s ks \<Longrightarrow> look s ks k = Inr None \<longleftrightarrow> k \<notin> set ks"
  using look_law [of s ks k] by auto

end

interpretation scan: key_lookup "\<lambda>_ _. True" "\<lambda>_ ks k. Inr (find ks k)"
  by unfold_locales (simp add: find_spec [symmetric])

interpretation hashed: key_lookup "ix_ok hash" "probe hash" for hash
  by unfold_locales (rule probe_spec)

end
