(* ===== verification/Reconcile.thy ===== *)
theory Reconcile
  imports Effects Flat_Index
begin

text \<open>
  \<^verbatim>\<open>include/jaal/kernel/reconcile.hpp\<close>: the diff between what a program subscribes to and what runs.
  The running set is a vector of keys and payloads; above sixteen entries lookups go through a flat
  index. A lookup through an index that does not belong to the vector is a fault, which the model
  carries as a value, so that where the code is safe is a theorem.
\<close>

section \<open>State\<close>

record ('k, 'p) plan =
  pl_start :: "('k \<times> 'p) list"
  pl_keep :: "('k \<times> 'p) list"
  pl_stop :: "'k list"
  pl_duplicates :: "'k list"

definition empty_plan :: "('k, 'p) plan" where
  "empty_plan = \<lparr>pl_start = [], pl_keep = [], pl_stop = [], pl_duplicates = []\<rparr>"

definition changed :: "('k, 'p) plan \<Rightarrow> bool" where
  "changed p \<longleftrightarrow> pl_start p \<noteq> [] \<or> pl_stop p \<noteq> []"

record ('k, 'p) running_sources =
  rs_running :: "('k \<times> 'p) list"
  rs_want :: "('k \<times> 'p) list"
  rs_ordinals :: "('k \<times> u32) list"
  rs_dups :: "'k list"
  rs_want_ix :: slots
  rs_running_ix :: slots
  rs_ord_ix :: slots
  rs_indexed :: bool
  rs_ord_indexed :: bool

definition no_sources :: "('k, 'p) running_sources" where
  "no_sources = \<lparr>rs_running = [], rs_want = [], rs_ordinals = [], rs_dups = [], rs_want_ix = [], rs_running_ix = [],
     rs_ord_ix = [], rs_indexed = False, rs_ord_indexed = False\<rparr>"

definition index_threshold :: nat where
  "index_threshold = 16"

text \<open>
  The hash of a tagged key mixes the kind's place in the row into the key's own hash. The hashes of
  strings and of a host's keys are the library's and the host's.
\<close>

definition key_hash :: "(string \<Rightarrow> u64) \<Rightarrow> ('k \<Rightarrow> u64) \<Rightarrow> 'k source_key \<Rightarrow> nat" where
  "key_hash hs hk k =
     unat (case k of
       EveryKey i n \<Rightarrow> every_hash i n XOR 0
     | StreamKey s \<Rightarrow> hs s XOR 0x9E3779B97F4A7C15
     | HostKey h \<Rightarrow> hk h XOR (2 * 0x9E3779B97F4A7C15))"

section \<open>Reading a subscription\<close>

definition want_has :: "('k \<Rightarrow> nat) \<Rightarrow> 'k \<Rightarrow> ('k, 'p) running_sources \<Rightarrow> fault + (bool \<times> ('k, 'p) running_sources)" where
  "want_has hash k st =
     (case (if \<not> rs_indexed st \<and> length (rs_want st) > index_threshold
            then (case build_index hash (map fst (rs_want st)) of
                    Inl e \<Rightarrow> Inl e
                  | Inr ix \<Rightarrow> Inr (st\<lparr>rs_want_ix := ix, rs_indexed := True\<rparr>))
            else Inr st) of
        Inl e \<Rightarrow> Inl e
      | Inr st1 \<Rightarrow>
          if rs_indexed st1
          then (case probe hash (rs_want_ix st1) (map fst (rs_want st1)) k of
                  Inl e \<Rightarrow> Inl e
                | Inr r \<Rightarrow> Inr (r \<noteq> None, st1))
          else Inr (find (map fst (rs_want st1)) k \<noteq> None, st1))"

definition want_add :: "('k \<Rightarrow> nat) \<Rightarrow> 'k \<Rightarrow> 'p \<Rightarrow> ('k, 'p) running_sources \<Rightarrow> fault + ('k, 'p) running_sources" where
  "want_add hash k p st =
     (let st1 = st\<lparr>rs_want := rs_want st @ [(k, p)]\<rparr>; ks = map fst (rs_want st1)
      in if rs_indexed st1
         then (case ix_add hash ks (rs_want_ix st1) of
                 Inl e \<Rightarrow> Inl e
               | Inr ix \<Rightarrow> Inr (st1\<lparr>rs_want_ix := ix\<rparr>))
         else Inr st1)"

text \<open>\<open>return n++\<close> on the counter at position \<open>i\<close>.\<close>

definition bump :: "nat \<Rightarrow> ('k, 'p) running_sources \<Rightarrow> u32 \<times> ('k, 'p) running_sources" where
  "bump i st =
     (let (k, n) = rs_ordinals st ! i
      in (n, st\<lparr>rs_ordinals := (rs_ordinals st)[i := (k, n + 1)]\<rparr>))"

text \<open>
  The empty slot where a probe for a new base stopped is the first empty one from its hash, which is
  where \<open>ix_add\<close> puts it.
\<close>

definition next_ordinal :: "('k \<Rightarrow> nat) \<Rightarrow> 'k \<Rightarrow> ('k, 'p) running_sources \<Rightarrow> fault + (u32 \<times> ('k, 'p) running_sources)" where
  "next_ordinal hash base st =
     (case (if \<not> rs_ord_indexed st \<and> length (rs_ordinals st) > index_threshold
            then (case build_index hash (map fst (rs_ordinals st)) of
                    Inl e \<Rightarrow> Inl e
                  | Inr ix \<Rightarrow> Inr (st\<lparr>rs_ord_ix := ix, rs_ord_indexed := True\<rparr>))
            else Inr st) of
        Inl e \<Rightarrow> Inl e
      | Inr st1 \<Rightarrow>
          if \<not> rs_ord_indexed st1
          then (case find (map fst (rs_ordinals st1)) base of
                  Some i \<Rightarrow> Inr (bump i st1)
                | None \<Rightarrow> Inr (0, st1\<lparr>rs_ordinals := rs_ordinals st1 @ [(base, 1)]\<rparr>))
          else
            (case probe hash (rs_ord_ix st1) (map fst (rs_ordinals st1)) base of
               Inl e \<Rightarrow> Inl e
             | Inr (Some i) \<Rightarrow> Inr (bump i st1)
             | Inr None \<Rightarrow>
                 let st2 = st1\<lparr>rs_ordinals := rs_ordinals st1 @ [(base, 1)]\<rparr>; ks = map fst (rs_ordinals st2)
                 in (case ix_add hash ks (rs_ord_ix st2) of
                       Inl e \<Rightarrow> Inl e
                     | Inr ix \<Rightarrow> Inr (0, st2\<lparr>rs_ord_ix := ix\<rparr>))))"

fun with_ordinal :: "u32 \<Rightarrow> 'k source_key \<Rightarrow> 'k source_key" where
  "with_ordinal n (EveryKey i _) = EveryKey i n"
| "with_ordinal n k = k"

definition take_leaf ::
    "('k source_key \<Rightarrow> nat) \<Rightarrow> ('k, 'e, 'm) sub \<Rightarrow> ('k source_key, ('k, 'e, 'm) sub) running_sources \<Rightarrow>
     fault + ('k source_key, ('k, 'e, 'm) sub) running_sources" where
  "take_leaf hash x st =
     (case base_key x of
        None \<Rightarrow> Inr st
      | Some k \<Rightarrow>
          (case (if numbered k
                 then (case next_ordinal hash k st of Inl e \<Rightarrow> Inl e | Inr (n, st1) \<Rightarrow> Inr (with_ordinal n k, st1))
                 else Inr (k, st)) of
             Inl e \<Rightarrow> Inl e
           | Inr (tk, st1) \<Rightarrow>
               (case want_has hash tk st1 of
                  Inl e \<Rightarrow> Inl e
                | Inr (True, st2) \<Rightarrow> Inr (st2\<lparr>rs_dups := rs_dups st2 @ [tk]\<rparr>)
                | Inr (False, st2) \<Rightarrow> want_add hash tk x st2)))"

fun take_leaves ::
    "('k source_key \<Rightarrow> nat) \<Rightarrow> ('k, 'e, 'm) sub list \<Rightarrow> ('k source_key, ('k, 'e, 'm) sub) running_sources \<Rightarrow>
     fault + ('k source_key, ('k, 'e, 'm) sub) running_sources" where
  "take_leaves hash [] st = Inr st"
| "take_leaves hash (x # xs) st =
     (case take_leaf hash x st of Inl e \<Rightarrow> Inl e | Inr st1 \<Rightarrow> take_leaves hash xs st1)"

section \<open>The diff\<close>

text \<open>The lookups of the two loops: through the index when either side is big, by scanning otherwise.\<close>

definition lookup_in :: "('k \<Rightarrow> nat) \<Rightarrow> bool \<Rightarrow> slots \<Rightarrow> 'k list \<Rightarrow> 'k \<Rightarrow> fault + bool" where
  "lookup_in hash big ix ks k =
     (if big then (case probe hash ix ks k of Inl e \<Rightarrow> Inl e | Inr r \<Rightarrow> Inr (r \<noteq> None))
      else Inr (find ks k \<noteq> None))"

fun split_by :: "('k \<Rightarrow> fault + bool) \<Rightarrow> ('k \<times> 'p) list \<Rightarrow> fault + (('k \<times> 'p) list \<times> ('k \<times> 'p) list)" where
  "split_by f [] = Inr ([], [])"
| "split_by f (w # ws) =
     (case f (fst w) of
        Inl e \<Rightarrow> Inl e
      | Inr yes \<Rightarrow>
          (case split_by f ws of
             Inl e \<Rightarrow> Inl e
           | Inr (ys, ns) \<Rightarrow> Inr (if yes then (w # ys, ns) else (ys, w # ns))))"

definition reconcile ::
    "('k source_key \<Rightarrow> nat) \<Rightarrow> ('k, 'e, 'm) sub \<Rightarrow> ('k source_key, ('k, 'e, 'm) sub) running_sources \<Rightarrow>
     fault + (('k source_key, ('k, 'e, 'm) sub) plan \<times> ('k source_key, ('k, 'e, 'm) sub) running_sources)" where
  "reconcile hash nxt st =
     (let st0 = st\<lparr>rs_want := [], rs_ordinals := [], rs_dups := [], rs_indexed := False, rs_ord_indexed := False\<rparr>
      in case take_leaves hash (sub_leaves nxt) st0 of
           Inl e \<Rightarrow> Inl e
         | Inr st1 \<Rightarrow>
             let big = length (rs_want st1) > index_threshold \<or> length (rs_running st1) > index_threshold
             in (case (if big then build_index hash (map fst (rs_running st1)) else Inr (rs_running_ix st1)) of
                   Inl e \<Rightarrow> Inl e
                 | Inr rix \<Rightarrow>
                     (case split_by (lookup_in hash big rix (map fst (rs_running st1))) (rs_want st1) of
                        Inl e \<Rightarrow> Inl e
                      | Inr (keep, start) \<Rightarrow>
                          (case split_by (lookup_in hash big (rs_want_ix st1) (map fst (rs_want st1))) (rs_running st1) of
                             Inl e \<Rightarrow> Inl e
                           | Inr (_, gone) \<Rightarrow>
                               Inr (\<lparr>pl_start = start, pl_keep = keep, pl_stop = map fst gone, pl_duplicates = rs_dups st1\<rparr>,
                                    st1\<lparr>rs_running_ix := rix, rs_running := rs_want st1, rs_want := rs_running st1\<rparr>)))))"

text \<open>The debug comparison: keys with their ordinals, every leaf counted, no duplicate dropped.\<close>

definition tally :: "'k \<Rightarrow> ('k \<times> u32) list \<Rightarrow> u32 \<times> ('k \<times> u32) list" where
  "tally b ords =
     (case find (map fst ords) b of
        Some i \<Rightarrow> (snd (ords ! i), ords[i := (fst (ords ! i), snd (ords ! i) + 1)])
      | None \<Rightarrow> (0, ords @ [(b, 1)]))"

fun collect_keys :: "('k source_key \<times> u32) list \<Rightarrow> ('k, 'e, 'm) sub list \<Rightarrow> 'k source_key list" where
  "collect_keys ords [] = []"
| "collect_keys ords (x # xs) =
     (case base_key x of
        None \<Rightarrow> collect_keys ords xs
      | Some b \<Rightarrow>
          if numbered b then (let (n, ords') = tally b ords in with_ordinal n b # collect_keys ords' xs)
          else b # collect_keys ords xs)"

definition same_sources :: "('k, 'e, 'm) sub \<Rightarrow> ('k source_key, ('k, 'e, 'm) sub) running_sources \<Rightarrow> bool" where
  "same_sources nxt st =
     (let seen = collect_keys [] (sub_leaves nxt)
      in length seen = length (rs_running st) \<and>
         (\<forall>k \<in> set seen. find (map fst (rs_running st)) k \<noteq> None))"

definition source_contains :: "'k \<Rightarrow> ('k, 'p) running_sources \<Rightarrow> bool" where
  "source_contains k st \<longleftrightarrow> find (map fst (rs_running st)) k \<noteq> None"

section \<open>Ordinals count\<close>

definition ords_ok :: "('k \<times> u32) list \<Rightarrow> 'k list \<Rightarrow> bool" where
  "ords_ok ords seen \<longleftrightarrow> distinct (map fst ords) \<and> set (map fst ords) = set seen \<and>
     (\<forall>(b, n) \<in> set ords. n = of_nat (count_list seen b))"

lemma find_Some_nth: "find ks k = Some i \<Longrightarrow> i < length ks \<and> ks ! i = k"
  by (auto simp: find_def find_Some_iff)

lemma count_list_snoc: "count_list (xs @ [x]) b = count_list xs b + (if x = b then 1 else 0)"
  by (induction xs) auto

lemma bump_ords:
  assumes "ords_ok ords seen" "i < length ords" "fst (ords ! i) = b"
  shows "snd (ords ! i) = of_nat (count_list seen b)"
    "ords_ok (ords[i := (b, snd (ords ! i) + 1)]) (seen @ [b])"
proof -
  have d: "distinct (map fst ords)" and s: "set (map fst ords) = set seen"
    and c: "\<forall>(b, n) \<in> set ords. n = of_nat (count_list seen b)"
    using assms(1) by (auto simp: ords_ok_def)
  have bi: "(b, snd (ords ! i)) \<in> set ords" using assms(2,3) by (metis nth_mem prod.collapse)
  then show n: "snd (ords ! i) = of_nat (count_list seen b)" using c by auto
  let ?o = "ords[i := (b, snd (ords ! i) + 1)]"
  have fst_eq: "map fst ?o = map fst ords" using assms(2,3) by (simp add: map_update list_update_same_conv)
  have "m = of_nat (count_list (seen @ [b]) a)" if mem: "(a, m) \<in> set ?o" for a m
  proof -
    obtain j where j: "j < length ords" "?o ! j = (a, m)" using mem unfolding in_set_conv_nth by auto
    show ?thesis
    proof (cases "j = i")
      case True
      then show ?thesis using j n by (auto simp: count_list_snoc)
    next
      case False
      then have "ords ! j = (a, m)" using j by simp
      then have am: "(a, m) \<in> set ords" using j(1) by (metis nth_mem)
      have "a \<noteq> b" using False d j(1) assms(2,3) \<open>ords ! j = (a, m)\<close>
        by (metis fst_conv length_map nth_eq_iff_index_eq nth_map)
      then show ?thesis using am c by (auto simp: count_list_snoc)
    qed
  qed
  moreover have "b \<in> set seen" using bi s by force
  ultimately show "ords_ok ?o (seen @ [b])" using d s unfolding ords_ok_def fst_eq by auto
qed

lemma new_ords:
  assumes "ords_ok ords seen" "b \<notin> set (map fst ords)"
  shows "count_list seen b = 0" "ords_ok (ords @ [(b, 1)]) (seen @ [b])"
proof -
  have "b \<notin> set seen" using assms by (simp add: ords_ok_def)
  then show "count_list seen b = 0" by (simp add: count_notin)
  then show "ords_ok (ords @ [(b, 1)]) (seen @ [b])"
    using assms by (force simp: ords_ok_def count_list_snoc)
qed

lemma tally_spec:
  assumes "ords_ok ords seen"
  shows "\<exists>o'. tally b ords = (of_nat (count_list seen b), o') \<and> ords_ok o' (seen @ [b])"
proof (cases "find (map fst ords) b")
  case None
  then have "b \<notin> set (map fst ords)" using find_spec by metis
  then show ?thesis using None new_ords [OF assms, of b] by (simp add: tally_def)
next
  case (Some i)
  then have "i < length ords" "fst (ords ! i) = b" using find_Some_nth by fastforce+
  then show ?thesis using Some bump_ords [OF assms, of i b] by (simp add: tally_def)
qed

lemma probe_Some: "probe_steps n ix ks k h = Inr (Some s) \<Longrightarrow> s < length ks \<and> ks ! s = k"
  by (induction n arbitrary: h) (auto split: if_splits option.splits)

definition ord_inv :: "('k \<Rightarrow> nat) \<Rightarrow> ('k, 'p) running_sources \<Rightarrow> 'k list \<Rightarrow> bool" where
  "ord_inv hash st seen \<longleftrightarrow> ords_ok (rs_ordinals st) seen \<and>
     (rs_ord_indexed st \<longrightarrow> ix_ok hash (rs_ord_ix st) (map fst (rs_ordinals st)))"

lemma next_ordinal_spec:
  assumes inv: "ord_inv hash st seen"
  shows "\<exists>o' ix b. next_ordinal hash base st =
      Inr (of_nat (count_list seen base), st\<lparr>rs_ordinals := o', rs_ord_ix := ix, rs_ord_indexed := b\<rparr>) \<and>
    ord_inv hash (st\<lparr>rs_ordinals := o', rs_ord_ix := ix, rs_ord_indexed := b\<rparr>) (seen @ [base])"
proof -
  have ords: "ords_ok (rs_ordinals st) seen" using inv by (simp add: ord_inv_def)
  let ?pre = "if \<not> rs_ord_indexed st \<and> length (rs_ordinals st) > index_threshold
      then (case build_index hash (map fst (rs_ordinals st)) of Inl e \<Rightarrow> Inl e
            | Inr ix \<Rightarrow> Inr (st\<lparr>rs_ord_ix := ix, rs_ord_indexed := True\<rparr>)) else Inr st"
  obtain ix1 b1 where pre: "?pre = Inr (st\<lparr>rs_ord_ix := ix1, rs_ord_indexed := b1\<rparr>)"
    and ok1: "b1 \<longrightarrow> ix_ok hash ix1 (map fst (rs_ordinals st))"
  proof (cases "\<not> rs_ord_indexed st \<and> length (rs_ordinals st) > index_threshold")
    case True
    obtain ix where "build_index hash (map fst (rs_ordinals st)) = Inr ix" "ix_ok hash ix (map fst (rs_ordinals st))"
      using build_index_spec by blast
    then show thesis using that True by auto
  next
    case False
    then show thesis using that [of "rs_ord_indexed st" "rs_ord_ix st"] inv by (auto simp: ord_inv_def)
  qed
  let ?st1 = "st\<lparr>rs_ord_ix := ix1, rs_ord_indexed := b1\<rparr>"
  let ?ks = "map fst (rs_ordinals st)"
  have bumped: "\<exists>o' ix b. Inr (bump i ?st1) = (Inr (of_nat (count_list seen base), st\<lparr>rs_ordinals := o', rs_ord_ix := ix, rs_ord_indexed := b\<rparr>) :: fault + _) \<and>
      ord_inv hash (st\<lparr>rs_ordinals := o', rs_ord_ix := ix, rs_ord_indexed := b\<rparr>) (seen @ [base])"
    if "i < length ?ks" "?ks ! i = base" for i
  proof -
    have i: "i < length (rs_ordinals st)" "fst (rs_ordinals st ! i) = base" using that by auto
    have k: "map fst ((rs_ordinals st)[i := (base, snd (rs_ordinals st ! i) + 1)]) = ?ks"
      using i by (simp add: map_update list_update_same_conv)
    show ?thesis using bump_ords [OF ords i] i ok1 k
      by (intro exI [of _ "(rs_ordinals st)[i := (base, snd (rs_ordinals st ! i) + 1)]"] exI [of _ ix1] exI [of _ b1])
        (simp add: bump_def ord_inv_def split_beta)
  qed
  show ?thesis
  proof (cases b1)
    case False
    show ?thesis
    proof (cases "find ?ks base")
      case (Some i)
      then show ?thesis using bumped [of i] find_Some_nth [OF Some] False pre by (simp add: next_ordinal_def)
    next
      case None
      then have "base \<notin> set ?ks" using find_spec by metis
      then show ?thesis using None False pre new_ords [OF ords, of base]
        by (intro exI [of _ "rs_ordinals st @ [(base, 1)]"] exI [of _ ix1] exI [of _ b1])
          (simp add: next_ordinal_def ord_inv_def)
    qed
  next
    case True
    then have ok: "ix_ok hash ix1 ?ks" using ok1 by simp
    obtain r where r: "probe hash ix1 ?ks base = Inr r" "r \<noteq> None \<longleftrightarrow> base \<in> set ?ks" using probe_spec [OF ok] by blast
    show ?thesis
    proof (cases r)
      case (Some i)
      then have "i < length ?ks \<and> ?ks ! i = base" using r(1) probe_Some unfolding probe_def by metis
      then show ?thesis using bumped [of i] Some r(1) True pre by (simp add: next_ordinal_def)
    next
      case None
      then have "base \<notin> set ?ks" using r(2) by simp
      moreover obtain ix' where "ix_add hash (?ks @ [base]) ix1 = Inr ix'" "ix_ok hash ix' (?ks @ [base])"
        using ix_add_spec [OF ok] by blast
      ultimately show ?thesis using None r(1) True pre new_ords [OF ords, of base]
        by (intro exI [of _ "rs_ordinals st @ [(base, 1)]"] exI [of _ ix'] exI [of _ True])
          (simp add: next_ordinal_def ord_inv_def Let_def)
    qed
  qed
qed

section \<open>The set of wanted sources\<close>

definition want_inv :: "('k \<Rightarrow> nat) \<Rightarrow> ('k, 'p) running_sources \<Rightarrow> bool" where
  "want_inv hash st \<longleftrightarrow> distinct (map fst (rs_want st)) \<and>
     (rs_indexed st \<longrightarrow> ix_ok hash (rs_want_ix st) (map fst (rs_want st)))"

lemma want_has_spec:
  assumes "want_inv hash st"
  shows "\<exists>ix b. want_has hash k st =
      Inr (k \<in> set (map fst (rs_want st)), st\<lparr>rs_want_ix := ix, rs_indexed := b\<rparr>) \<and>
    want_inv hash (st\<lparr>rs_want_ix := ix, rs_indexed := b\<rparr>) \<and>
    (b \<longleftrightarrow> rs_indexed st \<or> length (rs_want st) > index_threshold) \<and> (\<not> b \<longrightarrow> ix = rs_want_ix st)"
proof (cases "rs_indexed st")
  case True
  then have ok: "ix_ok hash (rs_want_ix st) (map fst (rs_want st))" using assms by (simp add: want_inv_def)
  obtain r where "probe hash (rs_want_ix st) (map fst (rs_want st)) k = Inr r" "(r \<noteq> None) = (k \<in> set (map fst (rs_want st)))"
    using probe_spec [OF ok, of k] by blast
  then show ?thesis using True assms
    by (intro exI [of _ "rs_want_ix st"] exI [of _ True]) (simp add: want_has_def want_inv_def del: not_None_eq)
next
  case no: False
  show ?thesis
  proof (cases "length (rs_want st) > index_threshold")
    case True
    obtain ix where ix: "build_index hash (map fst (rs_want st)) = Inr ix" "ix_ok hash ix (map fst (rs_want st))"
      using build_index_spec by blast
    obtain r where "probe hash ix (map fst (rs_want st)) k = Inr r" "(r \<noteq> None) = (k \<in> set (map fst (rs_want st)))"
      using probe_spec [OF ix(2), of k] by blast
    then show ?thesis using no True assms ix
      by (intro exI [of _ ix] exI [of _ True]) (simp add: want_has_def want_inv_def del: not_None_eq)
  next
    case False
    have "(find (map fst (rs_want st)) k \<noteq> None) = (k \<in> set (map fst (rs_want st)))" by (rule find_spec)
    then show ?thesis using no False assms
      by (intro exI [of _ "rs_want_ix st"] exI [of _ False]) (simp add: want_has_def want_inv_def del: not_None_eq)
  qed
qed

lemma want_add_spec:
  assumes "want_inv hash st" "k \<notin> set (map fst (rs_want st))"
  shows "\<exists>ix. want_add hash k p st = Inr (st\<lparr>rs_want := rs_want st @ [(k, p)], rs_want_ix := ix\<rparr>) \<and>
    want_inv hash (st\<lparr>rs_want := rs_want st @ [(k, p)], rs_want_ix := ix\<rparr>) \<and> (\<not> rs_indexed st \<longrightarrow> ix = rs_want_ix st)"
proof (cases "rs_indexed st")
  case True
  then have ok: "ix_ok hash (rs_want_ix st) (map fst (rs_want st))" using assms by (simp add: want_inv_def)
  obtain ix where "ix_add hash (map fst (rs_want st) @ [k]) (rs_want_ix st) = Inr ix" "ix_ok hash ix (map fst (rs_want st) @ [k])"
    using ix_add_spec [OF ok] by blast
  then show ?thesis using True assms
    by (intro exI [of _ ix]) (simp add: want_add_def want_inv_def Let_def)
next
  case False
  then show ?thesis using assms
    by (intro exI [of _ "rs_want_ix st"]) (simp add: want_add_def want_inv_def Let_def)
qed

section \<open>The reference: number, then keep the first of each key\<close>

fun key_for :: "'k source_key list \<Rightarrow> 'k source_key \<Rightarrow> 'k source_key" where
  "key_for seen b = (if numbered b then with_ordinal (of_nat (count_list seen b)) b else b)"

fun keyed :: "'k source_key list \<Rightarrow> ('k, 'e, 'm) sub list \<Rightarrow> ('k source_key \<times> ('k, 'e, 'm) sub) list" where
  "keyed seen [] = []"
| "keyed seen (x # xs) =
     (case base_key x of
        None \<Rightarrow> keyed seen xs
      | Some b \<Rightarrow> (key_for seen b, x) # keyed (if numbered b then seen @ [b] else seen) xs)"

fun firsts :: "'k list \<Rightarrow> ('k \<times> 'p) list \<Rightarrow> ('k \<times> 'p) list \<times> 'k list" where
  "firsts seen [] = ([], [])"
| "firsts seen ((k, p) # xs) =
     (if k \<in> set seen then (let (w, d) = firsts seen xs in (w, k # d))
      else (let (w, d) = firsts (seen @ [k]) xs in ((k, p) # w, d)))"

definition wanted :: "('k, 'e, 'm) sub \<Rightarrow> ('k source_key \<times> ('k, 'e, 'm) sub) list" where
  "wanted s = fst (firsts [] (keyed [] (sub_leaves s)))"

definition repeated :: "('k, 'e, 'm) sub \<Rightarrow> 'k source_key list" where
  "repeated s = snd (firsts [] (keyed [] (sub_leaves s)))"

text \<open>
  What holds between leaves. The index exists once a leaf was read with more than sixteen keys
  wanted, so eighteen at least have been read by then; before that the old index is left as it was.
\<close>

definition leaf_inv :: "('k \<Rightarrow> nat) \<Rightarrow> slots \<Rightarrow> 'k list \<Rightarrow> ('k, 'p) running_sources \<Rightarrow> bool" where
  "leaf_inv hash ix0 seen st \<longleftrightarrow> ord_inv hash st seen \<and> want_inv hash st \<and>
     (rs_indexed st \<longrightarrow> 17 \<le> length (rs_want st) \<and> 18 \<le> length (rs_want st) + length (rs_dups st)) \<and>
     (\<not> rs_indexed st \<longrightarrow> length (rs_want st) \<le> 17 \<and> rs_want_ix st = ix0)"

lemma take_leaf_spec:
  assumes inv: "leaf_inv hash ix0 seen st" and b: "base_key x = Some b"
  shows "\<exists>st'. take_leaf hash x st = Inr st' \<and> leaf_inv hash ix0 (if numbered b then seen @ [b] else seen) st' \<and>
    rs_running st' = rs_running st \<and> rs_running_ix st' = rs_running_ix st \<and>
    (if key_for seen b \<in> set (map fst (rs_want st))
     then rs_want st' = rs_want st \<and> rs_dups st' = rs_dups st @ [key_for seen b]
     else rs_want st' = rs_want st @ [(key_for seen b, x)] \<and> rs_dups st' = rs_dups st)"
proof -
  let ?k = "key_for seen b" and ?seen = "if numbered b then seen @ [b] else seen"
  obtain o' oix ob where num: "(if numbered b
        then (case next_ordinal hash b st of Inl e \<Rightarrow> Inl e | Inr (n, st1) \<Rightarrow> Inr (with_ordinal n b, st1))
        else Inr (b, st)) = Inr (?k, st\<lparr>rs_ordinals := o', rs_ord_ix := oix, rs_ord_indexed := ob\<rparr>)"
    and oi: "ord_inv hash (st\<lparr>rs_ordinals := o', rs_ord_ix := oix, rs_ord_indexed := ob\<rparr>) ?seen"
  proof (cases "numbered b")
    case True
    have "ord_inv hash st seen" using inv by (simp add: leaf_inv_def)
    from next_ordinal_spec [OF this, of b] show thesis using that True by auto
  next
    case False
    then show thesis using that [of "rs_ord_indexed st" "rs_ord_ix st" "rs_ordinals st"] inv by (simp add: leaf_inv_def)
  qed
  let ?st1 = "st\<lparr>rs_ordinals := o', rs_ord_ix := oix, rs_ord_indexed := ob\<rparr>"
  have "want_inv hash ?st1" using inv by (simp add: leaf_inv_def want_inv_def)
  then obtain wix wb where has: "want_has hash ?k ?st1 = Inr (?k \<in> set (map fst (rs_want st)), ?st1\<lparr>rs_want_ix := wix, rs_indexed := wb\<rparr>)"
    and wi: "want_inv hash (?st1\<lparr>rs_want_ix := wix, rs_indexed := wb\<rparr>)"
    and wb: "wb \<longleftrightarrow> rs_indexed st \<or> length (rs_want st) > index_threshold" and wix: "\<not> wb \<longrightarrow> wix = rs_want_ix st"
    using want_has_spec [of hash ?st1 ?k] by auto
  let ?st2 = "?st1\<lparr>rs_want_ix := wix, rs_indexed := wb\<rparr>"
  have cnt: "wb \<Longrightarrow> 17 \<le> length (rs_want st)" "wb \<Longrightarrow> 17 \<le> length (rs_want st) + length (rs_dups st)"
    "\<not> wb \<Longrightarrow> length (rs_want st) \<le> 16 \<and> rs_want_ix st = ix0"
    using wb inv unfolding leaf_inv_def index_threshold_def by auto
  show ?thesis
  proof (cases "?k \<in> set (map fst (rs_want st))")
    case True
    have "leaf_inv hash ix0 ?seen (?st2\<lparr>rs_dups := rs_dups st @ [?k]\<rparr>)"
      using oi wi unfolding leaf_inv_def ord_inv_def want_inv_def
      by (cases wb) (simp_all, use cnt in linarith, use cnt wix in auto)
    then show ?thesis using True b num has by (simp add: take_leaf_def)
  next
    case False
    then obtain aix where add: "want_add hash ?k x ?st2 = Inr (?st2\<lparr>rs_want := rs_want st @ [(?k, x)], rs_want_ix := aix\<rparr>)"
      and ai: "want_inv hash (?st2\<lparr>rs_want := rs_want st @ [(?k, x)], rs_want_ix := aix\<rparr>)" and aix: "\<not> wb \<longrightarrow> aix = wix"
      using want_add_spec [OF wi, of ?k x] by auto
    have "leaf_inv hash ix0 ?seen (?st2\<lparr>rs_want := rs_want st @ [(?k, x)], rs_want_ix := aix\<rparr>)"
      using oi ai unfolding leaf_inv_def ord_inv_def want_inv_def
      by (cases wb) (simp_all, use cnt in linarith, use cnt wix aix in auto)
    then show ?thesis using False b num has add by (simp add: take_leaf_def)
  qed
qed

lemma take_leaves_spec:
  "leaf_inv hash ix0 seen st \<Longrightarrow>
   \<exists>st' seen'. take_leaves hash xs st = Inr st' \<and> leaf_inv hash ix0 seen' st' \<and>
     rs_running st' = rs_running st \<and> rs_running_ix st' = rs_running_ix st \<and>
     rs_want st' = rs_want st @ fst (firsts (map fst (rs_want st)) (keyed seen xs)) \<and>
     rs_dups st' = rs_dups st @ snd (firsts (map fst (rs_want st)) (keyed seen xs))"
proof (induction xs arbitrary: seen st)
  case (Cons x xs)
  show ?case
  proof (cases "base_key x")
    case None
    then show ?thesis using Cons by (simp add: take_leaf_def)
  next
    case (Some b)
    let ?seen = "if numbered b then seen @ [b] else seen"
    obtain st1 where t: "take_leaf hash x st = Inr st1" "leaf_inv hash ix0 ?seen st1"
      "rs_running st1 = rs_running st" "rs_running_ix st1 = rs_running_ix st"
      "if key_for seen b \<in> set (map fst (rs_want st))
       then rs_want st1 = rs_want st \<and> rs_dups st1 = rs_dups st @ [key_for seen b]
       else rs_want st1 = rs_want st @ [(key_for seen b, x)] \<and> rs_dups st1 = rs_dups st"
      using take_leaf_spec [OF Cons.prems Some] by blast
    obtain st' seen' where r: "take_leaves hash xs st1 = Inr st'" "leaf_inv hash ix0 seen' st'"
      "rs_running st' = rs_running st1" "rs_running_ix st' = rs_running_ix st1"
      "rs_want st' = rs_want st1 @ fst (firsts (map fst (rs_want st1)) (keyed ?seen xs))"
      "rs_dups st' = rs_dups st1 @ snd (firsts (map fst (rs_want st1)) (keyed ?seen xs))"
      using Cons.IH [OF t(2)] by blast
    show ?thesis
      using t(1,3,4,5) r Some
      by (intro exI [of _ st'] exI [of _ seen'])
        (cases "key_for seen b \<in> set (map fst (rs_want st))"; simp add: split_beta del: key_for.simps)
  qed
qed auto

lemma split_by_spec:
  "\<forall>w \<in> set ws. f (fst w) = Inr (P (fst w)) \<Longrightarrow>
   split_by f ws = Inr (filter (\<lambda>w. P (fst w)) ws, filter (\<lambda>w. \<not> P (fst w)) ws)"
  by (induction ws) auto

lemma lookup_in_spec: "\<not> big \<or> ix_ok hash ix ks \<Longrightarrow> lookup_in hash big ix ks k = Inr (k \<in> set ks)"
proof (cases big)
  case True
  assume "\<not> big \<or> ix_ok hash ix ks"
  then have "ix_ok hash ix ks" using True by simp
  then obtain r where "probe hash ix ks k = Inr r" "(r \<noteq> None) = (k \<in> set ks)" using probe_spec [of hash ix ks k] by blast
  then show ?thesis using True by (simp add: lookup_in_def del: not_None_eq)
next
  case False
  then show ?thesis using find_spec [of ks k] by (simp add: lookup_in_def del: not_None_eq)
qed

text \<open>The first half of a diff, whatever happened before: what is wanted, and when it got an index.\<close>

lemma reconcile_take:
  fixes st :: "('k source_key, ('k, 'e, 'm) sub) running_sources"
  obtains st1 where
    "take_leaves hash (sub_leaves nxt) (st\<lparr>rs_want := [], rs_ordinals := [], rs_dups := [], rs_indexed := False,
       rs_ord_indexed := False\<rparr>) = Inr st1"
    "rs_want st1 = wanted nxt" "rs_dups st1 = repeated nxt" "rs_running st1 = rs_running st"
    "distinct (map fst (wanted nxt))"
    "rs_indexed st1 \<longrightarrow> ix_ok hash (rs_want_ix st1) (map fst (wanted nxt))"
    "rs_indexed st1 \<longrightarrow> 17 \<le> length (wanted nxt) \<and> 18 \<le> length (wanted nxt) + length (repeated nxt)"
    "\<not> rs_indexed st1 \<longrightarrow> length (wanted nxt) \<le> 17 \<and> rs_want_ix st1 = rs_want_ix st"
proof -
  let ?st0 = "st\<lparr>rs_want := [], rs_ordinals := [], rs_dups := [], rs_indexed := False, rs_ord_indexed := False\<rparr>"
  have "leaf_inv hash (rs_want_ix st) [] ?st0"
    by (simp add: leaf_inv_def ord_inv_def ords_ok_def want_inv_def)
  from take_leaves_spec [OF this, of "sub_leaves nxt"] obtain st' seen' where
    "take_leaves hash (sub_leaves nxt) ?st0 = Inr st'" "leaf_inv hash (rs_want_ix st) seen' st'"
    "rs_running st' = rs_running st" "rs_want st' = wanted nxt" "rs_dups st' = repeated nxt"
    by (auto simp: wanted_def repeated_def)
  then show thesis by (intro that [of st']) (simp_all add: leaf_inv_def want_inv_def)
qed

text \<open>The diff as the header comment states it.\<close>

definition diff_plan :: "('k \<times> 'p) list \<Rightarrow> ('k \<times> 'p) list \<Rightarrow> 'k list \<Rightarrow> ('k, 'p) plan" where
  "diff_plan running want dups =
     \<lparr>pl_start = filter (\<lambda>w. fst w \<notin> fst ` set running) want,
      pl_keep = filter (\<lambda>w. fst w \<in> fst ` set running) want,
      pl_stop = map fst (filter (\<lambda>r. fst r \<notin> fst ` set want) running),
      pl_duplicates = dups\<rparr>"

text \<open>
  When the code looks at indexes that belong to the vectors: nothing runs yet, or both sides are
  small enough to scan, or enough is wanted for the index to have been built.
\<close>

definition index_safe :: "('k, 'e, 'm) sub \<Rightarrow> ('k source_key, ('k, 'e, 'm) sub) running_sources \<Rightarrow> bool" where
  "index_safe nxt st \<longleftrightarrow> rs_running st = [] \<or> 18 \<le> length (wanted nxt) \<or>
     (length (wanted nxt) \<le> 16 \<and> length (rs_running st) \<le> 16)"

lemma reconcile_plan:
  assumes "index_safe nxt st"
  shows "\<exists>st'. reconcile hash nxt st = Inr (diff_plan (rs_running st) (wanted nxt) (repeated nxt), st') \<and>
    rs_running st' = wanted nxt \<and> distinct (map fst (wanted nxt)) \<and>
    (\<not> 17 < length (wanted nxt) + length (repeated nxt) \<longrightarrow> rs_want_ix st' = rs_want_ix st)"
proof -
  let ?W = "wanted nxt" and ?R = "rs_running st"
  obtain st1 where t: "take_leaves hash (sub_leaves nxt) (st\<lparr>rs_want := [], rs_ordinals := [], rs_dups := [], rs_indexed := False,
       rs_ord_indexed := False\<rparr>) = Inr st1"
    and f: "rs_want st1 = ?W" "rs_dups st1 = repeated nxt" "rs_running st1 = ?R" and d: "distinct (map fst ?W)"
    and yes: "rs_indexed st1 \<longrightarrow> ix_ok hash (rs_want_ix st1) (map fst ?W)"
      "rs_indexed st1 \<longrightarrow> 17 \<le> length ?W \<and> 18 \<le> length ?W + length (repeated nxt)"
    and no: "\<not> rs_indexed st1 \<longrightarrow> length ?W \<le> 17 \<and> rs_want_ix st1 = rs_want_ix st"
    by (rule reconcile_take [of hash nxt st])
  let ?big = "length ?W > index_threshold \<or> length ?R > index_threshold"
  obtain rix where rix: "(if ?big then build_index hash (map fst ?R) else Inr (rs_running_ix st1)) = Inr rix"
    "?big \<longrightarrow> ix_ok hash rix (map fst ?R)"
  proof (cases ?big)
    case True
    obtain ix where ix: "build_index hash (map fst ?R) = Inr ix" "ix_ok hash ix (map fst ?R)"
      using build_index_spec by blast
    show thesis by (rule that [of ix]) (simp_all only: True if_True ix simp_thms)
  next
    case False
    show thesis by (rule that [of "rs_running_ix st1"]) (simp_all only: False if_False simp_thms)
  qed
  have s1: "split_by (lookup_in hash ?big rix (map fst ?R)) ?W =
      Inr (filter (\<lambda>w. fst w \<in> set (map fst ?R)) ?W, filter (\<lambda>w. fst w \<notin> set (map fst ?R)) ?W)"
    by (intro split_by_spec ballI lookup_in_spec) (use rix(2) in blast)
  have s2: "split_by (lookup_in hash ?big (rs_want_ix st1) (map fst ?W)) ?R =
      Inr (filter (\<lambda>r. fst r \<in> set (map fst ?W)) ?R, filter (\<lambda>r. fst r \<notin> set (map fst ?W)) ?R)"
  proof (cases "?R = []")
    case False
    then have "\<not> ?big \<or> rs_indexed st1"
      using assms no by (auto simp: index_safe_def index_threshold_def)
    then show ?thesis by (intro split_by_spec ballI lookup_in_spec) (use yes in blast)
  qed simp
  have "reconcile hash nxt st = Inr (diff_plan ?R ?W (repeated nxt),
      st1\<lparr>rs_running_ix := rix, rs_running := ?W, rs_want := ?R\<rparr>)"
    unfolding reconcile_def Let_def t f sum.case rix(1) s1 prod.case s2 diff_plan_def by simp
  then show ?thesis using d yes no by auto
qed

lemma probe_empty_table: "probe hash [] ks k = Inl OutOfRange"
  by (simp add: probe_def)

lemma reconcile_out_of_range:
  assumes ix: "rs_want_ix st = []" and run: "rs_running st \<noteq> []" and few: "length (wanted nxt) + length (repeated nxt) \<le> 17"
    and big: "length (wanted nxt) = 17 \<or> 16 < length (rs_running st)"
  shows "reconcile hash nxt st = Inl OutOfRange"
proof -
  let ?W = "wanted nxt" and ?R = "rs_running st"
  obtain st1 where t: "take_leaves hash (sub_leaves nxt) (st\<lparr>rs_want := [], rs_ordinals := [], rs_dups := [], rs_indexed := False,
       rs_ord_indexed := False\<rparr>) = Inr st1"
    and f: "rs_want st1 = ?W" "rs_dups st1 = repeated nxt" "rs_running st1 = ?R"
    and yes: "rs_indexed st1 \<longrightarrow> 17 \<le> length ?W \<and> 18 \<le> length ?W + length (repeated nxt)"
    and no: "\<not> rs_indexed st1 \<longrightarrow> length ?W \<le> 17 \<and> rs_want_ix st1 = rs_want_ix st"
    by (rule reconcile_take [of hash nxt st])
  have w: "rs_want_ix st1 = []" using yes no few ix by auto
  have b: "length ?W > index_threshold \<or> length ?R > index_threshold" using big by (auto simp: index_threshold_def)
  obtain rix where rix: "build_index hash (map fst ?R) = Inr rix" "ix_ok hash rix (map fst ?R)"
    using build_index_spec by blast
  have s1: "split_by (lookup_in hash True rix (map fst ?R)) ?W =
      Inr (filter (\<lambda>w. fst w \<in> set (map fst ?R)) ?W, filter (\<lambda>w. fst w \<notin> set (map fst ?R)) ?W)"
    by (intro split_by_spec ballI lookup_in_spec) (use rix(2) in blast)
  obtain r rs where R: "?R = r # rs" using run by (cases ?R) auto
  have s2: "split_by (lookup_in hash True [] (map fst ?W)) ?R = Inl OutOfRange"
    by (simp add: R lookup_in_def probe_empty_table)
  have B: "(length ?W > index_threshold \<or> length ?R > index_threshold) = True" using b by blast
  show ?thesis unfolding reconcile_def Let_def t f w sum.case B if_True rix(1) s1 prod.case s2 by simp
qed

section \<open>Properties\<close>

text \<open>C39: wherever the indexes belong to the vectors, one diff is what the rules say: a wanted key that
  runs is kept with its new payload, one that does not is started, a running key no longer wanted is
  stopped, a repeated key is reported and only its first source counts; afterwards exactly the wanted
  sources run, each key once. It never faults, and hashed lookups agree with scanning.\<close>

theorem reconcile_correct:
  assumes "index_safe nxt st"
  shows "\<exists>st'. reconcile hash nxt st = Inr (diff_plan (rs_running st) (wanted nxt) (repeated nxt), st') \<and>
    rs_running st' = wanted nxt \<and> distinct (map fst (rs_running st'))"
  using reconcile_plan [OF assms, of hash] by fastforce

theorem reconcile_correct_witness:
  "\<exists>st'. reconcile (\<lambda>_. 0) (SBatch [Every 5 CHR ''a'', Stream ''s'' (Done ()), Every 5 CHR ''b''] :: (unit, unit, char) sub) no_sources =
     Inr (diff_plan [] [(EveryKey 5 0, Every 5 CHR ''a''), (StreamKey ''s'', Stream ''s'' (Done ())), (EveryKey 5 1, Every 5 CHR ''b'')] [], st')"
proof -
  let ?s = "SBatch [Every 5 CHR ''a'', Stream ''s'' (Done ()), Every 5 CHR ''b''] :: (unit, unit, char) sub"
  have "wanted ?s = [(EveryKey 5 0, Every 5 CHR ''a''), (StreamKey ''s'', Stream ''s'' (Done ())), (EveryKey 5 1, Every 5 CHR ''b'')]"
    "repeated ?s = []"
    by (simp_all add: wanted_def repeated_def numbered_def)
  then show ?thesis
    using reconcile_correct [of ?s no_sources "\<lambda>_. 0"] by (auto simp: index_safe_def no_sources_def)
qed

text \<open>Where they do not: after a first diff that wants exactly seventeen sources no index of the
  wanted ones exists, and every following diff that reads at most seventeen, the very same
  subscription included, looks a key up in an empty table: an out-of-range read.\<close>

theorem reconcile_seventeen_faults:
  assumes "length (wanted a) = 17" "repeated a = []" "length (wanted b) + length (repeated b) \<le> 17"
  shows "\<exists>p st. reconcile hash a no_sources = Inr (p, st) \<and> reconcile hash b st = Inl OutOfRange"
proof -
  obtain st where st: "reconcile hash a no_sources = Inr (diff_plan (rs_running no_sources) (wanted a) (repeated a), st)"
    "rs_running st = wanted a" "rs_want_ix st = []"
    using reconcile_plan [of a no_sources hash] assms by (fastforce simp: index_safe_def no_sources_def)
  have "reconcile hash b st = Inl OutOfRange"
    by (rule reconcile_out_of_range) (use st assms in auto)
  then show ?thesis using st(1) by blast
qed

definition seventeen :: "(unit, unit, char) sub" where
  "seventeen = SBatch (map (\<lambda>i. Every (int i) CHR ''t'') [0..<17])"

lemma seventeen_keys: "length (wanted seventeen) = 17 \<and> repeated seventeen = []"
  by (simp add: seventeen_def wanted_def repeated_def numbered_def upt_conv_Cons)

theorem reconcile_seventeen_faults_witness:
  "\<exists>p st. reconcile (\<lambda>_. 0) seventeen no_sources = Inr (p, st) \<and> reconcile (\<lambda>_. 0) seventeen st = Inl OutOfRange"
  by (rule reconcile_seventeen_faults) (simp_all add: seventeen_keys)

text \<open>keys are given from the front: adding sources at the end of a subscription, timers of the same
  interval included, changes no earlier source's key, so none of them is restarted.\<close>

theorem keyed_append: "keyed [] (xs @ ys) = keyed [] xs @ keyed (filter numbered (List.map_filter base_key xs)) ys"
proof -
  have "keyed seen (xs @ ys) = keyed seen xs @ keyed (seen @ filter numbered (List.map_filter base_key xs)) ys" for seen
    by (induction xs arbitrary: seen) (auto simp: List.map_filter_simps split: option.splits)
  from this [of "[]"] show ?thesis by simp
qed

text \<open>the debug check for an unchanged set of sources counts every leaf, so a subscription that
  repeats a key is reported as different from the very set its own diff left running.\<close>

theorem same_sources_rejects_repeats:
  fixes st :: "('k source_key, ('k, 'e, 'm) sub) running_sources"
  assumes "reconcile hash (SBatch [Stream ''s'' (Done ()), Stream ''s'' (Done ())]) no_sources = Inr (p, st)"
  shows "\<not> same_sources (SBatch [Stream ''s'' (Done ()), Stream ''s'' (Done ())]) st"
proof -
  let ?s = "SBatch [Stream ''s'' (Done ()), Stream ''s'' (Done ())] :: ('k, 'e, 'm) sub"
  have safe: "index_safe ?s no_sources" by (simp add: index_safe_def no_sources_def)
  have "rs_running st = wanted ?s" using reconcile_plan [OF safe, of hash] assms by auto
  then have "length (rs_running st) = 1" by (simp add: wanted_def numbered_def)
  then show ?thesis by (simp add: same_sources_def numbered_def)
qed

theorem same_sources_rejects_repeats_witness:
  "\<exists>p st. reconcile (\<lambda>_. 0) (SBatch [Stream ''s'' (Done ()), Stream ''s'' (Done ())] :: (unit, unit, char) sub) no_sources = Inr (p, st) \<and>
     \<not> same_sources (SBatch [Stream ''s'' (Done ()), Stream ''s'' (Done ())]) st"
proof -
  let ?s = "SBatch [Stream ''s'' (Done ()), Stream ''s'' (Done ())] :: (unit, unit, char) sub"
  obtain p st where "reconcile (\<lambda>_. 0) ?s no_sources = Inr (p, st)"
    using reconcile_plan [of ?s no_sources "\<lambda>_. 0"] by (auto simp: index_safe_def no_sources_def)
  then show ?thesis using same_sources_rejects_repeats by blast
qed

end
