(* ===== verification/Kernel.thy ===== *)
theory Kernel
  imports Timer_Heap Rng Children Mailbox Reconcile "HOL-Library.AList"
begin

text \<open>
  \<^verbatim>\<open>include/jaal/kernel/kernel.hpp\<close> and \<^verbatim>\<open>fault.hpp\<close>: the loop. One record holds the kernel's members, one
  definition models each member function. Program code, the host and the clock are functions of an
  environment; what the kernel hands to others (jobs for the pool, stop requests, fault reports, trace
  events, recorded messages) is appended to logs of the state. Exceptions are values; a run that meets
  undefined behaviour, a failed assertion or an endless loop in a component is an \<open>Inl\<close>.
\<close>

section \<open>Faults\<close>

datatype fault_policy = Stop | Skip

datatype fault_site = UpdateSite | SubscribeSite | InputSite | ViewSite | EffectSite | TaskSite

fun site_name :: "fault_site \<Rightarrow> string" where
  "site_name UpdateSite = ''update''"
| "site_name SubscribeSite = ''subscribe''"
| "site_name InputSite = ''input''"
| "site_name ViewSite = ''view''"
| "site_name EffectSite = ''effect''"
| "site_name TaskSite = ''task''"

record fault_report =
  f_site :: fault_site
  f_error :: "exc option"
  f_what :: string
  f_model_kept :: bool
  f_stopping :: bool

definition describe :: "exc option \<Rightarrow> string" where
  "describe e = (case e of None \<Rightarrow> [] | Some (StdException w) \<Rightarrow> w | Some OtherException \<Rightarrow> ''non-std exception'')"

definition fault_exit_code :: int where
  "fault_exit_code = 70"

datatype trace_event =
    TFold nat
  | TEffect string
  | TSubscribe nat nat nat
  | TFault string
  | TStep u64

section \<open>What the kernel is given\<close>

text \<open>How the program's declared clock relates to the kernel's: none declared, the same type, or
  another one with its reading at the start and the duration cast to its ticks.\<close>

datatype program_clock = Unclocked | SameClock | OtherClock time_point "duration \<Rightarrow> duration"

text \<open>
  Program, host and options. \<open>e_clock n\<close> is the kernel clock's \<open>n\<close>-th reading, \<open>e_ms\<close> its ticks in a
  millisecond. A host callback returns what it throws, if anything, and the host's next state; a host
  effect may answer with a message. \<open>e_abandoned\<close> is what the pool's shutdown returns.
\<close>

record ('md, 'm, 'h, 'o, 'k, 'e, 'ev, 'sk, 'hs) env =
  e_init :: "'md \<times> ('h, 'o, 'm) cmd"
  e_update :: "'md \<Rightarrow> 'm \<Rightarrow> time_point option \<Rightarrow> 'md \<times> (exc + ('h, 'o, 'm) cmd)"
  e_subscribe :: "'md \<Rightarrow> exc + ('k, 'e, 'm) sub"
  e_on :: "'md \<Rightarrow> 'ev \<Rightarrow> exc + 'm option"
  e_subs_key :: "('md \<Rightarrow> 'sk) option"
  e_copyable :: bool
  e_msg_index :: "'m \<Rightarrow> nat"
  e_handle :: "'h + 'o \<Rightarrow> 'hs \<Rightarrow> (exc + 'm option) \<times> 'hs"
  e_fx_name :: "'h \<Rightarrow> string"
  e_start_source :: "('k, 'e, 'm) sub \<Rightarrow> 'k \<Rightarrow> 'hs \<Rightarrow> exc option \<times> 'hs"
  e_stop_source :: "'k \<Rightarrow> 'hs \<Rightarrow> exc option \<times> 'hs"
  e_clock :: "nat \<Rightarrow> time_point"
  e_ms :: int
  e_pclock :: program_clock
  e_hash :: "'k source_key \<Rightarrow> nat"
  e_ndebug :: bool
  e_fold_budget :: nat
  e_on_fault :: fault_policy
  e_trace :: bool
  e_wake :: bool
  e_capacity :: nat
  e_on_full :: overflow
  e_random_seed :: u64
  e_picked_seed :: u64
  e_abandoned :: nat

section \<open>State\<close>

record running_timer =
  rt_id :: timer_id
  rt_origin :: origin_id

record keyed_run =
  kr_origin :: origin_id
  kr_timer :: "timer_id option"

text \<open>
  A job given to the pool: an anonymous task (origin 0), a keyed task or a stream under its origin. A
  run's stop source is named by the run's origin.
\<close>

datatype 'm job = TaskJob origin_id "(unit, 'm) act" placement | StreamJob string origin_id "(unit, 'm) act"

record ('md, 'm, 'k, 'e, 'sk, 'hs) kernel =
  k_reads :: nat
  k_started_at :: time_point
  k_now :: time_point
  k_now_cached :: bool
  k_rng :: u64
  k_seed_used :: u64
  k_model :: 'md
  k_inbox :: "'m mailbox"
  k_tf_errors :: "exc list"
  k_tf_pending :: bool
  k_timers :: "(origin_id \<times> 'm) timer_heap"
  k_sources :: "('k source_key, ('k, 'e, 'm) sub) running_sources"
  k_timer_of :: "('k source_key \<times> running_timer) list"
  k_streams :: "('k source_key \<times> origin_id) list"
  k_tasks :: "(string \<times> keyed_run) list"
  k_pending :: "(origin_id \<times> 'm) list"
  k_live :: "origin_id set"
  k_folds :: u64
  k_faults :: u64
  k_abandoned :: nat
  k_duplicates :: nat
  k_exit :: "int option"
  k_subs_dirty :: bool
  k_changed :: bool
  k_subs_key :: "'sk option"
  k_distrusted :: bool
  k_down :: bool
  k_host :: 'hs
  k_jobs :: "'m job list"
  k_stopped :: "origin_id list"
  k_reports :: "fault_report list"
  k_traced :: "trace_event list"
  k_recorded :: "'m list"
  k_recorded_timed :: "('m \<times> time_point) list"

text \<open>What one step reports.\<close>

record turn =
  t_model_changed :: bool
  t_folded :: u64
  t_exit :: "int option"

text \<open>Sequencing with faults.\<close>

definition andthen :: "'f + 'a \<Rightarrow> ('a \<Rightarrow> 'f + 'b) \<Rightarrow> 'f + 'b" where
  "andthen r f = (case r of Inl x \<Rightarrow> Inl x | Inr a \<Rightarrow> f a)"

lemma andthen_simps [simp]: "andthen (Inl x) f = Inl x" "andthen (Inr a) f = f a"
  by (simp_all add: andthen_def)

lemma andthen_Inr: "andthen r f = Inr b \<longleftrightarrow> (\<exists>a. r = Inr a \<and> f a = Inr b)"
  by (cases r) auto

lemma andthen_cong [fundef_cong]: "r = r' \<Longrightarrow> (\<And>a. r' = Inr a \<Longrightarrow> f a = g a) \<Longrightarrow> andthen r f = andthen r' g"
  by (cases r') auto

section \<open>Reporting, stopping and time\<close>

definition emit_trace ::
    "('md, 'm, 'h, 'o, 'k, 'e, 'ev, 'sk, 'hs) env \<Rightarrow> trace_event \<Rightarrow> ('md, 'm, 'k, 'e, 'sk, 'hs) kernel \<Rightarrow>
     ('md, 'm, 'k, 'e, 'sk, 'hs) kernel" where
  "emit_trace e ev s = (if e_trace e then s\<lparr>k_traced := k_traced s @ [ev]\<rparr> else s)"

text \<open>The policy in force: a model that cannot be copied turns \<^verbatim>\<open>skip\<close> into \<^verbatim>\<open>stop\<close>.\<close>

definition policy ::
    "('md, 'm, 'h, 'o, 'k, 'e, 'ev, 'sk, 'hs) env \<Rightarrow> fault_policy" where
  "policy e = (if e_copyable e then e_on_fault e else Stop)"

definition report ::
    "('md, 'm, 'h, 'o, 'k, 'e, 'ev, 'sk, 'hs) env \<Rightarrow> fault_report \<Rightarrow> ('md, 'm, 'k, 'e, 'sk, 'hs) kernel \<Rightarrow>
     ('md, 'm, 'k, 'e, 'sk, 'hs) kernel" where
  "report e f s =
     (let s1 = emit_trace e (TFault (site_name (f_site f))) s
      in s1\<lparr>k_reports := k_reports s1 @ [f]\<rparr>)"

definition stop ::
    "int \<Rightarrow> ('md, 'm, 'k, 'e, 'sk, 'hs) kernel \<Rightarrow> ('md, 'm, 'k, 'e, 'sk, 'hs) kernel" where
  "stop code s = (if k_exit s \<noteq> None then s else s\<lparr>k_exit := Some code, k_pending := []\<rparr>)"

definition fault_raised ::
    "('md, 'm, 'h, 'o, 'k, 'e, 'ev, 'sk, 'hs) env \<Rightarrow> fault_site \<Rightarrow> exc \<Rightarrow> bool \<Rightarrow>
     ('md, 'm, 'k, 'e, 'sk, 'hs) kernel \<Rightarrow> ('md, 'm, 'k, 'e, 'sk, 'hs) kernel" where
  "fault_raised e site x model_kept s =
     (let halt = (policy e = Stop \<or> \<not> model_kept);
          s1 = report e \<lparr>f_site = site, f_error = Some x, f_what = describe (Some x), f_model_kept = model_kept,
                 f_stopping = halt\<rparr> (s\<lparr>k_faults := k_faults s + 1\<rparr>)
      in if halt then stop fault_exit_code s1 else s1)"

definition view_faulted ::
    "('md, 'm, 'h, 'o, 'k, 'e, 'ev, 'sk, 'hs) env \<Rightarrow> exc \<Rightarrow> ('md, 'm, 'k, 'e, 'sk, 'hs) kernel \<Rightarrow>
     ('md, 'm, 'k, 'e, 'sk, 'hs) kernel" where
  "view_faulted e x s = fault_raised e ViewSite x True s"

fun raise_all ::
    "('md, 'm, 'h, 'o, 'k, 'e, 'ev, 'sk, 'hs) env \<Rightarrow> exc list \<Rightarrow> ('md, 'm, 'k, 'e, 'sk, 'hs) kernel \<Rightarrow>
     ('md, 'm, 'k, 'e, 'sk, 'hs) kernel" where
  "raise_all e [] s = s"
| "raise_all e (x # xs) s = raise_all e xs (fault_raised e TaskSite x True s)"

definition drain_task_faults ::
    "('md, 'm, 'h, 'o, 'k, 'e, 'ev, 'sk, 'hs) env \<Rightarrow> ('md, 'm, 'k, 'e, 'sk, 'hs) kernel \<Rightarrow>
     ('md, 'm, 'k, 'e, 'sk, 'hs) kernel" where
  "drain_task_faults e s =
     (if \<not> k_tf_pending s then s
      else raise_all e (k_tf_errors s) (s\<lparr>k_tf_pending := False, k_tf_errors := []\<rparr>))"

text \<open>A failed job: queue the error, raise the flag, wake the loop while the mailbox is open.\<close>

definition on_error ::
    "exc \<Rightarrow> ('md, 'm, 'k, 'e, 'sk, 'hs) kernel \<Rightarrow> ('md, 'm, 'k, 'e, 'sk, 'hs) kernel" where
  "on_error x s =
     (let s1 = s\<lparr>k_tf_errors := k_tf_errors s @ [x], k_tf_pending := True\<rparr>
      in s1\<lparr>k_inbox := snd (wake_if_open (k_inbox s1))\<rparr>)"

definition read_clock ::
    "('md, 'm, 'h, 'o, 'k, 'e, 'ev, 'sk, 'hs) env \<Rightarrow> ('md, 'm, 'k, 'e, 'sk, 'hs) kernel \<Rightarrow>
     time_point \<times> ('md, 'm, 'k, 'e, 'sk, 'hs) kernel" where
  "read_clock e s = (e_clock e (k_reads s), s\<lparr>k_reads := k_reads s + 1\<rparr>)"

definition step_now ::
    "('md, 'm, 'h, 'o, 'k, 'e, 'ev, 'sk, 'hs) env \<Rightarrow> ('md, 'm, 'k, 'e, 'sk, 'hs) kernel \<Rightarrow>
     time_point \<times> ('md, 'm, 'k, 'e, 'sk, 'hs) kernel" where
  "step_now e s =
     (if k_now_cached s then (k_now s, s)
      else let (t, s1) = read_clock e s in (t, s1\<lparr>k_now := t, k_now_cached := True\<rparr>))"

definition program_now ::
    "('md, 'm, 'h, 'o, 'k, 'e, 'ev, 'sk, 'hs) env \<Rightarrow> ('md, 'm, 'k, 'e, 'sk, 'hs) kernel \<Rightarrow>
     time_point option \<times> ('md, 'm, 'k, 'e, 'sk, 'hs) kernel" where
  "program_now e s =
     (case e_pclock e of
        Unclocked \<Rightarrow> (None, s)
      | SameClock \<Rightarrow> (let (t, s1) = step_now e s in (Some t, s1))
      | OtherClock epoch cast \<Rightarrow> (let (t, s1) = step_now e s in (Some (epoch + cast (t - k_started_at s1)), s1)))"

section \<open>Keyed work\<close>

definition open_live ::
    "('md, 'm, 'k, 'e, 'sk, 'hs) kernel \<Rightarrow> fault + (origin_id \<times> ('md, 'm, 'k, 'e, 'sk, 'hs) kernel)" where
  "open_live s =
     (case open_origin (k_inbox s) of
        None \<Rightarrow> Inl Aborted
      | Some (i, b) \<Rightarrow> Inr (i, s\<lparr>k_inbox := b, k_live := insert i (k_live s)\<rparr>))"

text \<open>Forget an origin, on the loop and in the mailbox.\<close>

definition retire_live ::
    "origin_id \<Rightarrow> ('md, 'm, 'k, 'e, 'sk, 'hs) kernel \<Rightarrow> ('md, 'm, 'k, 'e, 'sk, 'hs) kernel" where
  "retire_live i s = s\<lparr>k_live := k_live s - {i}, k_inbox := retire i (k_inbox s)\<rparr>"

definition stop_keyed_task ::
    "string \<Rightarrow> ('md, 'm, 'k, 'e, 'sk, 'hs) kernel \<Rightarrow> ('md, 'm, 'k, 'e, 'sk, 'hs) kernel" where
  "stop_keyed_task key s =
     (case map_of (k_tasks s) key of
        None \<Rightarrow> s
      | Some run \<Rightarrow>
          let s1 = retire_live (kr_origin run) s;
              s2 = (case kr_timer run of None \<Rightarrow> s1 | Some t \<Rightarrow> s1\<lparr>k_timers := snd (cancel t (k_timers s1))\<rparr>)
          in s2\<lparr>k_stopped := k_stopped s2 @ [kr_origin run], k_tasks := AList.delete key (k_tasks s2)\<rparr>)"

definition start_keyed_task ::
    "(unit, 'm) act \<Rightarrow> placement \<Rightarrow> string \<Rightarrow> ('md, 'm, 'k, 'e, 'sk, 'hs) kernel \<Rightarrow>
     fault + ('md, 'm, 'k, 'e, 'sk, 'hs) kernel" where
  "start_keyed_task body wh key s =
     andthen (open_live (stop_keyed_task key s)) (\<lambda>(i, s1).
       Inr (s1\<lparr>k_tasks := AList.update key \<lparr>kr_origin = i, kr_timer = None\<rparr> (k_tasks s1),
               k_jobs := k_jobs s1 @ [TaskJob i body wh]\<rparr>))"

definition start_keyed_after ::
    "('md, 'm, 'h, 'o, 'k, 'e, 'ev, 'sk, 'hs) env \<Rightarrow> int \<Rightarrow> 'm \<Rightarrow> string \<Rightarrow>
     ('md, 'm, 'k, 'e, 'sk, 'hs) kernel \<Rightarrow> fault + ('md, 'm, 'k, 'e, 'sk, 'hs) kernel" where
  "start_keyed_after e d m key s =
     andthen (open_live (stop_keyed_task key s)) (\<lambda>(i, s1).
       let (now, s2) = step_now e s1; (t, h) = after (e_ms e) now d (i, m) (k_timers s2)
       in Inr (s2\<lparr>k_timers := h, k_tasks := AList.update key \<lparr>kr_origin = i, kr_timer = Some t\<rparr> (k_tasks s2)\<rparr>))"

definition keyed_tasks ::
    "('md, 'm, 'k, 'e, 'sk, 'hs) kernel \<Rightarrow> nat" where
  "keyed_tasks s = length (k_tasks s)"

definition has_task ::
    "string \<Rightarrow> ('md, 'm, 'k, 'e, 'sk, 'hs) kernel \<Rightarrow> bool" where
  "has_task key s \<longleftrightarrow> map_of (k_tasks s) key \<noteq> None"

section \<open>Effects\<close>

definition push_pending ::
    "'m \<Rightarrow> ('md, 'm, 'k, 'e, 'sk, 'hs) kernel \<Rightarrow> ('md, 'm, 'k, 'e, 'sk, 'hs) kernel" where
  "push_pending m s = s\<lparr>k_pending := k_pending s @ [(0, m)]\<rparr>"

definition call_handle ::
    "('md, 'm, 'h, 'o, 'k, 'e, 'ev, 'sk, 'hs) env \<Rightarrow> 'h + 'o \<Rightarrow> ('md, 'm, 'k, 'e, 'sk, 'hs) kernel \<Rightarrow>
     exc option \<times> ('md, 'm, 'k, 'e, 'sk, 'hs) kernel" where
  "call_handle e x s =
     (let (r, hs) = e_handle e x (k_host s); s1 = s\<lparr>k_host := hs\<rparr>
      in case r of
           Inl ex \<Rightarrow> (Some ex, s1)
         | Inr None \<Rightarrow> (None, s1)
         | Inr (Some m) \<Rightarrow> (None, push_pending m s1))"

fun effect_name ::
    "('md, 'm, 'h, 'o, 'k, 'e, 'ev, 'sk, 'hs) env \<Rightarrow> ('h, 'o, 'm) cmd \<Rightarrow> string" where
  "effect_name e (Quit _) = ''quit''"
| "effect_name e (Send _) = ''send''"
| "effect_name e (After _ _ _) = ''after''"
| "effect_name e (Task _ _ _) = ''task''"
| "effect_name e (Cancel _) = ''cancel''"
| "effect_name e (Now _) = ''now''"
| "effect_name e (Random _) = ''random''"
| "effect_name e (Report _) = ''report''"
| "effect_name e (HostFx h) = e_fx_name e h"
| "effect_name e _ = ''?''"

text \<open>One effect, with what it throws.\<close>

fun run_effect ::
    "('md, 'm, 'h, 'o, 'k, 'e, 'ev, 'sk, 'hs) env \<Rightarrow> ('h, 'o, 'm) cmd \<Rightarrow>
     ('md, 'm, 'k, 'e, 'sk, 'hs) kernel \<Rightarrow> fault + (exc option \<times> ('md, 'm, 'k, 'e, 'sk, 'hs) kernel)" where
  "run_effect e (Quit code) s = Inr (None, if k_exit s = None then s\<lparr>k_exit := Some code\<rparr> else s)"
| "run_effect e (Send m) s = Inr (None, push_pending m s)"
| "run_effect e (After d m key) s =
     (if key = [] then
        let (now, s1) = step_now e s; (t, h) = after (e_ms e) now d (0, m) (k_timers s1)
        in Inr (None, s1\<lparr>k_timers := h\<rparr>)
      else andthen (start_keyed_after e d m key s) (\<lambda>s1. Inr (None, s1)))"
| "run_effect e (Task body wh key) s =
     (if key = [] then Inr (None, s\<lparr>k_jobs := k_jobs s @ [TaskJob 0 body wh]\<rparr>)
      else andthen (start_keyed_task body wh key s) (\<lambda>s1. Inr (None, s1)))"
| "run_effect e (Cancel key) s = Inr (None, stop_keyed_task key s)"
| "run_effect e (Now f) s = (let (t, s1) = read_clock e s in Inr (None, push_pending (f t) s1))"
| "run_effect e (Random f) s = (let (m, r) = f (k_rng s) in Inr (None, push_pending m (s\<lparr>k_rng := r\<rparr>)))"
| "run_effect e (Report r) s = Inr (call_handle e (Inr r) s)"
| "run_effect e (HostFx h) s = Inr (call_handle e (Inl h) s)"
| "run_effect e _ s = Inr (None, s)"

text \<open>A command: nothing, a batch cut short by a quit or an exception, or one traced effect.\<close>

fun interpret_cmd ::
    "('md, 'm, 'h, 'o, 'k, 'e, 'ev, 'sk, 'hs) env \<Rightarrow> ('h, 'o, 'm) cmd \<Rightarrow>
     ('md, 'm, 'k, 'e, 'sk, 'hs) kernel \<Rightarrow>
     fault + (exc option \<times> ('md, 'm, 'k, 'e, 'sk, 'hs) kernel)" and interpret_all ::
    "('md, 'm, 'h, 'o, 'k, 'e, 'ev, 'sk, 'hs) env \<Rightarrow> ('h, 'o, 'm) cmd list \<Rightarrow>
     ('md, 'm, 'k, 'e, 'sk, 'hs) kernel \<Rightarrow> fault + (exc option \<times> ('md, 'm, 'k, 'e, 'sk, 'hs) kernel)" where
  "interpret_cmd e CNone s = Inr (None, s)"
| "interpret_cmd e (Batch cs) s = interpret_all e cs s"
| "interpret_cmd e c s = run_effect e c (emit_trace e (TEffect (effect_name e c)) s)"
| "interpret_all e [] s = Inr (None, s)"
| "interpret_all e (c # cs) s =
     (if k_exit s \<noteq> None then Inr (None, s)
      else andthen (interpret_cmd e c s) (\<lambda>(x, s1).
             case x of Some _ \<Rightarrow> Inr (x, s1) | None \<Rightarrow> interpret_all e cs s1))"

section \<open>Sources\<close>

definition bad_variant_access :: exc where
  "bad_variant_access = StdException ''bad_variant_access''"

definition start_stream ::
    "'k source_key \<Rightarrow> string \<Rightarrow> (unit, 'm) act \<Rightarrow> ('md, 'm, 'k, 'e, 'sk, 'hs) kernel \<Rightarrow>
     fault + ('md, 'm, 'k, 'e, 'sk, 'hs) kernel" where
  "start_stream k name body s =
     andthen (open_live s) (\<lambda>(i, s1).
       Inr (s1\<lparr>k_streams := AList.update k i (k_streams s1), k_jobs := k_jobs s1 @ [StreamJob name i body]\<rparr>))"

definition stop_stream ::
    "'k source_key \<Rightarrow> ('md, 'm, 'k, 'e, 'sk, 'hs) kernel \<Rightarrow> ('md, 'm, 'k, 'e, 'sk, 'hs) kernel" where
  "stop_stream k s =
     (case map_of (k_streams s) k of
        None \<Rightarrow> s
      | Some i \<Rightarrow>
          let s1 = retire_live i s
          in s1\<lparr>k_stopped := k_stopped s1 @ [i], k_streams := AList.delete k (k_streams s1)\<rparr>)"

definition start_every ::
    "('md, 'm, 'h, 'o, 'k, 'e, 'ev, 'sk, 'hs) env \<Rightarrow> 'k source_key \<Rightarrow> int \<Rightarrow> 'm \<Rightarrow>
     ('md, 'm, 'k, 'e, 'sk, 'hs) kernel \<Rightarrow> fault + ('md, 'm, 'k, 'e, 'sk, 'hs) kernel" where
  "start_every e k interval m s =
     andthen (open_live s) (\<lambda>(i, s1).
       let (now, s2) = step_now e s1; (t, h) = every (e_ms e) now interval (i, m) (k_timers s2)
       in Inr (s2\<lparr>k_timers := h, k_timer_of := AList.update k \<lparr>rt_id = t, rt_origin = i\<rparr> (k_timer_of s2)\<rparr>))"

definition stop_every ::
    "'k source_key \<Rightarrow> ('md, 'm, 'k, 'e, 'sk, 'hs) kernel \<Rightarrow> ('md, 'm, 'k, 'e, 'sk, 'hs) kernel" where
  "stop_every k s =
     (case map_of (k_timer_of s) k of
        None \<Rightarrow> s
      | Some r \<Rightarrow>
          let s1 = retire_live (rt_origin r) (s\<lparr>k_timers := snd (cancel (rt_id r) (k_timers s))\<rparr>)
          in s1\<lparr>k_timer_of := AList.delete k (k_timer_of s1)\<rparr>)"

definition start_source ::
    "('md, 'm, 'h, 'o, 'k, 'e, 'ev, 'sk, 'hs) env \<Rightarrow> 'k source_key \<times> ('k, 'e, 'm) sub \<Rightarrow>
     ('md, 'm, 'k, 'e, 'sk, 'hs) kernel \<Rightarrow> fault + (exc option \<times> ('md, 'm, 'k, 'e, 'sk, 'hs) kernel)" where
  "start_source e kp s =
     (let (k, p) = kp
      in case k of
           EveryKey _ _ \<Rightarrow>
             (case p of Every interval m \<Rightarrow> andthen (start_every e k interval m s) (\<lambda>s1. Inr (None, s1))
              | _ \<Rightarrow> Inr (Some bad_variant_access, s))
         | StreamKey _ \<Rightarrow>
             (case p of Stream name body \<Rightarrow> andthen (start_stream k name body s) (\<lambda>s1. Inr (None, s1))
              | _ \<Rightarrow> Inr (Some bad_variant_access, s))
         | HostKey hk \<Rightarrow>
             (let (x, hs) = e_start_source e p hk (k_host s) in Inr (x, s\<lparr>k_host := hs\<rparr>)))"

definition keep_source ::
    "'k source_key \<times> ('k, 'e, 'm) sub \<Rightarrow> ('md, 'm, 'k, 'e, 'sk, 'hs) kernel \<Rightarrow>
     fault + (exc option \<times> ('md, 'm, 'k, 'e, 'sk, 'hs) kernel)" where
  "keep_source kp s =
     (let (k, p) = kp
      in case k of
           EveryKey _ _ \<Rightarrow>
             (case map_of (k_timer_of s) k of
                None \<Rightarrow> Inr (None, s)
              | Some r \<Rightarrow>
                  (case p of
                     Every _ m \<Rightarrow> Inr (None, s\<lparr>k_timers := snd (replace_payload (rt_id r) (rt_origin r, m) (k_timers s))\<rparr>)
                   | _ \<Rightarrow> Inr (Some bad_variant_access, s)))
         | _ \<Rightarrow> Inr (None, s))"

definition stop_source ::
    "('md, 'm, 'h, 'o, 'k, 'e, 'ev, 'sk, 'hs) env \<Rightarrow> 'k source_key \<Rightarrow>
     ('md, 'm, 'k, 'e, 'sk, 'hs) kernel \<Rightarrow> fault + (exc option \<times> ('md, 'm, 'k, 'e, 'sk, 'hs) kernel)" where
  "stop_source e k s =
     (case k of
        EveryKey _ _ \<Rightarrow> Inr (None, stop_every k s)
      | StreamKey _ \<Rightarrow> Inr (None, stop_stream k s)
      | HostKey hk \<Rightarrow> (let (x, hs) = e_stop_source e hk (k_host s) in Inr (x, s\<lparr>k_host := hs\<rparr>)))"

text \<open>A loop over sources, left at the first exception.\<close>

fun each ::
    "('a \<Rightarrow> 's \<Rightarrow> fault + (exc option \<times> 's)) \<Rightarrow> 'a list \<Rightarrow> 's \<Rightarrow> fault + (exc option \<times> 's)" where
  "each f [] s = Inr (None, s)"
| "each f (x # xs) s =
     andthen (f x s) (\<lambda>(r, s1). case r of Some _ \<Rightarrow> Inr (r, s1) | None \<Rightarrow> each f xs s1)"

definition apply_plan ::
    "('md, 'm, 'h, 'o, 'k, 'e, 'ev, 'sk, 'hs) env \<Rightarrow> ('k source_key, ('k, 'e, 'm) sub) plan \<Rightarrow>
     ('md, 'm, 'k, 'e, 'sk, 'hs) kernel \<Rightarrow> fault + (exc option \<times> ('md, 'm, 'k, 'e, 'sk, 'hs) kernel)" where
  "apply_plan e p s =
     andthen (each (stop_source e) (pl_stop p) s) (\<lambda>(x, s1).
       case x of Some _ \<Rightarrow> Inr (x, s1)
       | None \<Rightarrow> andthen (each keep_source (pl_keep p) s1) (\<lambda>(x, s2).
           case x of Some _ \<Rightarrow> Inr (x, s2) | None \<Rightarrow> each (start_source e) (pl_start p) s2))"

definition subs_key_covers_subscribe ::
    "('md, 'm, 'h, 'o, 'k, 'e, 'ev, 'sk, 'hs) env \<Rightarrow> ('md, 'm, 'k, 'e, 'sk, 'hs) kernel \<Rightarrow>
     bool \<times> ('md, 'm, 'k, 'e, 'sk, 'hs) kernel" where
  "subs_key_covers_subscribe e s =
     (case e_subscribe e (k_model s) of
        Inl _ \<Rightarrow> (True, s)
      | Inr fresh \<Rightarrow>
          if same_sources fresh (k_sources s) then (True, s)
          else (False, report e \<lparr>f_site = SubscribeSite, f_error = None,
                  f_what = ''subs_key() reported no change, but subscribe() now returns different sources: subs_key leaves out a field subscribe() reads. Add it to subs_key (see HasSubsKey in core/program.hpp).'',
                  f_model_kept = False, f_stopping = False\<rparr> s))"

text \<open>The test of the declared key: whether the change cannot concern the subscriptions.\<close>

definition subs_key_skip ::
    "('md, 'm, 'h, 'o, 'k, 'e, 'ev, 'sk, 'hs) env \<Rightarrow> ('md, 'm, 'k, 'e, 'sk, 'hs) kernel \<Rightarrow>
     bool \<times> ('md, 'm, 'k, 'e, 'sk, 'hs) kernel" where
  "subs_key_skip e s =
     (case e_subs_key e of
        None \<Rightarrow> (False, s)
      | Some f \<Rightarrow>
          if k_distrusted s then (False, s)
          else let key = f (k_model s)
               in if k_subs_key s = Some key then
                    (if e_ndebug e then (True, s)
                     else let (ok, s1) = subs_key_covers_subscribe e s
                          in if ok then (True, s1) else (False, s1\<lparr>k_distrusted := True, k_subs_key := None\<rparr>))
                  else (False, s\<lparr>k_subs_key := Some key\<rparr>))"

definition subscribe_now ::
    "('md, 'm, 'h, 'o, 'k, 'e, 'ev, 'sk, 'hs) env \<Rightarrow> ('md, 'm, 'k, 'e, 'sk, 'hs) kernel \<Rightarrow>
     fault + ('md, 'm, 'k, 'e, 'sk, 'hs) kernel" where
  "subscribe_now e s =
     (case e_subscribe e (k_model s) of
        Inl x \<Rightarrow>
          Inr (fault_raised e SubscribeSite x True (if e_subs_key e = None then s else s\<lparr>k_subs_key := None\<rparr>))
      | Inr wide \<Rightarrow>
          andthen (reconcile (e_hash e) wide (k_sources s)) (\<lambda>(p, src).
            andthen (apply_plan e p (s\<lparr>k_sources := src\<rparr>)) (\<lambda>(x, s1).
              let s2 = (case x of Some ex \<Rightarrow> fault_raised e EffectSite ex True s1 | None \<Rightarrow> s1);
                  s3 = s2\<lparr>k_duplicates := k_duplicates s2 + length (pl_duplicates p)\<rparr>
              in Inr (emit_trace e (TSubscribe (length (pl_start p)) (length (pl_stop p)) (length (pl_keep p))) s3))))"

definition kernel_reconcile ::
    "('md, 'm, 'h, 'o, 'k, 'e, 'ev, 'sk, 'hs) env \<Rightarrow> ('md, 'm, 'k, 'e, 'sk, 'hs) kernel \<Rightarrow>
     fault + ('md, 'm, 'k, 'e, 'sk, 'hs) kernel" where
  "kernel_reconcile e s =
     (if \<not> k_subs_dirty s then Inr s
      else let (skip, s1) = subs_key_skip e (s\<lparr>k_subs_dirty := False\<rparr>)
           in if skip then Inr s1 else subscribe_now e s1)"

section \<open>The fold\<close>

definition fold_one ::
    "('md, 'm, 'h, 'o, 'k, 'e, 'ev, 'sk, 'hs) env \<Rightarrow> 'm \<Rightarrow> ('md, 'm, 'k, 'e, 'sk, 'hs) kernel \<Rightarrow>
     fault + (bool \<times> ('md, 'm, 'k, 'e, 'sk, 'hs) kernel)" where
  "fold_one e m s =
     (let s1 = s\<lparr>k_recorded := k_recorded s @ [m]\<rparr>;
          (now, s2) = program_now e s1;
          s3 = (case now of None \<Rightarrow> s2 | Some t \<Rightarrow> s2\<lparr>k_recorded_timed := k_recorded_timed s2 @ [(m, t)]\<rparr>)
      in case e_update e (k_model s3) m now of
           (md, Inl x) \<Rightarrow>
             let kept = (policy e = Skip)
             in Inr (False, fault_raised e UpdateSite x kept (if kept then s3 else s3\<lparr>k_model := md\<rparr>))
         | (md, Inr c) \<Rightarrow>
             let s4 = emit_trace e (TFold (e_msg_index e m)) (s3\<lparr>k_model := md\<rparr>);
                 s5 = s4\<lparr>k_subs_dirty := True, k_folds := k_folds s4 + 1\<rparr>
             in andthen (interpret_cmd e c s5) (\<lambda>(x, s6).
                  Inr (True, case x of None \<Rightarrow> s6 | Some ex \<Rightarrow> fault_raised e EffectSite ex True s6)))"

text \<open>Whether a queued message still reaches the program: one of a subscription is looked at only after
  the subscriptions match the model, and dropped when its origin is gone.\<close>

definition admit ::
    "('md, 'm, 'h, 'o, 'k, 'e, 'ev, 'sk, 'hs) env \<Rightarrow> origin_id \<Rightarrow> ('md, 'm, 'k, 'e, 'sk, 'hs) kernel \<Rightarrow>
     fault + (bool \<times> ('md, 'm, 'k, 'e, 'sk, 'hs) kernel)" where
  "admit e from_id s =
     (if from_id = 0 then Inr (True, s)
      else andthen (if k_subs_dirty s then kernel_reconcile e s else Inr s) (\<lambda>s1.
             if from_id \<in> k_live s1 then Inr (True, s1)
             else Inr (False, s1\<lparr>k_inbox := count_retired (k_inbox s1)\<rparr>)))"

text \<open>One batch: what is left of it when the budget ends or the kernel quits, the number of folds so
  far, whether the model changed.\<close>

fun fold_batch ::
    "('md, 'm, 'h, 'o, 'k, 'e, 'ev, 'sk, 'hs) env \<Rightarrow> (origin_id \<times> 'm) list \<Rightarrow> nat \<Rightarrow>
     bool \<Rightarrow> ('md, 'm, 'k, 'e, 'sk, 'hs) kernel \<Rightarrow>
     fault + ((origin_id \<times> 'm) list \<times> nat \<times> bool \<times> ('md, 'm, 'k, 'e, 'sk, 'hs) kernel)" where
  "fold_batch e [] n ch s = Inr ([], n, ch, s)"
| "fold_batch e (q # qs) n ch s =
     (if e_fold_budget e \<le> n then Inr (q # qs, n, ch, s)
      else andthen (admit e (fst q) s) (\<lambda>(yes, s1).
             if \<not> yes then fold_batch e qs n ch s1
             else andthen (fold_one e (snd q) s1) (\<lambda>(ok, s2).
                    if k_exit s2 \<noteq> None then Inr (qs, n + 1, ch \<or> ok, s2)
                    else fold_batch e qs (n + 1) (ch \<or> ok) s2)))"

section \<open>What the sources and the plan leave alone\<close>

text \<open>The part of the state that only folding, stopping and the host's input touch.\<close>

definition rest_of ::
    "('md, 'm, 'k, 'e, 'sk, 'hs) kernel \<Rightarrow> _" where
  "rest_of s = (k_model s, k_recorded s, k_recorded_timed s, k_folds s, k_rng s, k_changed s, k_down s, k_tf_errors s, k_tf_pending s)"

definition front_of ::
    "('md, 'm, 'k, 'e, 'sk, 'hs) kernel \<Rightarrow> _" where
  "front_of s = (k_pending s, k_exit s)"

lemma emit_trace_frame [simp]:
  "rest_of (emit_trace e ev s) = rest_of s" "front_of (emit_trace e ev s) = front_of s"
  "k_exit (emit_trace e ev s) = k_exit s" "k_pending (emit_trace e ev s) = k_pending s"
  "k_model (emit_trace e ev s) = k_model s" "k_subs_dirty (emit_trace e ev s) = k_subs_dirty s"
  "k_live (emit_trace e ev s) = k_live s" "k_inbox (emit_trace e ev s) = k_inbox s"
  "k_timer_of (emit_trace e ev s) = k_timer_of s" "k_streams (emit_trace e ev s) = k_streams s"
  "k_tasks (emit_trace e ev s) = k_tasks s" "k_sources (emit_trace e ev s) = k_sources s"
  "k_timers (emit_trace e ev s) = k_timers s" "k_stopped (emit_trace e ev s) = k_stopped s"
  "k_jobs (emit_trace e ev s) = k_jobs s" "k_recorded (emit_trace e ev s) = k_recorded s"
  "k_recorded_timed (emit_trace e ev s) = k_recorded_timed s" "k_folds (emit_trace e ev s) = k_folds s"
  "k_down (emit_trace e ev s) = k_down s" "k_host (emit_trace e ev s) = k_host s"
  "k_subs_key (emit_trace e ev s) = k_subs_key s" "k_distrusted (emit_trace e ev s) = k_distrusted s"
  by (simp_all add: emit_trace_def rest_of_def front_of_def)

lemma report_frame [simp]:
  "rest_of (report e f s) = rest_of s" "front_of (report e f s) = front_of s"
  "k_exit (report e f s) = k_exit s" "k_pending (report e f s) = k_pending s"
  "k_model (report e f s) = k_model s" "k_subs_dirty (report e f s) = k_subs_dirty s"
  "k_live (report e f s) = k_live s" "k_inbox (report e f s) = k_inbox s"
  "k_timer_of (report e f s) = k_timer_of s" "k_streams (report e f s) = k_streams s"
  "k_tasks (report e f s) = k_tasks s" "k_sources (report e f s) = k_sources s"
  "k_timers (report e f s) = k_timers s" "k_stopped (report e f s) = k_stopped s"
  "k_jobs (report e f s) = k_jobs s" "k_recorded (report e f s) = k_recorded s"
  "k_recorded_timed (report e f s) = k_recorded_timed s" "k_folds (report e f s) = k_folds s"
  "k_down (report e f s) = k_down s" "k_host (report e f s) = k_host s"
  "k_subs_key (report e f s) = k_subs_key s" "k_distrusted (report e f s) = k_distrusted s"
  by (simp_all add: report_def Let_def rest_of_def front_of_def emit_trace_def)

lemma stop_frame [simp]:
  "rest_of (stop c s) = rest_of s" "k_exit (stop c s) = (case k_exit s of None \<Rightarrow> Some c | Some x \<Rightarrow> Some x)"
  "k_pending (stop c s) = (if k_exit s = None then [] else k_pending s)"
  "k_model (stop c s) = k_model s" "k_subs_dirty (stop c s) = k_subs_dirty s"
  "k_live (stop c s) = k_live s" "k_inbox (stop c s) = k_inbox s"
  "k_timer_of (stop c s) = k_timer_of s" "k_streams (stop c s) = k_streams s"
  "k_tasks (stop c s) = k_tasks s" "k_sources (stop c s) = k_sources s"
  "k_timers (stop c s) = k_timers s" "k_stopped (stop c s) = k_stopped s"
  "k_jobs (stop c s) = k_jobs s" "k_recorded (stop c s) = k_recorded s"
  "k_recorded_timed (stop c s) = k_recorded_timed s" "k_folds (stop c s) = k_folds s"
  "k_down (stop c s) = k_down s" "k_host (stop c s) = k_host s"
  "k_subs_key (stop c s) = k_subs_key s" "k_distrusted (stop c s) = k_distrusted s"
  by (auto simp: stop_def rest_of_def split: option.splits)

lemma fault_raised_frame [simp]:
  "rest_of (fault_raised e site x k s) = rest_of s"
  "k_exit (fault_raised e site x k s) =
     (case k_exit s of None \<Rightarrow> if policy e = Stop \<or> \<not> k then Some fault_exit_code else None | Some c \<Rightarrow> Some c)"
  "k_pending (fault_raised e site x k s) = (if (policy e = Stop \<or> \<not> k) \<and> k_exit s = None then [] else k_pending s)"
  "k_model (fault_raised e site x k s) = k_model s" "k_subs_dirty (fault_raised e site x k s) = k_subs_dirty s"
  "k_live (fault_raised e site x k s) = k_live s" "k_inbox (fault_raised e site x k s) = k_inbox s"
  "k_timer_of (fault_raised e site x k s) = k_timer_of s" "k_streams (fault_raised e site x k s) = k_streams s"
  "k_tasks (fault_raised e site x k s) = k_tasks s" "k_sources (fault_raised e site x k s) = k_sources s"
  "k_timers (fault_raised e site x k s) = k_timers s" "k_stopped (fault_raised e site x k s) = k_stopped s"
  "k_jobs (fault_raised e site x k s) = k_jobs s" "k_recorded (fault_raised e site x k s) = k_recorded s"
  "k_recorded_timed (fault_raised e site x k s) = k_recorded_timed s" "k_folds (fault_raised e site x k s) = k_folds s"
  "k_down (fault_raised e site x k s) = k_down s" "k_host (fault_raised e site x k s) = k_host s"
  "k_subs_key (fault_raised e site x k s) = k_subs_key s" "k_distrusted (fault_raised e site x k s) = k_distrusted s"
proof -
  have r: "rest_of (s\<lparr>k_faults := c\<rparr>) = rest_of s" for c by (simp add: rest_of_def)
  show "rest_of (fault_raised e site x k s) = rest_of s"
    by (simp add: fault_raised_def Let_def r)
qed (auto simp: fault_raised_def Let_def split: option.splits)

text \<open>An operation that keeps both parts.\<close>

definition framed ::
    "('md, 'm, 'k, 'e, 'sk, 'hs) kernel \<Rightarrow> ('md, 'm, 'k, 'e, 'sk, 'hs) kernel \<Rightarrow> bool" where
  "framed s s' \<longleftrightarrow> rest_of s' = rest_of s \<and> front_of s' = front_of s \<and> k_subs_dirty s' = k_subs_dirty s"

lemma framed_refl [simp]: "framed s s"
  by (simp add: framed_def)

lemma framed_trans: "framed s s1 \<Longrightarrow> framed s1 s2 \<Longrightarrow> framed s s2"
  by (simp add: framed_def)

lemmas frame_defs = framed_def rest_of_def front_of_def

lemma step_now_framed: "step_now e s = (t, s') \<Longrightarrow> framed s s'"
  by (auto simp: step_now_def read_clock_def frame_defs split: if_splits)

lemma step_now_keeps:
  assumes "step_now e s = (t, s')"
  shows "k_live s' = k_live s \<and> k_inbox s' = k_inbox s \<and> k_timer_of s' = k_timer_of s \<and> k_streams s' = k_streams s \<and>
    k_tasks s' = k_tasks s \<and> k_sources s' = k_sources s \<and> k_timers s' = k_timers s \<and> k_stopped s' = k_stopped s \<and>
    k_jobs s' = k_jobs s \<and> k_host s' = k_host s"
  using assms by (auto simp: step_now_def read_clock_def split: if_splits)

lemma open_live_framed: "open_live s = Inr (i, s') \<Longrightarrow> framed s s'"
  by (auto simp: open_live_def frame_defs split: option.splits)

lemma retire_live_framed: "framed s (retire_live i s)"
  by (simp add: retire_live_def frame_defs)

lemma stop_keyed_task_framed: "framed s (stop_keyed_task key s)"
  by (auto simp: stop_keyed_task_def retire_live_def Let_def frame_defs split: option.splits)

lemma stop_every_framed: "framed s (stop_every k s)"
  by (auto simp: stop_every_def retire_live_def Let_def frame_defs split: option.splits)

lemma stop_stream_framed: "framed s (stop_stream k s)"
  by (auto simp: stop_stream_def retire_live_def Let_def frame_defs split: option.splits)

lemma start_every_elim:
  assumes "start_every e k d m s = Inr s'"
  obtains i s1 now s2 t h where "open_live s = Inr (i, s1)" "step_now e s1 = (now, s2)"
    "every (e_ms e) now d (i, m) (k_timers s2) = (t, h)"
    "s' = s2\<lparr>k_timers := h, k_timer_of := AList.update k \<lparr>rt_id = t, rt_origin = i\<rparr> (k_timer_of s2)\<rparr>"
proof -
  obtain i s1 where o: "open_live s = Inr (i, s1)" using assms by (auto simp: start_every_def andthen_Inr)
  obtain now s2 where n: "step_now e s1 = (now, s2)" by (cases "step_now e s1")
  obtain t h where h: "every (e_ms e) now d (i, m) (k_timers s2) = (t, h)"
    by (cases "every (e_ms e) now d (i, m) (k_timers s2)")
  show thesis by (rule that [OF o n h]) (use assms o n h in \<open>simp add: start_every_def\<close>)
qed

lemma start_keyed_after_elim:
  assumes "start_keyed_after e d m key s = Inr s'"
  obtains i s1 now s2 t h where "open_live (stop_keyed_task key s) = Inr (i, s1)" "step_now e s1 = (now, s2)"
    "after (e_ms e) now d (i, m) (k_timers s2) = (t, h)"
    "s' = s2\<lparr>k_timers := h, k_tasks := AList.update key \<lparr>kr_origin = i, kr_timer = Some t\<rparr> (k_tasks s2)\<rparr>"
proof -
  obtain i s1 where o: "open_live (stop_keyed_task key s) = Inr (i, s1)"
    using assms by (auto simp: start_keyed_after_def andthen_Inr)
  obtain now s2 where n: "step_now e s1 = (now, s2)" by (cases "step_now e s1")
  obtain t h where h: "after (e_ms e) now d (i, m) (k_timers s2) = (t, h)"
    by (cases "after (e_ms e) now d (i, m) (k_timers s2)")
  show thesis by (rule that [OF o n h]) (use assms o n h in \<open>simp add: start_keyed_after_def\<close>)
qed

lemma start_every_framed:
  assumes "start_every e k d m s = Inr s'"
  shows "framed s s'"
  using assms
proof (rule start_every_elim)
  fix i s1 now s2 t h
  assume "open_live s = Inr (i, s1)" "step_now e s1 = (now, s2)"
    "s' = s2\<lparr>k_timers := h, k_timer_of := AList.update k \<lparr>rt_id = t, rt_origin = i\<rparr> (k_timer_of s2)\<rparr>"
  then show ?thesis using framed_trans [OF open_live_framed step_now_framed] by (fastforce simp: frame_defs)
qed

lemma start_stream_framed: "start_stream k n b s = Inr s' \<Longrightarrow> framed s s'"
  by (auto simp: start_stream_def andthen_Inr frame_defs dest!: open_live_framed)

lemma start_keyed_task_framed:
  assumes "start_keyed_task b w key s = Inr s'"
  shows "framed s s'"
proof -
  obtain i s1 where "open_live (stop_keyed_task key s) = Inr (i, s1)" and s': "framed s1 s'"
    using assms by (auto simp: start_keyed_task_def andthen_Inr frame_defs)
  then show ?thesis using framed_trans [OF framed_trans [OF stop_keyed_task_framed open_live_framed]] by blast
qed

lemma start_keyed_after_framed:
  assumes "start_keyed_after e d m key s = Inr s'"
  shows "framed s s'"
  using assms
proof (rule start_keyed_after_elim)
  fix i s1 now s2 t h
  assume 1: "open_live (stop_keyed_task key s) = Inr (i, s1)" "step_now e s1 = (now, s2)"
    and "s' = s2\<lparr>k_timers := h, k_tasks := AList.update key \<lparr>kr_origin = i, kr_timer = Some t\<rparr> (k_tasks s2)\<rparr>"
  then have "framed s2 s'" by (simp add: frame_defs)
  then show ?thesis
    using framed_trans [OF framed_trans [OF framed_trans [OF stop_keyed_task_framed open_live_framed] step_now_framed]] 1 by blast
qed

lemma start_source_framed: "start_source e kp s = Inr (x, s') \<Longrightarrow> framed s s'"
  by (cases kp) (auto simp: start_source_def andthen_Inr frame_defs split: source_key.splits sub.splits prod.splits
    dest!: start_every_framed start_stream_framed)

lemma keep_source_framed: "keep_source kp s = Inr (x, s') \<Longrightarrow> framed s s'"
  by (cases kp) (auto simp: keep_source_def frame_defs split: source_key.splits sub.splits option.splits)

lemma stop_source_framed:
  assumes "stop_source e k s = Inr (x, s')"
  shows "framed s s'"
  using assms stop_every_framed [of s k] stop_stream_framed [of s k]
  by (auto simp: stop_source_def frame_defs split: source_key.splits prod.splits)

lemma each_ind:
  assumes "each f as s = Inr (r, s')" "P s" and step: "\<And>a x s s'. f a s = Inr (x, s') \<Longrightarrow> P s \<Longrightarrow> P s'"
  shows "P s'"
  using assms(1,2)
proof (induction as arbitrary: s)
  case (Cons a as)
  then obtain x s1 where 1: "f a s = Inr (x, s1)" "(case x of Some _ \<Rightarrow> Inr (x, s1) | None \<Rightarrow> each f as s1) = Inr (r, s')"
    by (auto simp: andthen_Inr)
  then show ?case using step [OF 1(1)] Cons by (cases x) auto
qed simp

lemma each_framed:
  assumes "each f as s = Inr (r, s')" "\<And>a x s s'. f a s = Inr (x, s') \<Longrightarrow> framed s s'"
  shows "framed s s'"
  by (rule each_ind [OF assms(1), of "framed s"]) (use assms(2) framed_trans framed_refl in blast)+

lemma apply_plan_cases:
  assumes "apply_plan e p s = Inr (x, s')"
  obtains s1 where "each (stop_source e) (pl_stop p) s = Inr (x, s1)" "s' = s1" "x \<noteq> None"
  | s1 s2 where "each (stop_source e) (pl_stop p) s = Inr (None, s1)" "each keep_source (pl_keep p) s1 = Inr (x, s2)"
      "s' = s2" "x \<noteq> None"
  | s1 s2 where "each (stop_source e) (pl_stop p) s = Inr (None, s1)" "each keep_source (pl_keep p) s1 = Inr (None, s2)"
      "each (start_source e) (pl_start p) s2 = Inr (x, s')"
proof -
  obtain y s1 where 1: "each (stop_source e) (pl_stop p) s = Inr (y, s1)"
    and r: "(case y of Some _ \<Rightarrow> Inr (y, s1)
      | None \<Rightarrow> andthen (each keep_source (pl_keep p) s1) (\<lambda>(x, s2).
          case x of Some _ \<Rightarrow> Inr (x, s2) | None \<Rightarrow> each (start_source e) (pl_start p) s2)) = Inr (x, s')"
    using assms by (auto simp: apply_plan_def andthen_Inr)
  show thesis
  proof (cases y)
    case (Some ex)
    then show thesis using that(1) [of s1] 1 r by fastforce
  next
    case None
    then obtain z s2 where 2: "each keep_source (pl_keep p) s1 = Inr (z, s2)"
      and r2: "(case z of Some _ \<Rightarrow> Inr (z, s2) | None \<Rightarrow> each (start_source e) (pl_start p) s2) = Inr (x, s')"
      using r by (auto simp: andthen_Inr)
    then show thesis using that(2,3) 1 None by (cases z) auto
  qed
qed

text \<open>An invariant of every source operation is one of the whole plan.\<close>

lemma apply_plan_ind:
  assumes "apply_plan e p s = Inr (x, s')" "P s"
    "\<And>k x s s'. stop_source e k s = Inr (x, s') \<Longrightarrow> P s \<Longrightarrow> P s'"
    "\<And>k x s s'. keep_source k s = Inr (x, s') \<Longrightarrow> P s \<Longrightarrow> P s'"
    "\<And>k x s s'. start_source e k s = Inr (x, s') \<Longrightarrow> P s \<Longrightarrow> P s'"
  shows "P s'"
  using assms(1)
proof (cases rule: apply_plan_cases)
  case (1 s1)
  have "P s1" by (rule each_ind [where P = P, OF 1(1) assms(2,3)])
  then show ?thesis using 1(2) by simp
next
  case (2 s1 s2)
  have "P s1" by (rule each_ind [where P = P, OF 2(1) assms(2,3)])
  then have "P s2" by (rule each_ind [where P = P, OF 2(2) _ assms(4)])
  then show ?thesis using 2(3) by simp
next
  case (3 s1 s2)
  have "P s1" by (rule each_ind [where P = P, OF 3(1) assms(2,3)])
  then have "P s2" by (rule each_ind [where P = P, OF 3(2) _ assms(4)])
  then show ?thesis by (rule each_ind [where P = P, OF 3(3) _ assms(5)])
qed

lemma apply_plan_framed: "apply_plan e p s = Inr (x, s') \<Longrightarrow> framed s s'"
  by (rule apply_plan_ind [of e p s x s' "framed s"])
    (auto intro: framed_trans dest: start_source_framed keep_source_framed stop_source_framed)

text \<open>
  What re-subscribing does to the front of the state: nothing, or the kernel stops because of a fault.
\<close>

definition settled ::
    "('md, 'm, 'k, 'e, 'sk, 'hs) kernel \<Rightarrow> ('md, 'm, 'k, 'e, 'sk, 'hs) kernel \<Rightarrow> bool" where
  "settled s s' \<longleftrightarrow> rest_of s' = rest_of s \<and>
     (front_of s' = front_of s \<or> (k_exit s = None \<and> k_pending s' = [] \<and> k_exit s' = Some fault_exit_code))"

lemma framed_settled: "framed s s' \<Longrightarrow> settled s s'"
  by (simp add: settled_def framed_def)

lemma settled_framed: "settled s s1 \<Longrightarrow> framed s1 s2 \<Longrightarrow> settled s s2"
  by (auto simp: settled_def framed_def front_of_def)

lemma framed_settled_trans: "framed s s1 \<Longrightarrow> settled s1 s2 \<Longrightarrow> settled s s2"
  by (auto simp: settled_def framed_def front_of_def)

lemma fault_raised_settled: "settled s (fault_raised e site x True s)"
  by (auto simp: settled_def front_of_def split: option.splits)

lemma subs_key_skip_keeps:
  assumes "subs_key_skip e s = (b, s')"
  shows "framed s s'" "k_sources s' = k_sources s"
  using assms
  by (auto simp: subs_key_skip_def subs_key_covers_subscribe_def Let_def report_def emit_trace_def frame_defs
    split: if_splits option.splits prod.splits sum.splits)

lemma subscribe_now_elim:
  assumes "subscribe_now e s = Inr s'"
  obtains (threw) x where "e_subscribe e (k_model s) = Inl x"
      "s' = fault_raised e SubscribeSite x True (if e_subs_key e = None then s else s\<lparr>k_subs_key := None\<rparr>)"
  | (planned) w p src x s1 s2 where "e_subscribe e (k_model s) = Inr w" "reconcile (e_hash e) w (k_sources s) = Inr (p, src)"
      "apply_plan e p (s\<lparr>k_sources := src\<rparr>) = Inr (x, s1)"
      "s2 = (case x of Some ex \<Rightarrow> fault_raised e EffectSite ex True s1 | None \<Rightarrow> s1)"
      "s' = emit_trace e (TSubscribe (length (pl_start p)) (length (pl_stop p)) (length (pl_keep p)))
          (s2\<lparr>k_duplicates := k_duplicates s2 + length (pl_duplicates p)\<rparr>)"
proof (cases "e_subscribe e (k_model s)")
  case (Inl x)
  then show thesis using assms by (intro threw [OF Inl]) (auto simp: subscribe_now_def)
next
  case (Inr w)
  then obtain p src x s1 where 1: "reconcile (e_hash e) w (k_sources s) = Inr (p, src)"
    "apply_plan e p (s\<lparr>k_sources := src\<rparr>) = Inr (x, s1)"
    and s': "s' = (let s2 = (case x of Some ex \<Rightarrow> fault_raised e EffectSite ex True s1 | None \<Rightarrow> s1)
      in emit_trace e (TSubscribe (length (pl_start p)) (length (pl_stop p)) (length (pl_keep p)))
          (s2\<lparr>k_duplicates := k_duplicates s2 + length (pl_duplicates p)\<rparr>))"
    using assms by (auto simp: subscribe_now_def andthen_Inr Let_def)
  show thesis by (rule planned [OF Inr 1 refl]) (simp add: s' Let_def)
qed

lemma subscribe_now_settled:
  assumes "subscribe_now e s = Inr s'"
  shows "settled s s'"
  using assms
proof (cases rule: subscribe_now_elim)
  case (threw x)
  have "framed s (if e_subs_key e = None then s else s\<lparr>k_subs_key := None\<rparr>)" by (simp add: frame_defs)
  from framed_settled_trans [OF this fault_raised_settled [of _ e SubscribeSite x]] show ?thesis
    using threw by simp
next
  case (planned w p src x s1 s2)
  note s' = planned(5) [unfolded planned(4)]
  let ?s2 = "case x of Some ex \<Rightarrow> fault_raised e EffectSite ex True s1 | None \<Rightarrow> s1"
  have "framed s s1" using apply_plan_framed [OF planned(3)] by (simp add: frame_defs)
  moreover have "settled s1 ?s2" by (auto simp: framed_settled fault_raised_settled split: option.split)
  moreover have "framed ?s2 s'" by (simp add: s' Let_def emit_trace_def frame_defs)
  ultimately show ?thesis using settled_framed framed_settled_trans by blast
qed

lemma kernel_reconcile_settled:
  assumes "kernel_reconcile e s = Inr s'"
  shows "settled s s'"
proof (cases "k_subs_dirty s")
  case True
  obtain b s1 where 1: "subs_key_skip e (s\<lparr>k_subs_dirty := False\<rparr>) = (b, s1)"
    by (cases "subs_key_skip e (s\<lparr>k_subs_dirty := False\<rparr>)")
  have f: "rest_of s1 = rest_of s \<and> front_of s1 = front_of s"
    using subs_key_skip_keeps(1) [OF 1] by (simp add: frame_defs)
  have "settled s1 s'"
    using assms True 1 subscribe_now_settled by (auto simp: kernel_reconcile_def framed_settled split: if_splits)
  then show ?thesis using f by (auto simp: settled_def front_of_def)
qed (use assms in \<open>simp add: kernel_reconcile_def framed_settled\<close>)

lemma admit_settled:
  assumes "admit e i s = Inr (b, s')"
  shows "settled s s'"
proof (cases "i = 0")
  case False
  then obtain s1 where 1: "(if k_subs_dirty s then kernel_reconcile e s else Inr s) = Inr s1" and
    2: "s' = s1 \<or> s' = s1\<lparr>k_inbox := count_retired (k_inbox s1)\<rparr>"
    using assms unfolding admit_def by (auto simp: andthen_Inr split: if_splits)
  have "settled s s1" using 1 kernel_reconcile_settled by (fastforce simp: framed_settled split: if_splits)
  moreover have "framed s1 s'" using 2 by (auto simp: frame_defs)
  ultimately show ?thesis by (rule settled_framed)
qed (use assms in \<open>simp add: admit_def framed_settled\<close>)

section \<open>The fold loop\<close>

lemma fold_batch_progress:
  assumes "fold_batch e qs n ch s = Inr (rest, n', ch', s')"
  shows "n \<le> n' \<and> (n' = n \<longrightarrow> (rest = [] \<or> e_fold_budget e \<le> n) \<and> length (k_pending s') \<le> length (k_pending s)) \<and>
    (rest \<noteq> [] \<longrightarrow> e_fold_budget e \<le> n' \<or> k_exit s' \<noteq> None)"
  using assms
proof (induction qs arbitrary: n ch s)
  case (Cons q qs)
  show ?case
  proof (cases "e_fold_budget e \<le> n")
    case False
    then obtain yes s1 where a: "admit e (fst q) s = Inr (yes, s1)"
      and r: "(if \<not> yes then fold_batch e qs n ch s1
             else andthen (fold_one e (snd q) s1) (\<lambda>(ok, s2).
                    if k_exit s2 \<noteq> None then Inr (qs, n + 1, ch \<or> ok, s2)
                    else fold_batch e qs (n + 1) (ch \<or> ok) s2)) = Inr (rest, n', ch', s')"
      using Cons.prems by (auto simp: andthen_Inr)
    have le: "length (k_pending s1) \<le> length (k_pending s)"
      using admit_settled [OF a] by (auto simp: settled_def front_of_def)
    show ?thesis
    proof (cases yes)
      case True
      then show ?thesis using r Cons.IH by (fastforce simp: andthen_Inr split: if_splits)
    next
      case no: False
      then show ?thesis using Cons.IH [of n ch s1] r le by auto
    qed
  qed (use Cons.prems in auto)
qed simp

function fold_loop ::
    "('md, 'm, 'h, 'o, 'k, 'e, 'ev, 'sk, 'hs) env \<Rightarrow> nat \<Rightarrow> bool \<Rightarrow> ('md, 'm, 'k, 'e, 'sk, 'hs) kernel \<Rightarrow>
     fault + (bool \<times> ('md, 'm, 'k, 'e, 'sk, 'hs) kernel)" where
  "fold_loop e n ch s =
     (if k_pending s = [] \<or> k_exit s \<noteq> None \<or> e_fold_budget e \<le> n then Inr (ch, s)
      else andthen (fold_batch e (k_pending s) n ch (s\<lparr>k_pending := []\<rparr>)) (\<lambda>(rest, n', ch', s').
             if k_exit s' \<noteq> None then Inr (ch', s'\<lparr>k_pending := []\<rparr>)
             else fold_loop e n' ch' (s'\<lparr>k_pending := rest @ k_pending s'\<rparr>)))"
  by pat_completeness auto
termination
proof (relation "measures [\<lambda>(e, n, _, _). e_fold_budget e - n, \<lambda>(_, _, _, s). length (k_pending s)]", goal_cases)
  case (2 e n ch s a rest b n' c ch' s')
  then have f: "fold_batch e (k_pending s) n ch (s\<lparr>k_pending := []\<rparr>) = Inr (rest, n', ch', s')" by simp
  show ?case using fold_batch_progress [OF f] 2 by (cases "n' = n") auto
qed simp

declare fold_loop.simps [simp del]

definition fold_pending ::
    "('md, 'm, 'h, 'o, 'k, 'e, 'ev, 'sk, 'hs) env \<Rightarrow> ('md, 'm, 'k, 'e, 'sk, 'hs) kernel \<Rightarrow>
     fault + (bool \<times> ('md, 'm, 'k, 'e, 'sk, 'hs) kernel)" where
  "fold_pending e s = fold_loop e 0 False s"

section \<open>Starting, input, turns, shutdown\<close>

definition pick_seed :: "u32 \<Rightarrow> u32 \<Rightarrow> u64 \<Rightarrow> u64" where
  "pick_seed d1 d2 ticks =
     (let s = (push_bit 32 (ucast d1) XOR ucast d2) XOR ticks in if s \<noteq> 0 then s else 0x9E3779B97F4A7C15)"

text \<open>The members before the constructor's body runs.\<close>

definition fresh_kernel ::
    "('md, 'm, 'h, 'o, 'k, 'e, 'ev, 'sk, 'hs) env \<Rightarrow> 'md \<Rightarrow> 'hs \<Rightarrow> ('md, 'm, 'k, 'e, 'sk, 'hs) kernel" where
  "fresh_kernel e m hs =
     (let seed = (if e_random_seed e \<noteq> 0 then e_random_seed e else e_picked_seed e)
      in \<lparr>k_reads = 1, k_started_at = e_clock e 0, k_now = 0, k_now_cached = False, k_rng = seed, k_seed_used = seed,
          k_model = m, k_inbox = new_mailbox (e_wake e) (e_capacity e) (e_on_full e), k_tf_errors = [],
          k_tf_pending = False, k_timers = empty_heap, k_sources = no_sources, k_timer_of = [], k_streams = [],
          k_tasks = [], k_pending = [], k_live = {}, k_folds = 0, k_faults = 0, k_abandoned = 0, k_duplicates = 0,
          k_exit = None, k_subs_dirty = True, k_changed = False, k_subs_key = None, k_distrusted = False,
          k_down = False, k_host = hs, k_jobs = [], k_stopped = [], k_reports = [], k_traced = [], k_recorded = [],
          k_recorded_timed = []\<rparr>)"

definition construct ::
    "('md, 'm, 'h, 'o, 'k, 'e, 'ev, 'sk, 'hs) env \<Rightarrow> 'md \<Rightarrow> ('h, 'o, 'm) cmd \<Rightarrow> 'hs \<Rightarrow>
     fault + ('md, 'm, 'k, 'e, 'sk, 'hs) kernel" where
  "construct e m c hs =
     (let s0 = fresh_kernel e m hs;
          s1 = (if \<not> e_copyable e \<and> e_on_fault e = Skip
                then report e \<lparr>f_site = UpdateSite, f_error = None,
                       f_what = ''fault_policy::skip needs a copyable Model; using stop'', f_model_kept = False,
                       f_stopping = False\<rparr> s0
                else s0)
      in andthen (interpret_cmd e c s1) (\<lambda>(x, s2).
           let s3 = (case x of None \<Rightarrow> s2 | Some ex \<Rightarrow> fault_raised e EffectSite ex True s2)
           in andthen (fold_pending e s3) (\<lambda>(_, s4). kernel_reconcile e s4)))"

definition start ::
    "('md, 'm, 'h, 'o, 'k, 'e, 'ev, 'sk, 'hs) env \<Rightarrow> 'hs \<Rightarrow> fault + ('md, 'm, 'k, 'e, 'sk, 'hs) kernel" where
  "start e hs = (let (m, c) = e_init e in construct e m c hs)"

definition start_from ::
    "('md, 'm, 'h, 'o, 'k, 'e, 'ev, 'sk, 'hs) env \<Rightarrow> 'md \<Rightarrow> ('h, 'o, 'm) cmd \<Rightarrow> 'hs \<Rightarrow>
     fault + ('md, 'm, 'k, 'e, 'sk, 'hs) kernel" where
  "start_from e m resume_cmd hs = construct e m resume_cmd hs"

definition route ::
    "('md, 'm, 'h, 'o, 'k, 'e, 'ev, 'sk, 'hs) env \<Rightarrow> 'ev \<Rightarrow> ('md, 'm, 'k, 'e, 'sk, 'hs) kernel \<Rightarrow>
     fault + (nat \<times> ('md, 'm, 'k, 'e, 'sk, 'hs) kernel)" where
  "route e ev s =
     (if k_exit s \<noteq> None then Inr (0, s)
      else
        let s1 = s\<lparr>k_now_cached := False\<rparr>;
            (m, s2) = (case e_on e (k_model s1) ev of
                         Inl x \<Rightarrow> (None, fault_raised e InputSite x True s1)
                       | Inr m \<Rightarrow> (m, s1));
            s3 = (case m of None \<Rightarrow> s2 | Some msg \<Rightarrow> push_pending msg s2)
        in andthen (fold_pending e s3) (\<lambda>(ch, s4).
             andthen (kernel_reconcile e (if ch then s4\<lparr>k_changed := True\<rparr> else s4)) (\<lambda>s5.
               Inr (if m = None then 0 else 1, s5))))"

definition dispatch ::
    "'m \<Rightarrow> ('md, 'm, 'k, 'e, 'sk, 'hs) kernel \<Rightarrow> ('md, 'm, 'k, 'e, 'sk, 'hs) kernel" where
  "dispatch m s = push_pending m s"

text \<open>The idle test; the clock is read only when a timer is armed.\<close>

definition idle ::
    "('md, 'm, 'h, 'o, 'k, 'e, 'ev, 'sk, 'hs) env \<Rightarrow> ('md, 'm, 'k, 'e, 'sk, 'hs) kernel \<Rightarrow>
     bool \<times> ('md, 'm, 'k, 'e, 'sk, 'hs) kernel" where
  "idle e s =
     (if \<not> e_trace e \<and> k_pending s = [] \<and> \<not> maybe_nonempty (k_inbox s) \<and> \<not> k_tf_pending s \<and> \<not> k_subs_dirty s
      then (case next_deadline (k_timers s) of
              None \<Rightarrow> (True, s)
            | Some d \<Rightarrow> (let (t, s1) = read_clock e s in (t < d, s1)))
      else (False, s))"

text \<open>Phases one and two: background messages and task faults, then the timers that are due.\<close>

definition take_inbox ::
    "('md, 'm, 'k, 'e, 'sk, 'hs) kernel \<Rightarrow> ('md, 'm, 'k, 'e, 'sk, 'hs) kernel" where
  "take_inbox s = (let (out, b) = drain_tagged (k_inbox s) in s\<lparr>k_inbox := b, k_pending := k_pending s @ out\<rparr>)"

definition take_timers ::
    "('md, 'm, 'h, 'o, 'k, 'e, 'ev, 'sk, 'hs) env \<Rightarrow> ('md, 'm, 'k, 'e, 'sk, 'hs) kernel \<Rightarrow>
     fault + ('md, 'm, 'k, 'e, 'sk, 'hs) kernel" where
  "take_timers e s =
     (if th_heap (k_timers s) = [] then Inr s
      else let (now, s1) = step_now e s
           in case collect_due now (k_timers s1) [] of
                None \<Rightarrow> Inl Forever
              | Some (h, out) \<Rightarrow> Inr (s1\<lparr>k_timers := h, k_pending := k_pending s1 @ out\<rparr>))"

definition work_step ::
    "('md, 'm, 'h, 'o, 'k, 'e, 'ev, 'sk, 'hs) env \<Rightarrow> ('md, 'm, 'k, 'e, 'sk, 'hs) kernel \<Rightarrow>
     fault + (turn \<times> ('md, 'm, 'k, 'e, 'sk, 'hs) kernel)" where
  "work_step e s =
     (let s1 = drain_task_faults e (take_inbox (s\<lparr>k_now_cached := False\<rparr>))
      in if k_exit s1 \<noteq> None then Inr (\<lparr>t_model_changed = False, t_folded = 0, t_exit = k_exit s1\<rparr>, s1)
         else andthen (take_timers e s1) (\<lambda>s2.
                andthen (fold_pending e s2) (\<lambda>(ch, s3).
                  andthen (kernel_reconcile e s3) (\<lambda>s4.
                    let t = \<lparr>t_model_changed = ch \<or> k_changed s4, t_folded = k_folds s3 - k_folds s2, t_exit = k_exit s4\<rparr>;
                        s5 = (if ch then s4 else s4\<lparr>k_changed := False\<rparr>)
                    in Inr (t, emit_trace e (TStep (t_folded t)) s5)))))"

definition step ::
    "('md, 'm, 'h, 'o, 'k, 'e, 'ev, 'sk, 'hs) env \<Rightarrow> ('md, 'm, 'k, 'e, 'sk, 'hs) kernel \<Rightarrow>
     fault + (turn \<times> ('md, 'm, 'k, 'e, 'sk, 'hs) kernel)" where
  "step e s =
     (if k_exit s \<noteq> None then Inr (\<lparr>t_model_changed = False, t_folded = 0, t_exit = k_exit s\<rparr>, s)
      else let (i, s0) = idle e s
           in if i then Inr (\<lparr>t_model_changed = k_changed s0, t_folded = 0, t_exit = None\<rparr>, s0\<lparr>k_changed := False\<rparr>)
              else work_step e s0)"

definition kernel_next_deadline :: "('md, 'm, 'k, 'e, 'sk, 'hs) kernel \<Rightarrow> time_point option" where
  "kernel_next_deadline s = (if k_pending s \<noteq> [] then Some rep_min else next_deadline (k_timers s))"

definition has_ready_work :: "('md, 'm, 'k, 'e, 'sk, 'hs) kernel \<Rightarrow> bool" where
  "has_ready_work s \<longleftrightarrow> k_pending s \<noteq> []"

fun retire_each ::
    "origin_id list \<Rightarrow> ('md, 'm, 'k, 'e, 'sk, 'hs) kernel \<Rightarrow> ('md, 'm, 'k, 'e, 'sk, 'hs) kernel" where
  "retire_each [] s = s"
| "retire_each (i # is) s = retire_each is (s\<lparr>k_inbox := retire i (k_inbox s), k_stopped := k_stopped s @ [i]\<rparr>)"

definition shutdown ::
    "('md, 'm, 'h, 'o, 'k, 'e, 'ev, 'sk, 'hs) env \<Rightarrow> ('md, 'm, 'k, 'e, 'sk, 'hs) kernel \<Rightarrow>
     ('md, 'm, 'k, 'e, 'sk, 'hs) kernel" where
  "shutdown e s =
     (if k_down s then s
      else
        let s1 = s\<lparr>k_down := True, k_timers := clear (k_timers s), k_timer_of := []\<rparr>;
            s2 = (retire_each (map snd (k_streams s1)) s1)\<lparr>k_streams := []\<rparr>;
            s3 = (retire_each (map (kr_origin \<circ> snd) (k_tasks s2)) s2)\<lparr>k_tasks := []\<rparr>;
            s4 = s3\<lparr>k_live := {}, k_inbox := mb_close (k_inbox s3), k_abandoned := e_abandoned e\<rparr>
        in if k_abandoned s4 \<noteq> 0
           then report e \<lparr>f_site = TaskSite, f_error = None,
                  f_what = dec (k_abandoned s4) @ '' worker(s) still running after the shutdown grace; abandoned'',
                  f_model_kept = True, f_stopping = True\<rparr> s4
           else s4)"

definition finish ::
    "('md, 'm, 'h, 'o, 'k, 'e, 'ev, 'sk, 'hs) env \<Rightarrow> ('md, 'm, 'k, 'e, 'sk, 'hs) kernel \<Rightarrow>
     int \<times> ('md, 'm, 'k, 'e, 'sk, 'hs) kernel" where
  "finish e s = (let s1 = shutdown e s in (value_or (k_exit s1) 0, s1))"

end
