(* ===== verification/Kernel_Steps.thy ===== *)
theory Kernel_Steps
  imports Kernel
begin

text \<open>
  The kernel as a transition system: its operations interleaved with what other threads do to its
  mailbox. \<open>step_invariant\<close> states what a predicate must satisfy of folding one message, re-subscribing
  and the mailbox, and proves once that every operation, and so every reachable state, then keeps it.
\<close>

section \<open>The kernel and its environment as a transition system\<close>

inductive kstep ::
    "('md, 'm, 'h, 'o, 'k, 'e, 'ev, 'sk, 'hs) env \<Rightarrow> ('md, 'm, 'k, 'e, 'sk, 'hs) kernel \<Rightarrow>
     ('md, 'm, 'k, 'e, 'sk, 'hs) kernel \<Rightarrow> bool" for e where
  ks_step: "step e s = Inr (t, s') \<Longrightarrow> kstep e s s'"
| ks_route: "route e ev s = Inr (n, s') \<Longrightarrow> kstep e s s'"
| ks_dispatch: "kstep e s (dispatch m s)"
| ks_stop: "kstep e s (stop code s)"
| ks_view: "kstep e s (view_faulted e x s)"
| ks_error: "kstep e s (on_error x s)"
| ks_post: "post_from w i m (k_inbox s) = (r, b) \<Longrightarrow> kstep e s (s\<lparr>k_inbox := b\<rparr>)"
| ks_resume: "may_resume (k_inbox s) \<Longrightarrow> post_resume i m (k_inbox s) = (r, b) \<Longrightarrow> kstep e s (s\<lparr>k_inbox := b\<rparr>)"
| ks_wake: "kstep e s (s\<lparr>k_inbox := wake_done (k_inbox s)\<rparr>)"
| ks_shutdown: "kstep e s (shutdown e s)"

inductive kreach ::
    "('md, 'm, 'h, 'o, 'k, 'e, 'ev, 'sk, 'hs) env \<Rightarrow> ('md, 'm, 'k, 'e, 'sk, 'hs) kernel \<Rightarrow> bool" for e where
  kr_start: "start e hs = Inr s \<Longrightarrow> kreach e s"
| kr_from: "start_from e m c hs = Inr s \<Longrightarrow> kreach e s"
| kr_step: "kreach e s \<Longrightarrow> kstep e s s' \<Longrightarrow> kreach e s'"

text \<open>The operations other than a step or an input are one update each; proofs over \<open>kstep\<close> unfold them.\<close>

declare dispatch_def [jaal_defs] push_pending_def [jaal_defs] view_faulted_def [jaal_defs] on_error_def [jaal_defs]

section \<open>Bookkeeping that carries no meaning\<close>

text \<open>
  What the model, the subscriptions and the records are made of. An operation that changes none of it,
  and no exit code that was set, is a mere touch: logging, queueing, timers, the clock.
\<close>

definition kept :: "('md, 'm, 'k, 'e, 'sk, 'hs) kernel \<Rightarrow> _" where
  "kept s = (k_model s, k_subs_dirty s, k_sources s, k_timer_of s, k_streams s, k_tasks s, k_live s, k_inbox s, k_down s,
     k_recorded s, k_recorded_timed s, k_subs_key s, k_distrusted s)"

definition touched ::
    "('md, 'm, 'k, 'e, 'sk, 'hs) kernel \<Rightarrow> ('md, 'm, 'k, 'e, 'sk, 'hs) kernel \<Rightarrow> bool" where
  "touched s s' \<longleftrightarrow> kept s' = kept s \<and> (k_exit s \<noteq> None \<longrightarrow> k_exit s' = k_exit s)"

lemma touched_trans: "touched s s1 \<Longrightarrow> touched s1 s2 \<Longrightarrow> touched s s2"
  by (simp add: touched_def)

lemma touched_upd [simp]:
  "touched s s" "touched s (s\<lparr>k_now_cached := a\<rparr>)" "touched s (s\<lparr>k_pending := b\<rparr>)" "touched s (s\<lparr>k_changed := c\<rparr>)"
  "touched s (s\<lparr>k_timers := d\<rparr>)" "touched s (s\<lparr>k_timers := d, k_pending := b\<rparr>)" "touched s (s\<lparr>k_reads := f\<rparr>)"
  "touched s (s\<lparr>k_tf_errors := g, k_tf_pending := h\<rparr>)"
  by (simp_all add: touched_def kept_def)

lemma touched_trace [simp]: "touched s (emit_trace e ev s)"
  by (simp add: touched_def kept_def)

lemma touched_report [simp]: "touched s (report e f s)"
  by (simp add: touched_def kept_def)

lemma touched_fault [simp]: "touched s (fault_raised e site x k s)"
  by (auto simp: touched_def kept_def split: option.splits)

lemma touched_stop [simp]: "touched s (stop c s)"
  by (auto simp: touched_def kept_def)

lemma touched_push [simp]: "touched s (push_pending m s)"
  by (simp add: push_pending_def)

lemma touched_now: "step_now e s = (t, s') \<Longrightarrow> touched s s'"
  by (auto simp: step_now_def read_clock_def touched_def kept_def split: if_splits)

lemma touched_raise_all: "touched s (raise_all e xs s)"
proof (induction xs arbitrary: s)
  case (Cons x xs)
  show ?case using touched_trans [OF touched_fault Cons] by simp
qed simp

lemma touched_drain_faults: "touched s (drain_task_faults e s)"
proof -
  have "touched s (s\<lparr>k_tf_pending := False, k_tf_errors := []\<rparr>)" by (simp add: touched_def kept_def)
  from touched_trans [OF this touched_raise_all [of _ e]] show ?thesis by (simp add: drain_task_faults_def)
qed

text \<open>What every effect keeps, a whole command keeps.\<close>

lemma interpret_all_ind:
  assumes "interpret_all e cs s = Inr (x, s')" "P s"
    "\<And>c s x s'. c \<in> set cs \<Longrightarrow> interpret_cmd e c s = Inr (x, s') \<Longrightarrow> P s \<Longrightarrow> P s'"
  shows "P s'"
  using assms
proof (induction cs arbitrary: s)
  case (Cons c cs)
  show ?case
  proof (cases "k_exit s = None")
    case True
    then obtain y s1 where c: "interpret_cmd e c s = Inr (y, s1)"
      and r: "(case y of Some _ \<Rightarrow> Inr (y, s1) | None \<Rightarrow> interpret_all e cs s1) = Inr (x, s')"
      using Cons.prems(1) by (auto simp: andthen_Inr)
    have 1: "P s1" by (rule Cons.prems(3) [OF _ c Cons.prems(2)]) simp
    show ?thesis
    proof (cases y)
      case None
      then show ?thesis using r by (intro Cons.IH [OF _ 1]) (auto intro: Cons.prems(3))
    qed (use r 1 in simp)
  qed (use Cons.prems in auto)
qed simp

lemma interpret_ind:
  assumes "interpret_cmd e c s = Inr (x, s')" "P s"
    and run: "\<And>c s x s'. run_effect e c s = Inr (x, s') \<Longrightarrow> P s \<Longrightarrow> P s'"
    and tr: "\<And>ev s. P s \<Longrightarrow> P (emit_trace e ev s)"
  shows "P s'"
  using assms(1,2)
proof (induction c arbitrary: s x s')
  case (Batch cs)
  then show ?case using interpret_all_ind [of e cs s x s' P] by simp
qed (auto intro: run tr simp del: run_effect.simps)

lemma retire_each_frame [simp]:
  "k_inbox (retire_each is s) = fold retire is (k_inbox s)" "k_live (retire_each is s) = k_live s"
  "k_timer_of (retire_each is s) = k_timer_of s" "k_streams (retire_each is s) = k_streams s"
  "k_tasks (retire_each is s) = k_tasks s" "k_stopped (retire_each is s) = k_stopped s @ is"
  "k_timers (retire_each is s) = k_timers s" "k_down (retire_each is s) = k_down s"
  "k_exit (retire_each is s) = k_exit s" "k_model (retire_each is s) = k_model s"
  by (induction "is" arbitrary: s) simp_all

lemma close_fold_retire [simp]: "mb_close (fold retire is b) = mb_close b"
  by (induction "is" arbitrary: b) (simp_all add: mb_close_def retire_def)

section \<open>The interface of an invariant\<close>

locale step_invariant =
  fixes e :: "('md, 'm, 'h, 'o, 'k, 'e, 'ev, 'sk, 'hs) env"
    and P :: "('md, 'm, 'k, 'e, 'sk, 'hs) kernel \<Rightarrow> bool"
  assumes touch: "P s \<Longrightarrow> touched s s' \<Longrightarrow> P s'"
    and reconciled: "kernel_reconcile e s = Inr s' \<Longrightarrow> P s \<Longrightarrow> P s'"
    and folded: "fold_one e msg s = Inr (ok, s') \<Longrightarrow> P s \<Longrightarrow> P s'"
    and interpreted: "interpret_cmd e c s = Inr (x, s') \<Longrightarrow> P s \<Longrightarrow> P s'"
    and counted: "P s \<Longrightarrow> P (s\<lparr>k_inbox := count_retired (k_inbox s)\<rparr>)"
    and drained: "P s \<Longrightarrow> drain_tagged (k_inbox s) = (out, b) \<Longrightarrow> P (s\<lparr>k_inbox := b\<rparr>)"
    and posted: "P s \<Longrightarrow> post_from w i m (k_inbox s) = (r, b) \<Longrightarrow> P (s\<lparr>k_inbox := b\<rparr>)"
    and resumed: "P s \<Longrightarrow> may_resume (k_inbox s) \<Longrightarrow> post_resume i m (k_inbox s) = (r, b) \<Longrightarrow> P (s\<lparr>k_inbox := b\<rparr>)"
    and woken: "P s \<Longrightarrow> P (s\<lparr>k_inbox := wake_done (k_inbox s)\<rparr>)"
    and wake_sent: "P s \<Longrightarrow> P (s\<lparr>k_inbox := snd (wake_if_open (k_inbox s))\<rparr>)"
    and downed: "P s \<Longrightarrow> P (shutdown e s)"
begin

lemma admit_keeps:
  assumes "admit e i s = Inr (b, s')" "P s"
  shows "P s'"
proof (cases "i = 0")
  case False
  then obtain s1 where 1: "(if k_subs_dirty s then kernel_reconcile e s else Inr s) = Inr s1" and
    2: "s' = s1 \<or> s' = s1\<lparr>k_inbox := count_retired (k_inbox s1)\<rparr>"
    using assms(1) unfolding admit_def by (auto simp: andthen_Inr split: if_splits)
  have "P s1" using 1 assms(2) reconciled [of s] by (auto split: if_splits)
  then show ?thesis using 2 counted by auto
qed (use assms in \<open>simp add: admit_def\<close>)

lemma fold_batch_keeps: "fold_batch e qs n ch s = Inr (rest, n', ch', s') \<Longrightarrow> P s \<Longrightarrow> P s'"
proof (induction qs arbitrary: n ch s)
  case (Cons q qs)
  show ?case
  proof (cases "e_fold_budget e \<le> n")
    case False
    then obtain yes s1 where a: "admit e (fst q) s = Inr (yes, s1)"
      and r: "(if \<not> yes then fold_batch e qs n ch s1
             else andthen (fold_one e (snd q) s1) (\<lambda>(ok, s2).
                    if k_exit s2 \<noteq> None then Inr (qs, n + 1, ch \<or> ok, s2)
                    else fold_batch e qs (n + 1) (ch \<or> ok) s2)) = Inr (rest, n', ch', s')"
      using Cons.prems(1) by (auto simp: andthen_Inr)
    have 1: "P s1" by (rule admit_keeps [OF a Cons.prems(2)])
    show ?thesis
    proof (cases yes)
      case True
      then show ?thesis using r folded [OF _ 1] Cons.IH by (fastforce simp: andthen_Inr split: if_splits)
    qed (use r Cons.IH [OF _ 1] in auto)
  qed (use Cons.prems in auto)
qed simp

lemma fold_loop_keeps: "fold_loop e' n ch s = Inr (c, s') \<Longrightarrow> e' = e \<Longrightarrow> P s \<Longrightarrow> P s'"
proof (induction e' n ch s rule: fold_loop.induct)
  case (1 e' n ch s)
  note [simp] = 1(3)
  show ?case
  proof (cases "k_pending s = [] \<or> k_exit s \<noteq> None \<or> e_fold_budget e \<le> n")
    case False
    then obtain rest n' ch' s1 where b: "fold_batch e (k_pending s) n ch (s\<lparr>k_pending := []\<rparr>) = Inr (rest, n', ch', s1)"
      and r: "(if k_exit s1 \<noteq> None then Inr (ch', s1\<lparr>k_pending := []\<rparr>)
             else fold_loop e' n' ch' (s1\<lparr>k_pending := rest @ k_pending s1\<rparr>)) = Inr (c, s')"
      using 1(2) by (subst (asm) fold_loop.simps [of e' n ch s]) (auto simp: andthen_Inr)
    have p: "P s1" using fold_batch_keeps [OF b] touch [OF 1(4)] by simp
    show ?thesis
    proof (cases "k_exit s1 = None")
      case True
      have "P (s1\<lparr>k_pending := rest @ k_pending s1\<rparr>)" by (rule touch [OF p]) simp
      then show ?thesis using 1(1) [of "(rest, n', ch', s1)" rest "(n', ch', s1)" n' "(ch', s1)" ch' s1] False b True r by simp
    qed (use r touch [OF p] in auto)
  qed (use 1 fold_loop.simps [of e n ch s] in auto)
qed

lemma fold_pending_keeps: "fold_pending e s = Inr (c, s') \<Longrightarrow> P s \<Longrightarrow> P s'"
  unfolding fold_pending_def using fold_loop_keeps by blast

lemma take_inbox_keeps: "P s \<Longrightarrow> P (take_inbox s)"
  by (auto simp: take_inbox_def split: prod.split) (rule touch [OF drained], auto simp: touched_def kept_def)

lemma take_timers_keeps:
  assumes "take_timers e s = Inr s'" "P s"
  shows "P s'"
proof (cases "th_heap (k_timers s) = []")
  case False
  obtain now s1 where 1: "step_now e s = (now, s1)" by (cases "step_now e s")
  have "touched s1 s'" using assms(1) False 1 by (auto simp: take_timers_def split: option.splits)
  then show ?thesis using touch [OF assms(2)] touched_trans [OF touched_now [OF 1]] by blast
qed (use assms in \<open>simp add: take_timers_def\<close>)

lemma work_step_keeps:
  assumes "work_step e s = Inr (t, s')" "P s"
  shows "P s'"
proof -
  let ?s1 = "drain_task_faults e (take_inbox (s\<lparr>k_now_cached := False\<rparr>))"
  have "P (take_inbox (s\<lparr>k_now_cached := False\<rparr>))" by (rule take_inbox_keeps) (rule touch [OF assms(2)], simp)
  then have p: "P ?s1" by (rule touch) (rule touched_drain_faults)
  show ?thesis
  proof (cases "k_exit ?s1 = None")
    case True
    then obtain s2 ch s3 s4 where "take_timers e ?s1 = Inr s2" "fold_pending e s2 = Inr (ch, s3)" "kernel_reconcile e s3 = Inr s4"
      and o: "s' = emit_trace e (TStep (k_folds s3 - k_folds s2)) (if ch then s4 else s4\<lparr>k_changed := False\<rparr>)"
      using assms(1) by (auto simp: work_step_def Let_def andthen_Inr)
    then have "P s4" using p by (blast intro: take_timers_keeps fold_pending_keeps reconciled)
    moreover have "touched s4 (if ch then s4 else s4\<lparr>k_changed := False\<rparr>)" by simp
    from touched_trans [OF this touched_trace [of _ e]] have "touched s4 s'" unfolding o .
    ultimately show ?thesis by (rule touch)
  qed (use assms(1) p in \<open>auto simp: work_step_def Let_def\<close>)
qed

lemma step_keeps:
  assumes "step e s = Inr (t, s')" "P s"
  shows "P s'"
proof -
  obtain i s0 where 0: "idle e s = (i, s0)" by (cases "idle e s")
  have "touched s s0" using 0 by (auto simp: idle_def read_clock_def split: if_splits option.splits)
  then have "P s0" by (rule touch [OF assms(2)])
  then show ?thesis using assms 0 work_step_keeps [of s0] touch [of s0]
    by (auto simp: step_def split: if_splits)
qed

lemma route_keeps:
  assumes "route e ev s = Inr (n, s')" "P s"
  shows "P s'"
proof (cases "k_exit s = None")
  case True
  obtain m s2 where m: "(case e_on e (k_model (s\<lparr>k_now_cached := False\<rparr>)) ev of
      Inl x \<Rightarrow> (None, fault_raised e InputSite x True (s\<lparr>k_now_cached := False\<rparr>))
    | Inr m \<Rightarrow> (m, s\<lparr>k_now_cached := False\<rparr>)) = (m, s2)"
    by fastforce
  let ?s3 = "case m of None \<Rightarrow> s2 | Some msg \<Rightarrow> push_pending msg s2"
  have "P (s\<lparr>k_now_cached := False\<rparr>)" by (rule touch [OF assms(2)]) simp
  then have "P s2" using m touch by (fastforce split: sum.splits)
  then have 3: "P ?s3" using touch [of s2] by (simp split: option.split)
  obtain ch s4 s5 where f: "fold_pending e ?s3 = Inr (ch, s4)"
    "kernel_reconcile e (if ch then s4\<lparr>k_changed := True\<rparr> else s4) = Inr s5" and s': "s' = s5"
    using assms(1) True m by (auto simp: route_def Let_def andthen_Inr)
  have "P (if ch then s4\<lparr>k_changed := True\<rparr> else s4)" by (rule touch [OF fold_pending_keeps [OF f(1) 3]]) simp
  then show ?thesis using reconciled [OF f(2)] s' by simp
qed (use assms in \<open>auto simp: route_def\<close>)

lemma construct_keeps:
  assumes "construct e m c hs = Inr s" "P (fresh_kernel e m hs)"
  shows "P s"
proof -
  let ?s1 = "if \<not> e_copyable e \<and> e_on_fault e = Skip
     then report e \<lparr>f_site = UpdateSite, f_error = None,
       f_what = ''fault_policy::skip needs a copyable Model; using stop'', f_model_kept = False, f_stopping = False\<rparr>
       (fresh_kernel e m hs) else fresh_kernel e m hs"
  have o: "touched (fresh_kernel e m hs) ?s1" by simp
  obtain x s2 ch s4 where i: "interpret_cmd e c ?s1 = Inr (x, s2)"
    and f: "fold_pending e (case x of None \<Rightarrow> s2 | Some ex \<Rightarrow> fault_raised e EffectSite ex True s2) = Inr (ch, s4)"
    and r: "kernel_reconcile e s4 = Inr s"
    using assms(1) unfolding construct_def Let_def by (auto simp: andthen_Inr split del: if_split)
  have "P s2" by (rule interpreted [OF i touch [OF assms(2) o]])
  then have "P (case x of None \<Rightarrow> s2 | Some ex \<Rightarrow> fault_raised e EffectSite ex True s2)"
    by (rule touch) (simp split: option.split)
  then show ?thesis by (blast intro: fold_pending_keeps [OF f] reconciled [OF r])
qed

lemma kstep_keeps: "kstep e s s' \<Longrightarrow> P s \<Longrightarrow> P s'"
proof (induction rule: kstep.induct)
  case (ks_error s x)
  have "P (s\<lparr>k_tf_errors := k_tf_errors s @ [x], k_tf_pending := True\<rparr>)" by (rule touch [OF ks_error]) simp
  from wake_sent [OF this] show ?case by (simp add: on_error_def Let_def)
qed (auto intro: step_keeps route_keeps posted resumed woken downed touch simp: dispatch_def view_faulted_def)

lemma ksteps_keep: "(kstep e)\<^sup>*\<^sup>* s s' \<Longrightarrow> P s \<Longrightarrow> P s'"
  by (induction rule: rtranclp_induct) (auto intro: kstep_keeps)

lemma kreach_keeps:
  assumes "kreach e s" "\<And>m hs. P (fresh_kernel e m hs)"
  shows "P s"
  using assms(1)
proof (induction rule: kreach.induct)
  case (kr_start hs s)
  then show ?case using construct_keeps [OF _ assms(2)] by (auto simp: start_def split: prod.splits)
next
  case (kr_from m c hs s)
  then show ?case using construct_keeps [OF _ assms(2)] by (auto simp: start_from_def)
qed (rule kstep_keeps)

end


end
