(* ===== verification/Kernel_Inv.thy ===== *)
theory Kernel_Inv
  imports Kernel_Steps
begin

text \<open>
  What every operation of the kernel keeps. The bookkeeping of origins (the mailbox, the live set and
  the three tables of running work) is changed by a handful of primitive moves; \<open>loop_invariant\<close> states
  what a predicate on it must satisfy, and proves once that the whole kernel, with senders and failing
  jobs interleaved, then keeps it.
\<close>

section \<open>Bookkeeping of origins\<close>

definition org :: "('md, 'm, 'k, 'e, 'sk, 'hs) kernel \<Rightarrow> _" where
  "org s = (k_inbox s, k_live s, k_timer_of s, k_streams s, k_tasks s)"

lemma orgD: "org s' = org s \<Longrightarrow> k_inbox s' = k_inbox s \<and> k_live s' = k_live s \<and> k_timer_of s' = k_timer_of s \<and>
    k_streams s' = k_streams s \<and> k_tasks s' = k_tasks s"
  by (simp add: org_def)

lemma org_emit_trace [simp]: "org (emit_trace e ev s) = org s"
  by (simp add: org_def)

lemma org_report [simp]: "org (report e f s) = org s"
  by (simp add: org_def)

lemma org_stop [simp]: "org (stop c s) = org s"
  by (simp add: org_def)

lemma org_fault_raised [simp]: "org (fault_raised e site x k s) = org s"
  by (simp add: org_def)

lemma org_raise_all [simp]: "org (raise_all e xs s) = org s"
  by (induction xs arbitrary: s) simp_all

lemma org_drain_task_faults [simp]: "org (drain_task_faults e s) = org s"
  by (auto simp: drain_task_faults_def) (simp add: org_def)

lemma org_step_now: "step_now e s = (t, s') \<Longrightarrow> org s' = org s"
  using step_now_keeps by (fastforce simp: org_def)

lemma org_program_now: "program_now e s = (t, s') \<Longrightarrow> org s' = org s"
  by (auto simp: program_now_def split: program_clock.splits prod.splits dest: org_step_now)

lemma org_push_pending [simp]: "org (push_pending m s) = org s"
  by (simp add: push_pending_def org_def)

lemma org_call_handle: "call_handle e x s = (r, s') \<Longrightarrow> org s' = org s"
  by (auto simp: call_handle_def Let_def push_pending_def org_def split: prod.splits sum.splits option.splits)

lemma org_subs_key_skip: "subs_key_skip e s = (b, s') \<Longrightarrow> org s' = org s"
  by (auto simp: subs_key_skip_def subs_key_covers_subscribe_def Let_def report_def emit_trace_def org_def
    split: if_splits option.splits prod.splits sum.splits)

lemma org_upd [simp]:
  "org (s\<lparr>k_now_cached := a\<rparr>) = org s" "org (s\<lparr>k_pending := b\<rparr>) = org s" "org (s\<lparr>k_changed := c\<rparr>) = org s"
  "org (s\<lparr>k_subs_dirty := d\<rparr>) = org s" "org (s\<lparr>k_sources := f\<rparr>) = org s" "org (s\<lparr>k_subs_key := g\<rparr>) = org s"
  "org (s\<lparr>k_recorded := h\<rparr>) = org s" "org (s\<lparr>k_recorded_timed := i\<rparr>) = org s" "org (s\<lparr>k_model := j\<rparr>) = org s"
  "org (s\<lparr>k_folds := l\<rparr>) = org s" "org (s\<lparr>k_duplicates := m\<rparr>) = org s" "org (s\<lparr>k_host := n\<rparr>) = org s"
  "org (s\<lparr>k_timers := o'\<rparr>) = org s" "org (s\<lparr>k_jobs := p\<rparr>) = org s" "org (s\<lparr>k_stopped := q\<rparr>) = org s"
  "org (s\<lparr>k_exit := r\<rparr>) = org s" "org (s\<lparr>k_rng := t\<rparr>) = org s" "org (s\<lparr>k_reads := u\<rparr>) = org s"
  "org (s\<lparr>k_tf_errors := v\<rparr>) = org s" "org (s\<lparr>k_tf_pending := w\<rparr>) = org s" "org (s\<lparr>k_down := x\<rparr>) = org s"
  "org (s\<lparr>k_abandoned := y\<rparr>) = org s"
  by (simp_all add: org_def)

lemma org_shutdown:
  assumes "\<not> k_down s"
  shows "org (shutdown e s) =
    org (s\<lparr>k_timer_of := [], k_streams := [], k_tasks := [], k_live := {}, k_inbox := mb_close (k_inbox s)\<rparr>)"
  using assms by (simp add: shutdown_def Let_def org_def)

section \<open>The interface of an invariant\<close>

locale loop_invariant =
  fixes P :: "('md, 'm, 'k, 'e, 'sk, 'hs) kernel \<Rightarrow> bool"
  assumes same: "P s \<Longrightarrow> org s' = org s \<Longrightarrow> P s'"
    and add_timer: "P s \<Longrightarrow> open_live s = Inr (i, s1) \<Longrightarrow>
      P (s1\<lparr>k_timer_of := AList.update k \<lparr>rt_id = t, rt_origin = i\<rparr> (k_timer_of s1)\<rparr>)"
    and add_stream: "P s \<Longrightarrow> open_live s = Inr (i, s1) \<Longrightarrow> P (s1\<lparr>k_streams := AList.update k i (k_streams s1)\<rparr>)"
    and add_task: "P s \<Longrightarrow> open_live s = Inr (i, s1) \<Longrightarrow>
      P (s1\<lparr>k_tasks := AList.update key \<lparr>kr_origin = i, kr_timer = tm\<rparr> (k_tasks s1)\<rparr>)"
    and del_timer: "P s \<Longrightarrow> map_of (k_timer_of s) k = Some rt \<Longrightarrow>
      P ((retire_live (rt_origin rt) s)\<lparr>k_timer_of := AList.delete k (k_timer_of s)\<rparr>)"
    and del_stream: "P s \<Longrightarrow> map_of (k_streams s) k = Some i \<Longrightarrow>
      P ((retire_live i s)\<lparr>k_streams := AList.delete k (k_streams s)\<rparr>)"
    and del_task: "P s \<Longrightarrow> map_of (k_tasks s) key = Some kr \<Longrightarrow>
      P ((retire_live (kr_origin kr) s)\<lparr>k_tasks := AList.delete key (k_tasks s)\<rparr>)"
    and counted: "P s \<Longrightarrow> P (s\<lparr>k_inbox := count_retired (k_inbox s)\<rparr>)"
    and drained: "P s \<Longrightarrow> drain_tagged (k_inbox s) = (out, b) \<Longrightarrow> P (s\<lparr>k_inbox := b\<rparr>)"
    and posted: "P s \<Longrightarrow> post_from w i m (k_inbox s) = (r, b) \<Longrightarrow> P (s\<lparr>k_inbox := b\<rparr>)"
    and resumed: "P s \<Longrightarrow> may_resume (k_inbox s) \<Longrightarrow> post_resume i m (k_inbox s) = (r, b) \<Longrightarrow> P (s\<lparr>k_inbox := b\<rparr>)"
    and woken: "P s \<Longrightarrow> P (s\<lparr>k_inbox := wake_done (k_inbox s)\<rparr>)"
    and wake_sent: "P s \<Longrightarrow> P (s\<lparr>k_inbox := snd (wake_if_open (k_inbox s))\<rparr>)"
    and shut: "P s \<Longrightarrow> P (s\<lparr>k_timer_of := [], k_streams := [], k_tasks := [], k_live := {}, k_inbox := mb_close (k_inbox s)\<rparr>)"
begin

lemma start_every_keeps:
  assumes "start_every e k d m s = Inr s'" "P s"
  shows "P s'"
  using assms(1)
proof (rule start_every_elim)
  fix i s1 now s2 t h
  assume o: "open_live s = Inr (i, s1)" and n: "step_now e s1 = (now, s2)"
    and s': "s' = s2\<lparr>k_timers := h, k_timer_of := AList.update k \<lparr>rt_id = t, rt_origin = i\<rparr> (k_timer_of s2)\<rparr>"
  show ?thesis by (rule same [OF add_timer [OF assms(2) o, of k t]]) (use orgD [OF org_step_now [OF n]] in \<open>simp add: s' org_def\<close>)
qed

lemma stop_every_keeps: "P s \<Longrightarrow> P (stop_every k s)"
  by (auto simp: stop_every_def Let_def split: option.split) (rule same [OF del_timer], auto simp: org_def retire_live_def)

lemma start_stream_keeps: "start_stream k n b s = Inr s' \<Longrightarrow> P s \<Longrightarrow> P s'"
  by (auto simp: start_stream_def andthen_Inr) (rule same [OF add_stream], auto simp: org_def)

lemma stop_stream_keeps: "P s \<Longrightarrow> P (stop_stream k s)"
  by (auto simp: stop_stream_def Let_def split: option.split) (rule same [OF del_stream], auto simp: org_def retire_live_def)

lemma stop_keyed_task_keeps: "P s \<Longrightarrow> P (stop_keyed_task key s)"
  by (auto simp: stop_keyed_task_def Let_def split: option.split)
    (rule same [OF del_task], auto simp: org_def retire_live_def)+

lemma start_keyed_task_keeps: "start_keyed_task b w key s = Inr s' \<Longrightarrow> P s \<Longrightarrow> P s'"
  by (auto simp: start_keyed_task_def andthen_Inr) (rule same [OF add_task [OF stop_keyed_task_keeps]], auto simp: org_def)

lemma start_keyed_after_keeps:
  assumes "start_keyed_after e d m key s = Inr s'" "P s"
  shows "P s'"
  using assms(1)
proof (rule start_keyed_after_elim)
  fix i s1 now s2 t h
  assume o: "open_live (stop_keyed_task key s) = Inr (i, s1)" and n: "step_now e s1 = (now, s2)"
    and s': "s' = s2\<lparr>k_timers := h, k_tasks := AList.update key \<lparr>kr_origin = i, kr_timer = Some t\<rparr> (k_tasks s2)\<rparr>"
  show ?thesis
    by (rule same [OF add_task [OF stop_keyed_task_keeps [OF assms(2)] o, of key "Some t"]])
      (use orgD [OF org_step_now [OF n]] in \<open>simp add: s' org_def\<close>)
qed

lemma start_source_keeps: "start_source e kp s = Inr (x, s') \<Longrightarrow> P s \<Longrightarrow> P s'"
  by (cases kp) (auto simp: start_source_def andthen_Inr split: source_key.splits sub.splits prod.splits
    dest: start_every_keeps start_stream_keeps intro: same)

lemma keep_source_keeps: "keep_source kp s = Inr (x, s') \<Longrightarrow> P s \<Longrightarrow> P s'"
  by (cases kp) (auto simp: keep_source_def split: source_key.splits sub.splits option.splits intro: same)

lemma stop_source_keeps: "stop_source e k s = Inr (x, s') \<Longrightarrow> P s \<Longrightarrow> P s'"
  by (auto simp: stop_source_def split: source_key.splits prod.splits intro: same stop_every_keeps stop_stream_keeps)

lemma apply_plan_keeps: "apply_plan e p s = Inr (x, s') \<Longrightarrow> P s \<Longrightarrow> P s'"
  by (erule apply_plan_ind [where P = P]) (auto intro: start_source_keeps keep_source_keeps stop_source_keeps)

lemma same_now: "P s \<Longrightarrow> step_now e s = (t, s1) \<Longrightarrow> org s' = org s1 \<Longrightarrow> P s'"
  by (rule same) (simp_all add: org_step_now)

lemma run_effect_keeps:
  assumes "run_effect e c s = Inr (x, s')" "P s"
  shows "P s'"
proof (cases c)
  case (After d m key)
  then show ?thesis using assms same_now [OF assms(2), of e]
    by (auto simp: andthen_Inr split: if_splits prod.splits intro: start_keyed_after_keeps)
qed (use assms in \<open>auto simp: andthen_Inr read_clock_def Let_def split: if_splits prod.splits
    dest: start_keyed_task_keeps org_call_handle intro: same stop_keyed_task_keeps\<close>)

lemma interpret_keeps: "interpret_cmd e c s = Inr (x, s') \<Longrightarrow> P s \<Longrightarrow> P s'"
  by (erule interpret_ind [where P = P]) (auto intro: run_effect_keeps same)

lemma subscribe_now_keeps:
  assumes "subscribe_now e s = Inr s'" "P s"
  shows "P s'"
  using assms(1)
proof (cases rule: subscribe_now_elim)
  case (threw x)
  show ?thesis by (rule same [OF assms(2)]) (simp add: threw(2))
next
  case (planned w p src x s1 s2)
  have "P s1" by (rule apply_plan_keeps [OF planned(3)]) (rule same [OF assms(2)], simp)
  then show ?thesis by (rule same) (simp add: planned(4,5) split: option.split)
qed

lemma kernel_reconcile_keeps:
  assumes "kernel_reconcile e s = Inr s'" "P s"
  shows "P s'"
proof (cases "k_subs_dirty s")
  case True
  obtain b s1 where 1: "subs_key_skip e (s\<lparr>k_subs_dirty := False\<rparr>) = (b, s1)"
    by (cases "subs_key_skip e (s\<lparr>k_subs_dirty := False\<rparr>)")
  have "P s1" by (rule same [OF assms(2)]) (simp add: org_subs_key_skip [OF 1])
  then show ?thesis using assms True 1 subscribe_now_keeps [of e s1] by (auto simp: kernel_reconcile_def split: if_splits)
qed (use assms in \<open>simp add: kernel_reconcile_def\<close>)

lemma fold_one_keeps:
  assumes "fold_one e m s = Inr (ok, s')" "P s"
  shows "P s'"
proof -
  obtain now s2 where 1: "program_now e (s\<lparr>k_recorded := k_recorded s @ [m]\<rparr>) = (now, s2)"
    by (cases "program_now e (s\<lparr>k_recorded := k_recorded s @ [m]\<rparr>)")
  let ?s3 = "case now of None \<Rightarrow> s2 | Some t \<Rightarrow> s2\<lparr>k_recorded_timed := k_recorded_timed s2 @ [(m, t)]\<rparr>"
  have o: "org ?s3 = org s" using org_program_now [OF 1] by (simp split: option.split)
  show ?thesis
  proof (cases "e_update e (k_model ?s3) m now")
    case (Pair md r)
    show ?thesis
    proof (cases r)
      case (Inl x)
      show ?thesis by (rule same [OF assms(2)]) (use assms(1) 1 Pair Inl o in \<open>auto simp: fold_one_def Let_def\<close>)
    next
      case (Inr c)
      let ?s5 = "emit_trace e (TFold (e_msg_index e m)) (?s3\<lparr>k_model := md\<rparr>)"
      obtain x s6 where i: "interpret_cmd e c (?s5\<lparr>k_subs_dirty := True, k_folds := k_folds ?s5 + 1\<rparr>) = Inr (x, s6)"
        and s': "s' = (case x of None \<Rightarrow> s6 | Some ex \<Rightarrow> fault_raised e EffectSite ex True s6)"
        using assms(1) 1 Pair Inr by (auto simp: fold_one_def andthen_Inr Let_def)
      have "P (?s5\<lparr>k_subs_dirty := True, k_folds := k_folds ?s5 + 1\<rparr>)" by (rule same [OF assms(2)]) (simp add: o)
      from interpret_keeps [OF i this] show ?thesis by (rule same) (simp add: s' split: option.split)
    qed
  qed
qed

lemma shutdown_keeps: "P s \<Longrightarrow> P (shutdown e s)"
  by (cases "k_down s") (simp add: shutdown_def, rule same [OF shut], simp_all add: org_shutdown)

end

lemma touched_org: "touched s s' \<Longrightarrow> org s' = org s"
  by (simp add: touched_def kept_def org_def)

text \<open>Such a predicate is kept by the whole kernel.\<close>

sublocale loop_invariant \<subseteq> steps: step_invariant e P for e
proof (unfold_locales, goal_cases)
  case (1 s s')
  then show ?case using same touched_org by blast
qed (fact kernel_reconcile_keeps fold_one_keeps interpret_keeps counted drained posted resumed woken wake_sent shutdown_keeps)+

section \<open>Origins are accounted for\<close>

text \<open>Values of an association list under updates and deletions.\<close>

lemma vals_update: "set (map (g \<circ> snd) (AList.update k v al)) \<subseteq> insert (g v) (set (map (g \<circ> snd) al))"
  by (induction al) auto

lemma distinct_vals_update:
  "distinct (map (g \<circ> snd) al) \<Longrightarrow> g v \<notin> set (map (g \<circ> snd) al) \<Longrightarrow> distinct (map (g \<circ> snd) (AList.update k v al))"
proof (induction al)
  case (Cons p al)
  then show ?case using vals_update [of g k v al] by (cases p) (auto simp: subset_iff)
qed simp

lemma vals_delete: "set (map (g \<circ> snd) (AList.delete k al)) \<subseteq> set (map (g \<circ> snd) al)"
  by (auto simp: AList.delete_eq)

lemma distinct_vals_delete: "distinct (map (g \<circ> snd) al) \<Longrightarrow> distinct (map (g \<circ> snd) (AList.delete k al))"
  by (simp add: AList.delete_eq distinct_map_filter)

lemma deleted_val_gone:
  assumes "distinct (map (g \<circ> snd) al)" "distinct (map fst al)" "map_of al k = Some v"
  shows "g v \<notin> set (map (g \<circ> snd) (AList.delete k al))"
proof
  assume "g v \<in> set (map (g \<circ> snd) (AList.delete k al))"
  then obtain k' w where 1: "(k', w) \<in> set al" "k' \<noteq> k" "g w = g v" by (auto simp: AList.delete_eq)
  have "(k, v) \<in> set al" using assms(3) by (rule map_of_SomeD)
  moreover have "inj_on (g \<circ> snd) (set al)" using assms(1) by (simp add: distinct_map)
  ultimately have "(k, v) = (k', w)" using 1 by (auto dest: inj_onD [where x = "(k, v)" and y = "(k', w)"])
  then show False using 1(2) by simp
qed

definition origins :: "('md, 'm, 'k, 'e, 'sk, 'hs) kernel \<Rightarrow> origin_id list" where
  "origins s = map (rt_origin \<circ> snd) (k_timer_of s) @ map snd (k_streams s) @ map (kr_origin \<circ> snd) (k_tasks s)"

text \<open>
  Every running timer, stream and keyed job has its own origin; all of them are live, on the loop and in
  the mailbox alike, and were handed out by the mailbox's counter.
\<close>

definition orig_inv :: "('md, 'm, 'k, 'e, 'sk, 'hs) kernel \<Rightarrow> bool" where
  "orig_inv s \<longleftrightarrow>
     distinct (map fst (k_timer_of s)) \<and> distinct (map fst (k_streams s)) \<and> distinct (map fst (k_tasks s)) \<and>
     distinct (origins s) \<and> set (origins s) \<subseteq> k_live s \<and> set (mb_live (k_inbox s)) = k_live s \<and>
     (\<forall>i \<in> k_live s. 0 < i \<and> i \<le> mb_last_origin (k_inbox s)) \<and> mb_inv (k_inbox s)"

lemma open_live_elim:
  assumes "open_live s = Inr (i, s1)"
  shows "i = mb_last_origin (k_inbox s) + 1 \<and> mb_last_origin (k_inbox s) < i \<and> k_live s1 = insert i (k_live s) \<and>
    k_inbox s1 = (k_inbox s)\<lparr>mb_last_origin := i, mb_live := i # mb_live (k_inbox s)\<rparr> \<and>
    k_timer_of s1 = k_timer_of s \<and> k_streams s1 = k_streams s \<and> k_tasks s1 = k_tasks s"
  using assms by (auto simp: open_live_def open_origin_def Let_def u64_less_inc split: if_splits option.splits)

lemma orig_inv_frame:
  assumes "orig_inv s" "same_frame (k_inbox s) b" "mb_inv b"
  shows "orig_inv (s\<lparr>k_inbox := b\<rparr>)"
  using assms by (simp add: orig_inv_def origins_def same_frame_def)

lemma fresh_origin:
  assumes "orig_inv s" "mb_last_origin (k_inbox s) < i"
  shows "i \<notin> k_live s" "0 < i" "i \<notin> set (origins s)"
  using assms by (auto simp: orig_inv_def dest: leD intro: le_less_trans [OF word_zero_le])

lemma open_inv:
  assumes "orig_inv s" "open_live s = Inr (i, s1)"
  shows "mb_inv (k_inbox s1)" "set (mb_live (k_inbox s1)) = k_live s1"
    "\<forall>j \<in> k_live s1. 0 < j \<and> j \<le> mb_last_origin (k_inbox s1)" "i \<notin> set (origins s)" "set (origins s) \<subseteq> k_live s1"
proof -
  note o = open_live_elim [OF assms(2)] and inv = assms(1) [unfolded orig_inv_def]
  have up: "mb_last_origin (k_inbox s) < i" using o by blast
  show i: "i \<notin> set (origins s)" using fresh_origin(3) [OF assms(1) up] .
  show "set (origins s) \<subseteq> k_live s1" "set (mb_live (k_inbox s1)) = k_live s1" using o inv by auto
  show b: "\<forall>j \<in> k_live s1. 0 < j \<and> j \<le> mb_last_origin (k_inbox s1)"
  proof
    fix j assume "j \<in> k_live s1"
    then have "j = i \<or> (0 < j \<and> j \<le> mb_last_origin (k_inbox s))" using o inv by auto
    then show "0 < j \<and> j \<le> mb_last_origin (k_inbox s1)"
      using o fresh_origin(2) [OF assms(1) up] by (auto intro: order_trans less_imp_le)
  qed
  have "set (mb_live (k_inbox s1)) = k_live s1" using o inv by auto
  then show "mb_inv (k_inbox s1)" using b o inv by (auto simp: mb_inv_def mb_pre_def live_count_def)
qed

lemma retire_live_inv:
  assumes "orig_inv s" "i \<notin> set (origins s')" "set (origins s') \<subseteq> set (origins s)" "distinct (origins s')"
    "k_inbox s' = retire i (k_inbox s)" "k_live s' = k_live s - {i}"
    "distinct (map fst (k_timer_of s'))" "distinct (map fst (k_streams s'))" "distinct (map fst (k_tasks s'))"
  shows "orig_inv s'"
  using assms retire_inv [of "k_inbox s" i] by (auto simp: orig_inv_def retire_def)

interpretation running: loop_invariant orig_inv
proof (unfold_locales, goal_cases)
  case (1 s s')
  then show ?case using orgD [OF 1(2)] by (simp add: orig_inv_def origins_def)
next
  case (2 s i s1 k t)
  note o = open_live_elim [OF 2(2)] and inv = 2(1) [unfolded orig_inv_def] and n = open_inv [OF 2]
  have "distinct (map (rt_origin \<circ> snd) (AList.update k \<lparr>rt_id = t, rt_origin = i\<rparr> (k_timer_of s)))"
    using inv n(4) by (intro distinct_vals_update) (auto simp: origins_def)
  then show ?case using inv n o vals_update [of rt_origin k "\<lparr>rt_id = t, rt_origin = i\<rparr>" "k_timer_of s"]
    by (auto simp: orig_inv_def origins_def distinct_update simp del: set_map)
next
  case (3 s i s1 k)
  note o = open_live_elim [OF 3(2)] and inv = 3(1) [unfolded orig_inv_def] and n = open_inv [OF 3]
  have "distinct (map (id \<circ> snd) (AList.update k i (k_streams s)))"
    using inv n(4) by (intro distinct_vals_update) (auto simp: origins_def)
  then show ?case using inv n o vals_update [of id k i "k_streams s"]
    by (auto simp: orig_inv_def origins_def distinct_update simp del: set_map)
next
  case (4 s i s1 key tm)
  note o = open_live_elim [OF 4(2)] and inv = 4(1) [unfolded orig_inv_def] and n = open_inv [OF 4]
  have "distinct (map (kr_origin \<circ> snd) (AList.update key \<lparr>kr_origin = i, kr_timer = tm\<rparr> (k_tasks s)))"
    using inv n(4) by (intro distinct_vals_update) (auto simp: origins_def)
  then show ?case using inv n o vals_update [of kr_origin key "\<lparr>kr_origin = i, kr_timer = tm\<rparr>" "k_tasks s"]
    by (auto simp: orig_inv_def origins_def distinct_update simp del: set_map)
next
  case (5 s k rt)
  note inv = 5(1) [unfolded orig_inv_def]
  have "rt_origin rt \<in> set (map (rt_origin \<circ> snd) (k_timer_of s))" using map_of_SomeD [OF 5(2)] by force
  then show ?case using inv vals_delete [of rt_origin k "k_timer_of s"]
      deleted_val_gone [OF _ _ 5(2), of rt_origin] distinct_vals_delete [of rt_origin "k_timer_of s" k]
    by (intro retire_live_inv [OF 5(1)]) (auto simp: origins_def retire_live_def distinct_delete simp del: set_map)
next
  case (6 s k i)
  note inv = 6(1) [unfolded orig_inv_def]
  have "i \<in> set (map snd (k_streams s))" using map_of_SomeD [OF 6(2)] by force
  then show ?case using inv vals_delete [of id k "k_streams s"]
      deleted_val_gone [OF _ _ 6(2), of id] distinct_vals_delete [of id "k_streams s" k]
    by (intro retire_live_inv [OF 6(1)]) (auto simp: origins_def retire_live_def distinct_delete simp del: set_map)
next
  case (7 s key kr)
  note inv = 7(1) [unfolded orig_inv_def]
  have "kr_origin kr \<in> set (map (kr_origin \<circ> snd) (k_tasks s))" using map_of_SomeD [OF 7(2)] by force
  then show ?case using inv vals_delete [of kr_origin key "k_tasks s"]
      deleted_val_gone [OF _ _ 7(2), of kr_origin] distinct_vals_delete [of kr_origin "k_tasks s" key]
    by (intro retire_live_inv [OF 7(1)]) (auto simp: origins_def retire_live_def distinct_delete simp del: set_map)
next
  case (8 s)
  then show ?case by (auto simp: orig_inv_def origins_def count_retired_def mb_inv_def mb_pre_def live_count_def)
next
  case (9 s out b)
  then show ?case using drain_spec [OF _ 9(2)] by (intro orig_inv_frame) (auto simp: orig_inv_def)
next
  case (10 s w i m r b)
  have "mb_inv (k_inbox s)" using 10(1) by (simp add: orig_inv_def)
  then have "same_frame (k_inbox s) b \<and> mb_inv b" using 10(2) by (cases rule: post_from_cases) auto
  then show ?case using orig_inv_frame [OF 10(1)] by blast
next
  case (11 s i m r b)
  have i: "mb_inv (k_inbox s)" using 11(1) by (simp add: orig_inv_def)
  then have "same_frame (k_inbox s) b \<and> mb_inv b" using 11(3,2) by (cases rule: post_resume_cases) (use i in auto)
  then show ?case using orig_inv_frame [OF 11(1)] by blast
next
  case (12 s)
  then show ?case by (auto simp: orig_inv_def origins_def wake_done_def mb_inv_def mb_pre_def live_count_def)
next
  case (13 s)
  then show ?case by (auto simp: orig_inv_def origins_def wake_if_open_def mb_inv_def mb_pre_def live_count_def)
next
  case (14 s)
  then show ?case by (auto simp: orig_inv_def origins_def mb_close_def mb_inv_def mb_pre_def live_count_def)
qed

lemma fresh_orig_inv: "orig_inv (fresh_kernel e m hs)"
  by (simp add: orig_inv_def origins_def fresh_kernel_def Let_def new_mailbox_def mb_inv_def mb_pre_def live_count_def)

section \<open>An origin that is gone stays gone\<close>

definition gone :: "origin_id \<Rightarrow> ('md, 'm, 'k, 'e, 'sk, 'hs) kernel \<Rightarrow> bool" where
  "gone i s \<longleftrightarrow> orig_inv s \<and> i \<noteq> 0 \<and> i \<le> mb_last_origin (k_inbox s) \<and> i \<notin> k_live s"

lemma gone_open:
  assumes "gone i s" "open_live s = Inr (j, s1)"
  shows "i \<noteq> j \<and> i \<le> mb_last_origin (k_inbox s1) \<and> i \<notin> k_live s1"
  using assms open_live_elim [OF assms(2)] by (auto simp: gone_def intro: order_trans less_imp_le)

lemma gone_frame: "gone i s \<Longrightarrow> same_frame (k_inbox s) b \<Longrightarrow> orig_inv (s\<lparr>k_inbox := b\<rparr>) \<Longrightarrow> gone i (s\<lparr>k_inbox := b\<rparr>)"
  by (simp add: gone_def same_frame_def)

interpretation retired: loop_invariant "gone i" for i
proof (unfold_locales, goal_cases)
  case (1 s s')
  then show ?case using running.same [of s s'] orgD [OF 1(2)] by (simp add: gone_def)
next
  case (2 s j s1 k t)
  then show ?case using gone_open [OF 2] running.add_timer [OF _ 2(2), of k t] by (simp add: gone_def)
next
  case (3 s j s1 k)
  then show ?case using gone_open [OF 3] running.add_stream [OF _ 3(2), of k] by (simp add: gone_def)
next
  case (4 s j s1 key tm)
  then show ?case using gone_open [OF 4] running.add_task [OF _ 4(2), of key tm] by (simp add: gone_def)
next
  case (5 s k rt)
  then show ?case using running.del_timer [OF _ 5(2)] by (simp add: gone_def retire_live_def retire_def)
next
  case (6 s k j)
  then show ?case using running.del_stream [OF _ 6(2)] by (simp add: gone_def retire_live_def retire_def)
next
  case (7 s key kr)
  then show ?case using running.del_task [OF _ 7(2)] by (simp add: gone_def retire_live_def retire_def)
next
  case (8 s)
  then show ?case using running.counted [of s] by (simp add: gone_def count_retired_def)
next
  case (9 s out b)
  then have "mb_inv (k_inbox s)" by (simp add: gone_def orig_inv_def)
  then show ?case using drain_spec [OF _ 9(2)] running.drained [OF _ 9(2)] gone_frame [OF 9(1), of b] 9(1) by (simp add: gone_def)
next
  case (10 s w j m r b)
  then have "mb_inv (k_inbox s)" by (simp add: gone_def orig_inv_def)
  then have "same_frame (k_inbox s) b" using 10(2) by (cases rule: post_from_cases) auto
  then show ?case using running.posted [OF _ 10(2)] gone_frame [OF 10(1)] 10(1) by (simp add: gone_def)
next
  case (11 s j m r b)
  then have "mb_inv (k_inbox s)" by (simp add: gone_def orig_inv_def)
  then have "same_frame (k_inbox s) b" using 11(3,2) by (cases rule: post_resume_cases) auto
  then show ?case using running.resumed [OF _ 11(2,3)] gone_frame [OF 11(1)] 11(1) by (simp add: gone_def)
next
  case (12 s)
  then show ?case using running.woken [of s] by (simp add: gone_def wake_done_def)
next
  case (13 s)
  then show ?case using running.wake_sent [of s] by (auto simp: gone_def wake_if_open_def)
next
  case (14 s)
  then show ?case using running.shut [of s] by (simp add: gone_def mb_close_def)
qed

text \<open>Ending keyed work, a stream or a timer makes its origin one of these.\<close>

lemma stop_keyed_task_gone:
  assumes "orig_inv s" "map_of (k_tasks s) key = Some run"
  shows "gone (kr_origin run) (stop_keyed_task key s)"
proof -
  have "kr_origin run \<in> set (origins s)" using map_of_SomeD [OF assms(2)] by (force simp: origins_def)
  then have "kr_origin run \<in> k_live s" using assms(1) by (auto simp: orig_inv_def)
  then have i: "0 < kr_origin run \<and> kr_origin run \<le> mb_last_origin (k_inbox s)" using assms(1) by (simp add: orig_inv_def)
  have "k_inbox (stop_keyed_task key s) = retire (kr_origin run) (k_inbox s)"
    "k_live (stop_keyed_task key s) = k_live s - {kr_origin run}"
    using assms(2) by (simp_all add: stop_keyed_task_def Let_def retire_live_def split: option.split)
  moreover have "kr_origin run \<noteq> 0" using i less_irrefl by metis
  moreover have "orig_inv (stop_keyed_task key s)" by (rule running.stop_keyed_task_keeps [OF assms(1)])
  ultimately show ?thesis using i by (simp add: gone_def retire_def)
qed

end
