(* ===== verification/Kernel_Fold.thy ===== *)
theory Kernel_Fold
  imports Kernel_Inv
begin

text \<open>
  The fold of \<^verbatim>\<open>kernel.hpp\<close> against a plain queue. What an effect can do to the queue, that no operation
  looks at it, and from these that folding in swapped batches with a budget is folding a single queue
  from its front, and that messages of a retired origin have no influence.
\<close>

section \<open>What an effect may touch\<close>

text \<open>
  An effect leaves the model and the records alone, appends to the queue, and sets an exit code only
  where there was none.
\<close>

definition effected ::
    "('md, 'm, 'k, 'e, 'sk, 'hs) kernel \<Rightarrow> ('md, 'm, 'k, 'e, 'sk, 'hs) kernel \<Rightarrow> bool" where
  "effected s s' \<longleftrightarrow>
     k_model s' = k_model s \<and> k_recorded s' = k_recorded s \<and> k_recorded_timed s' = k_recorded_timed s \<and>
     k_folds s' = k_folds s \<and> k_subs_dirty s' = k_subs_dirty s \<and> k_changed s' = k_changed s \<and>
     (k_exit s \<noteq> None \<longrightarrow> k_exit s' = k_exit s) \<and> (\<exists>ms. k_pending s' = k_pending s @ map (Pair 0) ms)"

lemma effected_refl [simp]: "effected s s"
  unfolding effected_def by (auto intro: exI [of _ "[]"])

lemma effected_trans: "effected s s1 \<Longrightarrow> effected s1 s2 \<Longrightarrow> effected s s2"
  unfolding effected_def by (auto simp flip: map_append)

lemma framed_effected: "framed s s' \<Longrightarrow> effected s s'"
  unfolding effected_def frame_defs by (auto intro: exI [of _ "[]"])

lemma push_effected: "effected s (push_pending m s)"
  unfolding effected_def push_pending_def by (auto intro: exI [of _ "[m]"])

lemma call_handle_effected:
  assumes "call_handle e x s = (r, s')"
  shows "effected s s'"
proof -
  obtain q hs where h: "e_handle e x (k_host s) = (q, hs)" by (cases "e_handle e x (k_host s)")
  have f: "effected s (s\<lparr>k_host := hs\<rparr>)" by (rule framed_effected) (simp add: frame_defs)
  show ?thesis using assms h f effected_trans [OF f push_effected]
    by (auto simp: call_handle_def Let_def split: sum.splits option.splits)
qed

lemma run_effect_effected:
  assumes "run_effect e c s = Inr (x, s')"
  shows "effected s s'"
proof (cases c)
  case (After d m key)
  show ?thesis
  proof (cases "key = []")
    case True
    obtain now s1 where 1: "step_now e s = (now, s1)" by (cases "step_now e s")
    have "framed s s'" using framed_trans [OF step_now_framed [OF 1]] assms After True 1
      by (auto simp: frame_defs split: prod.splits)
    then show ?thesis by (rule framed_effected)
  next
    case False
    then have "framed s s'" using assms After start_keyed_after_framed [of e d m key s] by (auto simp: andthen_Inr)
    then show ?thesis by (rule framed_effected)
  qed
next
  case (Task b w key)
  have "framed s s'"
  proof (cases "key = []")
    case True
    then show ?thesis using assms Task by (auto simp: frame_defs)
  next
    case False
    then show ?thesis using assms Task start_keyed_task_framed [of b w key s] by (auto simp: andthen_Inr)
  qed
  then show ?thesis by (rule framed_effected)
next
  case (Cancel key)
  then show ?thesis using assms framed_effected [OF stop_keyed_task_framed] by auto
next
  case (Now f)
  have "framed s (s\<lparr>k_reads := Suc (k_reads s)\<rparr>)" by (simp add: frame_defs)
  from effected_trans [OF framed_effected [OF this] push_effected] show ?thesis using assms Now by (auto simp: read_clock_def)
next
  case (Random f)
  have "effected s (s\<lparr>k_rng := r\<rparr>)" for r unfolding effected_def by (auto intro: exI [of _ "[]"])
  from effected_trans [OF this push_effected] show ?thesis using assms Random by (auto split: prod.splits)
next
  case (Quit code)
  then show ?thesis using assms unfolding effected_def by (auto split: if_splits intro: exI [of _ "[]"])
qed (use assms in \<open>auto simp: push_effected call_handle_effected\<close>)

lemma interpret_effected: "interpret_cmd e c s = Inr (x, s') \<Longrightarrow> effected s s'"
proof (erule interpret_ind [where P = "effected s"])
  have "effected sa (emit_trace e ev sa)" for ev sa by (rule framed_effected) (simp add: frame_defs emit_trace_def)
  then show "effected s sa \<Longrightarrow> effected s (emit_trace e ev sa)" for ev sa using effected_trans by blast
qed (auto intro: effected_trans run_effect_effected)

section \<open>The queue is not looked at\<close>

text \<open>The operations on sources and keyed work commute with any change of the queue.\<close>

abbreviation queue_set ::
    "(origin_id \<times> 'm) list \<Rightarrow> ('md, 'm, 'k, 'e, 'sk, 'hs) kernel \<Rightarrow> ('md, 'm, 'k, 'e, 'sk, 'hs) kernel" where
  "queue_set q s \<equiv> s\<lparr>k_pending := q\<rparr>"

lemma queue_blind_basic [simp]:
  "emit_trace e ev (queue_set q s) = queue_set q (emit_trace e ev s)"
  "report e f (queue_set q s) = queue_set q (report e f s)"
  "retire_live i (queue_set q s) = queue_set q (retire_live i s)"
  "read_clock e (queue_set q s) = map_prod id (queue_set q) (read_clock e s)"
  by (simp_all add: emit_trace_def report_def Let_def retire_live_def read_clock_def)

lemma queue_blind_now [simp]: "step_now e (queue_set q s) = map_prod id (queue_set q) (step_now e s)"
  by (simp add: step_now_def read_clock_def)

lemma queue_blind_program_now [simp]: "program_now e (queue_set q s) = map_prod id (queue_set q) (program_now e s)"
  by (simp add: program_now_def split: program_clock.split prod.split)

lemma queue_blind_open [simp]: "open_live (queue_set q s) = map_sum id (map_prod id (queue_set q)) (open_live s)"
  by (simp add: open_live_def split: option.split)

lemma queue_blind_stops [simp]:
  "stop_keyed_task key (queue_set q s) = queue_set q (stop_keyed_task key s)"
  "stop_stream k (queue_set q s) = queue_set q (stop_stream k s)"
  "stop_every k (queue_set q s) = queue_set q (stop_every k s)"
  by (simp_all add: stop_keyed_task_def stop_stream_def stop_every_def retire_live_def Let_def split: option.split)

lemma andthen_map: "andthen (map_sum id g r) f = andthen r (f \<circ> g)"
  by (cases r) auto

lemma map_andthen: "map_sum id g (andthen r f) = andthen r (map_sum id g \<circ> f)"
  by (cases r) auto

lemma queue_blind_starts [simp]:
  "start_keyed_task b w key (queue_set q s) = map_sum id (queue_set q) (start_keyed_task b w key s)"
  "start_keyed_after e d m key (queue_set q s) = map_sum id (queue_set q) (start_keyed_after e d m key s)"
  "start_stream k n b (queue_set q s) = map_sum id (queue_set q) (start_stream k n b s)"
  "start_every e k d m (queue_set q s) = map_sum id (queue_set q) (start_every e k d m s)"
  by (auto simp: start_keyed_task_def start_keyed_after_def start_stream_def start_every_def andthen_map map_andthen
    split: prod.split intro!: arg_cong2 [where f = andthen])

lemma queue_blind_sources [simp]:
  "start_source e kp (queue_set q s) = map_sum id (map_prod id (queue_set q)) (start_source e kp s)"
  "keep_source kp (queue_set q s) = map_sum id (map_prod id (queue_set q)) (keep_source kp s)"
  "stop_source e k (queue_set q s) = map_sum id (map_prod id (queue_set q)) (stop_source e k s)"
  by (cases kp; auto simp: start_source_def keep_source_def stop_source_def andthen_map map_andthen comp_def
    split: source_key.split sub.split option.split prod.split)+

lemma queue_blind_each:
  assumes "\<And>a s. f a (queue_set q s) = map_sum id (map_prod id (queue_set q)) (f a s)"
  shows "each f as (queue_set q s) = map_sum id (map_prod id (queue_set q)) (each f as s)"
proof (induction as arbitrary: s)
  case (Cons a as)
  show ?case
  proof (cases "f a s")
    case (Inr b)
    then show ?thesis by (cases b) (simp add: assms Cons split: option.split)
  qed (simp add: assms)
qed simp

lemma queue_blind_plan [simp]: "apply_plan e p (queue_set q s) = map_sum id (map_prod id (queue_set q)) (apply_plan e p s)"
proof (cases "each (stop_source e) (pl_stop p) s")
  case (Inr a)
  obtain x s1 where a: "a = (x, s1)" by (cases a)
  show ?thesis
  proof (cases "each keep_source (pl_keep p) s1")
    case (Inr b)
    then show ?thesis using \<open>each (stop_source e) (pl_stop p) s = Inr a\<close> a
      by (cases b) (simp add: apply_plan_def queue_blind_each split: option.split)
  qed (use \<open>each (stop_source e) (pl_stop p) s = Inr a\<close> a in \<open>simp add: apply_plan_def queue_blind_each split: option.split\<close>)
qed (simp add: apply_plan_def queue_blind_each)

lemma queue_blind_skip [simp]: "subs_key_skip e (queue_set q s) = map_prod id (queue_set q) (subs_key_skip e s)"
  by (auto simp: subs_key_skip_def subs_key_covers_subscribe_def Let_def split: option.split sum.split prod.split)

section \<open>Running with more in front\<close>

text \<open>
  \<open>ahead p s t\<close>: \<open>t\<close> is \<open>s\<close> with \<open>p\<close> in front of its queue. Once the kernel is quitting the queue no longer
  matters. Every operation of the fold goes the same way from both.
\<close>

inductive ahead ::
    "(origin_id \<times> 'm) list \<Rightarrow> ('md, 'm, 'k, 'e, 'sk, 'hs) kernel \<Rightarrow> ('md, 'm, 'k, 'e, 'sk, 'hs) kernel \<Rightarrow> bool"
    for p where
  "(k_exit s = None \<Longrightarrow> q = p @ k_pending s) \<Longrightarrow> ahead p s (queue_set q s)"

lemma aheadI: "t = queue_set q s \<Longrightarrow> (k_exit s = None \<Longrightarrow> q = p @ k_pending s) \<Longrightarrow> ahead p s t"
  by (simp add: ahead.intros)

abbreviation in_step ::
    "(origin_id \<times> 'm) list \<Rightarrow> fault + ('x \<times> ('md, 'm, 'k, 'e, 'sk, 'hs) kernel) \<Rightarrow>
     fault + ('x \<times> ('md, 'm, 'k, 'e, 'sk, 'hs) kernel) \<Rightarrow> bool" where
  "in_step p \<equiv> rel_sum (=) (rel_prod (=) (ahead p))"

lemma andthen_rel:
  assumes "rel_sum (=) R r r'" "\<And>a b. R a b \<Longrightarrow> rel_sum (=) R' (f a) (g b)"
  shows "rel_sum (=) R' (andthen r f) (andthen r' g)"
  using assms by (cases r; cases r') auto

lemma ahead_same:
  assumes "ahead p s t"
  shows "k_model t = k_model s" "k_recorded t = k_recorded s" "k_recorded_timed t = k_recorded_timed s"
    "k_folds t = k_folds s" "k_subs_dirty t = k_subs_dirty s" "k_live t = k_live s" "k_inbox t = k_inbox s"
    "k_sources t = k_sources s" "k_host t = k_host s" "k_rng t = k_rng s" "k_jobs t = k_jobs s"
    "k_timers t = k_timers s" "k_duplicates t = k_duplicates s" "k_exit t = k_exit s"
  using assms by (cases rule: ahead.cases; simp)+

lemma ahead_upd:
  assumes "ahead p s t"
  shows "ahead p (s\<lparr>k_subs_dirty := a\<rparr>) (t\<lparr>k_subs_dirty := a\<rparr>)"
    "ahead p (s\<lparr>k_recorded := b\<rparr>) (t\<lparr>k_recorded := b\<rparr>)"
    "ahead p (s\<lparr>k_recorded_timed := c\<rparr>) (t\<lparr>k_recorded_timed := c\<rparr>)"
    "ahead p (s\<lparr>k_model := d\<rparr>) (t\<lparr>k_model := d\<rparr>)"
    "ahead p (s\<lparr>k_folds := f\<rparr>) (t\<lparr>k_folds := f\<rparr>)"
    "ahead p (s\<lparr>k_duplicates := g\<rparr>) (t\<lparr>k_duplicates := g\<rparr>)"
    "ahead p (s\<lparr>k_subs_key := h\<rparr>) (t\<lparr>k_subs_key := h\<rparr>)"
    "ahead p (s\<lparr>k_sources := i\<rparr>) (t\<lparr>k_sources := i\<rparr>)"
    "ahead p (s\<lparr>k_inbox := j\<rparr>) (t\<lparr>k_inbox := j\<rparr>)"
    "ahead p (s\<lparr>k_host := l\<rparr>) (t\<lparr>k_host := l\<rparr>)"
    "ahead p (s\<lparr>k_jobs := m\<rparr>) (t\<lparr>k_jobs := m\<rparr>)"
    "ahead p (s\<lparr>k_timers := n\<rparr>) (t\<lparr>k_timers := n\<rparr>)"
    "ahead p (s\<lparr>k_rng := o'\<rparr>) (t\<lparr>k_rng := o'\<rparr>)"
    "ahead p (s\<lparr>k_exit := Some x\<rparr>) (t\<lparr>k_exit := Some x\<rparr>)"
  using assms by (cases rule: ahead.cases; intro aheadI [where q = "k_pending t"]; simp)+

lemma ahead_push: "ahead p s t \<Longrightarrow> ahead p (push_pending m s) (push_pending m t)"
  by (erule ahead.cases, rule aheadI [where q = "k_pending t @ [(0, m)]"]) (simp_all add: push_pending_def)

lemma queue_blind_stop: "stop c (queue_set q s) = queue_set (if k_exit s = None then [] else q) (stop c s)"
  by (simp add: stop_def)

lemma queue_blind_fault:
  "fault_raised e site x k (queue_set q s) =
     queue_set (if (policy e = Stop \<or> \<not> k) \<and> k_exit s = None then [] else q) (fault_raised e site x k s)"
proof -
  have "report e f ((queue_set q s)\<lparr>k_faults := n\<rparr>) = queue_set q (report e f (s\<lparr>k_faults := n\<rparr>))" for f n
    by (simp add: report_def emit_trace_def Let_def)
  then show ?thesis by (simp add: fault_raised_def Let_def queue_blind_stop)
qed

lemma ahead_fault:
  assumes "ahead p s t"
  shows "ahead p (fault_raised e site x k s) (fault_raised e site x k t)"
  using assms
proof (cases rule: ahead.cases)
  case (1 q)
  show ?thesis unfolding 1(1) queue_blind_fault by (rule ahead.intros) (use 1(2) in \<open>simp split: option.splits if_splits\<close>)
qed

text \<open>An operation that does not see the queue and does not change it.\<close>

lemma ahead_blind:
  fixes f :: "_ \<Rightarrow> fault + _"
  assumes "ahead p s t" "\<And>q. f (queue_set q s) = map_sum id (map_prod id (queue_set q)) (f s)"
    "\<And>x s'. f s = Inr (x, s') \<Longrightarrow> framed s s'"
  shows "in_step p (f s) (f t)"
  using assms(1)
proof (cases rule: ahead.cases)
  case (1 q)
  show ?thesis
  proof (cases "f s")
    case (Inr a)
    then have "framed s (snd a)" using assms(3) [of "fst a" "snd a"] by simp
    then show ?thesis using Inr 1 by (cases a) (auto simp: assms(2) frame_defs intro: ahead.intros)
  qed (simp add: 1 assms(2))
qed

lemma ahead_blind_state:
  fixes f :: "_ \<Rightarrow> fault + _"
  assumes "ahead p s t" "\<And>q. f (queue_set q s) = map_sum id (queue_set q) (f s)" "\<And>s'. f s = Inr s' \<Longrightarrow> framed s s'"
  shows "rel_sum (=) (ahead p) (f s) (f t)"
  using assms(1)
proof (cases rule: ahead.cases)
  case (1 q)
  show ?thesis
  proof (cases "f s")
    case (Inr a)
    then show ?thesis using 1 assms(3) [OF Inr] by (auto simp: assms(2) frame_defs intro: ahead.intros)
  qed (simp add: 1 assms(2))
qed

lemma ahead_framed:
  assumes "ahead p s t" "\<And>q. f (queue_set q s) = queue_set q (f s)" "framed s (f s)"
  shows "ahead p (f s) (f t)"
  using ahead_blind_state [OF assms(1), of "\<lambda>s. Inr (f s)"] assms(2,3) by simp

lemma ahead_trace: "ahead p s t \<Longrightarrow> ahead p (emit_trace e ev s) (emit_trace e ev t)"
  by (erule ahead_framed) (simp_all add: frame_defs emit_trace_def)

lemma call_handle_ahead:
  assumes "ahead p s t"
  shows "rel_prod (=) (ahead p) (call_handle e x s) (call_handle e x t)"
proof -
  obtain r hs where h: "e_handle e x (k_host s) = (r, hs)" by (cases "e_handle e x (k_host s)")
  have "ahead p (s\<lparr>k_host := hs\<rparr>) (t\<lparr>k_host := hs\<rparr>)" by (rule ahead_upd [OF assms])
  then show ?thesis using h by (auto simp: call_handle_def Let_def ahead_same [OF assms] intro: ahead_push split: sum.split option.split)
qed

lemma read_clock_ahead: "ahead p s t \<Longrightarrow> rel_prod (=) (ahead p) (read_clock e s) (read_clock e t)"
  by (erule ahead.cases, simp add: read_clock_def) (rule aheadI, simp_all)

lemma step_now_ahead:
  assumes "ahead p s t"
  shows "rel_prod (=) (ahead p) (step_now e s) (step_now e t)"
proof -
  have "in_step p (Inr (step_now e s)) (Inr (step_now e t))"
    by (rule ahead_blind [OF assms, of "\<lambda>s. Inr (step_now e s)"]) (simp_all add: step_now_framed)
  then show ?thesis by simp
qed

lemma lift_none: "rel_sum (=) (ahead p) r r' \<Longrightarrow>
    in_step p (andthen r (\<lambda>s. Inr (None :: exc option, s))) (andthen r' (\<lambda>s. Inr (None, s)))"
  by (erule andthen_rel) simp

lemma run_effect_ahead:
  assumes "ahead p s t"
  shows "in_step p (run_effect e c s) (run_effect e c t)"
proof (cases c)
  case (After d m key)
  show ?thesis
  proof (cases "key = []")
    case True
    obtain now s1 t1 where n: "step_now e s = (now, s1)" "step_now e t = (now, t1)" "ahead p s1 t1"
      using step_now_ahead [OF assms, of e] by (cases "step_now e s"; cases "step_now e t") auto
    obtain i h where h: "after (e_ms e) now d (0, m) (k_timers s1) = (i, h)" by (cases "after (e_ms e) now d (0, m) (k_timers s1)")
    show ?thesis using After True n h ahead_upd(12) [OF n(3)] by (simp add: ahead_same [OF n(3)])
  next
    case False
    have "rel_sum (=) (ahead p) (start_keyed_after e d m key s) (start_keyed_after e d m key t)"
      by (rule ahead_blind_state [OF assms]) (simp_all add: start_keyed_after_framed)
    from lift_none [OF this] show ?thesis using After False by simp
  qed
next
  case (Task b w key)
  have "rel_sum (=) (ahead p) (start_keyed_task b w key s) (start_keyed_task b w key t)"
    by (rule ahead_blind_state [OF assms]) (simp_all add: start_keyed_task_framed)
  from lift_none [OF this] show ?thesis using Task ahead_upd(11) [OF assms] by (simp add: ahead_same [OF assms])
next
  case (Cancel key)
  then show ?thesis using ahead_framed [OF assms, of "stop_keyed_task key"] by (simp add: stop_keyed_task_framed)
next
  case (Now f)
  then show ?thesis using read_clock_ahead [OF assms, of e] ahead_push
    by (cases "read_clock e s"; cases "read_clock e t") auto
next
  case (Random f)
  then show ?thesis using ahead_push [OF ahead_upd(13) [OF assms]]
    by (cases "f (k_rng s)") (simp add: ahead_same [OF assms])
next
  case (Quit code)
  then show ?thesis using ahead_upd(14) [OF assms] assms by (simp add: ahead_same [OF assms])
qed (use assms ahead_push [OF assms] call_handle_ahead [OF assms] in simp_all)

lemma interpret_all_ahead:
  assumes "\<And>c s t. c \<in> set cs \<Longrightarrow> ahead p s t \<Longrightarrow> in_step p (interpret_cmd e c s) (interpret_cmd e c t)" "ahead p s t"
  shows "in_step p (interpret_all e cs s) (interpret_all e cs t)"
  using assms
proof (induction cs arbitrary: s t)
  case (Cons c cs)
  have x: "k_exit t = k_exit s" using ahead_same [OF Cons.prems(2)] by simp
  have "in_step p (interpret_cmd e c s) (interpret_cmd e c t)" using Cons.prems by simp
  then have "in_step p
      (andthen (interpret_cmd e c s) (\<lambda>(x, s1). case x of Some _ \<Rightarrow> Inr (x, s1) | None \<Rightarrow> interpret_all e cs s1))
      (andthen (interpret_cmd e c t) (\<lambda>(x, s1). case x of Some _ \<Rightarrow> Inr (x, s1) | None \<Rightarrow> interpret_all e cs s1))"
    by (rule andthen_rel) (use Cons in \<open>auto split: option.split\<close>)
  then show ?case using x Cons.prems by simp
qed simp

lemma interpret_ahead: "ahead p s t \<Longrightarrow> in_step p (interpret_cmd e c s) (interpret_cmd e c t)"
proof (induction c arbitrary: s t)
  case (Batch cs)
  then show ?case using interpret_all_ahead [of cs p e s t] by simp
qed (simp_all add: run_effect_ahead ahead_trace del: run_effect.simps)

lemma program_now_ahead:
  assumes "ahead p s t"
  shows "rel_prod (=) (ahead p) (program_now e s) (program_now e t)"
proof -
  have "in_step p (Inr (program_now e s)) (Inr (program_now e t))"
  proof (rule ahead_blind [OF assms, of "\<lambda>s. Inr (program_now e s)"])
    show "framed s s'" if "Inr (program_now e s) = (Inr (x, s') :: fault + _)" for x s'
      using that step_now_framed [of e s]
      by (auto simp: program_now_def split: program_clock.splits prod.splits)
  qed simp
  then show ?thesis by simp
qed

lemma fold_one_ahead:
  assumes "ahead p s t"
  shows "in_step p (fold_one e m s) (fold_one e m t)"
proof -
  have "ahead p (s\<lparr>k_recorded := k_recorded s @ [m]\<rparr>) (t\<lparr>k_recorded := k_recorded t @ [m]\<rparr>)"
    using ahead_upd(2) [OF assms] by (simp add: ahead_same [OF assms])
  from program_now_ahead [OF this, of e] obtain now s2 t2
    where n: "program_now e (s\<lparr>k_recorded := k_recorded s @ [m]\<rparr>) = (now, s2)"
    "program_now e (t\<lparr>k_recorded := k_recorded t @ [m]\<rparr>) = (now, t2)" and a2: "ahead p s2 t2"
    by (cases "program_now e (s\<lparr>k_recorded := k_recorded s @ [m]\<rparr>)"; cases "program_now e (t\<lparr>k_recorded := k_recorded t @ [m]\<rparr>)") simp
  define s3 t3 where "s3 = (case now of None \<Rightarrow> s2 | Some i \<Rightarrow> s2\<lparr>k_recorded_timed := k_recorded_timed s2 @ [(m, i)]\<rparr>)"
    and "t3 = (case now of None \<Rightarrow> t2 | Some i \<Rightarrow> t2\<lparr>k_recorded_timed := k_recorded_timed t2 @ [(m, i)]\<rparr>)"
  have a3: "ahead p s3 t3" using a2 ahead_upd(3) [OF a2] by (simp add: s3_def t3_def ahead_same [OF a2] split: option.split)
  obtain md r where u: "e_update e (k_model s3) m now = (md, r)" by (cases "e_update e (k_model s3) m now")
  show ?thesis
  proof (cases r)
    case (Inl x)
    have "ahead p (if policy e = Skip then s3 else s3\<lparr>k_model := md\<rparr>) (if policy e = Skip then t3 else t3\<lparr>k_model := md\<rparr>)"
      using a3 ahead_upd(4) [OF a3] by simp
    from ahead_fault [OF this, of e UpdateSite x "policy e = Skip"] show ?thesis using n u Inl ahead_same [OF a3]
      by (cases "policy e = Skip") (simp_all add: fold_one_def Let_def s3_def [symmetric] t3_def [symmetric])
  next
    case (Inr c)
    have a4: "ahead p (emit_trace e (TFold (e_msg_index e m)) (s3\<lparr>k_model := md\<rparr>)) (emit_trace e (TFold (e_msg_index e m)) (t3\<lparr>k_model := md\<rparr>))"
      by (intro ahead_trace ahead_upd a3)
    let ?s4 = "emit_trace e (TFold (e_msg_index e m)) (s3\<lparr>k_model := md\<rparr>)" and ?t4 = "emit_trace e (TFold (e_msg_index e m)) (t3\<lparr>k_model := md\<rparr>)"
    have "ahead p (?s4\<lparr>k_subs_dirty := True, k_folds := k_folds ?s4 + 1\<rparr>) (?t4\<lparr>k_subs_dirty := True, k_folds := k_folds ?t4 + 1\<rparr>)"
      using ahead_upd(5) [OF ahead_upd(1) [OF a4]] by (simp add: ahead_same [OF a3])
    from interpret_ahead [OF this, of e c] have "in_step p
      (andthen (interpret_cmd e c (?s4\<lparr>k_subs_dirty := True, k_folds := k_folds ?s4 + 1\<rparr>)) (\<lambda>(x, s6).
        Inr (True, case x of None \<Rightarrow> s6 | Some ex \<Rightarrow> fault_raised e EffectSite ex True s6)))
      (andthen (interpret_cmd e c (?t4\<lparr>k_subs_dirty := True, k_folds := k_folds ?t4 + 1\<rparr>)) (\<lambda>(x, s6).
        Inr (True, case x of None \<Rightarrow> s6 | Some ex \<Rightarrow> fault_raised e EffectSite ex True s6)))"
      by (rule andthen_rel) (auto intro: ahead_fault split: option.split)
    then show ?thesis using n u Inr ahead_same [OF a3] by (simp add: fold_one_def Let_def s3_def [symmetric] t3_def [symmetric])
  qed
qed

lemma subscribe_now_ahead:
  assumes "ahead p s t"
  shows "rel_sum (=) (ahead p) (subscribe_now e s) (subscribe_now e t)"
proof (cases "e_subscribe e (k_model s)")
  case (Inl x)
  have "ahead p (if e_subs_key e = None then s else s\<lparr>k_subs_key := None\<rparr>) (if e_subs_key e = None then t else t\<lparr>k_subs_key := None\<rparr>)"
    using assms ahead_upd(7) [OF assms] by simp
  from ahead_fault [OF this, of e SubscribeSite x True] show ?thesis
    using Inl by (simp add: subscribe_now_def ahead_same [OF assms] split del: if_split)
next
  case (Inr w)
  have *: "rel_sum (=) (ahead p)
      (andthen (apply_plan e pl (s\<lparr>k_sources := src\<rparr>)) f) (andthen (apply_plan e pl (t\<lparr>k_sources := src\<rparr>)) f)"
    if "\<And>x s t. ahead p s t \<Longrightarrow> rel_sum (=) (ahead p) (f (x, s)) (f (x, t))" for f :: "_ \<Rightarrow> fault + _" and pl src
    by (rule andthen_rel [OF ahead_blind [OF ahead_upd(8) [OF assms]]]) (auto simp: that apply_plan_framed)
  show ?thesis
  proof (cases "reconcile (e_hash e) w (k_sources s)")
    case pl: (Inr a)
    obtain pl src where a: "a = (pl, src)" by (cases a)
    have "ahead p (let s2 = (case x of Some ex \<Rightarrow> fault_raised e EffectSite ex True s1 | None \<Rightarrow> s1)
         in emit_trace e ev (s2\<lparr>k_duplicates := k_duplicates s2 + n\<rparr>))
        (let s2 = (case x of Some ex \<Rightarrow> fault_raised e EffectSite ex True t1 | None \<Rightarrow> t1)
         in emit_trace e ev (s2\<lparr>k_duplicates := k_duplicates s2 + n\<rparr>))" if 1: "ahead p s1 t1" for x s1 t1 ev n
    proof -
      have "ahead p (case x of Some ex \<Rightarrow> fault_raised e EffectSite ex True s1 | None \<Rightarrow> s1)
        (case x of Some ex \<Rightarrow> fault_raised e EffectSite ex True t1 | None \<Rightarrow> t1)"
        using 1 by (simp add: ahead_fault split: option.split)
      from ahead_trace [OF ahead_upd(6) [OF this], of e ev] ahead_same [OF this] show ?thesis by (simp add: Let_def)
    qed
    then show ?thesis using Inr pl a by (simp add: subscribe_now_def ahead_same [OF assms] Let_def *)
  qed (use Inr in \<open>simp add: subscribe_now_def ahead_same [OF assms]\<close>)
qed

lemma kernel_reconcile_ahead:
  assumes "ahead p s t"
  shows "rel_sum (=) (ahead p) (kernel_reconcile e s) (kernel_reconcile e t)"
proof (cases "k_subs_dirty s")
  case True
  have "in_step p (Inr (subs_key_skip e (s\<lparr>k_subs_dirty := False\<rparr>))) (Inr (subs_key_skip e (t\<lparr>k_subs_dirty := False\<rparr>)))"
    by (rule ahead_blind [OF ahead_upd(1) [OF assms], of "\<lambda>s. Inr (subs_key_skip e s)"]) (auto intro: subs_key_skip_keeps)
  then obtain b s1 t1 where b: "subs_key_skip e (s\<lparr>k_subs_dirty := False\<rparr>) = (b, s1)"
    "subs_key_skip e (t\<lparr>k_subs_dirty := False\<rparr>) = (b, t1)" "ahead p s1 t1"
    by (cases "subs_key_skip e (s\<lparr>k_subs_dirty := False\<rparr>)"; cases "subs_key_skip e (t\<lparr>k_subs_dirty := False\<rparr>)") auto
  then show ?thesis using True subscribe_now_ahead [OF b(3), of e] by (simp add: kernel_reconcile_def ahead_same [OF assms])
qed (use assms in \<open>simp add: kernel_reconcile_def ahead_same [OF assms]\<close>)

lemma admit_ahead:
  assumes "ahead p s t"
  shows "in_step p (admit e i s) (admit e i t)"
proof (cases "i = 0")
  case False
  have "rel_sum (=) (ahead p) (if k_subs_dirty s then kernel_reconcile e s else Inr s) (if k_subs_dirty t then kernel_reconcile e t else Inr t)"
    using assms kernel_reconcile_ahead [OF assms, of e] by (simp add: ahead_same [OF assms])
  then have "in_step p
    (andthen (if k_subs_dirty s then kernel_reconcile e s else Inr s) (\<lambda>s1.
       if i \<in> k_live s1 then Inr (True, s1) else Inr (False, s1\<lparr>k_inbox := count_retired (k_inbox s1)\<rparr>)))
    (andthen (if k_subs_dirty t then kernel_reconcile e t else Inr t) (\<lambda>s1.
       if i \<in> k_live s1 then Inr (True, s1) else Inr (False, s1\<lparr>k_inbox := count_retired (k_inbox s1)\<rparr>)))"
  proof (rule andthen_rel)
    fix a b assume "ahead p a b"
    from ahead_same [OF this] ahead_upd(9) [OF this] this
    show "in_step p (if i \<in> k_live a then Inr (True, a) else Inr (False, a\<lparr>k_inbox := count_retired (k_inbox a)\<rparr>))
       (if i \<in> k_live b then Inr (True, b) else Inr (False, b\<lparr>k_inbox := count_retired (k_inbox b)\<rparr>))" by simp
  qed
  then show ?thesis using False by (simp only: admit_def if_False)
qed (use assms in \<open>simp add: admit_def\<close>)

section \<open>One queue, folded from its front\<close>

text \<open>
  The reference: take the first message, decide whether it still counts, fold it with the rest of the
  queue in place, so that what its effects send goes to the end.
\<close>

function fifo_loop ::
    "('md, 'm, 'h, 'o, 'k, 'e, 'ev, 'sk, 'hs) env \<Rightarrow> nat \<Rightarrow> bool \<Rightarrow> ('md, 'm, 'k, 'e, 'sk, 'hs) kernel \<Rightarrow>
     fault + (bool \<times> ('md, 'm, 'k, 'e, 'sk, 'hs) kernel)" where
  "fifo_loop e n ch s =
     (case k_pending s of
        [] \<Rightarrow> Inr (ch, s)
      | q # qs \<Rightarrow>
          if k_exit s \<noteq> None \<or> e_fold_budget e \<le> n then Inr (ch, s)
          else andthen (admit e (fst q) (queue_set qs s)) (\<lambda>(yes, s1).
                 if \<not> yes then fifo_loop e n ch s1
                 else andthen (fold_one e (snd q) s1) (\<lambda>(ok, s2).
                        if k_exit s2 \<noteq> None then Inr (ch \<or> ok, queue_set [] s2)
                        else fifo_loop e (n + 1) (ch \<or> ok) s2)))"
  by pat_completeness auto
termination
proof (relation "measures [\<lambda>(e, n, _, _). e_fold_budget e - n, \<lambda>(_, _, _, s). length (k_pending s)]", goal_cases)
  case (2 e n ch s q qs a yes s1)
  then have "settled (queue_set qs s) s1" using admit_settled by fastforce
  then show ?case using 2 by (auto simp: settled_def front_of_def)
qed auto

declare fifo_loop.simps [simp del]

lemma ahead_noneE:
  assumes "ahead p s t" "k_exit s = None"
  shows "t = queue_set (p @ k_pending s) s"
  using assms by (cases rule: ahead.cases) simp

lemma ahead_someE: "ahead p s t \<Longrightarrow> queue_set q t = queue_set q s"
  by (erule ahead.cases) simp

lemma batch_fifo:
  assumes calm: "\<And>i s b s'. admit e i s = Inr (b, s') \<Longrightarrow> k_exit s = None \<Longrightarrow> k_exit s' = None"
    and "k_exit s = None"
  shows "fifo_loop e n ch (queue_set (qs @ k_pending s) s) =
    andthen (fold_batch e qs n ch s) (\<lambda>(rest, n', ch', s').
      if k_exit s' \<noteq> None then Inr (ch', queue_set [] s') else fifo_loop e n' ch' (queue_set (rest @ k_pending s') s'))"
  using assms(2)
proof (induction qs arbitrary: n ch s)
  case (Cons q qs)
  let ?t = "queue_set (qs @ k_pending s) s"
  show ?case
  proof (cases "e_fold_budget e \<le> n")
    case False
    have "ahead qs s ?t" by (rule ahead.intros) simp
    note r = admit_ahead [OF this, of e "fst q"]
    have u: "fifo_loop e n ch (queue_set ((q # qs) @ k_pending s) s) = andthen (admit e (fst q) ?t) (\<lambda>(yes, s1).
        if \<not> yes then fifo_loop e n ch s1
        else andthen (fold_one e (snd q) s1) (\<lambda>(ok, s2).
               if k_exit s2 \<noteq> None then Inr (ch \<or> ok, queue_set [] s2) else fifo_loop e (n + 1) (ch \<or> ok) s2))"
      using False Cons.prems by (subst fifo_loop.simps) simp
    show ?thesis
    proof (cases "admit e (fst q) s")
      case (Inl x)
      then show ?thesis using r u False by (cases "admit e (fst q) ?t") auto
    next
      case (Inr a)
      obtain yes s1 t1 where a: "a = (yes, s1)" "admit e (fst q) ?t = Inr (yes, t1)" "ahead qs s1 t1"
        using r Inr by (cases a; cases "admit e (fst q) ?t") auto
      have x1: "k_exit s1 = None" using calm Inr a(1) Cons.prems by simp
      have t1: "t1 = queue_set (qs @ k_pending s1) s1" by (rule ahead_noneE [OF a(3) x1])
      note f = fold_one_ahead [OF a(3), of e "snd q"]
      show ?thesis
      proof (cases yes)
        case yes: True
        show ?thesis
        proof (cases "fold_one e (snd q) s1")
          case (Inl x)
          then show ?thesis using f u a Inr yes False by (cases "fold_one e (snd q) t1") auto
        next
          case fo: (Inr b)
          obtain ok s2 t2 where b: "b = (ok, s2)" "fold_one e (snd q) t1 = Inr (ok, t2)" "ahead qs s2 t2"
            using f fo by (cases b; cases "fold_one e (snd q) t1") auto
          show ?thesis
          proof (cases "k_exit s2 = None")
            case True
            then have "t2 = queue_set (qs @ k_pending s2) s2" by (rule ahead_noneE [OF b(3)])
            then show ?thesis using u a Inr yes False b fo True Cons.IH [OF True, of "n + 1" "ch \<or> ok"] by simp
          next
            case x: False
            then show ?thesis using u a Inr yes False b fo ahead_same(14) [OF b(3)] ahead_someE [OF b(3)] by simp
          qed
        qed
      next
        case no: False
        then show ?thesis using u a Inr False t1 Cons.IH [OF x1, of n ch] by simp
      qed
    qed
  qed (use Cons.prems in \<open>simp add: fifo_loop.simps\<close>)
qed simp

lemma fold_loop_fifo:
  assumes calm: "\<And>i s b s'. admit e i s = Inr (b, s') \<Longrightarrow> k_exit s = None \<Longrightarrow> k_exit s' = None"
  shows "fold_loop e n ch s = fifo_loop e n ch s"
  using assms
proof (induction e n ch s rule: fold_loop.induct)
  case (1 e n ch s)
  show ?case
  proof (cases "k_pending s = [] \<or> k_exit s \<noteq> None \<or> e_fold_budget e \<le> n")
    case True
    then show ?thesis by (auto simp: fold_loop.simps fifo_loop.simps split: list.split)
  next
    case False
    have "fifo_loop e n ch s = andthen (fold_batch e (k_pending s) n ch (queue_set [] s)) (\<lambda>(rest, n', ch', s').
        if k_exit s' \<noteq> None then Inr (ch', queue_set [] s') else fifo_loop e n' ch' (queue_set (rest @ k_pending s') s'))"
      using batch_fifo [of e "queue_set [] s" n ch "k_pending s"] 1(2) False by simp
    also have "\<dots> = fold_loop e n ch s"
      using False 1(1) [OF False _ refl refl refl] 1(2)
      by (subst fold_loop.simps) (auto intro!: andthen_cong)
    finally show ?thesis by simp
  qed
qed

section \<open>Where re-subscribing cannot stop the kernel\<close>

text \<open>A source's key and payload are of one kind.\<close>

fun matches :: "'k source_key \<times> ('k, 'e, 'm) sub \<Rightarrow> bool" where
  "matches (EveryKey _ _, Every _ _) = True"
| "matches (StreamKey _, Stream _ _) = True"
| "matches (HostKey _, _) = True"
| "matches _ = False"

lemma want_has_want: "want_has hash k st = Inr (b, st') \<Longrightarrow> rs_want st' = rs_want st"
  by (auto simp: want_has_def split: if_splits sum.splits)

lemma next_ordinal_want: "next_ordinal hash b st = Inr (n, st') \<Longrightarrow> rs_want st' = rs_want st"
  by (auto simp: next_ordinal_def bump_def Let_def split: if_splits sum.splits option.splits prod.splits)

lemma want_add_want: "want_add hash k p st = Inr st' \<Longrightarrow> rs_want st' = rs_want st @ [(k, p)]"
  by (auto simp: want_add_def Let_def split: if_splits sum.splits)

lemma base_key_matches: "base_key x = Some k \<Longrightarrow> matches (with_ordinal n k, x) \<and> matches (k, x)"
  by (cases x) auto

lemma take_leaf_matches:
  assumes "take_leaf hash x st = Inr st'" "\<forall>w \<in> set (rs_want st). matches w"
  shows "\<forall>w \<in> set (rs_want st'). matches w"
proof (cases "base_key x")
  case (Some k)
  then obtain tk st1 where 1: "matches (tk, x)" "rs_want st1 = rs_want st"
    and r: "(case want_has hash tk st1 of Inl e \<Rightarrow> Inl e | Inr (True, st2) \<Rightarrow> Inr (st2\<lparr>rs_dups := rs_dups st2 @ [tk]\<rparr>)
      | Inr (False, st2) \<Rightarrow> want_add hash tk x st2) = Inr st'"
    using assms(1) base_key_matches [OF Some] next_ordinal_want
    by (fastforce simp: take_leaf_def split: if_splits sum.splits)
  then show ?thesis using assms(2)
    by (auto split: sum.splits bool.splits dest!: want_add_want want_has_want)
qed (use assms in \<open>simp add: take_leaf_def\<close>)

lemma take_leaves_matches:
  "take_leaves hash xs st = Inr st' \<Longrightarrow> \<forall>w \<in> set (rs_want st). matches w \<Longrightarrow> \<forall>w \<in> set (rs_want st'). matches w"
proof (induction xs arbitrary: st)
  case (Cons x xs)
  then obtain st1 where "take_leaf hash x st = Inr st1" "take_leaves hash xs st1 = Inr st'" by (auto split: sum.splits)
  then show ?case using Cons.IH take_leaf_matches [OF _ Cons.prems(2)] by blast
qed simp

lemma split_by_subset: "split_by f ws = Inr (ys, ns) \<Longrightarrow> set ys \<subseteq> set ws \<and> set ns \<subseteq> set ws"
proof (induction ws arbitrary: ys ns)
  case (Cons w ws)
  then obtain yes where y: "f (fst w) = Inr yes" by (cases "f (fst w)") auto
  then obtain ys' ns' where s: "split_by f ws = Inr (ys', ns')" using Cons.prems by (cases "split_by f ws") auto
  then have "(if yes then (w # ys', ns') else (ys', w # ns')) = (ys, ns)" using y Cons.prems by simp
  then show ?case using Cons.IH [OF s] by (cases yes) auto
qed simp

lemma reconcile_matches:
  assumes "reconcile hash nxt st = Inr (p, st')"
  shows "\<forall>w \<in> set (pl_start p) \<union> set (pl_keep p). matches w"
proof -
  obtain st1 ix where t: "take_leaves hash (sub_leaves nxt) (st\<lparr>rs_want := [], rs_ordinals := [], rs_dups := [],
      rs_indexed := False, rs_ord_indexed := False\<rparr>) = Inr st1"
    and s: "\<exists>f. split_by f (rs_want st1) = Inr (pl_keep p, pl_start p)"
    using assms unfolding reconcile_def Let_def by (auto split: sum.splits prod.splits if_splits) blast+
  have "\<forall>w \<in> set (rs_want st1). matches w" by (rule take_leaves_matches [OF t]) simp
  then show ?thesis using s split_by_subset by blast
qed

text \<open>
  Either faults are skipped, or neither the program's subscribe nor the host's start and stop of its
  own sources throws.
\<close>

definition calm :: "('md, 'm, 'h, 'o, 'k, 'e, 'ev, 'sk, 'hs) env \<Rightarrow> bool" where
  "calm e \<longleftrightarrow> policy e = Skip \<or>
     ((\<forall>m. \<exists>w. e_subscribe e m = Inr w) \<and> (\<forall>p k hs. fst (e_start_source e p k hs) = None) \<and>
      (\<forall>k hs. fst (e_stop_source e k hs) = None))"

lemma each_none:
  assumes "each f as s = Inr (x, s')" "\<And>a s y s'. a \<in> set as \<Longrightarrow> f a s = Inr (y, s') \<Longrightarrow> y = None"
  shows "x = None"
  using assms
proof (induction as arbitrary: s)
  case (Cons a as)
  then obtain y s1 where 1: "f a s = Inr (y, s1)" "(case y of Some _ \<Rightarrow> Inr (y, s1) | None \<Rightarrow> each f as s1) = Inr (x, s')"
    by (auto simp: andthen_Inr)
  moreover have "y = None" using Cons.prems(2) [OF _ 1(1)] by simp
  ultimately show ?case using Cons.IH Cons.prems(2) by fastforce
qed simp

lemma start_source_none:
  assumes "start_source e kp s = Inr (x, s')" "matches kp" "\<forall>p k hs. fst (e_start_source e p k hs) = None"
  shows "x = None"
proof (cases kp rule: matches.cases)
  case (3 hk p)
  have "fst (e_start_source e p hk (k_host s)) = None" using assms(3) by blast
  then show ?thesis using assms(1) 3 by (cases "e_start_source e p hk (k_host s)") (simp add: start_source_def)
qed (use assms(1,2) in \<open>auto simp: start_source_def andthen_Inr\<close>)

lemma keep_source_none:
  assumes "keep_source kp s = Inr (x, s')" "matches kp"
  shows "x = None"
  using assms by (cases kp rule: matches.cases) (auto simp: keep_source_def split: option.splits)

lemma stop_source_none:
  assumes "stop_source e k s = Inr (x, s')" "\<forall>k hs. fst (e_stop_source e k hs) = None"
  shows "x = None"
proof (cases k)
  case (HostKey hk)
  have "fst (e_stop_source e hk (k_host s)) = None" using assms(2) by blast
  then show ?thesis using assms(1) HostKey by (cases "e_stop_source e hk (k_host s)") (simp add: stop_source_def)
qed (use assms(1) in \<open>simp_all add: stop_source_def\<close>)

lemma apply_plan_none:
  assumes a: "apply_plan e p s = Inr (x, s')" and m: "\<forall>w \<in> set (pl_start p) \<union> set (pl_keep p). matches w"
    and q: "\<forall>p k hs. fst (e_start_source e p k hs) = None" "\<forall>k hs. fst (e_stop_source e k hs) = None"
  shows "x = None"
proof -
  have st: "y = None" if h: "each (stop_source e) ks s1 = Inr (y, s2)" for ks s1 y s2
    by (rule each_none [OF h]) (rule stop_source_none [OF _ q(2)])
  have kp: "y = None" if h: "each keep_source (pl_keep p) s1 = Inr (y, s2)" for s1 y s2
    by (rule each_none [OF h]) (use m keep_source_none in blast)
  have sr: "y = None" if h: "each (start_source e) (pl_start p) s1 = Inr (y, s2)" for s1 y s2
    by (rule each_none [OF h]) (use m start_source_none q(1) in blast)
  show ?thesis using a by (cases rule: apply_plan_cases) (auto dest: st kp sr)
qed

lemma calm_reconcile:
  assumes "calm e" "kernel_reconcile e s = Inr s'"
  shows "k_exit s' = k_exit s"
proof (cases "k_subs_dirty s")
  case True
  obtain b s1 where 1: "subs_key_skip e (s\<lparr>k_subs_dirty := False\<rparr>) = (b, s1)"
    by (cases "subs_key_skip e (s\<lparr>k_subs_dirty := False\<rparr>)")
  have x1: "k_exit s1 = k_exit s" using subs_key_skip_keeps(1) [OF 1] by (simp add: frame_defs)
  show ?thesis
  proof (cases b)
    case False
    then have "subscribe_now e s1 = Inr s'" using assms(2) True 1 by (simp add: kernel_reconcile_def)
    then show ?thesis
    proof (cases rule: subscribe_now_elim)
      case (threw x)
      have "policy e = Skip" using assms(1) threw(1) by (auto simp: calm_def dest!: spec [of _ "k_model s1"])
      then show ?thesis using x1 threw(2) by (simp split: option.split)
    next
      case (planned w p src x s2 s3)
      have "policy e = Skip \<or> x = None"
        using assms(1) apply_plan_none [OF planned(3) reconcile_matches [OF planned(2)]] by (auto simp: calm_def)
      moreover have "k_exit s2 = k_exit s1" using apply_plan_framed [OF planned(3)] by (simp add: frame_defs)
      ultimately show ?thesis using x1 planned(4,5) by (auto split: option.split)
    qed
  qed (use assms(2) True 1 x1 in \<open>simp add: kernel_reconcile_def\<close>)
qed (use assms(2) in \<open>simp add: kernel_reconcile_def\<close>)

lemma calm_admit:
  assumes "calm e" "admit e i s = Inr (b, s')"
  shows "k_exit s' = k_exit s"
  using assms calm_reconcile [OF assms(1)] by (auto simp: admit_def andthen_Inr split: if_splits)

lemma fold_pending_is_fifo: "calm e \<Longrightarrow> fold_pending e s = fifo_loop e 0 False s"
  unfolding fold_pending_def by (rule fold_loop_fifo) (simp add: calm_admit)

section \<open>Messages of a retired origin have no influence\<close>

definition blank :: "origin_id \<Rightarrow> 'm \<Rightarrow> (origin_id \<times> 'm) list \<Rightarrow> (origin_id \<times> 'm) list" where
  "blank i x qs = map (\<lambda>q. if fst q = i then (i, x) else q) qs"

definition blank_queue ::
    "origin_id \<Rightarrow> 'm \<Rightarrow> ('md, 'm, 'k, 'e, 'sk, 'hs) kernel \<Rightarrow> ('md, 'm, 'k, 'e, 'sk, 'hs) kernel" where
  "blank_queue i x s = queue_set (blank i x (k_pending s)) s"

lemma blank_simps [simp]:
  "blank i x [] = []" "blank i x (q # qs) = (if fst q = i then (i, x) else q) # blank i x qs"
  "blank i x (qs @ rs) = blank i x qs @ blank i x rs" "blank i x qs = [] \<longleftrightarrow> qs = []"
  by (simp_all add: blank_def)

lemma blank_other: "\<forall>q \<in> set qs. fst q \<noteq> i \<Longrightarrow> blank i x qs = qs"
  unfolding blank_def by (rule map_idI) simp

lemma admit_gone:
  assumes "gone i s" "admit e i s = Inr (b, s')"
  shows "\<not> b"
proof -
  have "gone i s'" by (rule retired.steps.admit_keeps [OF assms(2,1)])
  then show ?thesis using assms by (auto simp: gone_def admit_def andthen_Inr split: if_splits)
qed

lemma fold_batch_blank:
  assumes "gone i s"
  shows "fold_batch e (blank i x qs) n ch s =
    map_sum id (\<lambda>(rest, n', ch', s'). (blank i x rest, n', ch', s')) (fold_batch e qs n ch s)"
  using assms
proof (induction qs arbitrary: n ch s)
  case (Cons q qs)
  show ?case
  proof (cases "e_fold_budget e \<le> n")
    case False
    show ?thesis
    proof (cases "admit e (fst q) s")
      case (Inr a)
      obtain yes s1 where a: "a = (yes, s1)" by (cases a)
      have g1: "gone i s1" using retired.steps.admit_keeps [OF _ Cons.prems] Inr a by blast
      show ?thesis
      proof (cases yes)
        case True
        then have q: "fst q \<noteq> i" using admit_gone [OF Cons.prems] Inr a by auto
        show ?thesis
        proof (cases "fold_one e (snd q) s1")
          case fo: (Inr b)
          obtain ok s2 where b: "b = (ok, s2)" by (cases b)
          have "gone i s2" using retired.fold_one_keeps [OF _ g1] fo b by blast
          then show ?thesis using Cons.IH Inr a True fo b False q by simp
        qed (use Inr a True False q in simp)
      next
        case no: False
        have "fst (if fst q = i then (i, x) else q) = fst q" by simp
        then show ?thesis using Cons.IH [OF g1, of n ch] Inr a False no by (simp only: fold_batch.simps blank_simps) simp
      qed
    next
      case (Inl f)
      have "fst (if fst q = i then (i, x) else q) = fst q" by simp
      then show ?thesis using Inl False by (simp only: fold_batch.simps blank_simps) simp
    qed
  qed simp
qed simp

lemma fold_one_appends:
  assumes "fold_one e m s = Inr (ok, s')" "\<forall>q \<in> set (k_pending s). fst q = 0"
  shows "\<forall>q \<in> set (k_pending s'). fst q = 0"
proof -
  obtain now s2 where 1: "program_now e (s\<lparr>k_recorded := k_recorded s @ [m]\<rparr>) = (now, s2)"
    by (cases "program_now e (s\<lparr>k_recorded := k_recorded s @ [m]\<rparr>)")
  let ?s3 = "case now of None \<Rightarrow> s2 | Some t \<Rightarrow> s2\<lparr>k_recorded_timed := k_recorded_timed s2 @ [(m, t)]\<rparr>"
  have p3: "k_pending ?s3 = k_pending s"
    using 1 step_now_framed [of e "s\<lparr>k_recorded := k_recorded s @ [m]\<rparr>"]
    by (auto simp: program_now_def frame_defs split: program_clock.splits prod.splits option.split)
  obtain md r where u: "e_update e (k_model ?s3) m now = (md, r)" by (cases "e_update e (k_model ?s3) m now")
  show ?thesis
  proof (cases r)
    case (Inl x)
    then show ?thesis using assms 1 u p3 by (auto simp: fold_one_def Let_def split: if_splits)
  next
    case (Inr c)
    let ?s5 = "emit_trace e (TFold (e_msg_index e m)) (?s3\<lparr>k_model := md\<rparr>)"
    obtain x s6 where i: "interpret_cmd e c (?s5\<lparr>k_subs_dirty := True, k_folds := k_folds ?s5 + 1\<rparr>) = Inr (x, s6)"
      and s': "s' = (case x of None \<Rightarrow> s6 | Some ex \<Rightarrow> fault_raised e EffectSite ex True s6)"
      using assms(1) 1 u Inr by (auto simp: fold_one_def andthen_Inr Let_def)
    obtain ms where "k_pending s6 = k_pending s @ map (Pair 0) ms"
      using interpret_effected [OF i] p3 by (auto simp: effected_def)
    then show ?thesis using s' assms(2) by (auto split: option.splits if_splits)
  qed
qed

lemma fold_batch_appends:
  "fold_batch e qs n ch s = Inr (rest, n', ch', s') \<Longrightarrow> \<forall>q \<in> set (k_pending s). fst q = 0 \<Longrightarrow>
   \<forall>q \<in> set (k_pending s'). fst q = 0"
proof (induction qs arbitrary: n ch s)
  case (Cons q qs)
  show ?case
  proof (cases "e_fold_budget e \<le> n")
    case False
    then obtain yes s1 where a: "admit e (fst q) s = Inr (yes, s1)"
      and r: "(if \<not> yes then fold_batch e qs n ch s1
             else andthen (fold_one e (snd q) s1) (\<lambda>(ok, s2).
                    if k_exit s2 \<noteq> None then Inr (qs, n + 1, ch \<or> ok, s2)
                    else fold_batch e qs (n + 1) (ch \<or> ok) s2)) = Inr (rest, n', ch', s')"
      using Cons.prems(1) by (auto simp: andthen_Inr)
    have 1: "\<forall>q \<in> set (k_pending s1). fst q = 0"
      using admit_settled [OF a] Cons.prems(2) by (auto simp: settled_def front_of_def)
    show ?thesis
    proof (cases yes)
      case True
      then obtain ok s2 where f: "fold_one e (snd q) s1 = Inr (ok, s2)" and r': "(if k_exit s2 \<noteq> None
          then Inr (qs, n + 1, ch \<or> ok, s2) else fold_batch e qs (n + 1) (ch \<or> ok) s2) = Inr (rest, n', ch', s')"
        using r by (auto simp: andthen_Inr)
      have 2: "\<forall>q \<in> set (k_pending s2). fst q = 0" by (rule fold_one_appends [OF f 1])
      then show ?thesis using r' Cons.IH [OF _ 2] by (simp split: if_splits)
    qed (use r Cons.IH [OF _ 1] in simp)
  qed (use Cons.prems in auto)
qed simp

lemma fold_loop_blank:
  assumes "gone i s"
  shows "fold_loop e n ch (blank_queue i x s) = map_sum id (map_prod id (blank_queue i x)) (fold_loop e n ch s)"
  using assms
proof (induction e n ch s rule: fold_loop.induct)
  case (1 e n ch s)
  show ?case
  proof (cases "k_pending s = [] \<or> k_exit s \<noteq> None \<or> e_fold_budget e \<le> n")
    case True
    then show ?thesis by (auto simp: fold_loop.simps blank_queue_def)
  next
    case False
    have g: "gone i (queue_set [] s)" by (rule retired.same [OF 1(2)]) simp
    have u: "fold_loop e n ch t = andthen (fold_batch e (k_pending t) n ch (queue_set [] t)) (\<lambda>(rest, n', ch', s').
        if k_exit s' \<noteq> None then Inr (ch', queue_set [] s') else fold_loop e n' ch' (queue_set (rest @ k_pending s') s'))"
      if "t = s \<or> t = blank_queue i x s" for t
      using that False by (subst fold_loop.simps) (auto simp: blank_queue_def)
    show ?thesis
    proof (cases "fold_batch e (k_pending s) n ch (queue_set [] s)")
      case (Inl f)
      then show ?thesis using u fold_batch_blank [OF g, of e x "k_pending s" n ch] by (simp add: blank_queue_def)
    next
      case (Inr r)
      obtain rest n' ch' s' where r: "r = (rest, n', ch', s')" by (cases r)
      have b: "fold_batch e (blank i x (k_pending s)) n ch (queue_set [] s) = Inr (blank i x rest, n', ch', s')"
        using fold_batch_blank [OF g, of e x "k_pending s" n ch] Inr r by simp
      have "i \<noteq> 0" using 1(2) by (simp add: gone_def)
      then have q: "blank i x (k_pending s') = k_pending s'"
        using fold_batch_appends [of e "k_pending s" n ch "queue_set [] s"] Inr r by (intro blank_other) auto
      have g': "gone i (queue_set (rest @ k_pending s') s')"
        by (rule retired.same [OF retired.steps.fold_batch_keeps [OF _ g]]) (use Inr r in auto)
      show ?thesis
      proof (cases "k_exit s' = None")
        case True
        then show ?thesis using u b Inr r q 1(1) [OF False Inr [unfolded r] refl refl refl _ g'] by (simp add: blank_queue_def)
      qed (use u b Inr r in \<open>simp add: blank_queue_def\<close>)
    qed
  qed
qed

end
