(* ===== verification/Kernel_Props.thy ===== *)
theory Kernel_Props
  imports Kernel_Fold
begin

text \<open>
  What the kernel promises, each at a concrete program too: the order of folding, its progress, the
  bookkeeping of origins, cancellation, quitting, faults and shutdown.
\<close>

section \<open>A program to run the statements on\<close>

text \<open>
  A counter. Message 0 adds one; 1 cancels the job \<open>t\<close>, 2 starts it, 3 quits with code 5, 4 throws after
  spoiling the model, 5 sends two more messages; every other message adds its own value. While the
  counter is below ten a timer ticks every 50 milliseconds.
\<close>

definition demo_update :: "nat \<Rightarrow> nat \<Rightarrow> time_point option \<Rightarrow> nat \<times> (exc + (unit, unit, nat) cmd)" where
  "demo_update md m now =
     (if m = 0 then (md + 1, Inr CNone)
      else if m = 1 then (md, Inr (Cancel ''t''))
      else if m = 2 then (md, Inr (Task (Done ()) Pool ''t''))
      else if m = 3 then (md, Inr (Quit 5))
      else if m = 4 then (md + 100, Inl OtherException)
      else if m = 5 then (md, Inr (Batch [Send 0, Send 6]))
      else (md + m, Inr CNone))"

definition demo :: "fault_policy \<Rightarrow> (nat, nat, unit, unit, unit, unit, nat, nat, nat) env" where
  "demo pol =
     \<lparr>e_init = (0, CNone), e_update = demo_update,
      e_subscribe = (\<lambda>md. Inr (if md < 10 then Every 50 0 else SNone)),
      e_on = (\<lambda>md ev. Inr (Some ev)), e_subs_key = None, e_copyable = True, e_msg_index = id,
      e_handle = (\<lambda>x hs. (Inr None, hs)), e_fx_name = (\<lambda>_. []), e_start_source = (\<lambda>p k hs. (None, hs)),
      e_stop_source = (\<lambda>k hs. (None, hs)), e_clock = (\<lambda>n. 10 * int n), e_ms = 1, e_pclock = Unclocked,
      e_hash = (\<lambda>_. 0), e_ndebug = True, e_fold_budget = 4, e_on_fault = pol, e_trace = False, e_wake = True,
      e_capacity = 0, e_on_full = Block, e_random_seed = 1, e_picked_seed = 1, e_abandoned = 0\<rparr>"

definition demo_start :: "fault_policy \<Rightarrow> (nat, nat, unit, unit, nat, nat) kernel" where
  "demo_start pol = projr (start (demo pol) 0)"

lemma demo_calm: "calm (demo pol)"
  by (simp add: calm_def demo_def)

lemma Inr_pairI: "\<not> isl r \<Longrightarrow> fst (projr r) = a \<Longrightarrow> r = Inr (a, snd (projr r))"
  by (cases r) auto

lemma demo_starts: "start (demo pol) 0 = Inr (demo_start pol)"
proof -
  have "\<not> isl (start (demo Stop) 0)" "\<not> isl (start (demo Skip) 0)" by code_simp+
  then have "\<not> isl (start (demo pol) 0)" by (cases pol) simp_all
  then show ?thesis by (simp add: demo_start_def)
qed

lemma demo_reach: "kreach (demo pol) (demo_start pol)"
  by (rule kr_start [OF demo_starts])

section \<open>Folding\<close>

text \<open>Before the update runs a message is recorded, and with it the program's moment.\<close>

definition noted ::
    "('md, 'm, 'h, 'o, 'k, 'e, 'ev, 'sk, 'hs) env \<Rightarrow> 'm \<Rightarrow> ('md, 'm, 'k, 'e, 'sk, 'hs) kernel \<Rightarrow>
     time_point option \<times> ('md, 'm, 'k, 'e, 'sk, 'hs) kernel" where
  "noted e m s =
     (let (now, s2) = program_now e (s\<lparr>k_recorded := k_recorded s @ [m]\<rparr>)
      in (now, case now of None \<Rightarrow> s2 | Some t \<Rightarrow> s2\<lparr>k_recorded_timed := k_recorded_timed s2 @ [(m, t)]\<rparr>))"

lemma noted_frame:
  assumes "noted e m s = (now, s')"
  shows "k_recorded s' = k_recorded s @ [m]"
    "k_recorded_timed s' = k_recorded_timed s @ (case now of None \<Rightarrow> [] | Some t \<Rightarrow> [(m, t)])"
    "k_model s' = k_model s" "k_pending s' = k_pending s" "k_exit s' = k_exit s" "k_faults s' = k_faults s"
    "k_reports s' = k_reports s" "k_subs_dirty s' = k_subs_dirty s" "k_sources s' = k_sources s"
    "k_timer_of s' = k_timer_of s" "k_streams s' = k_streams s" "k_subs_key s' = k_subs_key s"
    "k_distrusted s' = k_distrusted s" "k_down s' = k_down s"
  using assms
  by (auto simp: noted_def program_now_def step_now_def read_clock_def Let_def
    split: program_clock.splits if_splits prod.splits option.splits)

text \<open>The state in which the command of an update that returned runs.\<close>

definition updated ::
    "('md, 'm, 'h, 'o, 'k, 'e, 'ev, 'sk, 'hs) env \<Rightarrow> 'm \<Rightarrow> 'md \<Rightarrow> ('md, 'm, 'k, 'e, 'sk, 'hs) kernel \<Rightarrow>
     ('md, 'm, 'k, 'e, 'sk, 'hs) kernel" where
  "updated e m md s = (let s4 = emit_trace e (TFold (e_msg_index e m)) (s\<lparr>k_model := md\<rparr>)
     in s4\<lparr>k_subs_dirty := True, k_folds := k_folds s4 + 1\<rparr>)"

lemma updated_frame [simp]:
  "k_model (updated e m md s) = md" "k_subs_dirty (updated e m md s)" "k_recorded (updated e m md s) = k_recorded s"
  "k_recorded_timed (updated e m md s) = k_recorded_timed s"
  "k_exit (updated e m md s) = k_exit s" "k_sources (updated e m md s) = k_sources s" "k_timer_of (updated e m md s) = k_timer_of s"
  "k_streams (updated e m md s) = k_streams s" "k_subs_key (updated e m md s) = k_subs_key s"
  "k_distrusted (updated e m md s) = k_distrusted s" "k_down (updated e m md s) = k_down s"
  by (simp_all add: updated_def Let_def)

lemma fold_one_noted:
  "fold_one e m s =
     (let (now, s3) = noted e m s
      in case e_update e (k_model s3) m now of
           (md, Inl x) \<Rightarrow> Inr (False, fault_raised e UpdateSite x (policy e = Skip) (if policy e = Skip then s3 else s3\<lparr>k_model := md\<rparr>))
         | (md, Inr c) \<Rightarrow> andthen (interpret_cmd e c (updated e m md s3)) (\<lambda>(x, s6).
             Inr (True, case x of None \<Rightarrow> s6 | Some ex \<Rightarrow> fault_raised e EffectSite ex True s6)))"
  by (simp add: fold_one_def noted_def updated_def Let_def split: prod.split)

lemma fold_one_elim:
  assumes "fold_one e m s = Inr (ok, s')"
  obtains (threw) now s3 md x where "noted e m s = (now, s3)" "e_update e (k_model s) m now = (md, Inl x)" "\<not> ok"
      "s' = fault_raised e UpdateSite x (policy e = Skip) (if policy e = Skip then s3 else s3\<lparr>k_model := md\<rparr>)"
  | (returned) now s3 md c x s6 where "noted e m s = (now, s3)" "e_update e (k_model s) m now = (md, Inr c)" "ok"
      "interpret_cmd e c (updated e m md s3) = Inr (x, s6)"
      "s' = (case x of None \<Rightarrow> s6 | Some ex \<Rightarrow> fault_raised e EffectSite ex True s6)"
proof -
  obtain now s3 where n: "noted e m s = (now, s3)" by fastforce
  note k = noted_frame(3) [OF n]
  obtain md res where u: "e_update e (k_model s) m now = (md, res)" by fastforce
  show thesis
  proof (cases res)
    case (Inl x)
    then show thesis using assms n u k by (intro threw [of now s3 md x]) (simp_all add: fold_one_noted)
  next
    case (Inr c)
    then obtain x s6 where "interpret_cmd e c (updated e m md s3) = Inr (x, s6)" "ok"
      "s' = (case x of None \<Rightarrow> s6 | Some ex \<Rightarrow> fault_raised e EffectSite ex True s6)"
      using assms n u k by (auto simp: fold_one_noted andthen_Inr)
    then show thesis using returned n u Inr by blast
  qed
qed

text \<open>What a message, a batch and the loop over batches add to the record, and when they stop.\<close>

lemma fold_one_records:
  assumes "fold_one e m s = Inr (ok, s')"
  shows "k_recorded s' = k_recorded s @ [m]" "k_exit s \<noteq> None \<longrightarrow> k_exit s' = k_exit s"
proof -
  have "k_recorded s' = k_recorded s @ [m] \<and> (k_exit s \<noteq> None \<longrightarrow> k_exit s' = k_exit s)"
    using assms
  proof (cases rule: fold_one_elim)
    case (threw now s3 md x)
    then show ?thesis using noted_frame(1,5) [OF threw(1)] by auto
  next
    case (returned now s3 md c x s6)
    then show ?thesis using noted_frame(1,5) [OF returned(1)] interpret_effected [OF returned(4)]
      by (auto simp: effected_def split: option.split)
  qed
  then show "k_recorded s' = k_recorded s @ [m]" "k_exit s \<noteq> None \<longrightarrow> k_exit s' = k_exit s" by blast+
qed

lemma fold_batch_records:
  assumes "fold_batch e qs n ch s = Inr (rest, n', ch', s')"
  shows "\<exists>ms. k_recorded s' = k_recorded s @ ms \<and> n' = n + length ms \<and> (n \<le> e_fold_budget e \<longrightarrow> n' \<le> e_fold_budget e)"
  using assms
proof (induction qs arbitrary: n ch s)
  case (Cons q qs)
  show ?case
  proof (cases "e_fold_budget e \<le> n")
    case False
    then obtain yes s1 where a: "admit e (fst q) s = Inr (yes, s1)"
      and r: "(if \<not> yes then fold_batch e qs n ch s1
             else andthen (fold_one e (snd q) s1) (\<lambda>(ok, s2).
                    if k_exit s2 \<noteq> None then Inr (qs, n + 1, ch \<or> ok, s2)
                    else fold_batch e qs (n + 1) (ch \<or> ok) s2)) = Inr (rest, n', ch', s')"
      using Cons.prems by (auto simp: andthen_Inr)
    have eq: "k_recorded s1 = k_recorded s" using admit_settled [OF a] by (simp add: settled_def rest_of_def)
    show ?thesis
    proof (cases yes)
      case True
      then obtain ok s2 where f: "fold_one e (snd q) s1 = Inr (ok, s2)"
        and r2: "(if k_exit s2 \<noteq> None then Inr (qs, n + 1, ch \<or> ok, s2)
            else fold_batch e qs (n + 1) (ch \<or> ok) s2) = Inr (rest, n', ch', s')"
        using r by (auto simp: andthen_Inr)
      have 2: "k_recorded s2 = k_recorded s @ [snd q]" using fold_one_records(1) [OF f] eq by simp
      show ?thesis
      proof (cases "k_exit s2 = None")
        case True
        then obtain ms where "k_recorded s' = k_recorded s2 @ ms" "n' = n + 1 + length ms"
          "n + 1 \<le> e_fold_budget e \<longrightarrow> n' \<le> e_fold_budget e" using r2 Cons.IH by fastforce
        then show ?thesis using 2 False by (intro exI [of _ "snd q # ms"]) auto
      qed (use r2 2 False in \<open>auto intro: exI [of _ "[snd q]"]\<close>)
    next
      case no: False
      then show ?thesis using Cons.IH [of n ch s1] r eq by simp
    qed
  qed (use Cons.prems in auto)
qed simp

lemma fold_loop_records:
  assumes "fold_loop e n ch s = Inr (ch', s')" "n \<le> e_fold_budget e"
  shows "\<exists>ms. k_recorded s' = k_recorded s @ ms \<and> n + length ms \<le> e_fold_budget e \<and>
    (k_exit s' \<noteq> None \<or> k_pending s' = [] \<or> n + length ms = e_fold_budget e)"
  using assms
proof (induction e n ch s rule: fold_loop.induct)
  case (1 e n ch s)
  show ?case
  proof (cases "k_pending s = [] \<or> k_exit s \<noteq> None \<or> e_fold_budget e \<le> n")
    case False
    then obtain rest n' c s1 where b: "fold_batch e (k_pending s) n ch (s\<lparr>k_pending := []\<rparr>) = Inr (rest, n', c, s1)"
      and r: "(if k_exit s1 \<noteq> None then Inr (c, s1\<lparr>k_pending := []\<rparr>)
             else fold_loop e n' c (s1\<lparr>k_pending := rest @ k_pending s1\<rparr>)) = Inr (ch', s')"
      using 1(2) by (subst (asm) fold_loop.simps) (auto simp: andthen_Inr)
    obtain ms where m: "k_recorded s1 = k_recorded s @ ms" "n' = n + length ms" "n' \<le> e_fold_budget e"
      using fold_batch_records [OF b] 1(3) by auto
    show ?thesis
    proof (cases "k_exit s1 = None")
      case True
      then obtain ms' where "k_recorded s' = k_recorded s1 @ ms'" "n' + length ms' \<le> e_fold_budget e"
        "k_exit s' \<noteq> None \<or> k_pending s' = [] \<or> n' + length ms' = e_fold_budget e"
        using 1(1) [of "(rest, n', c, s1)" rest "(n', c, s1)" n' "(c, s1)" c s1] False b r m(3) by auto
      then show ?thesis using m by (intro exI [of _ "ms @ ms'"]) auto
    qed (use r m in auto)
  qed (use 1(2,3) fold_loop.simps [of e n ch s] in auto)
qed

text \<open>C2: folding in batches is folding one queue in order. Where no fault can interrupt a batch (the
  policy in force is \<^verbatim>\<open>skip\<close>, or neither subscribing nor the host's sources throw), the loop that takes
  the whole queue out, folds it as a batch and puts what is left before what arrived meanwhile behaves
  exactly as one that takes the oldest message each time: state, result, faults and all.\<close>

theorem kernel_fold_fifo:
  assumes "calm e"
  shows "fold_pending e s = fifo_loop e 0 False s"
  by (rule fold_pending_is_fifo [OF assms])

theorem kernel_fold_fifo_witness:
  "fold_pending (demo Stop) (dispatch 6 (dispatch 5 (demo_start Stop))) =
   fifo_loop (demo Stop) 0 False (dispatch 6 (dispatch 5 (demo_start Stop)))"
  by (rule kernel_fold_fifo [OF demo_calm])

text \<open>C6: a turn makes progress and is bounded. Folding takes at most the budget's number of messages,
  and it ends only because the queue is empty, the program quit or a fault stopped it, or exactly the budget was used.\<close>

theorem fold_progress:
  assumes "fold_pending e s = Inr (ch, s')"
  shows "\<exists>ms. k_recorded s' = k_recorded s @ ms \<and> length ms \<le> e_fold_budget e \<and>
    (k_exit s' \<noteq> None \<or> k_pending s' = [] \<or> length ms = e_fold_budget e)"
  using fold_loop_records [OF assms [unfolded fold_pending_def]] by simp

theorem fold_progress_witness:
  "\<exists>ch s' ms. fold_pending (demo Skip) (dispatch 7 (dispatch 5 (demo_start Skip))) = Inr (ch, s') \<and>
     k_recorded s' = [5, 7, 0, 6] @ [] \<and> k_recorded s' = k_recorded (demo_start Skip) @ ms \<and> length ms = 4"
proof -
  let ?s = "dispatch 7 (dispatch 5 (demo_start Skip))"
  obtain ch s' where f: "fold_pending (demo Skip) ?s = Inr (ch, s')"
  proof -
    have "\<not> isl (fold_pending (demo Skip) ?s)" by code_simp
    then show thesis using that by (metis prod.collapse sum.collapse(2))
  qed
  have k: "k_recorded (snd (projr (fold_pending (demo Skip) ?s))) = [5, 7, 0, 6]"
    "k_recorded (demo_start Skip) = []" "k_recorded ?s = []" by code_simp+
  have r: "k_recorded s' = [5, 7, 0, 6]" using k(1) f by simp
  obtain ms where m: "k_recorded s' = k_recorded ?s @ ms" "length ms \<le> e_fold_budget (demo Skip)"
    using fold_progress [OF f] by blast
  then have "ms = [5, 7, 0, 6]" using r k(3) by simp
  then show ?thesis using f r k(2) by auto
qed

section \<open>Running work\<close>

text \<open>C5: in every state the kernel can be in, each running timer, stream and keyed job has an origin of
  its own, never shared and never zero; the loop's live set and the mailbox's agree and hold all of them;
  no key has two runs.\<close>

theorem kernel_origins:
  assumes "kreach e s"
  shows "orig_inv s"
  by (rule running.steps.kreach_keeps [OF assms fresh_orig_inv])

theorem kernel_origins_witness: "orig_inv (dispatch 2 (demo_start Skip))"
  by (rule kernel_origins [OF kr_step [OF demo_reach ks_dispatch]])


definition demo_job :: "(nat, nat, unit, unit, nat, nat) kernel" where
  "demo_job = snd (projr (route (demo Skip) 2 (demo_start Skip)))"

lemma demo_job_reach: "kreach (demo Skip) demo_job"
proof -
  have "\<not> isl (route (demo Skip) 2 (demo_start Skip))" by code_simp
  then have "route (demo Skip) 2 (demo_start Skip) = Inr (fst (projr (route (demo Skip) 2 (demo_start Skip))), demo_job)"
    by (simp add: demo_job_def)
  then show ?thesis by (rule kr_step [OF demo_reach ks_route])
qed


section \<open>Quitting, faults, shutdown\<close>

lemma retire_each_records [simp]: "k_recorded (retire_each is s) = k_recorded s"
  by (induction "is" arbitrary: s) simp_all

lemma shutdown_frame [simp]:
  "k_exit (shutdown e s) = k_exit s" "k_model (shutdown e s) = k_model s" "k_recorded (shutdown e s) = k_recorded s"
  by (simp_all add: shutdown_def Let_def)



text \<open>C9: an update that throws. It counts one fault and files one report. Under \<^verbatim>\<open>skip\<close> the model is what
  it was before the message and the loop goes on; under \<^verbatim>\<open>stop\<close> the kernel takes exit code 70 and drops
  its queue. Its command never runs, and subscriptions are not asked for again on its account.\<close>

theorem fold_fault:
  assumes "e_update e (k_model s) m (fst (program_now e (s\<lparr>k_recorded := k_recorded s @ [m]\<rparr>))) = (md, Inl x)"
    "k_exit s = None"
  shows "\<exists>s'. fold_one e m s = Inr (False, s') \<and> k_faults s' = k_faults s + 1 \<and>
    (\<exists>f. k_reports s' = k_reports s @ [f] \<and> f_site f = UpdateSite \<and> f_error f = Some x \<and>
      f_model_kept f = (policy e = Skip) \<and> f_stopping f = (policy e = Stop)) \<and>
    k_subs_dirty s' = k_subs_dirty s \<and>
    (policy e = Skip \<longrightarrow> k_model s' = k_model s \<and> k_exit s' = None \<and> k_pending s' = k_pending s) \<and>
    (policy e = Stop \<longrightarrow> k_model s' = md \<and> k_exit s' = Some 70 \<and> k_pending s' = [])"
proof -
  obtain now s3 where n: "noted e m s = (now, s3)" by fastforce
  note k = noted_frame(3-8) [OF n]
  have "fst (program_now e (s\<lparr>k_recorded := k_recorded s @ [m]\<rparr>)) = now" using n by (auto simp: noted_def split: prod.splits)
  then have "fold_one e m s = Inr (False, fault_raised e UpdateSite x (policy e = Skip) (if policy e = Skip then s3 else s3\<lparr>k_model := md\<rparr>))"
    using assms(1) k(1) n by (simp add: fold_one_noted)
  then show ?thesis using k assms(2)
    by (cases "policy e")
      (simp_all add: fault_raised_def Let_def report_def emit_trace_def stop_def fault_exit_code_def)
qed

theorem fold_fault_witness:
  "(\<exists>s'. fold_one (demo Skip) 4 (demo_start Skip) = Inr (False, s') \<and> k_model s' = 0 \<and> k_exit s' = None) \<and>
   (\<exists>s'. fold_one (demo Stop) 4 (demo_start Stop) = Inr (False, s') \<and> k_model s' = 100 \<and> k_exit s' = Some 70)"
proof -
  have k: "k_model (demo_start Skip) = 0" "k_exit (demo_start Skip) = None" "k_model (demo_start Stop) = 0"
    "k_exit (demo_start Stop) = None" by code_simp+
  have "policy (demo pol) = pol" "e_update (demo pol) 0 4 t = (100, Inl OtherException)" for pol t
    by (simp_all add: policy_def demo_def demo_update_def)
  then show ?thesis
    using fold_fault [of "demo Skip" "demo_start Skip" 4 100 OtherException]
      fold_fault [of "demo Stop" "demo_start Stop" 4 100 OtherException] k by auto
qed

lemma shutdown_fields:
  assumes "\<not> k_down s"
  shows "k_stopped (shutdown e s) = k_stopped s @ map snd (k_streams s) @ map (kr_origin \<circ> snd) (k_tasks s)"
    "k_timer_of (shutdown e s) = []" "k_streams (shutdown e s) = []" "k_tasks (shutdown e s) = []" "k_live (shutdown e s) = {}"
    "k_timers (shutdown e s) = clear (k_timers s)" "k_inbox (shutdown e s) = mb_close (k_inbox s)"
  using assms by (simp_all add: shutdown_def Let_def)

lemma shutdown_twice: "shutdown e (shutdown e s) = shutdown e s"
proof -
  have "k_down (shutdown e s)" by (simp add: shutdown_def Let_def)
  then show ?thesis by (simp add: shutdown_def [of e "shutdown e s"])
qed

lemma shutdown_complete_parts:
  assumes "\<not> k_down s"
  shows "set (k_stopped (shutdown e s)) = set (k_stopped s) \<union> snd ` set (k_streams s) \<union> kr_origin ` snd ` set (k_tasks s)"
    "k_timer_of (shutdown e s) = [] \<and> k_streams (shutdown e s) = [] \<and> k_tasks (shutdown e s) = [] \<and> k_live (shutdown e s) = {}"
    "next_deadline (k_timers (shutdown e s)) = None"
    "fst (post_from w i m (k_inbox (shutdown e s))) = Refused" "fst (post_resume i m (k_inbox (shutdown e s))) = Refused"
    "fst (drain_tagged (k_inbox (shutdown e s))) = []" "shutdown e (shutdown e s) = shutdown e s"
  unfolding shutdown_fields [OF assms]
  by (auto simp: clear_def next_deadline_def post_from_def post_resume_def mb_close_def drain_tagged_def image_image
    intro: shutdown_twice)



end
