(* ===== verification/Run.thy ===== *)
theory Run
  imports Kernel_Props
begin

text \<open>
  \<^verbatim>\<open>include/jaal/kernel/run.hpp\<close> and \<^verbatim>\<open>teardown.hpp\<close>: the driver. It steps the kernel, lets the host draw at
  most once per interval, waits no longer than the nearest deadline, hands signals and ready handles on,
  and gives everything up in one order. The reactor, the signal source and what other threads post while
  the loop waits are inputs; the host's callbacks are programs over the calls they may make.
\<close>

section \<open>Signals\<close>

datatype sig = Interrupt | Terminate | Hangup | Resize | ChildSig

definition exit_code_for :: "sig \<Rightarrow> int" where
  "exit_code_for s = (case s of Interrupt \<Rightarrow> 128 + 2 | Terminate \<Rightarrow> 128 + 15 | Hangup \<Rightarrow> 128 + 1 | _ \<Rightarrow> 128)"

definition kSignalToken :: nat where
  "kSignalToken = 1"

definition kFirstHostToken :: nat where
  "kFirstHostToken = 65536"

section \<open>What a host callback may do\<close>

text \<open>
  It reads and writes its own state, emits events, stops the program and, while drawing, reads the model
  and reports a failed view; it returns or throws.
\<close>

datatype ('md, 'hs, 'hev) hact =
    HRet "exc option"
  | HGet "'hs \<Rightarrow> ('md, 'hs, 'hev) hact"
  | HPut 'hs "('md, 'hs, 'hev) hact"
  | HModel "'md \<Rightarrow> ('md, 'hs, 'hev) hact"
  | HEmit 'hev "nat \<Rightarrow> ('md, 'hs, 'hev) hact"
  | HStop int "('md, 'hs, 'hev) hact"
  | HViewFault exc "('md, 'hs, 'hev) hact"

primrec run_hact ::
    "('md, 'hs, 'hev) hact \<Rightarrow> ('md, 'm, 'h, 'o, 'k, 'e, 'hev + sig, 'sk, 'hs) env \<Rightarrow> ('md, 'm, 'k, 'e, 'sk, 'hs) kernel \<Rightarrow>
     fault + (exc option \<times> ('md, 'm, 'k, 'e, 'sk, 'hs) kernel)" where
  "run_hact (HRet x) e k = Inr (x, k)"
| "run_hact (HGet g) e k = run_hact (g (k_host k)) e k"
| "run_hact (HPut hs a) e k = run_hact a e (k\<lparr>k_host := hs\<rparr>)"
| "run_hact (HModel g) e k = run_hact (g (k_model k)) e k"
| "run_hact (HEmit ev g) e k = andthen (route e (Inl ev) k) (\<lambda>(n, k1). run_hact (g n) e k1)"
| "run_hact (HStop c a) e k = run_hact a e (stop c k)"
| "run_hact (HViewFault x a) e k = run_hact a e (view_faulted e x k)"

text \<open>
  The host's hooks, each optional, and the options. A hook that is \<open>None\<close> is one the host does not have.
\<close>

record ('md, 'm, 'h, 'o, 'hs, 'hev) driver =
  d_attach :: "('md, 'hs, 'hev) hact option"
  d_present :: "('md, 'hs, 'hev) hact option"
  d_on_signal :: "(sig \<Rightarrow> ('md, 'hs, 'hev) hact) option"
  d_on_ready :: "(nat \<Rightarrow> ('md, 'hs, 'hev) hact) option"
  d_release :: "('hs \<Rightarrow> exc option \<times> 'hs) option"
  d_owes_frame :: "'hs \<Rightarrow> bool"
  d_wait_hint :: "'hs \<Rightarrow> int option"
  d_min_present :: int
  d_default_signal_exit :: bool
  d_on_seed :: "(u64 \<Rightarrow> exc option) option"
  d_resume :: "('md \<times> ('h, 'o, 'm) cmd) option"
  d_reactor :: bool
  d_signals :: bool

section \<open>One turn of the loop, up to the wait\<close>

record frames =
  fr_first :: bool
  fr_next :: "time_point option"
  fr_owed :: bool

definition first_frames :: frames where
  "first_frames = \<lparr>fr_first = True, fr_next = None, fr_owed = False\<rparr>"

text \<open>Whether to draw at this moment; the frame state after asking, and after a draw.\<close>

definition draw_now :: "int \<Rightarrow> time_point \<Rightarrow> bool \<Rightarrow> bool \<Rightarrow> frames \<Rightarrow> bool \<times> frames" where
  "draw_now interval now ask quit f =
     (let owed = (fr_owed f \<or> ask);
          paced = (interval > 0);
          due = (\<not> paced \<or> fr_next f = None \<or> the (fr_next f) \<le> now)
      in if fr_first f \<or> quit \<or> (owed \<and> due)
         then (True, f\<lparr>fr_first := False, fr_owed := False\<rparr>)
         else (False, f\<lparr>fr_owed := owed\<rparr>))"

definition drawn :: "int \<Rightarrow> time_point \<Rightarrow> frames \<Rightarrow> frames" where
  "drawn interval now f = (if interval > 0 then f\<lparr>fr_next := Some (now + interval)\<rparr> else f)"

text \<open>The drawing part of a turn: what it throws, the frame state, the moment of a draw.\<close>

definition present_turn ::
    "('md, 'm, 'h, 'o, 'k, 'e, 'hev + sig, 'sk, 'hs) env \<Rightarrow> ('md, 'm, 'h, 'o, 'hs, 'hev) driver \<Rightarrow> turn \<Rightarrow> frames \<Rightarrow>
     ('md, 'm, 'k, 'e, 'sk, 'hs) kernel \<Rightarrow>
     fault + (exc option \<times> time_point option \<times> frames \<times> ('md, 'm, 'k, 'e, 'sk, 'hs) kernel)" where
  "present_turn e d t f k =
     (case d_present d of
        None \<Rightarrow> Inr (None, None, f, k)
      | Some p \<Rightarrow>
          let ask = (t_model_changed t \<or> d_owes_frame d (k_host k));
              (now, k1) = read_clock e k;
              (yes, f1) = draw_now (d_min_present d * e_ms e) now ask (t_exit t \<noteq> None) f
          in if \<not> yes then Inr (None, None, f1, k1)
             else andthen (run_hact p e k1) (\<lambda>(x, k2).
                    case x of
                      Some ex \<Rightarrow> Inr (Some ex, Some now, f1, k2)
                    | None \<Rightarrow> Inr (None, Some now, drawn (d_min_present d * e_ms e) now f1, k2)))"

definition opt_min :: "int option \<Rightarrow> int \<Rightarrow> int" where
  "opt_min a b = (case a of None \<Rightarrow> b | Some x \<Rightarrow> min x b)"

text \<open>How long to wait, in milliseconds: the kernel's next deadline, an owed frame, the host's hint.\<close>

definition wait_timeout ::
    "('md, 'm, 'h, 'o, 'k, 'e, 'hev + sig, 'sk, 'hs) env \<Rightarrow> ('md, 'm, 'h, 'o, 'hs, 'hev) driver \<Rightarrow> frames \<Rightarrow>
     ('md, 'm, 'k, 'e, 'sk, 'hs) kernel \<Rightarrow> int option \<times> ('md, 'm, 'k, 'e, 'sk, 'hs) kernel" where
  "wait_timeout e d f k =
     (let (now, k1) = read_clock e k;
          t1 = timeout_from (e_ms e) now (kernel_next_deadline k1);
          (t2, k2) = (case fr_next f of
                        Some nx \<Rightarrow>
                          if fr_owed f
                          then (let (now2, k2) = read_clock e k1
                                in (Some (opt_min t1 (max (ceil_div (nx - now2) (e_ms e)) 0)), k2))
                          else (t1, k1)
                      | None \<Rightarrow> (t1, k1))
      in (case d_wait_hint d (k_host k2) of None \<Rightarrow> t2 | Some h \<Rightarrow> Some (opt_min t2 h), k2))"

datatype ('md, 'm, 'k, 'e, 'sk, 'hs) paused =
    Left "exc option" "('md, 'm, 'k, 'e, 'sk, 'hs) kernel"
  | Wait "int option" frames "('md, 'm, 'k, 'e, 'sk, 'hs) kernel"

definition loop_front ::
    "('md, 'm, 'h, 'o, 'k, 'e, 'hev + sig, 'sk, 'hs) env \<Rightarrow> ('md, 'm, 'h, 'o, 'hs, 'hev) driver \<Rightarrow> frames \<Rightarrow>
     ('md, 'm, 'k, 'e, 'sk, 'hs) kernel \<Rightarrow> fault + ('md, 'm, 'k, 'e, 'sk, 'hs) paused" where
  "loop_front e d f k =
     andthen (step e k) (\<lambda>(t, k1).
       andthen (present_turn e d t f k1) (\<lambda>(x, _, f1, k2).
         case x of
           Some ex \<Rightarrow> Inr (Left (Some ex) k2)
         | None \<Rightarrow>
             if t_exit t \<noteq> None \<or> k_exit k2 \<noteq> None then Inr (Left None k2)
             else let (w, k3) = wait_timeout e d f1 k2 in Inr (Wait w f1 k3)))"

section \<open>What comes out of the wait\<close>

text \<open>Posts of other threads meanwhile, and a failed wait or the ready tokens; with a ready signal pipe
  comes what taking from it yields.\<close>

record 'm waited =
  w_posts :: "(bool \<times> origin_id \<times> 'm) list"
  w_ready :: "(nat \<times> sig list) list option"

fun take_posts ::
    "(bool \<times> origin_id \<times> 'm) list \<Rightarrow> ('md, 'm, 'k, 'e, 'sk, 'hs) kernel \<Rightarrow> ('md, 'm, 'k, 'e, 'sk, 'hs) kernel" where
  "take_posts [] k = k"
| "take_posts ((w, i, m) # ps) k = take_posts ps (k\<lparr>k_inbox := snd (post_from w i m (k_inbox k))\<rparr>)"

fun take_signals ::
    "('md, 'm, 'h, 'o, 'k, 'e, 'hev + sig, 'sk, 'hs) env \<Rightarrow> ('md, 'm, 'h, 'o, 'hs, 'hev) driver \<Rightarrow> sig list \<Rightarrow>
     ('md, 'm, 'k, 'e, 'sk, 'hs) kernel \<Rightarrow> fault + (exc option \<times> ('md, 'm, 'k, 'e, 'sk, 'hs) kernel)" where
  "take_signals e d [] k = Inr (None, k)"
| "take_signals e d (s # ss) k =
     andthen (case d_on_signal d of None \<Rightarrow> Inr (None, k) | Some g \<Rightarrow> run_hact (g s) e k) (\<lambda>(x, k1).
       case x of
         Some _ \<Rightarrow> Inr (x, k1)
       | None \<Rightarrow>
           andthen (route e (Inr s) k1) (\<lambda>(produced, k2).
             take_signals e d ss
               (if produced = 0 \<and> d_default_signal_exit d \<and> (s = Interrupt \<or> s = Terminate \<or> s = Hangup)
                then stop (exit_code_for s) k2 else k2)))"

fun take_ready ::
    "('md, 'm, 'h, 'o, 'k, 'e, 'hev + sig, 'sk, 'hs) env \<Rightarrow> ('md, 'm, 'h, 'o, 'hs, 'hev) driver \<Rightarrow> (nat \<times> sig list) list \<Rightarrow>
     ('md, 'm, 'k, 'e, 'sk, 'hs) kernel \<Rightarrow> fault + (exc option \<times> ('md, 'm, 'k, 'e, 'sk, 'hs) kernel)" where
  "take_ready e d [] k = Inr (None, k)"
| "take_ready e d ((token, sigs) # rs) k =
     andthen
       (if token = kSignalToken then (if d_signals d then take_signals e d sigs k else Inr (None, k))
        else if kFirstHostToken \<le> token
             then (case d_on_ready d of None \<Rightarrow> Inr (None, k) | Some g \<Rightarrow> run_hact (g (token - kFirstHostToken)) e k)
             else Inr (None, k))
       (\<lambda>(x, k1). case x of Some _ \<Rightarrow> Inr (x, k1) | None \<Rightarrow> take_ready e d rs k1)"

definition loop_back ::
    "('md, 'm, 'h, 'o, 'k, 'e, 'hev + sig, 'sk, 'hs) env \<Rightarrow> ('md, 'm, 'h, 'o, 'hs, 'hev) driver \<Rightarrow> 'm waited \<Rightarrow>
     ('md, 'm, 'k, 'e, 'sk, 'hs) kernel \<Rightarrow> fault + (exc option \<times> ('md, 'm, 'k, 'e, 'sk, 'hs) kernel)" where
  "loop_back e d w k =
     (let k1 = take_posts (w_posts w) k
      in case w_ready w of None \<Rightarrow> Inr (None, stop 70 k1) | Some rs \<Rightarrow> take_ready e d rs k1)"

text \<open>The loop over the waits that happen; it is still waiting when they are used up.\<close>

fun run_loop ::
    "('md, 'm, 'h, 'o, 'k, 'e, 'hev + sig, 'sk, 'hs) env \<Rightarrow> ('md, 'm, 'h, 'o, 'hs, 'hev) driver \<Rightarrow> 'm waited list \<Rightarrow> frames \<Rightarrow>
     ('md, 'm, 'k, 'e, 'sk, 'hs) kernel \<Rightarrow> fault + ('md, 'm, 'k, 'e, 'sk, 'hs) paused" where
  "run_loop e d ws f k =
     andthen (loop_front e d f k) (\<lambda>p.
       case p of
         Left x k1 \<Rightarrow> Inr (Left x k1)
       | Wait to f1 k1 \<Rightarrow>
           (case ws of
              [] \<Rightarrow> Inr (Wait to f1 k1)
            | w # ws' \<Rightarrow>
                andthen (loop_back e d w k1) (\<lambda>(x, k2).
                  case x of Some _ \<Rightarrow> Inr (Left x k2) | None \<Rightarrow> run_loop e d ws' f1 k2)))"

declare run_loop.simps [simp del]

section \<open>Teardown\<close>

datatype td_event = SignalsOff | Released "exc option" | Finished int

record teardown =
  td_code :: "int option"
  td_log :: "td_event list"

definition run_it ::
    "('md, 'm, 'h, 'o, 'k, 'e, 'hev + sig, 'sk, 'hs) env \<Rightarrow> ('md, 'm, 'h, 'o, 'hs, 'hev) driver \<Rightarrow> td_event list \<Rightarrow>
     ('md, 'm, 'k, 'e, 'sk, 'hs) kernel \<Rightarrow> int \<times> td_event list \<times> ('md, 'm, 'k, 'e, 'sk, 'hs) kernel" where
  "run_it e d lg k =
     (let lg1 = lg @ [SignalsOff];
          (lg2, k1) = (case d_release d of
                          None \<Rightarrow> (lg1, k)
                        | Some r \<Rightarrow> (let (x, hs) = r (k_host k) in (lg1 @ [Released x], k\<lparr>k_host := hs\<rparr>)));
          (code, k2) = finish e k1
      in (code, lg2 @ [Finished code], k2))"

definition td_exit_code ::
    "('md, 'm, 'h, 'o, 'k, 'e, 'hev + sig, 'sk, 'hs) env \<Rightarrow> ('md, 'm, 'h, 'o, 'hs, 'hev) driver \<Rightarrow> teardown \<Rightarrow>
     ('md, 'm, 'k, 'e, 'sk, 'hs) kernel \<Rightarrow> int \<times> teardown \<times> ('md, 'm, 'k, 'e, 'sk, 'hs) kernel" where
  "td_exit_code e d td k =
     (case td_code td of
        Some c \<Rightarrow> (c, td, k)
      | None \<Rightarrow> (let (c, lg, k1) = run_it e d (td_log td) k in (c, \<lparr>td_code = Some c, td_log = lg\<rparr>, k1)))"

text \<open>The guard's destructor runs on every way out of the scope.\<close>

definition td_destroy ::
    "('md, 'm, 'h, 'o, 'k, 'e, 'hev + sig, 'sk, 'hs) env \<Rightarrow> ('md, 'm, 'h, 'o, 'hs, 'hev) driver \<Rightarrow> teardown \<Rightarrow>
     ('md, 'm, 'k, 'e, 'sk, 'hs) kernel \<Rightarrow> teardown \<times> ('md, 'm, 'k, 'e, 'sk, 'hs) kernel" where
  "td_destroy e d td k = snd (td_exit_code e d td k)"

section \<open>A whole run\<close>

datatype ('md, 'm, 'k, 'e, 'sk, 'hs) ran =
    NoReactor
  | RunReturned int teardown "('md, 'm, 'k, 'e, 'sk, 'hs) kernel"
  | Rethrown exc teardown "('md, 'm, 'k, 'e, 'sk, 'hs) kernel"
  | StillWaiting "int option" "('md, 'm, 'k, 'e, 'sk, 'hs) kernel"

text \<open>Between the kernel's start and the end of the loop: the seed is told, the host attached.\<close>

definition run_body ::
    "('md, 'm, 'h, 'o, 'k, 'e, 'hev + sig, 'sk, 'hs) env \<Rightarrow> ('md, 'm, 'h, 'o, 'hs, 'hev) driver \<Rightarrow> 'm waited list \<Rightarrow>
     ('md, 'm, 'k, 'e, 'sk, 'hs) kernel \<Rightarrow> fault + ('md, 'm, 'k, 'e, 'sk, 'hs) paused" where
  "run_body e d ws k =
     (case (case d_on_seed d of None \<Rightarrow> None | Some g \<Rightarrow> g (k_seed_used k)) of
        Some x \<Rightarrow> Inr (Left (Some x) k)
      | None \<Rightarrow>
          andthen (case d_attach d of None \<Rightarrow> Inr (None, k) | Some a \<Rightarrow> run_hact a e k) (\<lambda>(x, k1).
            case x of Some _ \<Rightarrow> Inr (Left x k1) | None \<Rightarrow> run_loop e d ws first_frames k1))"

text \<open>The end of the scope: the return, or the exception that leaves it; the guard's destructor in both.\<close>

definition run_end ::
    "('md, 'm, 'h, 'o, 'k, 'e, 'hev + sig, 'sk, 'hs) env \<Rightarrow> ('md, 'm, 'h, 'o, 'hs, 'hev) driver \<Rightarrow>
     ('md, 'm, 'k, 'e, 'sk, 'hs) paused \<Rightarrow> ('md, 'm, 'k, 'e, 'sk, 'hs) ran" where
  "run_end e d p =
     (let guard = \<lparr>td_code = None, td_log = []\<rparr>
      in case p of
           Left (Some x) k \<Rightarrow> (let (g, k1) = td_destroy e d guard k in Rethrown x g k1)
         | Left None k \<Rightarrow>
             (let (code, g, k1) = td_exit_code e d guard k; (g', k2) = td_destroy e d g k1 in RunReturned code g' k2)
         | Wait to f k \<Rightarrow> StillWaiting to k)"

definition run ::
    "('md, 'm, 'h, 'o, 'k, 'e, 'hev + sig, 'sk, 'hs) env \<Rightarrow> ('md, 'm, 'h, 'o, 'hs, 'hev) driver \<Rightarrow> 'hs \<Rightarrow> 'm waited list \<Rightarrow>
     fault + ('md, 'm, 'k, 'e, 'sk, 'hs) ran" where
  "run e d hs ws =
     (if \<not> d_reactor d then Inr NoReactor
      else
        andthen (case d_resume d of Some (m, c) \<Rightarrow> start_from e m c hs | None \<Rightarrow> start e hs) (\<lambda>k.
          andthen (run_body e d ws k) (\<lambda>p. Inr (run_end e d p))))"

section \<open>Frames\<close>

text \<open>What a sequence of turns that do not quit draws: each with its moment and whether a frame is asked for.\<close>

fun draws :: "int \<Rightarrow> (time_point \<times> bool) list \<Rightarrow> frames \<Rightarrow> time_point list \<times> frames" where
  "draws iv [] f = ([], f)"
| "draws iv ((now, ask) # xs) f =
     (let (yes, f1) = draw_now iv now ask False f;
          (ts, f') = draws iv xs (if yes then drawn iv now f1 else f1)
      in (if yes then now # ts else ts, f'))"

text \<open>A turn of the loop that throws nothing is one such step.\<close>

lemma present_turn_draws:
  assumes "present_turn e d t f k = Inr (None, shown, f', k')" "d_present d \<noteq> None" "t_exit t = None"
  shows "draws (d_min_present d * e_ms e) [(e_clock e (k_reads k), t_model_changed t \<or> d_owes_frame d (k_host k))] f =
    ((case shown of None \<Rightarrow> [] | Some now \<Rightarrow> [now]), f')"
proof -
  obtain yes f1 where "draw_now (d_min_present d * e_ms e) (e_clock e (k_reads k)) (t_model_changed t \<or> d_owes_frame d (k_host k)) False f = (yes, f1)"
    by fastforce
  then show ?thesis using assms by (cases yes) (auto simp: present_turn_def read_clock_def andthen_Inr split: option.splits)
qed

lemma draws_spec:
  assumes "0 < iv" "\<not> fr_first f" "fr_next f = Some nx" "draws iv xs f = (ts, f')"
  shows "successively (\<lambda>a b. a + iv \<le> b) ts \<and> (ts \<noteq> [] \<longrightarrow> nx \<le> hd ts) \<and> \<not> fr_first f' \<and>
    fr_next f' = Some (if ts = [] then nx else last ts + iv) \<and>
    (fr_owed f \<longrightarrow> ts \<noteq> [] \<or> fr_owed f') \<and>
    (sorted (map fst xs) \<longrightarrow> (\<forall>(now, ask) \<in> set xs. ask \<longrightarrow> (\<exists>t \<in> set ts. now \<le> t) \<or> fr_owed f'))"
  using assms(2-)
proof (induction xs arbitrary: f nx ts)
  case (Cons x xs)
  obtain now ask where x: "x = (now, ask)" by fastforce
  obtain yes f1 where d: "draw_now iv now ask False f = (yes, f1)" by fastforce
  show ?case
  proof (cases yes)
    case True
    then have y: "fr_owed f \<or> ask" "nx \<le> now" and f1: "f1 = f\<lparr>fr_first := False, fr_owed := False\<rparr>"
      using d Cons.prems(1,2) assms(1) by (auto simp: draw_now_def Let_def split: if_splits)
    obtain ts' where t: "draws iv xs (drawn iv now f1) = (ts', f')" "ts = now # ts'"
      using Cons.prems(3) x d True by (auto split: prod.splits)
    have "\<not> fr_first (drawn iv now f1)" "fr_next (drawn iv now f1) = Some (now + iv)"
      using f1 assms(1) by (simp_all add: drawn_def)
    note IH = Cons.IH [OF this t(1)]
    have "successively (\<lambda>a b. a + iv \<le> b) ts" using IH t(2) by (cases ts') auto
    then show ?thesis using IH t(2) y x by auto
  next
    case False
    then have n: "\<not> ((fr_owed f \<or> ask) \<and> nx \<le> now)" and f1: "f1 = f\<lparr>fr_owed := fr_owed f \<or> ask\<rparr>"
      using d Cons.prems(1,2) assms(1) by (auto simp: draw_now_def Let_def split: if_splits)
    have t: "draws iv xs f1 = (ts, f')" using Cons.prems(3) x d False by (auto split: prod.splits)
    have "\<not> fr_first f1" "fr_next f1 = Some nx" using f1 Cons.prems by simp_all
    note IH = Cons.IH [OF this t]
    have "ask \<longrightarrow> (\<exists>t \<in> set ts. now \<le> t) \<or> fr_owed f'"
    proof
      assume a: ask
      then have "ts \<noteq> [] \<or> fr_owed f'" using IH f1 by simp
      moreover have "now < nx" using n a by auto
      ultimately show "(\<exists>t \<in> set ts. now \<le> t) \<or> fr_owed f'" using IH by (metis list.set_sel(1) less_imp_le order_trans)
    qed
    then show ?thesis using IH f1 x by auto
  qed
qed (auto simp: successively.simps)

section \<open>Quitting and the exit code\<close>

lemma run_hact_exit: "run_hact a e k = Inr (x, k') \<Longrightarrow> k_exit k = Some c \<Longrightarrow> k_exit k' = Some c"
proof (induction a arbitrary: k)
  case (HEmit ev g)
  then show ?case by (auto simp: route_def)
qed (auto simp: view_faulted_def)

lemma step_turn_exit:
  assumes "step e s = Inr (t, s')" "t_exit t = Some c"
  shows "k_exit s' = Some c"
proof -
  obtain i s0 where 0: "idle e s = (i, s0)" by fastforce
  show ?thesis using assms 0 by (auto simp: step_def work_step_def Let_def andthen_Inr split: if_splits)
qed

lemma present_turn_exit:
  assumes "present_turn e d t f k = Inr (x, shown, f', k')" "k_exit k = Some c"
  shows "k_exit k' = Some c"
  using assms run_hact_exit
  by (fastforce simp: present_turn_def read_clock_def Let_def andthen_Inr split: option.splits if_splits prod.splits)

lemma run_loop_quits:
  assumes "run_loop e d ws f k = Inr (Left None k')"
  shows "k_exit k' \<noteq> None"
  using assms
proof (induction ws arbitrary: f k)
  case Nil
  then show ?case
    by (auto simp: run_loop.simps [of e d "[]"] loop_front_def andthen_Inr split: option.splits paused.splits if_splits prod.splits
      dest: step_turn_exit present_turn_exit)
next
  case (Cons w ws)
  obtain p where p: "loop_front e d f k = Inr p" using Cons.prems by (auto simp: run_loop.simps [of e d "w # ws"] andthen_Inr)
  show ?case
  proof (cases p)
    case (Left x k1)
    then show ?thesis using p Cons.prems
      by (auto simp: run_loop.simps [of e d "w # ws"] loop_front_def andthen_Inr split: option.splits paused.splits if_splits prod.splits
        dest: step_turn_exit present_turn_exit)
  next
    case (Wait to f1 k1)
    then show ?thesis using p Cons by (auto simp: run_loop.simps [of e d "w # ws"] andthen_Inr split: option.splits)
  qed
qed

lemma run_body_quits: "run_body e d ws k = Inr (Left None k') \<Longrightarrow> k_exit k' \<noteq> None"
  by (auto simp: run_body_def andthen_Inr split: option.splits dest: run_loop_quits)

lemma finish_code: "finish e k = (c, k') \<Longrightarrow> c = (case k_exit k of None \<Rightarrow> 0 | Some x \<Rightarrow> x) \<and> k_exit k' = k_exit k \<and> k_down k'"
  by (auto simp: finish_def Let_def shutdown_def split: option.split)

text \<open>What giving everything up leaves in the log: once, in order, whatever the host's part does.\<close>

definition torn_down :: "('md, 'm, 'h, 'o, 'hs, 'hev) driver \<Rightarrow> int \<Rightarrow> td_event list \<Rightarrow> bool" where
  "torn_down d code lg \<longleftrightarrow>
     (case d_release d of None \<Rightarrow> lg = [SignalsOff, Finished code] | Some _ \<Rightarrow> \<exists>x. lg = [SignalsOff, Released x, Finished code])"

lemma td_exit_code_spec:
  assumes "td_exit_code e d \<lparr>td_code = None, td_log = []\<rparr> k = (code, g, k')"
  shows "td_code g = Some code" "torn_down d code (td_log g)" "code = (case k_exit k of None \<Rightarrow> 0 | Some x \<Rightarrow> x)"
    "k_exit k' = k_exit k" "k_down k'"
  using assms finish_code
  by (auto simp: td_exit_code_def run_it_def torn_down_def Let_def split: option.splits prod.splits; fastforce)+

section \<open>Properties\<close>

text \<open>Drawing is paced and loses nothing. With a minimum interval, over any turns of a run in which time does
  not run backwards, two draws are at least the interval apart; and every turn that asked for a frame is
  followed by a draw at that moment or later, unless at the end a frame is owed, with its moment set to
  one interval after the last draw.\<close>

theorem frames_spaced:
  assumes "0 < iv" "sorted (map fst xs)" "draws iv xs first_frames = (ts, f')"
  shows "successively (\<lambda>a b. a + iv \<le> b) ts \<and>
    (\<forall>(now, ask) \<in> set xs. ask \<longrightarrow> (\<exists>t \<in> set ts. now \<le> t) \<or> (fr_owed f' \<and> fr_next f' = Some (last ts + iv)))"
proof (cases xs)
  case (Cons x xs')
  obtain now ask where x: "x = (now, ask)" by fastforce
  let ?f = "\<lparr>fr_first = False, fr_next = Some (now + iv), fr_owed = False\<rparr>"
  obtain ts' where t: "draws iv xs' ?f = (ts', f')" "ts = now # ts'"
    using assms(1,3) Cons x by (auto simp: draw_now_def first_frames_def drawn_def split: prod.splits)
  note s = draws_spec [OF assms(1) _ _ t(1), of "now + iv", simplified]
  have "successively (\<lambda>a b. a + iv \<le> b) ts" using s t(2) by (cases ts') auto
  then show ?thesis using s t(2) Cons x assms(2) by auto
qed (use assms(3) in simp)

theorem frames_spaced_witness:
  "draws 16 [(0, True), (5, True), (9, False), (20, False), (25, True)] first_frames =
     ([0, 20], \<lparr>fr_first = False, fr_next = Some 36, fr_owed = True\<rparr>) \<and> (0 :: int) + 16 \<le> 20"
proof -
  have d: "draws 16 [(0, True), (5, True), (9, False), (20, False), (25, True)] first_frames =
     ([0, 20], \<lparr>fr_first = False, fr_next = Some 36, fr_owed = True\<rparr>)"
    by (simp add: draw_now_def first_frames_def drawn_def)
  show ?thesis using frames_spaced [OF _ _ d] d by simp
qed

text \<open>An owed frame is a deadline. When the loop goes to wait while it owes a frame, the wait ends no
  later than the moment the frame may be drawn, rounded up to a millisecond and never negative, even
  when no timer is armed.\<close>

theorem owed_frame_wakes:
  assumes "loop_front e d f k = Inr (Wait to f' k')" "fr_owed f'" "fr_owed f \<longrightarrow> fr_next f \<noteq> None" "d_present d \<noteq> None"
  shows "\<exists>nx w. fr_next f' = Some nx \<and> to = Some w \<and> w \<le> max 0 (ceil_div (nx - e_clock e (k_reads k' - 1)) (e_ms e))"
proof -
  obtain t k1 shown f1 k2 k3 where s: "present_turn e d t f k1 = Inr (None, shown, f1, k2)" "t_exit t = None"
    and w: "wait_timeout e d f1 k2 = (to, k')" and f': "f' = f1"
    using assms(1) by (auto simp: loop_front_def andthen_Inr split: option.splits if_splits prod.splits)
  obtain ts where dr: "draws (d_min_present d * e_ms e) [(e_clock e (k_reads k1), t_model_changed t \<or> d_owes_frame d (k_host k1))] f = (ts, f1)"
    using present_turn_draws [OF s(1) assms(4) s(2)] by blast
  have "fr_next f1 \<noteq> None"
    using dr assms(2,3) f' by (auto simp: draw_now_def drawn_def Let_def split: if_splits)
  then obtain nx where nx: "fr_next f1 = Some nx" by auto
  show ?thesis using w nx assms(2) f'
    by (auto simp: wait_timeout_def read_clock_def opt_min_def Let_def split: option.splits)
qed

text \<open>C11: a run ends in one way. Whether the loop ended or a host callback threw, the signals come off first,
  then the host gets its release, thrown exceptions there notwithstanding, then the kernel finishes, each once;
  the kernel is down, and what a run returns is the exit code the program, a fault, a signal or the host set.\<close>

theorem run_ends_in_order:
  assumes "run e d hs ws = Inr r"
  shows "(case r of
      RunReturned code g k \<Rightarrow> torn_down d code (td_log g) \<and> k_exit k = Some code \<and> k_down k
    | Rethrown x g k \<Rightarrow> (\<exists>code. torn_down d code (td_log g) \<and> code = (case k_exit k of None \<Rightarrow> 0 | Some c \<Rightarrow> c)) \<and> k_down k
    | NoReactor \<Rightarrow> \<not> d_reactor d
    | StillWaiting _ _ \<Rightarrow> True)"
proof (cases "d_reactor d")
  case True
  then obtain k0 p where b: "run_body e d ws k0 = Inr p" and r: "r = run_end e d p"
    using assms by (auto simp: run_def andthen_Inr)
  show ?thesis
  proof (cases p)
    case (Left x k)
    obtain code g k1 where c: "td_exit_code e d \<lparr>td_code = None, td_log = []\<rparr> k = (code, g, k1)"
      by (cases "td_exit_code e d \<lparr>td_code = None, td_log = []\<rparr> k")
    note spec = td_exit_code_spec [OF c]
    have again: "td_destroy e d g k1 = (g, k1)" using spec(1) by (simp add: td_destroy_def td_exit_code_def)
    show ?thesis
    proof (cases x)
      case None
      then have "k_exit k \<noteq> None" using run_body_quits [of e d ws k0 k] b Left by simp
      then show ?thesis using r Left None c again spec by (auto simp: run_end_def)
    next
      case (Some ex)
      then show ?thesis using r Left c spec by (auto simp: run_end_def td_destroy_def)
    qed
  qed (use r in \<open>simp add: run_end_def\<close>)
qed (use assms in \<open>auto simp: run_def\<close>)

text \<open>A program without sources on a host that only releases, interrupted while it waits.\<close>

definition sig_env :: "(nat, nat, unit, unit, unit, unit, nat + sig, nat, nat) env" where
  "sig_env =
     \<lparr>e_init = (0, CNone), e_update = demo_update, e_subscribe = (\<lambda>_. Inr SNone),
      e_on = (\<lambda>md ev. Inr (case ev of Inl n \<Rightarrow> Some n | Inr _ \<Rightarrow> None)), e_subs_key = None, e_copyable = True, e_msg_index = id,
      e_handle = (\<lambda>x hs. (Inr None, hs)), e_fx_name = (\<lambda>_. []), e_start_source = (\<lambda>p k hs. (None, hs)),
      e_stop_source = (\<lambda>k hs. (None, hs)), e_clock = (\<lambda>n. 10 * int n), e_ms = 1, e_pclock = Unclocked,
      e_hash = (\<lambda>_. 0), e_ndebug = True, e_fold_budget = 4, e_on_fault = Skip, e_trace = False, e_wake = True,
      e_capacity = 0, e_on_full = Block, e_random_seed = 1, e_picked_seed = 1, e_abandoned = 0\<rparr>"

definition sig_driver :: "(nat, nat, unit, unit, nat, nat) driver" where
  "sig_driver =
     \<lparr>d_attach = None, d_present = Some (HRet None), d_on_signal = None, d_on_ready = None,
      d_release = Some (\<lambda>hs. (Some OtherException, hs)), d_owes_frame = (\<lambda>_. False), d_wait_hint = (\<lambda>_. None),
      d_min_present = 100, d_default_signal_exit = True, d_on_seed = None, d_resume = None, d_reactor = True, d_signals = True\<rparr>"

theorem run_ends_in_order_witness:
  "\<exists>g k. run sig_env sig_driver 0 [\<lparr>w_posts = [], w_ready = Some [(1, [Interrupt])]\<rparr>] = Inr (RunReturned 130 g k) \<and>
     torn_down sig_driver 130 (td_log g) \<and> k_exit k = Some 130"
proof -
  let ?r = "run sig_env sig_driver 0 [\<lparr>w_posts = [], w_ready = Some [(1, [Interrupt])]\<rparr>]"
  have c: "(case ?r of Inr (RunReturned c _ _) \<Rightarrow> c = 130 | _ \<Rightarrow> False)" by code_simp
  then obtain g k where r: "?r = Inr (RunReturned 130 g k)" by (auto split: sum.splits ran.splits)
  show ?thesis using run_ends_in_order [OF r] r by auto
qed

theorem owed_frame_wakes_witness:
  "\<exists>to f' k'. loop_front sig_env sig_driver \<lparr>fr_first = False, fr_next = Some 500, fr_owed = True\<rparr> (projr (start sig_env 0)) = Inr (Wait to f' k') \<and>
     fr_owed f' \<and> (\<exists>nx w. fr_next f' = Some nx \<and> to = Some w \<and>
       w \<le> max 0 (ceil_div (nx - e_clock sig_env (k_reads k' - 1)) (e_ms sig_env)))"
proof -
  let ?r = "loop_front sig_env sig_driver \<lparr>fr_first = False, fr_next = Some 500, fr_owed = True\<rparr> (projr (start sig_env 0))"
  have c: "(case ?r of Inr (Wait _ f' _) \<Rightarrow> fr_owed f' | _ \<Rightarrow> False)" by code_simp
  then obtain to f' k' where r: "?r = Inr (Wait to f' k')" "fr_owed f'" by (auto split: sum.splits paused.splits)
  show ?thesis using owed_frame_wakes [OF r] r by (simp add: sig_driver_def)
qed

end
