(* ===== verification/Replay.thy ===== *)
theory Replay
  imports Effects
begin

text \<open>
  \<^verbatim>\<open>include/jaal/kernel/replay.hpp\<close> and \<^verbatim>\<open>timeline.hpp\<close>: folding recorded messages again, without effects,
  and stepping through such a run with snapshots. An update is the program's, with its exceptions; a
  recording is a list.
\<close>

section \<open>Replay\<close>

text \<open>One message through the program's update, the command dropped.\<close>

definition tl_fold :: "('md \<Rightarrow> 'm \<Rightarrow> 'md \<times> (exc + 'c)) \<Rightarrow> 'md \<Rightarrow> 'm \<Rightarrow> exc + 'md" where
  "tl_fold u md m = (case u md m of (_, Inl x) \<Rightarrow> Inl x | (md', Inr _) \<Rightarrow> Inr md')"

fun replay_from :: "('md \<Rightarrow> 'm \<Rightarrow> 'md \<times> (exc + 'c)) \<Rightarrow> 'md \<Rightarrow> 'm list \<Rightarrow> exc + 'md" where
  "replay_from u md [] = Inr md"
| "replay_from u md (m # ms) = (case u md m of (_, Inl x) \<Rightarrow> Inl x | (md', Inr _) \<Rightarrow> replay_from u md' ms)"

definition replay :: "'md \<times> 'd \<Rightarrow> ('md \<Rightarrow> 'm \<Rightarrow> 'md \<times> (exc + 'c)) \<Rightarrow> 'm list \<Rightarrow> exc + 'md" where
  "replay init u ms = replay_from u (fst init) ms"

text \<open>\<^verbatim>\<open>replay_each\<close>: what the callback is given, in order, and the exception that ended it, if any.\<close>

fun each_from :: "('md \<Rightarrow> 'm \<Rightarrow> 'md \<times> (exc + 'c)) \<Rightarrow> nat \<Rightarrow> 'md \<Rightarrow> 'm list \<Rightarrow> (nat \<times> 'md) list \<times> exc option" where
  "each_from u i md [] = ([], None)"
| "each_from u i md (m # ms) =
     (case u md m of
        (_, Inl x) \<Rightarrow> ([], Some x)
      | (md', Inr _) \<Rightarrow> (let (out, x) = each_from u (i + 1) md' ms in ((i + 1, md') # out, x)))"

definition replay_each ::
    "'md \<times> 'd \<Rightarrow> ('md \<Rightarrow> 'm \<Rightarrow> 'md \<times> (exc + 'c)) \<Rightarrow> 'm list \<Rightarrow> (nat \<times> 'md) list \<times> exc option" where
  "replay_each init u ms = (let (out, x) = each_from u 0 (fst init) ms in ((0, fst init) # out, x))"

text \<open>A clocked program's record: each message with the moment it was folded at.\<close>

record 'm timed_entry =
  en_at :: time_point
  en_msg :: 'm

fun replay_timed_from ::
    "('md \<Rightarrow> 'm \<Rightarrow> time_point \<Rightarrow> 'md \<times> (exc + 'c)) \<Rightarrow> 'md \<Rightarrow> 'm timed_entry list \<Rightarrow> exc + 'md" where
  "replay_timed_from u md [] = Inr md"
| "replay_timed_from u md (e # es) =
     (case u md (en_msg e) (en_at e) of (_, Inl x) \<Rightarrow> Inl x | (md', Inr _) \<Rightarrow> replay_timed_from u md' es)"

definition replay_timed ::
    "'md \<times> 'd \<Rightarrow> ('md \<Rightarrow> 'm \<Rightarrow> time_point \<Rightarrow> 'md \<times> (exc + 'c)) \<Rightarrow> 'm timed_entry list \<Rightarrow> exc + 'md" where
  "replay_timed init u es = replay_timed_from u (fst init) es"

section \<open>Timeline\<close>

record ('md, 'm) timeline =
  tl_msgs :: "'m list"
  tl_stride :: nat
  tl_snaps :: "'md list"
  tl_cur :: "(nat \<times> 'md) option"

text \<open>The constructor's loop: fold message \<open>i\<close>, keep a copy after every \<open>stride\<close>-th.\<close>

fun tl_build :: "('md \<Rightarrow> 'm \<Rightarrow> 'md \<times> (exc + 'c)) \<Rightarrow> nat \<Rightarrow> nat \<Rightarrow> 'md \<Rightarrow> 'm list \<Rightarrow> 'md list \<Rightarrow> exc + 'md list" where
  "tl_build u st i md [] snaps = Inr snaps"
| "tl_build u st i md (m # ms) snaps =
     (case tl_fold u md m of
        Inl x \<Rightarrow> Inl x
      | Inr md' \<Rightarrow> tl_build u st (i + 1) md' ms (if (i + 1) mod st = 0 then snaps @ [md'] else snaps))"

definition new_timeline ::
    "'md \<times> 'd \<Rightarrow> ('md \<Rightarrow> 'm \<Rightarrow> 'md \<times> (exc + 'c)) \<Rightarrow> 'm list \<Rightarrow> nat \<Rightarrow> exc + ('md, 'm) timeline" where
  "new_timeline init u msgs stride =
     (let st = (if stride \<noteq> 0 then stride else 1)
      in case tl_build u st 0 (fst init) msgs [fst init] of
           Inl x \<Rightarrow> Inl x
         | Inr snaps \<Rightarrow> Inr \<lparr>tl_msgs = msgs, tl_stride = st, tl_snaps = snaps, tl_cur = Some (0, hd snaps)\<rparr>)"

definition tl_size :: "('md, 'm) timeline \<Rightarrow> nat" where
  "tl_size t = length (tl_msgs t) + 1"

definition out_of_range :: "string \<Rightarrow> exc" where
  "out_of_range w = StdException w"

text \<open>Where the walk to a step starts: the cached model, or the snapshot at or before the step.\<close>

definition tl_seek :: "nat \<Rightarrow> ('md, 'm) timeline \<Rightarrow> nat \<times> 'md" where
  "tl_seek step t =
     (let snap = step div tl_stride t
      in case tl_cur t of
           None \<Rightarrow> (snap * tl_stride t, tl_snaps t ! snap)
         | Some c \<Rightarrow> if fst c > step \<or> fst c < snap * tl_stride t then (snap * tl_stride t, tl_snaps t ! snap) else c)"

text \<open>The walk: fold until the step is reached. \<open>moved\<close> is what moving a model away leaves behind, seen
  only if an update throws.\<close>

function tl_walk ::
    "('md \<Rightarrow> 'm \<Rightarrow> 'md \<times> (exc + 'c)) \<Rightarrow> ('md \<Rightarrow> 'md) \<Rightarrow> 'm list \<Rightarrow> nat \<Rightarrow> nat \<times> 'md \<Rightarrow> exc option \<times> (nat \<times> 'md)" where
  "tl_walk u moved msgs step c =
     (if fst c < step then
        (case tl_fold u (snd c) (msgs ! fst c) of
           Inl x \<Rightarrow> (Some x, (fst c, moved (snd c)))
         | Inr md \<Rightarrow> tl_walk u moved msgs step (fst c + 1, md))
      else (None, c))"
  by pat_completeness auto
termination by (relation "measure (\<lambda>(_, _, _, step, c). step - fst c)") auto

declare tl_walk.simps [simp del]

definition tl_at ::
    "('md \<Rightarrow> 'm \<Rightarrow> 'md \<times> (exc + 'c)) \<Rightarrow> ('md \<Rightarrow> 'md) \<Rightarrow> nat \<Rightarrow> ('md, 'm) timeline \<Rightarrow>
     (exc + 'md) \<times> ('md, 'm) timeline" where
  "tl_at u moved step t =
     (if tl_size t \<le> step then (Inl (out_of_range ''jaal::timeline::at: step past the end''), t)
      else
        let (x, c) = tl_walk u moved (tl_msgs t) step (tl_seek step t)
        in (case x of Some ex \<Rightarrow> Inl ex | None \<Rightarrow> Inr (snd c), t\<lparr>tl_cur := Some c\<rparr>))"

definition tl_message :: "nat \<Rightarrow> ('md, 'm) timeline \<Rightarrow> exc + 'm" where
  "tl_message step t =
     (if step = 0 \<or> tl_size t \<le> step
      then Inl (out_of_range ''jaal::timeline::message: no message leads to this step'')
      else Inr (tl_msgs t ! (step - 1)))"

text \<open>\<^verbatim>\<open>first_bad\<close>: every step in order.\<close>

function first_bad_from ::
    "('md \<Rightarrow> 'm \<Rightarrow> 'md \<times> (exc + 'c)) \<Rightarrow> ('md \<Rightarrow> 'md) \<Rightarrow> ('md \<Rightarrow> bool) \<Rightarrow> nat \<Rightarrow> ('md, 'm) timeline \<Rightarrow>
     (exc + nat option) \<times> ('md, 'm) timeline" where
  "first_bad_from u moved good s t =
     (if s < tl_size t then
        (case tl_at u moved s t of
           (Inl x, t') \<Rightarrow> (Inl x, t')
         | (Inr md, t') \<Rightarrow> if \<not> good md then (Inr (Some s), t') else first_bad_from u moved good (s + 1) t')
      else (Inr None, t))"
  by pat_completeness auto
termination
proof (relation "measure (\<lambda>(_, _, _, s, t). tl_size t - s)", goal_cases)
  case (2 u moved good s t r t' md)
  then have "tl_size t' = tl_size t" by (auto simp: tl_at_def tl_size_def split: if_splits prod.splits)
  then show ?case using 2 by simp
qed simp

declare first_bad_from.simps [simp del]

definition first_bad ::
    "('md \<Rightarrow> 'm \<Rightarrow> 'md \<times> (exc + 'c)) \<Rightarrow> ('md \<Rightarrow> 'md) \<Rightarrow> ('md \<Rightarrow> bool) \<Rightarrow> ('md, 'm) timeline \<Rightarrow>
     (exc + nat option) \<times> ('md, 'm) timeline" where
  "first_bad u moved good t = first_bad_from u moved good 0 t"

text \<open>\<^verbatim>\<open>bisect\<close>: the last model, the first, then halving.\<close>

function bisect_from ::
    "('md \<Rightarrow> 'm \<Rightarrow> 'md \<times> (exc + 'c)) \<Rightarrow> ('md \<Rightarrow> 'md) \<Rightarrow> ('md \<Rightarrow> bool) \<Rightarrow> nat \<Rightarrow> nat \<Rightarrow> ('md, 'm) timeline \<Rightarrow>
     (exc + nat option) \<times> ('md, 'm) timeline" where
  "bisect_from u moved good lo hi t =
     (if hi - lo > 1 then
        (let mid = lo + (hi - lo) div 2
         in case tl_at u moved mid t of
              (Inl x, t') \<Rightarrow> (Inl x, t')
            | (Inr md, t') \<Rightarrow> if good md then bisect_from u moved good mid hi t' else bisect_from u moved good lo mid t')
      else (Inr (Some hi), t))"
  by pat_completeness auto
termination by (relation "measure (\<lambda>(_, _, _, lo, hi, _). hi - lo)") auto

declare bisect_from.simps [simp del]

definition bisect ::
    "('md \<Rightarrow> 'm \<Rightarrow> 'md \<times> (exc + 'c)) \<Rightarrow> ('md \<Rightarrow> 'md) \<Rightarrow> ('md \<Rightarrow> bool) \<Rightarrow> ('md, 'm) timeline \<Rightarrow>
     (exc + nat option) \<times> ('md, 'm) timeline" where
  "bisect u moved good t =
     (case tl_at u moved (tl_size t - 1) t of
        (Inl x, t1) \<Rightarrow> (Inl x, t1)
      | (Inr end_md, t1) \<Rightarrow>
          if good end_md then (Inr None, t1)
          else case tl_at u moved 0 t1 of
                 (Inl x, t2) \<Rightarrow> (Inl x, t2)
               | (Inr first, t2) \<Rightarrow>
                   if \<not> good first then (Inr (Some 0), t2) else bisect_from u moved good 0 (tl_size t - 1) t2)"

section \<open>Replaying a prefix\<close>

lemma replay_from_append:
  "replay_from u md (xs @ ys) = (case replay_from u md xs of Inl x \<Rightarrow> Inl x | Inr md' \<Rightarrow> replay_from u md' ys)"
  by (induction xs arbitrary: md) (auto split: prod.split sum.split)

lemma replay_from_one: "replay_from u md [m] = tl_fold u md m"
  by (simp add: tl_fold_def split: prod.split sum.split)

text \<open>The model after \<open>k\<close> messages.\<close>

definition model_at :: "('md \<Rightarrow> 'm \<Rightarrow> 'md \<times> (exc + 'c)) \<Rightarrow> 'md \<Rightarrow> 'm list \<Rightarrow> nat \<Rightarrow> exc + 'md" where
  "model_at u md0 msgs k = replay_from u md0 (take k msgs)"

lemma model_at_Suc:
  assumes "k < length msgs" "model_at u md0 msgs k = Inr md"
  shows "model_at u md0 msgs (Suc k) = tl_fold u md (msgs ! k)"
  using assms by (simp add: model_at_def take_Suc_conv_app_nth replay_from_append replay_from_one [symmetric])

lemma model_at_prefix:
  assumes "model_at u md0 msgs j = Inr md" "k \<le> j"
  obtains md' where "model_at u md0 msgs k = Inr md'"
proof -
  have "take j msgs = take k msgs @ take (j - k) (drop k msgs)" using assms(2) by (metis le_add_diff_inverse take_add)
  then show thesis using assms(1) that by (auto simp: model_at_def replay_from_append split: sum.splits)
qed

section \<open>The timeline's invariant\<close>

definition tl_inv :: "('md \<Rightarrow> 'm \<Rightarrow> 'md \<times> (exc + 'c)) \<Rightarrow> 'md \<Rightarrow> ('md, 'm) timeline \<Rightarrow> bool" where
  "tl_inv u md0 t \<longleftrightarrow> 0 < tl_stride t \<and> (\<exists>md. model_at u md0 (tl_msgs t) (length (tl_msgs t)) = Inr md) \<and>
     length (tl_snaps t) = length (tl_msgs t) div tl_stride t + 1 \<and>
     (\<forall>k < length (tl_snaps t). model_at u md0 (tl_msgs t) (k * tl_stride t) = Inr (tl_snaps t ! k)) \<and>
     (\<forall>i md. tl_cur t = Some (i, md) \<longrightarrow> i \<le> length (tl_msgs t) \<and> model_at u md0 (tl_msgs t) i = Inr md)"

lemma tl_build_spec:
  assumes "0 < st" "model_at u md0 msgs i = Inr md" "i \<le> length msgs"
    "length snaps = i div st + 1" "\<forall>k < length snaps. model_at u md0 msgs (k * st) = Inr (snaps ! k)"
  shows "case tl_build u st i md (drop i msgs) snaps of
      Inl x \<Rightarrow> model_at u md0 msgs (length msgs) = Inl x
    | Inr out \<Rightarrow> (\<exists>e. model_at u md0 msgs (length msgs) = Inr e) \<and> length out = length msgs div st + 1 \<and>
        (\<forall>k < length out. model_at u md0 msgs (k * st) = Inr (out ! k))"
  using assms(2-)
proof (induction "length msgs - i" arbitrary: i md snaps)
  case 0
  then show ?case by simp
next
  case (Suc n)
  then have i: "i < length msgs" by simp
  note d = Cons_nth_drop_Suc [OF i, symmetric]
  note s = model_at_Suc [OF i Suc.prems(1)]
  show ?case
  proof (cases "tl_fold u md (msgs ! i)")
    case (Inl x)
    have "model_at u md0 msgs (length msgs) = Inl x"
    proof -
      have "model_at u md0 msgs (Suc i) = Inl x" using s Inl by simp
      then have "replay_from u md0 (take (Suc i) msgs @ drop (Suc i) msgs) = Inl x"
        unfolding replay_from_append by (simp add: model_at_def)
      then show ?thesis by (simp add: model_at_def)
    qed
    then show ?thesis using Inl by (simp add: d)
  next
    case (Inr md')
    let ?snaps = "if (i + 1) mod st = 0 then snaps @ [md'] else snaps"
    have m: "model_at u md0 msgs (i + 1) = Inr md'" using s Inr by simp
    have l: "length ?snaps = (i + 1) div st + 1" using Suc.prems(3) assms(1) by (simp add: div_Suc)
    have k: "\<forall>k < length ?snaps. model_at u md0 msgs (k * st) = Inr (?snaps ! k)"
    proof (intro allI impI)
      fix k assume "k < length ?snaps"
      then consider "k < length snaps" | "(i + 1) mod st = 0" "k = length snaps" by (force split: if_splits)
      then show "model_at u md0 msgs (k * st) = Inr (?snaps ! k)"
      proof cases
        case 2
        then have "k * st = i + 1" using l by (metis add_diff_cancel_right' length_append_singleton mod_0_imp_dvd dvd_div_mult_self Suc_eq_plus1)
        then show ?thesis using m 2 by simp
      qed (use Suc.prems(4) in \<open>auto simp: nth_append\<close>)
    qed
    from Suc.hyps(1) [OF _ m _ l k] Suc.hyps(2) i show ?thesis using Inr by (simp add: d)
  qed
qed

lemma new_timeline_spec:
  "case new_timeline (md0, c) u msgs stride of
     Inl x \<Rightarrow> model_at u md0 msgs (length msgs) = Inl x
   | Inr t \<Rightarrow> tl_inv u md0 t \<and> tl_msgs t = msgs \<and> tl_stride t = (if stride \<noteq> 0 then stride else 1)"
proof -
  let ?st = "if stride \<noteq> 0 then stride else 1"
  have st: "0 < ?st" by simp
  have z: "model_at u md0 msgs 0 = Inr md0" by (simp add: model_at_def)
  show ?thesis
  proof (cases "tl_build u ?st 0 md0 msgs [md0]")
    case (Inl x)
    then show ?thesis using tl_build_spec [OF st z, of "[md0]"] z by (simp add: new_timeline_def)
  next
    case (Inr out)
    then have o: "\<exists>e. model_at u md0 msgs (length msgs) = Inr e" "length out = length msgs div ?st + 1"
      "\<forall>k < length out. model_at u md0 msgs (k * ?st) = Inr (out ! k)"
      using tl_build_spec [OF st z, of "[md0]"] z by (simp_all split del: if_split)
    have "out \<noteq> []" using o(2) by auto
    moreover from this have "model_at u md0 msgs 0 = Inr (hd out)" using o(3) by (metis hd_conv_nth length_greater_0_conv mult_0)
    ultimately show ?thesis using Inr o by (simp add: new_timeline_def tl_inv_def split del: if_split) simp
  qed
qed

lemma new_timeline_throws: "new_timeline (md0, c) u msgs stride = Inl x \<Longrightarrow> model_at u md0 msgs (length msgs) = Inl x"
  using new_timeline_spec [where ?md0.0 = md0 and c = c and u = u and msgs = msgs and stride = stride] by simp

lemma new_timeline_inv:
  "new_timeline (md0, c) u msgs stride = Inr t \<Longrightarrow>
   tl_inv u md0 t \<and> tl_msgs t = msgs \<and> tl_stride t = (if stride \<noteq> 0 then stride else 1)"
  using new_timeline_spec [where ?md0.0 = md0 and c = c and u = u and msgs = msgs and stride = stride]
  by (simp split del: if_split)

lemma tl_walk_spec:
  assumes "model_at u md0 msgs (length msgs) = Inr e" "model_at u md0 msgs i = Inr md" "i \<le> k" "k \<le> length msgs"
  shows "\<exists>md'. tl_walk u moved msgs k (i, md) = (None, (k, md')) \<and> model_at u md0 msgs k = Inr md'"
  using assms(2,3)
proof (induction "k - i" arbitrary: i md)
  case 0
  then show ?case by (simp add: tl_walk.simps [of u moved msgs i "(i, md)"])
next
  case (Suc n)
  then have i: "i < k" "i < length msgs" using assms(4) by simp_all
  obtain md' where m: "model_at u md0 msgs (Suc i) = Inr md'"
    by (rule model_at_prefix [OF assms(1), of "Suc i"]) (use i in simp)
  then have "tl_fold u md (msgs ! i) = Inr md'" using model_at_Suc [OF i(2) Suc.prems(1)] by simp
  then show ?case using Suc.hyps(1) [OF _ m] Suc.hyps(2) i by (simp add: tl_walk.simps [of u moved msgs k "(i, md)"])
qed

lemma tl_seek_spec:
  assumes "tl_inv u md0 t" "k \<le> length (tl_msgs t)"
  shows "model_at u md0 (tl_msgs t) (fst (tl_seek k t)) = Inr (snd (tl_seek k t))" "fst (tl_seek k t) \<le> k"
    "k < fst (tl_seek k t) + tl_stride t"
proof -
  let ?st = "tl_stride t" and ?n = "k div tl_stride t"
  have st: "0 < ?st" using assms(1) by (simp add: tl_inv_def)
  have "?n < length (tl_snaps t)" using assms by (simp add: tl_inv_def div_le_mono le_imp_less_Suc)
  then have s: "model_at u md0 (tl_msgs t) (?n * ?st) = Inr (tl_snaps t ! ?n)" using assms(1) by (simp add: tl_inv_def)
  have b: "?n * ?st \<le> k" "k < ?n * ?st + ?st" using st by (simp_all add: dividend_less_div_times add.commute)
  have "tl_seek k t = (?n * ?st, tl_snaps t ! ?n) \<or>
      (\<exists>i md. tl_cur t = Some (i, md) \<and> tl_seek k t = (i, md) \<and> i \<le> k \<and> ?n * ?st \<le> i)"
    by (auto simp: tl_seek_def Let_def split: option.split)
  then show "model_at u md0 (tl_msgs t) (fst (tl_seek k t)) = Inr (snd (tl_seek k t))" "fst (tl_seek k t) \<le> k"
    "k < fst (tl_seek k t) + ?st"
    using s b assms(1) by (auto simp: tl_inv_def)
qed

lemma tl_at_spec:
  assumes "tl_inv u md0 t" "k \<le> length (tl_msgs t)"
  obtains md where "model_at u md0 (tl_msgs t) k = Inr md" "tl_at u moved k t = (Inr md, t\<lparr>tl_cur := Some (k, md)\<rparr>)"
    "tl_inv u md0 (t\<lparr>tl_cur := Some (k, md)\<rparr>)"
proof -
  obtain e where e: "model_at u md0 (tl_msgs t) (length (tl_msgs t)) = Inr e" using assms(1) by (auto simp: tl_inv_def)
  note s = tl_seek_spec [OF assms]
  obtain md where w: "tl_walk u moved (tl_msgs t) k (tl_seek k t) = (None, (k, md))" "model_at u md0 (tl_msgs t) k = Inr md"
    using tl_walk_spec [OF e s(1,2) assms(2), of moved] by auto
  show thesis by (rule that [OF w(2)]) (use w assms in \<open>auto simp: tl_at_def tl_size_def tl_inv_def\<close>)
qed

lemma tl_at_past: "length (tl_msgs t) < k \<Longrightarrow> tl_at u moved k t = (Inl (out_of_range ''jaal::timeline::at: step past the end''), t)"
  by (simp add: tl_at_def tl_size_def)

text \<open>Any sequence of looks at the run.\<close>

definition tl_visit ::
    "('md \<Rightarrow> 'm \<Rightarrow> 'md \<times> (exc + 'c)) \<Rightarrow> ('md \<Rightarrow> 'md) \<Rightarrow> nat list \<Rightarrow> ('md, 'm) timeline \<Rightarrow> ('md, 'm) timeline" where
  "tl_visit u moved ks t = fold (\<lambda>k t. snd (tl_at u moved k t)) ks t"

lemma tl_visit_inv:
  assumes "tl_inv u md0 t"
  shows "tl_inv u md0 (tl_visit u moved ks t) \<and> tl_msgs (tl_visit u moved ks t) = tl_msgs t \<and>
    tl_stride (tl_visit u moved ks t) = tl_stride t"
  using assms
proof (induction ks arbitrary: t)
  case (Cons k ks)
  show ?case
  proof (cases "k \<le> length (tl_msgs t)")
    case True
    then obtain md where "tl_at u moved k t = (Inr md, t\<lparr>tl_cur := Some (k, md)\<rparr>)" "tl_inv u md0 (t\<lparr>tl_cur := Some (k, md)\<rparr>)"
      by (rule tl_at_spec [OF Cons.prems])
    then show ?thesis using Cons.IH by (fastforce simp: tl_visit_def)
  qed (use Cons tl_at_past [of t k u moved] in \<open>simp add: tl_visit_def\<close>)
qed (simp add: tl_visit_def)

section \<open>Searching the run\<close>

definition mdl :: "('md \<Rightarrow> 'm \<Rightarrow> 'md \<times> (exc + 'c)) \<Rightarrow> 'md \<Rightarrow> 'm list \<Rightarrow> nat \<Rightarrow> 'md" where
  "mdl u md0 msgs k = projr (model_at u md0 msgs k)"

lemma first_bad_from_spec:
  assumes "tl_inv u md0 t" "s \<le> tl_size t" "\<forall>k < s. good (mdl u md0 (tl_msgs t) k)"
  shows "(fst (first_bad_from u moved good s t) = Inr None \<and> (\<forall>k \<le> length (tl_msgs t). good (mdl u md0 (tl_msgs t) k))) \<or>
    (\<exists>j \<le> length (tl_msgs t). fst (first_bad_from u moved good s t) = Inr (Some j) \<and>
      \<not> good (mdl u md0 (tl_msgs t) j) \<and> (\<forall>k < j. good (mdl u md0 (tl_msgs t) k)))"
  using assms
proof (induction "tl_size t - s" arbitrary: s t)
  case 0
  then have "s = tl_size t" by simp
  moreover have "first_bad_from u moved good (tl_size t) t = (Inr None, t)"
    by (simp add: first_bad_from.simps [of u moved good "tl_size t" t])
  ultimately show ?case using 0(4) by (simp add: tl_size_def less_Suc_eq_le)
next
  case (Suc n)
  then have s: "s \<le> length (tl_msgs t)" "s < tl_size t" by (simp_all add: tl_size_def)
  obtain md where a: "model_at u md0 (tl_msgs t) s = Inr md" "tl_at u moved s t = (Inr md, t\<lparr>tl_cur := Some (s, md)\<rparr>)"
    "tl_inv u md0 (t\<lparr>tl_cur := Some (s, md)\<rparr>)" by (rule tl_at_spec [OF Suc.prems(1) s(1)])
  have m: "mdl u md0 (tl_msgs t) s = md" using a(1) by (simp add: mdl_def)
  let ?t = "t\<lparr>tl_cur := Some (s, md)\<rparr>"
  show ?case
  proof (cases "good md")
    case True
    have "n = tl_size ?t - (s + 1)" "s + 1 \<le> tl_size ?t" using Suc.hyps(2) s(2) by (simp_all add: tl_size_def)
    moreover have "\<forall>k < s + 1. good (mdl u md0 (tl_msgs ?t) k)" using Suc.prems(3) m True by (simp add: less_Suc_eq)
    ultimately show ?thesis using Suc.hyps(1) [OF _ a(3)] a(2) s(2) True
      by (simp add: first_bad_from.simps [of u moved good s t])
  next
    case False
    then show ?thesis using a(2) s m Suc.prems(3) by (auto simp: first_bad_from.simps [of u moved good s t])
  qed
qed

lemma bisect_from_spec:
  assumes "tl_inv u md0 t" "lo < hi" "hi \<le> length (tl_msgs t)" "good (mdl u md0 (tl_msgs t) lo)" "\<not> good (mdl u md0 (tl_msgs t) hi)"
  shows "\<exists>j. lo < j \<and> j \<le> hi \<and> fst (bisect_from u moved good lo hi t) = Inr (Some j) \<and>
    \<not> good (mdl u md0 (tl_msgs t) j) \<and> good (mdl u md0 (tl_msgs t) (j - 1))"
  using assms
proof (induction "hi - lo" arbitrary: lo hi t rule: less_induct)
  case less
  show ?case
  proof (cases "hi - lo > 1")
    case True
    let ?mid = "lo + (hi - lo) div 2"
    have mid: "lo < ?mid" "?mid < hi" "hi - ?mid < hi - lo" "?mid - lo < hi - lo" using True by auto
    then have "?mid \<le> length (tl_msgs t)" using less.prems(3) by simp
    then obtain md where a: "model_at u md0 (tl_msgs t) ?mid = Inr md" "tl_at u moved ?mid t = (Inr md, t\<lparr>tl_cur := Some (?mid, md)\<rparr>)"
      "tl_inv u md0 (t\<lparr>tl_cur := Some (?mid, md)\<rparr>)" by (rule tl_at_spec [OF less.prems(1)])
    have m: "mdl u md0 (tl_msgs t) ?mid = md" using a(1) by (simp add: mdl_def)
    show ?thesis
    proof (cases "good md")
      case g: True
      obtain j where "?mid < j \<and> j \<le> hi \<and> fst (bisect_from u moved good ?mid hi (t\<lparr>tl_cur := Some (?mid, md)\<rparr>)) = Inr (Some j) \<and>
        \<not> good (mdl u md0 (tl_msgs t) j) \<and> good (mdl u md0 (tl_msgs t) (j - 1))"
        using less.hyps [OF mid(3) a(3) mid(2)] less.prems m g by auto
      then show ?thesis using mid a(2) True g by (intro exI [of _ j]) (simp add: bisect_from.simps [of u moved good lo hi t] Let_def)
    next
      case b: False
      obtain j where "lo < j \<and> j \<le> ?mid \<and> fst (bisect_from u moved good lo ?mid (t\<lparr>tl_cur := Some (?mid, md)\<rparr>)) = Inr (Some j) \<and>
        \<not> good (mdl u md0 (tl_msgs t) j) \<and> good (mdl u md0 (tl_msgs t) (j - 1))"
        using less.hyps [OF mid(4) a(3) mid(1)] mid less.prems m b by auto
      then show ?thesis using mid a(2) True b by (intro exI [of _ j]) (simp add: bisect_from.simps [of u moved good lo hi t] Let_def)
    qed
  next
    case False
    then have "hi = lo + 1" using less.prems(2) by simp
    then show ?thesis using less.prems by (intro exI [of _ hi]) (simp add: bisect_from.simps [of u moved good lo "Suc lo" t])
  qed
qed

lemma first_bad_spec:
  assumes "tl_inv u md0 t"
  shows "(fst (first_bad u moved good t) = Inr None \<and> (\<forall>k \<le> length (tl_msgs t). good (mdl u md0 (tl_msgs t) k))) \<or>
    (\<exists>j \<le> length (tl_msgs t). fst (first_bad u moved good t) = Inr (Some j) \<and> \<not> good (mdl u md0 (tl_msgs t) j) \<and>
      (\<forall>k < j. good (mdl u md0 (tl_msgs t) k)))"
  using first_bad_from_spec [OF assms, of 0 good moved] by (simp add: first_bad_def)

lemma bisect_start:
  assumes "tl_inv u md0 t" "tl_msgs t = msgs"
  obtains t2 where "tl_inv u md0 t2" "tl_msgs t2 = msgs"
    "fst (bisect u moved good t) = (if good (mdl u md0 msgs (length msgs)) then Inr None
      else if \<not> good (mdl u md0 msgs 0) then Inr (Some 0) else fst (bisect_from u moved good 0 (length msgs) t2))"
proof -
  let ?n = "length msgs"
  obtain md where a: "model_at u md0 msgs ?n = Inr md" "tl_at u moved ?n t = (Inr md, t\<lparr>tl_cur := Some (?n, md)\<rparr>)"
    "tl_inv u md0 (t\<lparr>tl_cur := Some (?n, md)\<rparr>)" using tl_at_spec [OF assms(1), of ?n moved] assms(2) by auto
  let ?t1 = "t\<lparr>tl_cur := Some (?n, md)\<rparr>"
  obtain md1 where b: "model_at u md0 msgs 0 = Inr md1" "tl_at u moved 0 ?t1 = (Inr md1, ?t1\<lparr>tl_cur := Some (0, md1)\<rparr>)"
    "tl_inv u md0 (?t1\<lparr>tl_cur := Some (0, md1)\<rparr>)" using tl_at_spec [OF a(3), of 0 moved] assms(2) by auto
  show thesis by (rule that [OF b(3)]) (use a b assms(2) in \<open>simp_all add: bisect_def tl_size_def mdl_def\<close>)
qed

lemma bisect_spec:
  assumes inv: "tl_inv u md0 t" and msgs: "tl_msgs t = msgs"
    and up: "\<forall>i j. i \<le> j \<and> j \<le> length msgs \<and> good (mdl u md0 msgs j) \<longrightarrow> good (mdl u md0 msgs i)"
  shows "fst (bisect u moved good t) = fst (first_bad u moved good t)"
proof -
  let ?M = "mdl u md0 msgs" and ?n = "length msgs"
  obtain t2 where t2: "tl_inv u md0 t2" "tl_msgs t2 = msgs"
    and e: "fst (bisect u moved good t) = (if good (?M ?n) then Inr None else if \<not> good (?M 0) then Inr (Some 0)
      else fst (bisect_from u moved good 0 ?n t2))"
    by (rule bisect_start [OF inv msgs])
  note f = first_bad_spec [OF inv, of moved good, unfolded msgs]
  show ?thesis
  proof (cases "good (?M ?n)")
    case True
    then show ?thesis using f e up by auto
  next
    case False
    then obtain i where i: "fst (first_bad u moved good t) = Inr (Some i)" "\<not> good (?M i)" "\<forall>k < i. good (?M k)"
      using f by auto
    show ?thesis
    proof (cases "good (?M 0)")
      case z: True
      then have "0 < ?n" using False by (metis gr0I)
      then obtain j where j: "j \<le> ?n" "fst (bisect_from u moved good 0 ?n t2) = Inr (Some j)" "\<not> good (?M j)" "good (?M (j - 1))"
        using bisect_from_spec [OF t2(1), of 0 ?n good moved] False z t2(2) by auto
      have "\<not> i < j"
      proof
        assume "i < j"
        then have "i \<le> j - 1" "j - 1 \<le> ?n" using j(1) by simp_all
        then show False using up j(4) i(2) by blast
      qed
      moreover have "\<not> j < i" using i(3) j(3) by blast
      ultimately show ?thesis using e False z i(1) j(2) by simp
    next
      case z: False
      then have "i = 0" using i(3) by (cases i) auto
      then show ?thesis using e False z i(1) by simp
    qed
  qed
qed

section \<open>Properties\<close>

text \<open>Stepping through a run shows the run. A timeline is built exactly when replaying the messages does
  not throw; then, whatever steps have been looked at before, looking at step \<open>k\<close> gives the model that
  replaying the first \<open>k\<close> messages gives, a step past the end is an exception, and fewer messages than the
  stride are folded to get there.\<close>

theorem timeline_exact:
  "case new_timeline (md0, c) u msgs stride of
     Inl x \<Rightarrow> replay (md0, c) u msgs = Inl x
   | Inr t \<Rightarrow> (let t' = tl_visit u moved ks t
       in if k \<le> length msgs
          then fst (tl_at u moved k t') = replay (md0, c) u (take k msgs) \<and> (\<exists>md. replay (md0, c) u (take k msgs) = Inr md) \<and>
               k - fst (tl_seek k t') < (if stride \<noteq> 0 then stride else 1)
          else fst (tl_at u moved k t') = Inl (out_of_range ''jaal::timeline::at: step past the end''))"
proof (cases "new_timeline (md0, c) u msgs stride")
  case (Inl x)
  then show ?thesis using new_timeline_throws [OF Inl] by (simp add: model_at_def replay_def)
next
  case (Inr t)
  let ?t = "tl_visit u moved ks t"
  have i: "tl_inv u md0 ?t" "tl_msgs ?t = msgs" "tl_stride ?t = (if stride \<noteq> 0 then stride else 1)"
    using new_timeline_inv [OF Inr] tl_visit_inv [of u md0 t moved ks] by (simp_all split del: if_split)
  show ?thesis
  proof (cases "k \<le> length msgs")
    case True
    then have k: "k \<le> length (tl_msgs ?t)" using i(2) by simp
    obtain md where "model_at u md0 msgs k = Inr md" "fst (tl_at u moved k ?t) = Inr md"
      using tl_at_spec [OF i(1) k, of moved] i(2) by (metis fst_conv)
    moreover have "k - fst (tl_seek k ?t) < tl_stride ?t" using tl_seek_spec [OF i(1) k] by simp
    ultimately show ?thesis using Inr True i(3) by (simp add: model_at_def replay_def)
  next
    case False
    then show ?thesis using Inr tl_at_past [of ?t k u moved] i(2) by simp
  qed
qed

text \<open>C12: bisecting finds what a full search finds. When a property once broken stays broken along the run,
  \<^verbatim>\<open>bisect\<close> and \<^verbatim>\<open>first_bad\<close> return the same step, and it is the first at which the property fails.\<close>

theorem bisect_is_first_bad:
  assumes "new_timeline (md0, c) u msgs stride = Inr t"
    and mono: "\<And>i j. i \<le> j \<Longrightarrow> j \<le> length msgs \<Longrightarrow> good (projr (replay (md0, c) u (take j msgs))) \<Longrightarrow>
      good (projr (replay (md0, c) u (take i msgs)))"
  shows "fst (bisect u moved good t) = fst (first_bad u moved good t) \<and>
    (fst (first_bad u moved good t) = Inr None \<and> (\<forall>k \<le> length msgs. good (projr (replay (md0, c) u (take k msgs)))) \<or>
     (\<exists>j \<le> length msgs. fst (first_bad u moved good t) = Inr (Some j) \<and> \<not> good (projr (replay (md0, c) u (take j msgs))) \<and>
       (\<forall>k < j. good (projr (replay (md0, c) u (take k msgs))))))"
proof -
  have inv: "tl_inv u md0 t" and msgs: "tl_msgs t = msgs" using new_timeline_inv [OF assms(1)] by simp_all
  have M: "projr (replay (md0, c) u (take k msgs)) = mdl u md0 msgs k" for k by (simp add: mdl_def model_at_def replay_def)
  show ?thesis unfolding M
    using first_bad_spec [OF inv, of moved good, unfolded msgs] bisect_spec [OF inv msgs, of good moved] mono [unfolded M] by blast
qed

definition count_update :: "nat \<Rightarrow> nat \<Rightarrow> nat \<times> (exc + unit)" where
  "count_update md m = (md + m, Inr ())"

theorem bisect_is_first_bad_witness:
  "\<exists>t. new_timeline (0, ()) count_update [1, 2, 3, 4, 5] 2 = Inr t \<and>
     fst (bisect count_update id (\<lambda>x. x < 6) t) = fst (first_bad count_update id (\<lambda>x. x < 6) t) \<and>
     fst (first_bad count_update id (\<lambda>x. x < 6) t) = Inr (Some 3)"
proof -
  let ?t = "projr (new_timeline (0, ()) count_update [1, 2, 3, 4, 5] 2)"
  have "\<not> isl (new_timeline (0, ()) count_update [1, 2, 3, 4, 5] 2)" by code_simp
  then have t: "new_timeline (0, ()) count_update [1, 2, 3, 4, 5] 2 = Inr ?t" by simp
  have r: "replay_from count_update md ms = Inr (md + sum_list ms)" for md ms
    by (induction ms arbitrary: md) (simp_all add: count_update_def add.assoc)
  have s: "sum_list (take i (xs :: nat list)) \<le> sum_list (take j xs)" if "i \<le> j" for i j xs
  proof -
    have "take j xs = take i xs @ take (j - i) (drop i xs)" using that by (metis le_add_diff_inverse take_add)
    then show ?thesis by simp
  qed
  have m: "projr (replay (0, ()) count_update (take i [1, 2, 3, 4, 5])) < 6"
    if "i \<le> j" "projr (replay (0, ()) count_update (take j [1, 2, 3, 4, 5])) < 6" for i j
  proof -
    have "sum_list (take i [1, 2, 3, 4, 5 :: nat]) \<le> sum_list (take j [1, 2, 3, 4, 5])" by (rule s [OF that(1)])
    then show ?thesis using that(2) unfolding replay_def r sum.sel fst_conv by linarith
  qed
  have "fst (first_bad count_update id (\<lambda>x. x < 6) ?t) = Inr (Some 3)" by code_simp
  then show ?thesis using t bisect_is_first_bad [OF t, of "\<lambda>x. x < 6" id] m by blast
qed

end
