(* ===== verification/Kernel_Subs.thy ===== *)
theory Kernel_Subs
  imports Kernel_Props
begin

text \<open>
  The timers and streams that run are the ones the program subscribes to: the keys of the running work
  through a plan, through every operation, and in every state between two operations.
\<close>

section \<open>The keys of the running work\<close>

fun own :: "'k source_key \<Rightarrow> bool" where
  "own (HostKey _) = False"
| "own _ = True"

text \<open>The kernel's own work is exactly the part of a set of keys that it runs itself: timers under
  timer keys, streams under stream keys.\<close>

definition runs_keys :: "'k source_key set \<Rightarrow> ('md, 'm, 'k, 'e, 'sk, 'hs) kernel \<Rightarrow> bool" where
  "runs_keys R s \<longleftrightarrow> fst ` set (k_timer_of s) = {k \<in> R. own k \<and> numbered k} \<and>
     fst ` set (k_streams s) = {k \<in> R. own k \<and> \<not> numbered k}"

lemma runs_keys_cong:
  assumes "runs_keys R s" "k_timer_of s' = k_timer_of s" "k_streams s' = k_streams s"
  shows "runs_keys R s'"
  using assms by (simp add: runs_keys_def)

lemma keys_delete: "fst ` set (AList.delete k al) = fst ` set al - {k}"
  by (auto simp: AList.delete_eq)

lemma keys_update: "fst ` set (AList.update k v al) = insert k (fst ` set al)"
  by (simp add: AList.dom_update)

lemma stop_every_keys: "fst ` set (k_timer_of (stop_every k s)) = fst ` set (k_timer_of s) - {k}"
proof (cases "map_of (k_timer_of s) k")
  case None
  then have "k \<notin> fst ` set (k_timer_of s)" by (simp add: map_of_eq_None_iff)
  then show ?thesis using None by (simp add: stop_every_def)
qed (simp add: stop_every_def Let_def retire_live_def keys_delete)

lemma stop_stream_keys: "fst ` set (k_streams (stop_stream k s)) = fst ` set (k_streams s) - {k}"
proof (cases "map_of (k_streams s) k")
  case None
  then have "k \<notin> fst ` set (k_streams s)" by (simp add: map_of_eq_None_iff)
  then show ?thesis using None by (simp add: stop_stream_def)
qed (simp add: stop_stream_def Let_def retire_live_def keys_delete)

lemma stop_source_keys:
  assumes "stop_source e k s = Inr (x, s')" "runs_keys R s"
  shows "runs_keys (R - {k}) s'"
proof (cases k)
  case (EveryKey i n)
  then have s': "s' = stop_every k s" using assms(1) by (simp add: stop_source_def)
  have "fst ` set (k_timer_of s') = fst ` set (k_timer_of s) - {k}" "k_streams s' = k_streams s"
    unfolding s' by (rule stop_every_keys) (simp add: stop_every_def retire_live_def Let_def split: option.split)
  then show ?thesis using assms(2) EveryKey unfolding runs_keys_def by (auto simp: numbered_def)
next
  case (StreamKey n)
  then have s': "s' = stop_stream k s" using assms(1) by (simp add: stop_source_def)
  have "fst ` set (k_streams s') = fst ` set (k_streams s) - {k}" "k_timer_of s' = k_timer_of s"
    unfolding s' by (rule stop_stream_keys) (simp add: stop_stream_def retire_live_def Let_def split: option.split)
  then show ?thesis using assms(2) StreamKey unfolding runs_keys_def by (auto simp: numbered_def)
next
  case (HostKey h)
  then have "runs_keys (R - {k}) s" using assms(2) by (auto simp: runs_keys_def)
  then show ?thesis by (rule runs_keys_cong) (use assms(1) HostKey in \<open>auto simp: stop_source_def split: prod.splits\<close>)
qed

lemma keep_source_keys:
  assumes "keep_source kp s = Inr (x, s')" "runs_keys R s"
  shows "runs_keys R s'"
  by (rule runs_keys_cong [OF assms(2)])
    (use assms(1) in \<open>cases kp, auto simp: keep_source_def split: source_key.splits sub.splits option.splits\<close>)+

lemma start_source_keys:
  assumes "start_source e kp s = Inr (x, s')" "matches kp" "runs_keys R s"
  shows "runs_keys (insert (fst kp) R) s'"
proof (cases kp rule: matches.cases)
  case (1 i n d m)
  then have "start_every e (EveryKey i n) d m s = Inr s'" using assms(1) by (auto simp: start_source_def andthen_Inr)
  then show ?thesis
  proof (rule start_every_elim)
    fix o1 s1 now s2 t h
    assume a: "open_live s = Inr (o1, s1)" "step_now e s1 = (now, s2)"
      "s' = s2\<lparr>k_timers := h, k_timer_of := AList.update (EveryKey i n) \<lparr>rt_id = t, rt_origin = o1\<rparr> (k_timer_of s2)\<rparr>"
    have "k_timer_of s2 = k_timer_of s \<and> k_streams s2 = k_streams s"
      using open_live_elim [OF a(1)] step_now_keeps [OF a(2)] by simp
    then show ?thesis using assms(3) 1 a(3) by (auto simp: runs_keys_def keys_update numbered_def)
  qed
next
  case (2 n n' b)
  then have "start_stream (StreamKey n) n' b s = Inr s'" using assms(1) by (auto simp: start_source_def andthen_Inr)
  then obtain i s1 where o: "open_live s = Inr (i, s1)" and s': "k_timer_of s' = k_timer_of s1"
    "k_streams s' = AList.update (StreamKey n) i (k_streams s1)"
    by (auto simp: start_stream_def andthen_Inr)
  have "k_timer_of s1 = k_timer_of s" "k_streams s1 = k_streams s" using open_live_elim [OF o] by simp_all
  then show ?thesis using assms(3) 2 s' by (auto simp: runs_keys_def keys_update numbered_def)
next
  case (3 h p)
  then have "runs_keys (insert (fst kp) R) s" using assms(3) by (auto simp: runs_keys_def)
  then show ?thesis by (rule runs_keys_cong) (use assms(1) 3 in \<open>auto simp: start_source_def split: prod.splits\<close>)
qed (use assms(2) in auto)

lemma each_stop_keys: "each (stop_source e) ks s = Inr (None, s') \<Longrightarrow> runs_keys R s \<Longrightarrow> runs_keys (R - set ks) s'"
proof (induction ks arbitrary: s R)
  case (Cons k ks)
  then obtain s1 where 1: "stop_source e k s = Inr (None, s1)" "each (stop_source e) ks s1 = Inr (None, s')"
    by (auto simp: andthen_Inr split: option.splits)
  have "runs_keys (R - {k} - set ks) s'" by (rule Cons.IH [OF 1(2) stop_source_keys [OF 1(1) Cons.prems(2)]])
  then show ?case by (simp add: set_diff_eq)
qed simp

lemma each_start_keys:
  "each (start_source e) ps s = Inr (None, s') \<Longrightarrow> \<forall>w \<in> set ps. matches w \<Longrightarrow> runs_keys R s \<Longrightarrow> runs_keys (fst ` set ps \<union> R) s'"
proof (induction ps arbitrary: s R)
  case (Cons p ps)
  then obtain s1 where 1: "start_source e p s = Inr (None, s1)" "each (start_source e) ps s1 = Inr (None, s')"
    by (auto simp: andthen_Inr split: option.splits)
  have "runs_keys (fst ` set ps \<union> insert (fst p) R) s'"
    by (rule Cons.IH [OF 1(2) _ start_source_keys [OF 1(1) _ Cons.prems(3)]]) (use Cons.prems(2) in auto)
  then show ?case by simp
qed simp

lemma apply_plan_keys:
  assumes "apply_plan e p s = Inr (None, s')" "\<forall>w \<in> set (pl_start p) \<union> set (pl_keep p). matches w" "runs_keys R s"
  shows "runs_keys (fst ` set (pl_start p) \<union> (R - set (pl_stop p))) s'"
  using assms(1)
proof (cases rule: apply_plan_cases)
  case (3 s1 s2)
  have "runs_keys (R - set (pl_stop p)) s1" by (rule each_stop_keys [OF 3(1) assms(3)])
  then have "runs_keys (R - set (pl_stop p)) s2" by (rule each_ind [where P = "runs_keys _", OF 3(2) _ keep_source_keys])
  moreover have "\<forall>w \<in> set (pl_start p). matches w" using assms(2) by blast
  ultimately show ?thesis by (intro each_start_keys [OF 3(3)])
qed simp_all

text \<open>The plan of the diff turns the old set of keys into the new one.\<close>

lemma diff_plan_keys:
  "fst ` set (pl_start (diff_plan R W d)) \<union> (fst ` set R - set (pl_stop (diff_plan R W d))) = fst ` set W"
  by (auto simp: diff_plan_def image_iff)

section \<open>The invariant\<close>

text \<open>
  A program whose subscriptions always can be read, with at most sixteen sources, a host whose sources
  do not throw, and a key, if one is declared, that determines the subscriptions.
\<close>

definition orderly :: "('md, 'm, 'h, 'o, 'k, 'e, 'ev, 'sk, 'hs) env \<Rightarrow> bool" where
  "orderly e \<longleftrightarrow> (\<forall>m. \<exists>w. e_subscribe e m = Inr w \<and> length (wanted w) \<le> 16) \<and>
     (\<forall>p k hs. fst (e_start_source e p k hs) = None) \<and> (\<forall>k hs. fst (e_stop_source e k hs) = None) \<and>
     (\<forall>f a b. e_subs_key e = Some f \<longrightarrow> f a = f b \<longrightarrow> e_subscribe e a = e_subscribe e b)"

definition wants :: "('md, 'm, 'h, 'o, 'k, 'e, 'ev, 'sk, 'hs) env \<Rightarrow> 'md \<Rightarrow> ('k source_key \<times> ('k, 'e, 'm) sub) list" where
  "wants e md = wanted (projr (e_subscribe e md))"

definition subs_inv ::
    "('md, 'm, 'h, 'o, 'k, 'e, 'ev, 'sk, 'hs) env \<Rightarrow> ('md, 'm, 'k, 'e, 'sk, 'hs) kernel \<Rightarrow> bool" where
  "subs_inv e s \<longleftrightarrow> length (rs_running (k_sources s)) \<le> 16 \<and>
     (k_down s \<or> runs_keys (fst ` set (rs_running (k_sources s))) s \<and>
      (k_exit s = None \<and> \<not> k_subs_dirty s \<longrightarrow> rs_running (k_sources s) = wants e (k_model s)) \<and>
      (k_distrusted s \<longrightarrow> k_subs_key s = None) \<and>
      (\<forall>f key. e_subs_key e = Some f \<and> k_subs_key s = Some key \<longrightarrow>
         (\<exists>md. f md = key \<and> rs_running (k_sources s) = wants e md)))"

text \<open>The part of the state the invariant reads, besides the model and the flags.\<close>

definition subs_of :: "('md, 'm, 'k, 'e, 'sk, 'hs) kernel \<Rightarrow> _" where
  "subs_of s = (k_sources s, k_timer_of s, k_streams s, k_subs_key s, k_distrusted s, k_down s)"

lemma subs_inv_cong:
  assumes "subs_inv e s" "subs_of s' = subs_of s"
    "k_exit s' = None \<and> \<not> k_subs_dirty s' \<Longrightarrow> k_exit s = None \<and> \<not> k_subs_dirty s \<and> k_model s' = k_model s"
  shows "subs_inv e s'"
  using assms by (auto simp: subs_inv_def subs_of_def runs_keys_def)

lemma subs_of_upd [simp]:
  "subs_of (emit_trace e ev s) = subs_of s" "subs_of (push_pending m s) = subs_of s"
  "subs_of (fault_raised e site x k s) = subs_of s" "subs_of (retire_live i s) = subs_of s"
  "subs_of (s\<lparr>k_model := md\<rparr>) = subs_of s" "subs_of (s\<lparr>k_inbox := b\<rparr>) = subs_of s"
  "subs_of (s\<lparr>k_timers := h\<rparr>) = subs_of s" "subs_of (s\<lparr>k_rng := r\<rparr>) = subs_of s" "subs_of (s\<lparr>k_host := hs\<rparr>) = subs_of s"
  "subs_of (s\<lparr>k_exit := c\<rparr>) = subs_of s" "subs_of (s\<lparr>k_jobs := js\<rparr>) = subs_of s" "subs_of (s\<lparr>k_tasks := ts\<rparr>) = subs_of s"
  "subs_of (s\<lparr>k_stopped := st\<rparr>) = subs_of s" "subs_of (s\<lparr>k_recorded := rc\<rparr>) = subs_of s"
  "subs_of (s\<lparr>k_recorded_timed := rt\<rparr>) = subs_of s" "subs_of (s\<lparr>k_subs_dirty := d, k_folds := n\<rparr>) = subs_of s"
  "subs_of (s\<lparr>k_subs_dirty := d\<rparr>) = subs_of s" "subs_of (s\<lparr>k_reads := rd\<rparr>) = subs_of s"
  by (simp_all add: subs_of_def push_pending_def retire_live_def)

lemma subs_of_now: "step_now e s = (t, s') \<Longrightarrow> subs_of s' = subs_of s"
  by (auto simp: step_now_def read_clock_def subs_of_def split: if_splits)

lemma subs_of_open: "open_live s = Inr (i, s') \<Longrightarrow> subs_of s' = subs_of s"
  by (auto simp: open_live_def subs_of_def split: option.splits)

lemma subs_of_stop_task [simp]: "subs_of (stop_keyed_task key s) = subs_of s"
  by (auto simp: stop_keyed_task_def Let_def subs_of_def retire_live_def split: option.split)

lemma subs_of_start_task: "start_keyed_task b w key s = Inr s' \<Longrightarrow> subs_of s' = subs_of s"
  by (auto simp: start_keyed_task_def andthen_Inr dest!: subs_of_open)

lemma subs_of_start_after:
  assumes "start_keyed_after e d m key s = Inr s'"
  shows "subs_of s' = subs_of s"
  using assms
proof (rule start_keyed_after_elim)
  fix i s1 now s2 t h
  assume a: "open_live (stop_keyed_task key s) = Inr (i, s1)" "step_now e s1 = (now, s2)"
    "s' = s2\<lparr>k_timers := h, k_tasks := AList.update key \<lparr>kr_origin = i, kr_timer = Some t\<rparr> (k_tasks s2)\<rparr>"
  then show ?thesis using subs_of_open [OF a(1)] subs_of_now [OF a(2)] by simp
qed

lemma subs_of_handle: "call_handle e x s = (r, s') \<Longrightarrow> subs_of s' = subs_of s"
  by (auto simp: call_handle_def Let_def subs_of_def push_pending_def split: prod.splits sum.splits option.splits)

lemma subs_of_effect:
  assumes "run_effect e c s = Inr (x, s')"
  shows "subs_of s' = subs_of s"
proof (cases c)
  case (After d m key)
  show ?thesis
  proof (cases "key = []")
    case True
    obtain now s1 where n: "step_now e s = (now, s1)" by fastforce
    show ?thesis using assms After True n subs_of_now [OF n] by (auto split: prod.splits)
  qed (use assms After subs_of_start_after in \<open>auto simp: andthen_Inr\<close>)
next
  case (Random f)
  then show ?thesis using assms by (auto split: prod.splits)
next
  case (Report r)
  then show ?thesis using assms subs_of_handle by (metis run_effect.simps(8) sum.inject(2))
next
  case (HostFx r)
  then show ?thesis using assms subs_of_handle by (metis run_effect.simps(9) sum.inject(2))
qed (use assms subs_of_start_task in \<open>auto simp: andthen_Inr read_clock_def split: if_splits\<close>)

lemma subs_of_interpret: "interpret_cmd e c s = Inr (x, s') \<Longrightarrow> subs_of s' = subs_of s"
  by (rule interpret_ind [of e c s x s' "\<lambda>t. subs_of t = subs_of s"]) (auto dest: subs_of_effect simp del: run_effect.simps)

section \<open>Folding and re-subscribing keep it\<close>

lemma fold_one_subs:
  assumes "fold_one e m s = Inr (ok, s')"
  shows "subs_of s' = subs_of s \<and> (k_exit s' = None \<and> \<not> k_subs_dirty s' \<longrightarrow> k_exit s = None \<and> \<not> k_subs_dirty s \<and> k_model s' = k_model s)"
  using assms
proof (cases rule: fold_one_elim)
  case (threw now s3 md x)
  have "subs_of s3 = subs_of s" using noted_frame [OF threw(1)] by (simp add: subs_of_def)
  then show ?thesis using threw(4) noted_frame [OF threw(1)] by (cases "policy e") (auto split: option.splits)
next
  case (returned now s3 md c x s6)
  have "subs_of (updated e m md s3) = subs_of s" using noted_frame [OF returned(1)] by (simp add: subs_of_def)
  then have "subs_of s6 = subs_of s" using subs_of_interpret [OF returned(4)] by simp
  moreover have "k_subs_dirty s6" using interpret_effected [OF returned(4)] by (simp add: effected_def)
  ultimately show ?thesis using returned(5) by (simp split: option.split)
qed

lemma subs_key_skip_spec:
  assumes "subs_key_skip e s = (b, s')"
  shows "b \<Longrightarrow> \<exists>f. e_subs_key e = Some f \<and> k_subs_key s = Some (f (k_model s)) \<and> k_subs_key s' = k_subs_key s"
    "\<not> b \<Longrightarrow> k_distrusted s \<and> k_subs_key s' = k_subs_key s \<or> e_subs_key e = None \<or> k_subs_key s' = None \<or>
      (\<exists>f. e_subs_key e = Some f \<and> k_subs_key s' = Some (f (k_model s)))"
    "k_distrusted s' \<Longrightarrow> k_distrusted s \<and> k_subs_key s' = k_subs_key s \<or> k_subs_key s' = None"
    "k_timer_of s' = k_timer_of s" "k_streams s' = k_streams s"
  using assms
  by (auto simp: subs_key_skip_def subs_key_covers_subscribe_def Let_def
    split: if_splits option.splits prod.splits sum.splits)

lemma orderly_plan:
  assumes "orderly e" "length (rs_running st) \<le> 16"
  obtains w st' where "e_subscribe e md = Inr w" "wants e md = wanted w" "length (wanted w) \<le> 16"
    "reconcile (e_hash e) w st = Inr (diff_plan (rs_running st) (wanted w) (repeated w), st')" "rs_running st' = wanted w"
proof -
  obtain w where w: "e_subscribe e md = Inr w" "length (wanted w) \<le> 16" using assms(1) unfolding orderly_def by blast
  have "index_safe w st" using w(2) assms(2) by (simp add: index_safe_def)
  then show thesis using reconcile_plan [of w st "e_hash e"] that w by (auto simp: wants_def)
qed

lemma plan_keeps_subs: "apply_plan e p s = Inr (x, s') \<Longrightarrow>
  k_sources s' = k_sources s \<and> k_subs_key s' = k_subs_key s \<and> k_distrusted s' = k_distrusted s"
proof (rule apply_plan_ind [of e p s x s' "\<lambda>t. k_sources t = k_sources s \<and> k_subs_key t = k_subs_key s \<and> k_distrusted t = k_distrusted s"], goal_cases)
  case (3 k y t t')
  then show ?case by (auto simp: stop_source_def stop_every_def stop_stream_def retire_live_def Let_def
    split: source_key.splits option.splits prod.splits)
next
  case (4 kp y t t')
  then show ?case by (cases kp) (auto simp: keep_source_def split: source_key.splits option.splits sub.splits)
next
  case (5 kp y t t')
  then show ?case
    by (cases kp) (auto simp: start_source_def start_stream_def andthen_Inr subs_of_def split: source_key.splits sub.splits prod.splits
      elim!: start_every_elim dest!: subs_of_open subs_of_now)
qed simp_all

lemma subscribe_now_inv:
  assumes o: "orderly e" and r: "subscribe_now e s = Inr s'" and len: "length (rs_running (k_sources s)) \<le> 16"
  shows "rs_running (k_sources s') = wants e (k_model s)" "length (rs_running (k_sources s')) \<le> 16"
    "k_subs_key s' = k_subs_key s" "k_distrusted s' = k_distrusted s"
    "runs_keys (fst ` set (rs_running (k_sources s))) s \<Longrightarrow> runs_keys (fst ` set (rs_running (k_sources s'))) s'"
proof -
  obtain w st' where w: "e_subscribe e (k_model s) = Inr w" "wants e (k_model s) = wanted w" "length (wanted w) \<le> 16"
    "reconcile (e_hash e) w (k_sources s) = Inr (diff_plan (rs_running (k_sources s)) (wanted w) (repeated w), st')"
    "rs_running st' = wanted w"
    by (rule orderly_plan [OF o len])
  let ?p = "diff_plan (rs_running (k_sources s)) (wanted w) (repeated w)"
  have "\<exists>x s1. apply_plan e ?p (s\<lparr>k_sources := st'\<rparr>) = Inr (x, s1) \<and>
      s' = emit_trace e (TSubscribe (length (pl_start ?p)) (length (pl_stop ?p)) (length (pl_keep ?p)))
        ((case x of Some ex \<Rightarrow> fault_raised e EffectSite ex True s1 | None \<Rightarrow> s1)
          \<lparr>k_duplicates := k_duplicates (case x of Some ex \<Rightarrow> fault_raised e EffectSite ex True s1 | None \<Rightarrow> s1) + length (pl_duplicates ?p)\<rparr>)"
    using r by (cases rule: subscribe_now_elim) (use w in auto)
  then obtain x s1 where a: "apply_plan e ?p (s\<lparr>k_sources := st'\<rparr>) = Inr (x, s1)"
    and s': "s' = emit_trace e (TSubscribe (length (pl_start ?p)) (length (pl_stop ?p)) (length (pl_keep ?p)))
        ((case x of Some ex \<Rightarrow> fault_raised e EffectSite ex True s1 | None \<Rightarrow> s1)
          \<lparr>k_duplicates := k_duplicates (case x of Some ex \<Rightarrow> fault_raised e EffectSite ex True s1 | None \<Rightarrow> s1) + length (pl_duplicates ?p)\<rparr>)"
    by blast
  have m: "\<forall>w \<in> set (pl_start ?p) \<union> set (pl_keep ?p). matches w" by (rule reconcile_matches [OF w(4)])
  have x: "x = None" by (rule apply_plan_none [OF a m]) (use o in \<open>simp_all add: orderly_def\<close>)
  have f: "k_sources s' = k_sources s1" "k_timer_of s' = k_timer_of s1" "k_streams s' = k_streams s1"
    "k_subs_key s' = k_subs_key s1" "k_distrusted s' = k_distrusted s1" by (simp_all add: s' x)
  note p = plan_keeps_subs [OF a]
  show "rs_running (k_sources s') = wants e (k_model s)" "length (rs_running (k_sources s')) \<le> 16"
    "k_subs_key s' = k_subs_key s" "k_distrusted s' = k_distrusted s"
    using f p w by simp_all
  assume keys: "runs_keys (fst ` set (rs_running (k_sources s))) s"
  have "runs_keys (fst ` set (rs_running (k_sources s))) (s\<lparr>k_sources := st'\<rparr>)" by (rule runs_keys_cong [OF keys]) simp_all
  from apply_plan_keys [OF a [unfolded x] m this] have "runs_keys (fst ` set (wanted w)) s1" unfolding diff_plan_keys .
  then have "runs_keys (fst ` set (wanted w)) s'" by (rule runs_keys_cong) (rule f)+
  then show "runs_keys (fst ` set (rs_running (k_sources s'))) s'" using f(1) p w(5) by simp
qed

lemma reconcile_small:
  assumes o: "orderly e" and r: "kernel_reconcile e s = Inr s'" and l: "length (rs_running (k_sources s)) \<le> 16"
  shows "length (rs_running (k_sources s')) \<le> 16"
proof -
  obtain b s1 where 1: "subs_key_skip e (s\<lparr>k_subs_dirty := False\<rparr>) = (b, s1)" by fastforce
  have "length (rs_running (k_sources s1)) \<le> 16" using subs_key_skip_keeps(2) [OF 1] l by simp
  then show ?thesis using r l 1 subscribe_now_inv(2) [OF o, of s1 s'] by (auto simp: kernel_reconcile_def split: if_splits)
qed

lemma kernel_reconcile_inv:
  assumes o: "orderly e" and r: "kernel_reconcile e s = Inr s'" and i: "subs_inv e s"
  shows "subs_inv e s'"
proof (cases "k_subs_dirty s \<and> \<not> k_down s")
  case True
  obtain b s1 where 1: "subs_key_skip e (s\<lparr>k_subs_dirty := False\<rparr>) = (b, s1)" by fastforce
  note k = subs_key_skip_keeps [OF 1] subs_key_skip_spec [OF 1]
  have m: "k_model s1 = k_model s" "k_exit s1 = k_exit s" "k_sources s1 = k_sources s"
    using k(1,2) by (simp_all add: frame_defs)
  have len: "length (rs_running (k_sources s1)) \<le> 16" and keys: "runs_keys (fst ` set (rs_running (k_sources s1))) s1"
    using i True m(3) k(6,7) by (auto simp: subs_inv_def runs_keys_def)
  have dis: "k_distrusted s1 \<longrightarrow> k_subs_key s1 = None"
    using k(5) i True by (auto simp: subs_inv_def)
  show ?thesis
  proof (cases b)
    case True
    then obtain f where f: "e_subs_key e = Some f" "k_subs_key s = Some (f (k_model s))" "k_subs_key s1 = k_subs_key s"
      using k(3) by auto
    then obtain md where md: "f md = f (k_model s)" "rs_running (k_sources s) = wants e md"
      using i \<open>k_subs_dirty s \<and> \<not> k_down s\<close> by (auto simp: subs_inv_def)
    have "e_subscribe e md = e_subscribe e (k_model s)" using o f(1) md(1) unfolding orderly_def by blast
    then have "rs_running (k_sources s) = wants e (k_model s)" using md(2) by (simp add: wants_def)
    moreover have "s' = s1" using r True \<open>k_subs_dirty s \<and> \<not> k_down s\<close> 1 by (simp add: kernel_reconcile_def)
    ultimately show ?thesis using len keys dis f m by (auto simp: subs_inv_def)
  next
    case False
    then have n: "subscribe_now e s1 = Inr s'" using r True 1 by (simp add: kernel_reconcile_def)
    note s = subscribe_now_inv [OF o n len]
    have keys': "runs_keys (fst ` set (rs_running (k_sources s'))) s'" by (rule s(5) [OF keys])
    have md: "k_model s' = k_model s" using subscribe_now_settled [OF n] m by (simp add: settled_def rest_of_def)
    have "\<exists>md. f md = key \<and> rs_running (k_sources s') = wants e md"
      if h: "e_subs_key e = Some f" "k_subs_key s' = Some key" for f key
    proof -
      have "k_distrusted s1 \<or> key = f (k_model s)" using k(4) [OF False] h s(3) i True by (auto simp: subs_inv_def)
      then show ?thesis using dis h(2) s(1,3) m(1) by auto
    qed
    then show ?thesis using s(1-4) keys' md m(1) dis by (auto simp: subs_inv_def)
  qed
next
  case False
  then show ?thesis
  proof (cases "k_down s")
    case True
    then have "k_down s'" using kernel_reconcile_settled [OF r] by (simp add: settled_def rest_of_def)
    moreover have "length (rs_running (k_sources s')) \<le> 16" using reconcile_small [OF o r] i by (simp add: subs_inv_def)
    ultimately show ?thesis by (simp add: subs_inv_def)
  qed (use r i in \<open>simp add: kernel_reconcile_def\<close>)
qed

lemma touched_subs: "touched s s' \<Longrightarrow> subs_inv e s \<Longrightarrow> subs_inv e s'"
  by (rule subs_inv_cong [of e s]) (auto simp: touched_def kept_def subs_of_def)

lemma subs_inv_inbox [simp]: "subs_inv e (s\<lparr>k_inbox := b\<rparr>) = subs_inv e s"
  by (simp add: subs_inv_def runs_keys_def)

lemma retire_each_sources [simp]: "k_sources (retire_each is s) = k_sources s"
  by (induction "is" arbitrary: s) simp_all

interpretation subscribed: step_invariant e "\<lambda>s. orderly e \<longrightarrow> subs_inv e s" for e
proof (unfold_locales, goal_cases)
  case (1 s s')
  then show ?case using touched_subs by blast
next
  case (2 s s')
  then show ?case using kernel_reconcile_inv by blast
next
  case (3 m s ok s')
  then show ?case using fold_one_subs [OF 3(1)] subs_inv_cong by blast
next
  case (4 c s x s')
  have "effected s s'" by (rule interpret_effected [OF 4(1)])
  then show ?case using subs_of_interpret [OF 4(1)] 4(2) subs_inv_cong [of e s s'] by (auto simp: effected_def)
next
  case (11 s)
  have "k_down (shutdown e s)" "k_sources (shutdown e s) = k_sources s" by (simp_all add: shutdown_def Let_def)
  then show ?case using 11 by (simp add: subs_inv_def)
qed simp_all

lemma fresh_subs_inv: "subs_inv e (fresh_kernel e m hs)"
  by (simp add: subs_inv_def fresh_kernel_def Let_def no_sources_def runs_keys_def)

section \<open>Between two operations nothing is left to subscribe\<close>

lemma subscribe_now_clean:
  assumes "subscribe_now e s = Inr s'"
  shows "k_subs_dirty s' = k_subs_dirty s"
  using assms
proof (cases rule: subscribe_now_elim)
  case (planned w p src x s1 s2)
  then show ?thesis using apply_plan_framed [OF planned(3)] by (simp add: frame_defs split: option.split)
qed (simp split: if_split)

lemma reconcile_clean:
  assumes "kernel_reconcile e s = Inr s'"
  shows "\<not> k_subs_dirty s'"
proof (cases "k_subs_dirty s")
  case True
  obtain b s1 where 1: "subs_key_skip e (s\<lparr>k_subs_dirty := False\<rparr>) = (b, s1)" by fastforce
  have "\<not> k_subs_dirty s1" using subs_key_skip_keeps(1) [OF 1] by (simp add: frame_defs)
  then show ?thesis using assms True 1 subscribe_now_clean by (auto simp: kernel_reconcile_def split: if_splits)
qed (use assms in \<open>simp add: kernel_reconcile_def\<close>)

lemma touched_dirty: "touched s s' \<Longrightarrow> k_subs_dirty s' = k_subs_dirty s"
  by (simp add: touched_def kept_def)

lemma step_clean:
  assumes "step e s = Inr (t, s')" "\<not> k_subs_dirty s"
  shows "\<not> k_subs_dirty s'"
proof -
  obtain i s0 where 0: "idle e s = (i, s0)" by fastforce
  have d: "k_subs_dirty s0 = k_subs_dirty s" using 0 by (auto simp: idle_def read_clock_def split: if_splits option.splits)
  let ?s1 = "drain_task_faults e (take_inbox (s0\<lparr>k_now_cached := False\<rparr>))"
  have "k_subs_dirty ?s1 = k_subs_dirty s"
    using touched_dirty [OF touched_drain_faults [of "take_inbox (s0\<lparr>k_now_cached := False\<rparr>)" e]] d
    by (simp add: take_inbox_def split: prod.split)
  then show ?thesis using assms 0 d
    by (auto simp: step_def work_step_def Let_def andthen_Inr split: if_splits dest: reconcile_clean)
qed

lemma retire_each_dirty [simp]: "k_subs_dirty (retire_each is s) = k_subs_dirty s"
  by (induction "is" arbitrary: s) simp_all

lemma kreach_clean: "kreach e s \<Longrightarrow> \<not> k_subs_dirty s"
proof (induction rule: kreach.induct)
  case (kr_step s s')
  from kr_step(2,3) show ?case
  proof (cases rule: kstep.cases)
    case (ks_step t)
    then show ?thesis using step_clean kr_step(3) by blast
  next
    case (ks_route ev n)
    then show ?thesis using kr_step(3)
      by (cases "k_exit s = None") (auto simp: route_def Let_def andthen_Inr split: prod.splits dest: reconcile_clean)
  qed (simp_all add: jaal_defs Let_def shutdown_def)
qed (auto simp: start_def start_from_def construct_def Let_def andthen_Inr split: prod.splits dest: reconcile_clean)

section \<open>Which faults are left\<close>

text \<open>A run that would read past a table is impossible under the invariant; what is left is the counter
  of origins at its end, and a timer heap whose due timers never end.\<close>

lemma start_source_fault: "start_source e kp s = Inl f \<Longrightarrow> f = Aborted"
  by (cases kp) (auto simp: start_source_def start_every_def start_stream_def open_live_def andthen_def
    split: source_key.splits sub.splits prod.splits option.splits sum.splits)

lemma each_fault:
  assumes "each g as s = Inl f" "\<And>a s. g a s = Inl f \<Longrightarrow> f = Aborted"
  shows "f = Aborted"
  using assms(1)
proof (induction as arbitrary: s)
  case (Cons a as)
  then show ?case using assms(2) by (cases "g a s") (auto split: option.splits)
qed simp

lemma apply_plan_fault:
  assumes "apply_plan e p s = Inl f"
  shows "f = Aborted"
proof -
  have 1: "each (stop_source e) ks s1 \<noteq> Inl f" for ks s1
    by (induction ks arbitrary: s1) (auto simp: stop_source_def andthen_def split: source_key.split prod.split option.split)
  have 2: "each keep_source ps s1 \<noteq> Inl f" for ps s1
    by (induction ps arbitrary: s1) (auto simp: keep_source_def andthen_def split: source_key.split prod.split option.split sub.split)
  obtain x s1 where a: "each (stop_source e) (pl_stop p) s = Inr (x, s1)"
    using 1 assms by (cases "each (stop_source e) (pl_stop p) s") (auto simp: apply_plan_def)
  then have "x = None" using assms by (cases x) (simp_all add: apply_plan_def)
  obtain y s2 where b: "each keep_source (pl_keep p) s1 = Inr (y, s2)"
    using 2 assms a \<open>x = None\<close> by (cases "each keep_source (pl_keep p) s1") (auto simp: apply_plan_def)
  have "each (start_source e) (pl_start p) s2 = Inl f"
    using assms a \<open>x = None\<close> b by (cases y) (simp_all add: apply_plan_def)
  then show ?thesis by (rule each_fault) (rule start_source_fault)
qed

lemma reconcile_fault:
  assumes "orderly e" "kernel_reconcile e s = Inl f" "length (rs_running (k_sources s)) \<le> 16"
  shows "f = Aborted"
proof -
  obtain b s1 where 1: "subs_key_skip e (s\<lparr>k_subs_dirty := False\<rparr>) = (b, s1)" by fastforce
  have l: "length (rs_running (k_sources s1)) \<le> 16" using subs_key_skip_keeps(2) [OF 1] assms(3) by simp
  have "subscribe_now e s1 = Inl f" using assms(2) 1 by (auto simp: kernel_reconcile_def split: if_splits)
  moreover obtain w st' p where "e_subscribe e (k_model s1) = Inr w" "reconcile (e_hash e) w (k_sources s1) = Inr (p, st')"
    by (rule orderly_plan [OF assms(1) l]) blast
  ultimately have "apply_plan e p (s1\<lparr>k_sources := st'\<rparr>) = Inl f"
    by (cases "apply_plan e p (s1\<lparr>k_sources := st'\<rparr>)") (auto simp: subscribe_now_def Let_def)
  then show ?thesis by (rule apply_plan_fault)
qed

lemma effect_fault: "run_effect e c s = Inl f \<Longrightarrow> f = Aborted"
  by (cases c) (auto simp: start_keyed_task_def start_keyed_after_def open_live_def andthen_def Let_def
    split: if_splits prod.splits option.splits sum.splits)

lemma interpret_all_fault:
  assumes "interpret_all e cs s = Inl f" "\<forall>c \<in> set cs. \<forall>s. interpret_cmd e c s = Inl f \<longrightarrow> f = Aborted"
  shows "f = Aborted"
  using assms
proof (induction cs arbitrary: s)
  case (Cons c cs)
  then show ?case by (cases "interpret_cmd e c s") (auto split: if_splits option.splits)
qed simp

lemma interpret_fault: "interpret_cmd e c s = Inl f \<Longrightarrow> f = Aborted"
proof (induction c arbitrary: s)
  case (Batch cs)
  then show ?case using interpret_all_fault [of e cs s f] by simp
qed (auto dest: effect_fault simp del: run_effect.simps)

lemma fold_one_fault: "fold_one e m s = Inl f \<Longrightarrow> f = Aborted"
  by (auto simp: fold_one_def Let_def andthen_def split: prod.splits sum.splits dest: interpret_fault)

locale safe_steps = step_invariant +
  fixes fine :: "fault \<Rightarrow> bool"
  assumes reconcile_safe: "P s \<Longrightarrow> kernel_reconcile e s = Inl f \<Longrightarrow> fine f"
    and fold_safe: "fold_one e m s = Inl f \<Longrightarrow> fine f"
begin

lemma admit_safe: "admit e i s = Inl f \<Longrightarrow> P s \<Longrightarrow> fine f"
  using reconcile_safe [of s f] by (auto simp: admit_def andthen_def split: if_splits sum.splits)

lemma fold_batch_safe: "fold_batch e qs n ch s = Inl f \<Longrightarrow> P s \<Longrightarrow> fine f"
proof (induction qs arbitrary: n ch s)
  case (Cons q qs)
  show ?case
  proof (cases "admit e (fst q) s")
    case (Inl g)
    then show ?thesis using Cons.prems admit_safe by (auto split: if_splits)
  next
    case (Inr r)
    then obtain yes s1 where a: "admit e (fst q) s = Inr (yes, s1)" by (cases r) auto
    have p: "P s1" by (rule admit_keeps [OF a Cons.prems(2)])
    show ?thesis
    proof (cases "fold_one e (snd q) s1")
      case (Inl g)
      then show ?thesis using Cons.prems a p Cons.IH fold_safe by (auto split: if_splits)
    next
      case (Inr r2)
      then obtain ok s2 where f: "fold_one e (snd q) s1 = Inr (ok, s2)" by (cases r2) auto
      show ?thesis using Cons.prems(1) a f p folded [OF f p] Cons.IH by (auto split: if_splits)
    qed
  qed
qed simp

lemma fold_loop_safe: "fold_loop e' n ch s = Inl f \<Longrightarrow> e' = e \<Longrightarrow> P s \<Longrightarrow> fine f"
proof (induction e' n ch s rule: fold_loop.induct)
  case (1 e' n ch s)
  show ?case
  proof (cases "fold_batch e (k_pending s) n ch (s\<lparr>k_pending := []\<rparr>)")
    case (Inl g)
    moreover have "P (s\<lparr>k_pending := []\<rparr>)" by (rule touch [OF 1(4)]) simp
    ultimately show ?thesis using fold_batch_safe 1(2,3) by (auto simp: fold_loop.simps [of e n ch s] split: if_splits)
  next
    case (Inr r)
    then obtain rest n' ch' s1 where b: "fold_batch e (k_pending s) n ch (s\<lparr>k_pending := []\<rparr>) = Inr (rest, n', ch', s1)"
      by (cases r) auto
    have "P s1" using fold_batch_keeps [OF b] touch [OF 1(4)] by simp
    then have p: "P (s1\<lparr>k_pending := rest @ k_pending s1\<rparr>)" by (rule touch) simp
    have "fold_loop e n' ch' (s1\<lparr>k_pending := rest @ k_pending s1\<rparr>) = Inl f \<and> k_exit s1 = None \<and>
        \<not> (k_pending s = [] \<or> k_exit s \<noteq> None \<or> e_fold_budget e \<le> n)"
      using 1(2,3) b by (auto simp: fold_loop.simps [of e n ch s] split: if_splits)
    then show ?thesis using 1(1) [of "(rest, n', ch', s1)" rest "(n', ch', s1)" n' "(ch', s1)" ch' s1] b p 1(3) by simp
  qed
qed

lemma fold_pending_safe: "fold_pending e s = Inl f \<Longrightarrow> P s \<Longrightarrow> fine f"
  unfolding fold_pending_def using fold_loop_safe by blast

lemma step_safe:
  assumes "step e s = Inl f" "P s"
  shows "fine f \<or> f = Forever"
proof -
  obtain i s0 where 0: "idle e s = (i, s0)" by fastforce
  have "touched s s0" using 0 by (auto simp: idle_def read_clock_def split: if_splits option.splits)
  then have "P s0" by (rule touch [OF assms(2)])
  then have "P (s0\<lparr>k_now_cached := False\<rparr>)" by (rule touch) simp
  then have p: "P (drain_task_faults e (take_inbox (s0\<lparr>k_now_cached := False\<rparr>)))"
    by (rule touch [OF take_inbox_keeps touched_drain_faults])
  let ?s1 = "drain_task_faults e (take_inbox (s0\<lparr>k_now_cached := False\<rparr>))"
  have w: "work_step e s0 = Inl f" using assms(1) 0 by (auto simp: step_def split: if_splits)
  show ?thesis
  proof (cases "take_timers e ?s1")
    case (Inl g)
    then show ?thesis using w by (auto simp: work_step_def take_timers_def Let_def split: if_splits prod.splits option.splits)
  next
    case (Inr s2)
    have p2: "P s2" by (rule take_timers_keeps [OF Inr p])
    show ?thesis
    proof (cases "fold_pending e s2")
      case (Inl g)
      then show ?thesis using w Inr fold_pending_safe [OF Inl p2] by (auto simp: work_step_def Let_def split: if_splits)
    next
      case r: (Inr r)
      obtain ch s3 where f: "fold_pending e s2 = Inr (ch, s3)" using r by (cases r) auto
      then show ?thesis using w Inr reconcile_safe [OF fold_pending_keeps [OF f p2]]
        by (cases "kernel_reconcile e s3") (auto simp: work_step_def Let_def split: if_splits)
    qed
  qed
qed

end

interpretation subscribed: safe_steps e "\<lambda>s. orderly e \<longrightarrow> subs_inv e s" "\<lambda>f. orderly e \<longrightarrow> f = Aborted" for e
proof (unfold_locales, goal_cases)
  case (1 s f)
  then show ?case using reconcile_fault by (auto simp: subs_inv_def)
next
  case (2 m s f)
  then show ?case by (blast dest: fold_one_fault)
qed

lemma own_kinds: "own k \<and> numbered k \<longleftrightarrow> (\<exists>i n. k = EveryKey i n)" "own k \<and> \<not> numbered k \<longleftrightarrow> (\<exists>n. k = StreamKey n)"
  by (cases k; simp add: numbered_def)+

section \<open>Properties\<close>

lemma subscriptions_run_parts:
  assumes "orderly e" "kreach e s" "\<not> k_down s" "k_exit s = None" "e_subscribe e (k_model s) = Inr w"
  shows "rs_running (k_sources s) = wanted w" "fst ` set (k_timer_of s) = {k \<in> fst ` set (wanted w). \<exists>i n. k = EveryKey i n}"
    "fst ` set (k_streams s) = {k \<in> fst ` set (wanted w). \<exists>n. k = StreamKey n}"
proof -
  have "orderly e \<longrightarrow> subs_inv e s" by (rule subscribed.kreach_keeps [OF assms(2)]) (simp add: fresh_subs_inv)
  then have i: "subs_inv e s" using assms(1) by blast
  then show r: "rs_running (k_sources s) = wanted w"
    using assms(3-5) kreach_clean [OF assms(2)] by (simp add: subs_inv_def wants_def)
  have "runs_keys (fst ` set (wanted w)) s" using i assms(3) r by (simp add: subs_inv_def)
  then show "fst ` set (k_timer_of s) = {k \<in> fst ` set (wanted w). \<exists>i n. k = EveryKey i n}"
    "fst ` set (k_streams s) = {k \<in> fst ` set (wanted w). \<exists>n. k = StreamKey n}"
    unfolding runs_keys_def own_kinds by (rule conjunct1, rule conjunct2)
qed


lemma demo_orderly: "orderly (demo pol)"
  by (simp add: orderly_def demo_def wanted_def numbered_def)


text \<open>C7: nothing is read out of range. For such a program no step from a state the kernel can be in meets
  undefined behaviour; the only ways not to return are the failed assertion when all $2^{64}-1$ origins
  have been used, and a timer heap whose due timers have no end.\<close>

theorem step_never_out_of_range:
  assumes "orderly e" "kreach e s" "step e s = Inl f"
  shows "f = Aborted \<or> f = Forever"
proof -
  have "orderly e \<longrightarrow> subs_inv e s" by (rule subscribed.kreach_keeps [OF assms(2)]) (simp add: fresh_subs_inv)
  from subscribed.step_safe [OF assms(3) this] show ?thesis using assms(1) by blast
qed

theorem step_never_out_of_range_witness:
  "step (demo Skip) demo_job \<noteq> Inl OutOfRange"
  using step_never_out_of_range [OF demo_orderly demo_job_reach, of OutOfRange] by auto

lemma idle_step_exact_parts:
  assumes "k_exit s = None" "idle e s = (True, s0)"
  shows "step e s = Inr (\<lparr>t_model_changed = k_changed s, t_folded = 0, t_exit = None\<rparr>, s0\<lparr>k_changed := False\<rparr>)"
    "\<exists>t b. work_step e s = Inr (\<lparr>t_model_changed = k_changed s, t_folded = 0, t_exit = None\<rparr>,
       s0\<lparr>k_changed := False, k_now := t, k_now_cached := b\<rparr>)"
proof -
  have q: "\<not> e_trace e" "k_pending s = []" "\<not> mb_nonempty (k_inbox s)" "\<not> k_tf_pending s" "\<not> k_subs_dirty s"
    using assms(2) by (auto simp: idle_def maybe_nonempty_def split: if_splits)
  have c: "k_changed s0 = k_changed s" using assms(2) by (auto simp: idle_def read_clock_def split: if_splits option.splits)
  show "step e s = Inr (\<lparr>t_model_changed = k_changed s, t_folded = 0, t_exit = None\<rparr>, s0\<lparr>k_changed := False\<rparr>)"
    using assms c by (simp add: step_def)
  let ?s1 = "s\<lparr>k_now_cached := False\<rparr>"
  have 1: "drain_task_faults e (take_inbox ?s1) = ?s1"
    using q by (simp add: take_inbox_def drain_tagged_def drain_task_faults_def)
  have fold: "fold_pending e u = Inr (False, u)" "kernel_reconcile e u = Inr u" "emit_trace e ev u = u"
    if "k_pending u = []" "\<not> k_subs_dirty u" for u ev
    using that q(1) by (simp_all add: fold_pending_def fold_loop.simps kernel_reconcile_def emit_trace_def)
  show "\<exists>t b. work_step e s = Inr (\<lparr>t_model_changed = k_changed s, t_folded = 0, t_exit = None\<rparr>,
       s0\<lparr>k_changed := False, k_now := t, k_now_cached := b\<rparr>)"
  proof (cases "th_heap (k_timers s)")
    case Nil
    then have "s0 = s" using assms(2) by (auto simp: idle_def next_deadline_def split: if_splits)
    then have "work_step e s = Inr (\<lparr>t_model_changed = k_changed s, t_folded = 0, t_exit = None\<rparr>,
        s0\<lparr>k_changed := False, k_now := k_now s, k_now_cached := False\<rparr>)"
      using q assms(1) Nil 1 by (simp add: work_step_def take_timers_def fold)
    then show ?thesis by blast
  next
    case (Cons t ts)
    then have s0: "s0 = s\<lparr>k_reads := k_reads s + 1\<rparr>" and d: "e_clock e (k_reads s) < e_when t"
      using assms(2) by (auto simp: idle_def next_deadline_def read_clock_def split: if_splits)
    have "\<not> root_due (e_clock e (k_reads s)) (k_timers s)" using d Cons by (simp add: root_due_def)
    then have "work_step e s = Inr (\<lparr>t_model_changed = k_changed s, t_folded = 0, t_exit = None\<rparr>,
        s0\<lparr>k_changed := False, k_now := e_clock e (k_reads s), k_now_cached := True\<rparr>)"
      using q assms(1) Cons 1 s0
      by (simp add: work_step_def take_timers_def fold step_now_def read_clock_def collect_due.simps)
    then show ?thesis by blast
  qed
qed

text \<open>The shortcut for an idle step is the long way. When the test says that nothing is queued, due or
  dirty, the whole step would have reported the same turn and reached the same state, except for the
  moment it caches as now.\<close>

theorem idle_step_exact:
  assumes "k_exit s = None" "idle e s = (True, s0)"
  shows "step e s = Inr (\<lparr>t_model_changed = k_changed s, t_folded = 0, t_exit = None\<rparr>, s0\<lparr>k_changed := False\<rparr>) \<and>
    (\<exists>t b. work_step e s = Inr (\<lparr>t_model_changed = k_changed s, t_folded = 0, t_exit = None\<rparr>,
       s0\<lparr>k_changed := False, k_now := t, k_now_cached := b\<rparr>))"
  using idle_step_exact_parts [OF assms] by blast

theorem idle_step_exact_witness:
  "fst (idle (demo Skip) demo_job) \<and>
   step (demo Skip) demo_job = Inr (\<lparr>t_model_changed = True, t_folded = 0, t_exit = None\<rparr>,
     (snd (idle (demo Skip) demo_job))\<lparr>k_changed := False\<rparr>)"
proof -
  have d: "k_exit demo_job = None" "k_changed demo_job" "fst (idle (demo Skip) demo_job)" by code_simp+
  show ?thesis using idle_step_exact [OF d(1), of "demo Skip"] d(2,3) by (metis prod.collapse)
qed

text \<open>A stop raised while a batch re-subscribes comes too late for the message at hand. Under \<^verbatim>\<open>stop\<close>, when
  subscribing throws before a subscription's message is looked at, the kernel already has exit code 70,
  and still the message is given to the program: it is recorded and its update applied.\<close>

theorem fold_after_stop:
  assumes "policy e = Stop" "e_subs_key e = None" "k_exit s = None" "k_subs_dirty s" "i \<noteq> 0" "i \<in> k_live s"
    "e_subscribe e (k_model s) = Inl x" "n < e_fold_budget e"
    "fold_batch e ((i, m) # qs) n ch s = Inr (rest, n', ch', s')"
  shows "\<exists>s1. admit e i s = Inr (True, s1) \<and> k_exit s1 = Some 70 \<and> k_model s1 = k_model s \<and>
    (\<exists>ok. fold_one e m s1 = Inr (ok, s')) \<and> k_recorded s' = k_recorded s @ [m] \<and> n' = n + 1"
proof -
  let ?s1 = "fault_raised e SubscribeSite x True (s\<lparr>k_subs_dirty := False\<rparr>)"
  have a: "admit e i s = Inr (True, ?s1)"
    using assms by (simp add: admit_def kernel_reconcile_def subs_key_skip_def subscribe_now_def)
  have x: "k_exit ?s1 = Some 70" "k_model ?s1 = k_model s" "k_recorded ?s1 = k_recorded s"
    using assms(1,3) by (simp_all add: fault_exit_code_def)
  obtain ok s2 where f: "fold_one e m ?s1 = Inr (ok, s2)"
    and r: "(if k_exit s2 \<noteq> None then Inr (qs, n + 1, ch \<or> ok, s2) else fold_batch e qs (n + 1) (ch \<or> ok) s2) = Inr (rest, n', ch', s')"
    using assms(8,9) a by (auto simp: andthen_Inr)
  have "k_exit s2 \<noteq> None" using fold_one_records(2) [OF f] x(1) by auto
  then have "s2 = s'" "n' = n + 1" using r by simp_all
  then show ?thesis using a x f fold_one_records(1) [OF f] by auto
qed

definition demo_throwing :: "(nat, nat, unit, unit, unit, unit, nat, nat, nat) env" where
  "demo_throwing = (demo Stop)\<lparr>e_subscribe := (\<lambda>md. Inl OtherException)\<rparr>"

theorem fold_after_stop_witness:
  "\<exists>s1 s'. admit demo_throwing 1 ((demo_start Stop)\<lparr>k_subs_dirty := True\<rparr>) = Inr (True, s1) \<and> k_exit s1 = Some 70 \<and>
     (\<exists>ok. fold_one demo_throwing 6 s1 = Inr (ok, s')) \<and> k_recorded s' = [6]"
proof -
  let ?s = "(demo_start Stop)\<lparr>k_subs_dirty := True\<rparr>"
  have k: "k_exit ?s = None" "1 \<in> k_live ?s" "k_recorded ?s = []" by code_simp+
  have e: "policy demo_throwing = Stop" "e_subs_key demo_throwing = None" "0 < e_fold_budget demo_throwing"
    "e_subscribe demo_throwing (k_model ?s) = Inl OtherException"
    by (simp_all add: demo_throwing_def demo_def policy_def)
  have "\<not> isl (fold_batch demo_throwing [(1, 6)] 0 False ?s)" by code_simp
  then obtain rest n' ch' s' where f: "fold_batch demo_throwing [(1, 6)] 0 False ?s = Inr (rest, n', ch', s')"
    by (metis prod_cases4 sum.collapse(2))
  show ?thesis using fold_after_stop [OF e(1,2) k(1) _ _ k(2) e(4,3) f] k(3) by auto
qed

end
