(* ===== verification/Kernel_Replay.thy ===== *)
theory Kernel_Replay
  imports Replay Kernel_Subs
begin

text \<open>
  The kernel's record is the run: folding the recorded messages again gives the model the kernel has, in
  every state, for programs with a clock and without; and where that ends, at an update that throws.
\<close>

section \<open>Recording as an invariant\<close>

definition updates_return :: "('md, 'm, 'h, 'o, 'k, 'e, 'ev, 'sk, 'hs) env \<Rightarrow> bool" where
  "updates_return e \<longleftrightarrow> (\<forall>md m t. \<exists>md' c. e_update e md m t = (md', Inr c))"

definition entry_of :: "'m \<times> time_point \<Rightarrow> 'm timed_entry" where
  "entry_of q = \<lparr>en_at = snd q, en_msg = fst q\<rparr>"

definition rec_inv ::
    "('md, 'm, 'h, 'o, 'k, 'e, 'ev, 'sk, 'hs) env \<Rightarrow> 'md \<Rightarrow> ('md, 'm, 'k, 'e, 'sk, 'hs) kernel \<Rightarrow> bool" where
  "rec_inv e md0 s \<longleftrightarrow>
     (if e_pclock e = Unclocked then replay_from (\<lambda>md m. e_update e md m None) md0 (k_recorded s) = Inr (k_model s)
      else replay_timed_from (\<lambda>md m t. e_update e md m (Some t)) md0 (map entry_of (k_recorded_timed s)) = Inr (k_model s))"

lemma replay_timed_append:
  "replay_timed_from u md (xs @ ys) = (case replay_timed_from u md xs of Inl x \<Rightarrow> Inl x | Inr md' \<Rightarrow> replay_timed_from u md' ys)"
  by (induction xs arbitrary: md) (auto split: prod.split sum.split)

lemma rec_inv_cong:
  assumes "rec_inv e md0 s" "k_model s' = k_model s" "k_recorded s' = k_recorded s" "k_recorded_timed s' = k_recorded_timed s"
  shows "rec_inv e md0 s'"
  using assms by (simp add: rec_inv_def)

lemma noted_now: "noted e m s = (now, s') \<Longrightarrow> (now = None) = (e_pclock e = Unclocked)"
  by (auto simp: noted_def program_now_def split: program_clock.splits prod.splits)

lemma fold_one_replayed:
  assumes "updates_return e" "fold_one e m s = Inr (ok, s')" "rec_inv e md0 s"
  shows "rec_inv e md0 s'"
  using assms(2)
proof (cases rule: fold_one_elim)
  case (threw now s3 md x)
  then show ?thesis using assms(1) by (metis Inl_Inr_False prod.inject updates_return_def)
next
  case (returned now s3 md c x s6)
  note n = noted_frame [OF returned(1)]
  have "k_model s' = md" "k_recorded s' = k_recorded s @ [m]"
    "k_recorded_timed s' = k_recorded_timed s @ (case now of None \<Rightarrow> [] | Some t \<Rightarrow> [(m, t)])"
    using interpret_effected [OF returned(4)] returned(5) n by (auto simp: effected_def split: option.splits)
  then show ?thesis using assms(3) returned(2) noted_now [OF returned(1)]
    by (cases now) (auto simp: rec_inv_def replay_from_append replay_timed_append entry_of_def)
qed

interpretation recorded: step_invariant e "\<lambda>s. updates_return e \<longrightarrow> rec_inv e md0 s" for e md0
proof (unfold_locales, goal_cases)
  case (1 s s')
  then show ?case using rec_inv_cong [of e md0 s s'] by (auto simp: touched_def kept_def)
next
  case (2 s s')
  then show ?case using rec_inv_cong [of e md0 s s'] kernel_reconcile_settled [OF 2(1)] by (auto simp: settled_def rest_of_def)
next
  case (3 m s ok s')
  then show ?case using fold_one_replayed [OF _ 3(1)] by blast
next
  case (4 c s x s')
  then show ?case using rec_inv_cong [of e md0 s s'] interpret_effected [OF 4(1)] by (auto simp: effected_def)
next
  case (11 s)
  have "k_recorded_timed (retire_each is t) = k_recorded_timed t" for "is" and t :: "('a, 'b, 'e, 'f, 'h, 'i) kernel"
    by (induction "is" arbitrary: t) simp_all
  then have "k_recorded_timed (shutdown e s) = k_recorded_timed s" by (simp add: shutdown_def Let_def)
  then show ?case using 11 rec_inv_cong [of e md0 s "shutdown e s"] by simp
qed (auto simp: rec_inv_def)

section \<open>Properties\<close>

lemma replay_reproduces_parts:
  assumes "updates_return e" "start e hs = Inr s0" "(kstep e)\<^sup>*\<^sup>* s0 s"
  shows "e_pclock e = Unclocked \<Longrightarrow> replay (e_init e) (\<lambda>md m. e_update e md m None) (k_recorded s) = Inr (k_model s)"
    "e_pclock e \<noteq> Unclocked \<Longrightarrow>
     replay_timed (e_init e) (\<lambda>md m t. e_update e md m (Some t)) (map entry_of (k_recorded_timed s)) = Inr (k_model s)"
proof -
  obtain md0 c where i: "e_init e = (md0, c)" by fastforce
  have "rec_inv e md0 (fresh_kernel e md0 hs)" by (simp add: rec_inv_def fresh_kernel_def Let_def)
  then have "updates_return e \<longrightarrow> rec_inv e md0 s0"
    using assms(2) i by (intro recorded.construct_keeps [of e md0 c hs s0 md0]) (simp_all add: start_def)
  then have "updates_return e \<longrightarrow> rec_inv e md0 s" by (rule recorded.ksteps_keep [OF assms(3)])
  then show "e_pclock e = Unclocked \<Longrightarrow> replay (e_init e) (\<lambda>md m. e_update e md m None) (k_recorded s) = Inr (k_model s)"
    "e_pclock e \<noteq> Unclocked \<Longrightarrow>
     replay_timed (e_init e) (\<lambda>md m t. e_update e md m (Some t)) (map entry_of (k_recorded_timed s)) = Inr (k_model s)"
    using assms(1) i by (simp_all add: rec_inv_def replay_def replay_timed_def)
qed


text \<open>The counter, with a harmless message in place of the one that throws.\<close>

definition demo_total :: "(nat, nat, unit, unit, unit, unit, nat, nat, nat) env" where
  "demo_total = (demo Skip)\<lparr>e_update := (\<lambda>md m now. (md + m, Inr CNone))\<rparr>"


text \<open>A run that skipped a fault is not reproduced. A message whose update throws is recorded like any
  other; under \<^verbatim>\<open>skip\<close> the kernel goes on with the model it had, but replaying the record from then on
  ends in that exception, whatever is folded later.\<close>

theorem replay_stops_at_skipped:
  assumes "e_pclock e = Unclocked" "policy e = Skip" "e_update e (k_model s) m None = (md, Inl x)"
    "replay (e_init e) (\<lambda>md m. e_update e md m None) (k_recorded s) = Inr (k_model s)"
  shows "\<exists>s'. fold_one e m s = Inr (False, s') \<and> k_model s' = k_model s \<and>
    replay (e_init e) (\<lambda>md m. e_update e md m None) (k_recorded s' @ ms) = Inl x"
proof -
  obtain now s3 where n: "noted e m s = (now, s3)" by fastforce
  have "now = None" using noted_now [OF n] assms(1) by simp
  then have f: "fold_one e m s = Inr (False, fault_raised e UpdateSite x True s3)"
    using n assms(2,3) noted_frame(3) [OF n] by (simp add: fold_one_noted)
  then show ?thesis using noted_frame(1,3) [OF n] assms(3,4)
    by (simp add: replay_def replay_from_append)
qed

theorem replay_stops_at_skipped_witness:
  "\<exists>s'. fold_one (demo Skip) 4 (demo_start Skip) = Inr (False, s') \<and> k_model s' = 0 \<and>
    replay (0, CNone :: (unit, unit, nat) cmd) (\<lambda>md m. e_update (demo Skip) md m None) (k_recorded s' @ [0, 0]) = Inl OtherException"
proof -
  have k: "k_model (demo_start Skip) = 0" "k_recorded (demo_start Skip) = []" by code_simp+
  have e: "e_pclock (demo Skip) = Unclocked" "policy (demo Skip) = Skip" "e_init (demo Skip) = (0, CNone)"
    "e_update (demo Skip) 0 4 None = (100, Inl OtherException)" by (simp_all add: demo_def policy_def demo_update_def)
  show ?thesis using replay_stops_at_skipped [of "demo Skip" "demo_start Skip" 4 100 OtherException "[0, 0]"] e k
    by (simp add: replay_def)
qed

end
