(* ===== verification/Sim.thy ===== *)
theory Sim
  imports Kernel_Replay
begin

text \<open>
  \<^verbatim>\<open>include/jaal/host/sim.hpp\<close>: a program run with time, task latencies, faults and ties drawn from one seed. The
  world's queue is kept in the order of its heap (due time, then the random tie breaker). The executor's
  draws are made in the order in which the kernel hands out jobs, so each kernel operation is followed by
  the posts it logged. A task body runs to its end on the loop thread; one that never ends is \<open>Forever\<close>.
\<close>

section \<open>Options and reports\<close>

record sim_options =
  so_latency_min :: duration
  so_latency_max :: duration
  so_crash :: real
  so_lose :: real
  so_max_steps :: nat
  so_max_time :: duration

datatype sim_end = EndIdle | EndQuit | EndBroke | EndSteps | EndTime

record 'm sim_report =
  sr_seed :: u64
  sr_end :: sim_end
  sr_broken :: "string option"
  sr_exit :: "int option"
  sr_steps :: nat
  sr_elapsed :: duration
  sr_messages :: "'m list"
  sr_faults :: "string list"

definition report_ok :: "'m sim_report \<Rightarrow> bool" where
  "report_ok r \<longleftrightarrow> sr_end r \<noteq> EndBroke"

definition sim_crash :: exc where
  "sim_crash = StdException ''jaal::sim: injected task crash''"

section \<open>The world\<close>

text \<open>What a scheduled function does: dispatch a message, route an input, or run a task (or crash it).\<close>

datatype ('m, 'ev) sim_act = Deliver 'm | Input 'ev | RunTask bool origin_id "(unit, 'm) act"

record ('m, 'ev) item =
  it_due :: time_point
  it_order :: u64
  it_run :: "('m, 'ev) sim_act"

definition item_after :: "('m, 'ev) item \<Rightarrow> ('m, 'ev) item \<Rightarrow> bool" where
  "item_after a b \<longleftrightarrow> (if it_due a \<noteq> it_due b then it_due a > it_due b else it_order a > it_order b)"

record ('m, 'ev) world =
  w_rng :: u64
  w_now :: time_point
  w_stopped :: bool
  w_q :: "('m, 'ev) item list"

definition new_world :: "u64 \<Rightarrow> ('m, 'ev) world" where
  "new_world seed = \<lparr>w_rng = seed, w_now = 0, w_stopped = False, w_q = []\<rparr>"

fun insert_item :: "('m, 'ev) item \<Rightarrow> ('m, 'ev) item list \<Rightarrow> ('m, 'ev) item list" where
  "insert_item x [] = [x]"
| "insert_item x (y # ys) = (if item_after y x then x # y # ys else y # insert_item x ys)"

definition schedule :: "time_point \<Rightarrow> ('m, 'ev) sim_act \<Rightarrow> ('m, 'ev) world \<Rightarrow> ('m, 'ev) world" where
  "schedule d f w =
     (let (x, r) = rng_next (w_rng w)
      in w\<lparr>w_rng := r, w_q := insert_item \<lparr>it_due = d, it_order = x, it_run = f\<rparr> (w_q w)\<rparr>)"

definition next_due :: "('m, 'ev) world \<Rightarrow> time_point option" where
  "next_due w = (case w_q w of [] \<Rightarrow> None | i # _ \<Rightarrow> Some (it_due i))"

section \<open>The executor\<close>

definition latency_span :: "duration \<Rightarrow> duration \<Rightarrow> u64" where
  "latency_span lo hi = word_of_int (max 0 (hi - lo))"

definition exec_post :: "sim_options \<Rightarrow> origin_id \<Rightarrow> (unit, 'm) act \<Rightarrow> ('m, 'ev) world \<Rightarrow> fault + ('m, 'ev) world" where
  "exec_post o' i body w =
     (if w_stopped w then Inr w
      else let (crash, r1) = chance (so_crash o') (w_rng w);
               (lose, r2) = chance (so_lose o') r1
           in case below (latency_span (so_latency_min o') (so_latency_max o') + 1) r2 of
                None \<Rightarrow> Inl Forever
              | Some (x, r3) \<Rightarrow>
                  let delay = so_latency_min o' + int (unat x); w1 = w\<lparr>w_rng := r3\<rparr>
                  in Inr (if lose then w1 else schedule (w_now w1 + delay) (RunTask crash i body) w1))"

text \<open>Where the sinks of running streams are kept, by their origin.\<close>

type_synonym stream_table = "(string \<times> origin_id) list"

definition exec_post_stream :: "string \<Rightarrow> origin_id \<Rightarrow> ('m, 'ev) world \<Rightarrow> stream_table \<Rightarrow> stream_table" where
  "exec_post_stream key i w st = (if w_stopped w then st else AList.update key i st)"

fun exec_jobs :: "sim_options \<Rightarrow> 'm job list \<Rightarrow> ('m, 'ev) world \<times> stream_table \<Rightarrow> fault + (('m, 'ev) world \<times> stream_table)" where
  "exec_jobs o' [] ws = Inr ws"
| "exec_jobs o' (TaskJob i body _ # js) (w, st) = andthen (exec_post o' i body w) (\<lambda>w1. exec_jobs o' js (w1, st))"
| "exec_jobs o' (StreamJob key i _ # js) (w, st) = exec_jobs o' js (w, exec_post_stream key i w st)"

text \<open>Nothing is abandoned: no thread runs.\<close>

definition exec_shutdown :: "('m, 'ev) world \<Rightarrow> nat \<times> ('m, 'ev) world" where
  "exec_shutdown w = (0, w\<lparr>w_stopped := True\<rparr>)"

text \<open>A body run on the loop thread: its posts never wait.\<close>

partial_function (option) run_task_body ::
    "bool \<Rightarrow> origin_id \<Rightarrow> (unit, 'm) act \<Rightarrow> 'm mailbox \<Rightarrow> (exc option \<times> 'm mailbox) option" where
  "run_task_body stopped i body b =
     (case body of
        Done _ \<Rightarrow> Some (None, b)
      | Throw x \<Rightarrow> Some (Some x, b)
      | SendM m k \<Rightarrow> (let (r, b1) = post_from True i m b in run_task_body stopped i (k (r \<noteq> Refused)) b1)
      | StopTest k \<Rightarrow> run_task_body stopped i (k stopped) b)"

declare run_task_body.simps [code] collect_due.simps [code]

section \<open>The simulation\<close>

text \<open>The kernel's environment: one message per fold, no wake, the clock standing at the world's time.\<close>

definition sim_env ::
    "u64 \<Rightarrow> ('md, 'm, 'h, 'o, 'k, 'e, 'ev, 'sk, 'hs) env \<Rightarrow> time_point \<Rightarrow> ('md, 'm, 'h, 'o, 'k, 'e, 'ev, 'sk, 'hs) env" where
  "sim_env seed e now =
     e\<lparr>e_fold_budget := 1, e_wake := False, e_clock := (\<lambda>_. now), e_abandoned := 0,
       e_random_seed := (if e_random_seed e \<noteq> 0 then e_random_seed e else fst (split_rng seed))\<rparr>"

record ('md, 'm, 'k, 'e, 'ev, 'sk, 'hs) sim =
  sm_seed :: u64
  sm_world :: "('m, 'ev) world"
  sm_k :: "('md, 'm, 'k, 'e, 'sk, 'hs) kernel"
  sm_streams :: stream_table
  sm_steps :: nat
  sm_checks :: "(string \<times> ('md \<Rightarrow> exc + bool)) list"

text \<open>A kernel operation, and the executor's part in it.\<close>

definition after_kernel ::
    "sim_options \<Rightarrow> ('md, 'm, 'k, 'e, 'sk, 'hs) kernel \<Rightarrow> ('md, 'm, 'k, 'e, 'ev, 'sk, 'hs) sim \<Rightarrow>
     fault + ('md, 'm, 'k, 'e, 'ev, 'sk, 'hs) sim" where
  "after_kernel o' k s =
     andthen (exec_jobs o' (drop (length (k_jobs (sm_k s))) (k_jobs k)) (sm_world s, sm_streams s)) (\<lambda>(w, st).
       Inr (s\<lparr>sm_k := k, sm_world := w, sm_streams := st\<rparr>))"

definition new_sim ::
    "sim_options \<Rightarrow> ('md, 'm, 'h, 'o, 'k, 'e, 'ev, 'sk, 'hs) env \<Rightarrow> u64 \<Rightarrow> 'hs \<Rightarrow>
     fault + ('md, 'm, 'k, 'e, 'ev, 'sk, 'hs) sim" where
  "new_sim o' e seed hs =
     andthen (start (sim_env seed e 0) hs) (\<lambda>k.
       andthen (exec_jobs o' (k_jobs k) (new_world seed, [])) (\<lambda>(w, st).
         Inr \<lparr>sm_seed = seed, sm_world = w, sm_k = k, sm_streams = st, sm_steps = 0, sm_checks = []\<rparr>))"

section \<open>The scenario\<close>

definition sim_at :: "duration \<Rightarrow> 'm \<Rightarrow> ('md, 'm, 'k, 'e, 'ev, 'sk, 'hs) sim \<Rightarrow> ('md, 'm, 'k, 'e, 'ev, 'sk, 'hs) sim" where
  "sim_at t m s = s\<lparr>sm_world := schedule t (Deliver m) (sm_world s)\<rparr>"

definition sim_input :: "duration \<Rightarrow> 'ev \<Rightarrow> ('md, 'm, 'k, 'e, 'ev, 'sk, 'hs) sim \<Rightarrow> ('md, 'm, 'k, 'e, 'ev, 'sk, 'hs) sim" where
  "sim_input t ev s = s\<lparr>sm_world := schedule t (Input ev) (sm_world s)\<rparr>"

definition sim_around ::
    "duration \<Rightarrow> duration \<Rightarrow> 'm \<Rightarrow> ('md, 'm, 'k, 'e, 'ev, 'sk, 'hs) sim \<Rightarrow> fault + ('md, 'm, 'k, 'e, 'ev, 'sk, 'hs) sim" where
  "sim_around a b m s =
     (case below (latency_span a b + 1) (w_rng (sm_world s)) of
        None \<Rightarrow> Inl Forever
      | Some (x, r) \<Rightarrow> Inr (sim_at (a + int (unat x)) m (s\<lparr>sm_world := (sm_world s)\<lparr>w_rng := r\<rparr>\<rparr>)))"

definition sim_check ::
    "string \<Rightarrow> ('md \<Rightarrow> exc + bool) \<Rightarrow> ('md, 'm, 'k, 'e, 'ev, 'sk, 'hs) sim \<Rightarrow> ('md, 'm, 'k, 'e, 'ev, 'sk, 'hs) sim" where
  "sim_check name f s = s\<lparr>sm_checks := sm_checks s @ [(name, f)]\<rparr>"

text \<open>The origin of the running stream with this key; \<open>None\<close> is the closed sink.\<close>

definition sim_stream :: "string \<Rightarrow> ('md, 'm, 'k, 'e, 'ev, 'sk, 'hs) sim \<Rightarrow> origin_id option" where
  "sim_stream key s = map_of (sm_streams s) key"

section \<open>Running\<close>

fun check_all :: "(string \<times> ('md \<Rightarrow> exc + bool)) list \<Rightarrow> 'md \<Rightarrow> string option" where
  "check_all [] md = None"
| "check_all ((name, f) # cs) md = (if f md = Inr True then check_all cs md else Some name)"

definition fault_line :: "fault_report \<Rightarrow> string" where
  "fault_line f = site_name (f_site f) @ '': '' @ f_what f"

definition finish_report ::
    "sim_end \<Rightarrow> string option \<Rightarrow> int option \<Rightarrow> time_point \<Rightarrow> ('md, 'm, 'k, 'e, 'ev, 'sk, 'hs) sim \<Rightarrow> 'm sim_report" where
  "finish_report why broken code t0 s =
     \<lparr>sr_seed = sm_seed s, sr_end = why, sr_broken = broken, sr_exit = code, sr_steps = sm_steps s,
      sr_elapsed = w_now (sm_world s) - t0, sr_messages = k_recorded (sm_k s),
      sr_faults = map fault_line (k_reports (sm_k s))\<rparr>"

definition run_task ::
    "bool \<Rightarrow> origin_id \<Rightarrow> (unit, 'm) act \<Rightarrow> ('md, 'm, 'k, 'e, 'sk, 'hs) kernel \<Rightarrow>
     fault + ('md, 'm, 'k, 'e, 'sk, 'hs) kernel" where
  "run_task crash i body k =
     (if crash then Inr (on_error sim_crash k)
      else case run_task_body (i \<in> set (k_stopped k)) i body (k_inbox k) of
             None \<Rightarrow> Inl Forever
           | Some (None, b) \<Rightarrow> Inr (k\<lparr>k_inbox := b\<rparr>)
           | Some (Some x, b) \<Rightarrow> Inr (on_error x (k\<lparr>k_inbox := b\<rparr>)))"

text \<open>\<^verbatim>\<open>world::run_one\<close>: the function of the first item, taken out of the queue.\<close>

definition run_one ::
    "sim_options \<Rightarrow> ('md, 'm, 'h, 'o, 'k, 'e, 'ev, 'sk, 'hs) env \<Rightarrow> ('md, 'm, 'k, 'e, 'ev, 'sk, 'hs) sim \<Rightarrow>
     fault + ('md, 'm, 'k, 'e, 'ev, 'sk, 'hs) sim" where
  "run_one o' e s =
     (case w_q (sm_world s) of
        [] \<Rightarrow> Inl OutOfRange
      | i # q \<Rightarrow>
          let s1 = s\<lparr>sm_world := (sm_world s)\<lparr>w_q := q\<rparr>\<rparr>
          in case it_run i of
               Deliver m \<Rightarrow> Inr (s1\<lparr>sm_k := dispatch m (sm_k s1)\<rparr>)
             | Input ev \<Rightarrow> andthen (route (sim_env (sm_seed s) e (w_now (sm_world s))) ev (sm_k s1)) (\<lambda>(_, k). after_kernel o' k s1)
             | RunTask crash j body \<Rightarrow>
                 if w_stopped (sm_world s1) then Inr s1
                 else andthen (run_task crash j body (sm_k s1)) (\<lambda>k. Inr (s1\<lparr>sm_k := k\<rparr>)))"

text \<open>What comes next: a timer of the kernel or an item of the world; a coin of the seed decides a tie.\<close>

definition world_first :: "time_point option \<Rightarrow> time_point option \<Rightarrow> ('m, 'ev) world \<Rightarrow> bool \<times> ('m, 'ev) world" where
  "world_first kd wd w =
     (case wd of None \<Rightarrow> (False, w)
      | Some d \<Rightarrow>
          (case kd of None \<Rightarrow> (True, w)
           | Some t \<Rightarrow>
               if d < t then (True, w)
               else if d = t then (let (x, r) = rng_next (w_rng w) in (x AND 1 \<noteq> 0, w\<lparr>w_rng := r\<rparr>))
               else (False, w)))"

text \<open>One turn of the loop of \<^verbatim>\<open>run\<close>, up to the report that ends it.\<close>

definition sim_turn ::
    "sim_options \<Rightarrow> ('md, 'm, 'h, 'o, 'k, 'e, 'ev, 'sk, 'hs) env \<Rightarrow> time_point \<Rightarrow> ('md, 'm, 'k, 'e, 'ev, 'sk, 'hs) sim \<Rightarrow>
     fault + ('m sim_report option \<times> ('md, 'm, 'k, 'e, 'ev, 'sk, 'hs) sim)" where
  "sim_turn o' e t0 s =
     andthen (step (sim_env (sm_seed s) e (w_now (sm_world s))) (sm_k s)) (\<lambda>(t, k).
       andthen (after_kernel o' k s) (\<lambda>s0.
         let s1 = s0\<lparr>sm_steps := sm_steps s0 + 1\<rparr>
         in case check_all (sm_checks s1) (k_model (sm_k s1)) of
              Some name \<Rightarrow> Inr (Some (finish_report EndBroke (Some name) None t0 s1), s1)
            | None \<Rightarrow>
                if t_exit t \<noteq> None then Inr (Some (finish_report EndQuit None (t_exit t) t0 s1), s1)
                else if k_pending (sm_k s1) \<noteq> [] then Inr (None, s1)
                else let kd = kernel_next_deadline (sm_k s1); wd = next_due (sm_world s1)
                     in if kd = None \<and> wd = None then Inr (Some (finish_report EndIdle None None t0 s1), s1)
                        else let (first, w1) = world_first kd wd (sm_world s1);
                                 nxt = the (if first then wd else kd);
                                 s2 = s1\<lparr>sm_world := w1\<rparr>
                             in if nxt - t0 > so_max_time o' then Inr (Some (finish_report EndTime None None t0 s2), s2)
                                else let s3 = (if nxt > w_now w1 then s2\<lparr>sm_world := w1\<lparr>w_now := nxt\<rparr>\<rparr> else s2)
                                     in if first then andthen (run_one o' e s3) (\<lambda>s4. Inr (None, s4)) else Inr (None, s3)))"

text \<open>A turn that goes on took a step.\<close>

lemma sim_turn_steps:
  assumes "sim_turn o' e t0 s = Inr (r, s')"
  shows "sm_steps s' = Suc (sm_steps s)"
  using assms
  by (auto simp: sim_turn_def run_one_def after_kernel_def andthen_Inr Let_def
    split: option.splits if_splits prod.splits list.splits sim_act.splits)

function run_turns ::
    "sim_options \<Rightarrow> ('md, 'm, 'h, 'o, 'k, 'e, 'ev, 'sk, 'hs) env \<Rightarrow> time_point \<Rightarrow> ('md, 'm, 'k, 'e, 'ev, 'sk, 'hs) sim \<Rightarrow>
     fault + ('m sim_report \<times> ('md, 'm, 'k, 'e, 'ev, 'sk, 'hs) sim)" where
  "run_turns o' e t0 s =
     (if so_max_steps o' \<le> sm_steps s then Inr (finish_report EndSteps None None t0 s, s)
      else andthen (sim_turn o' e t0 s) (\<lambda>(r, s1).
             case r of Some rep \<Rightarrow> Inr (rep, s1) | None \<Rightarrow> run_turns o' e t0 s1))"
  by pat_completeness auto
termination
  by (relation "measure (\<lambda>(o', e, t0, s). so_max_steps o' - sm_steps s)") (auto dest: sim_turn_steps)

declare run_turns.simps [simp del]

definition sim_run ::
    "sim_options \<Rightarrow> ('md, 'm, 'h, 'o, 'k, 'e, 'ev, 'sk, 'hs) env \<Rightarrow> ('md, 'm, 'k, 'e, 'ev, 'sk, 'hs) sim \<Rightarrow>
     fault + ('m sim_report \<times> ('md, 'm, 'k, 'e, 'ev, 'sk, 'hs) sim)" where
  "sim_run o' e s =
     (let t0 = w_now (sm_world s)
      in case check_all (sm_checks s) (k_model (sm_k s)) of
           Some name \<Rightarrow> Inr (finish_report EndBroke (Some name) None t0 s, s)
         | None \<Rightarrow> run_turns o' e t0 s)"

section \<open>Exploring seeds\<close>

text \<open>\<open>scenario\<close> is the caller's function on a fresh simulation. The count of seeds tried and the first broken run.\<close>

definition run_seed ::
    "sim_options \<Rightarrow> ('md, 'm, 'h, 'o, 'k, 'e, 'ev, 'sk, 'hs) env \<Rightarrow> 'hs \<Rightarrow>
     (('md, 'm, 'k, 'e, 'ev, 'sk, 'hs) sim \<Rightarrow> fault + ('md, 'm, 'k, 'e, 'ev, 'sk, 'hs) sim) \<Rightarrow> u64 \<Rightarrow> fault + 'm sim_report" where
  "run_seed o' e hs scenario seed =
     andthen (new_sim o' e seed hs) (\<lambda>s. andthen (scenario s) (\<lambda>s1. andthen (sim_run o' e s1) (\<lambda>(r, _). Inr r)))"

fun explore_from ::
    "sim_options \<Rightarrow> ('md, 'm, 'h, 'o, 'k, 'e, 'ev, 'sk, 'hs) env \<Rightarrow> 'hs \<Rightarrow>
     (('md, 'm, 'k, 'e, 'ev, 'sk, 'hs) sim \<Rightarrow> fault + ('md, 'm, 'k, 'e, 'ev, 'sk, 'hs) sim) \<Rightarrow> u64 \<Rightarrow> nat \<Rightarrow> nat \<Rightarrow>
     fault + (nat \<times> 'm sim_report option)" where
  "explore_from o' e hs scenario first tried 0 = Inr (tried, None)"
| "explore_from o' e hs scenario first tried (Suc n) =
     andthen (run_seed o' e hs scenario (first + of_nat tried)) (\<lambda>r.
       if report_ok r then explore_from o' e hs scenario first (tried + 1) n else Inr (tried + 1, Some r))"

definition explore where
  "explore o' e hs scenario first n = explore_from o' e hs scenario first 0 n"

end
