(* ===== verification/Sim_Props.thy ===== *)
theory Sim_Props
  imports Sim
begin

text \<open>
  What the simulator promises: consistent reports, runs that end within their limits, a record that replays
  to the failure it reports, checks after every message, latencies within their bounds, and a search
  that returns the first broken seed. Where inputs are scripted the checks miss models, and one seed does not
  determine its run.
\<close>

section \<open>The kernel inside a simulation\<close>

lemma sim_env_fields [simp]:
  "e_fold_budget (sim_env seed e t) = 1" "e_pclock (sim_env seed e t) = e_pclock e" "e_update (sim_env seed e t) = e_update e"
  "e_init (sim_env seed e t) = e_init e" "e_wake (sim_env seed e t) = False"
  by (simp_all add: sim_env_def)

lemma rec_inv_sim_env [simp]: "rec_inv (sim_env seed e t) md0 k = rec_inv e md0 k"
  by (simp add: rec_inv_def)

lemma updates_return_sim_env [simp]: "updates_return (sim_env seed e t) = updates_return e"
  by (simp add: updates_return_def)

text \<open>A step of the simulated kernel folds one message at most.\<close>

lemma take_timers_recorded: "take_timers e s = Inr s' \<Longrightarrow> k_recorded s' = k_recorded s"
  by (auto simp: take_timers_def step_now_def read_clock_def split: if_splits option.splits prod.splits)

lemma drain_task_faults_recorded [simp]: "k_recorded (drain_task_faults e s) = k_recorded s"
  using touched_drain_faults [of s e] by (simp add: touched_def kept_def)

lemma take_inbox_recorded [simp]: "k_recorded (take_inbox s) = k_recorded s"
  by (simp add: take_inbox_def split: prod.split)

lemma reconcile_recorded: "kernel_reconcile e s = Inr s' \<Longrightarrow> k_recorded s' = k_recorded s"
  using kernel_reconcile_settled [of e s s'] by (simp add: settled_def rest_of_def)

lemma fold_pending_one:
  assumes "fold_pending e s = Inr (ch, s')" "e_fold_budget e = 1"
  obtains ms where "k_recorded s' = k_recorded s @ ms" "length ms \<le> 1"
  using fold_loop_records [OF assms(1) [unfolded fold_pending_def]] assms(2) by auto

lemma work_step_one:
  assumes "work_step e s = Inr (t, s')" "e_fold_budget e = 1"
  obtains ms where "k_recorded s' = k_recorded s @ ms" "length ms \<le> 1"
proof (cases "k_exit (drain_task_faults e (take_inbox (s\<lparr>k_now_cached := False\<rparr>))) = None")
  case True
  then obtain s2 ch s3 s4 where 1: "take_timers e (drain_task_faults e (take_inbox (s\<lparr>k_now_cached := False\<rparr>))) = Inr s2"
    "fold_pending e s2 = Inr (ch, s3)" "kernel_reconcile e s3 = Inr s4"
    and s': "s' = emit_trace e (TStep (k_folds s3 - k_folds s2)) (if ch then s4 else s4\<lparr>k_changed := False\<rparr>)"
    using assms(1) by (auto simp: work_step_def Let_def andthen_Inr)
  from 1(2) assms(2) obtain ms where "k_recorded s3 = k_recorded s2 @ ms" "length ms \<le> 1" by (rule fold_pending_one)
  then show thesis using that take_timers_recorded [OF 1(1)] reconcile_recorded [OF 1(3)] s' by auto
qed (use assms(1) that [of "[]"] in \<open>auto simp: work_step_def Let_def\<close>)

lemma step_one:
  assumes "step e s = Inr (t, s')" "e_fold_budget e = 1"
  obtains ms where "k_recorded s' = k_recorded s @ ms" "length ms \<le> 1"
proof (cases "k_exit s = None")
  case True
  obtain i s0 where 0: "idle e s = (i, s0)" by (cases "idle e s")
  have eq: "k_recorded s0 = k_recorded s" using 0 by (auto simp: idle_def read_clock_def split: if_splits option.splits)
  show thesis
  proof (cases i)
    case False
    then have "work_step e s0 = Inr (t, s')" using assms(1) True 0 by (simp add: step_def)
    then show thesis using that eq assms(2) by (metis work_step_one)
  qed (use assms(1) True 0 eq that [of "[]"] in \<open>auto simp: step_def\<close>)
qed (use assms(1) that [of "[]"] in \<open>auto simp: step_def\<close>)

lemma run_task_frame:
  "run_task c i body k = Inr k' \<Longrightarrow> k_recorded k' = k_recorded k \<and> k_model k' = k_model k \<and> k_recorded_timed k' = k_recorded_timed k"
  by (auto simp: run_task_def on_error_def Let_def split: if_splits option.splits)

section \<open>The turns\<close>

lemma after_kernel_frame:
  "after_kernel o' k s = Inr s' \<Longrightarrow> sm_k s' = k \<and> sm_checks s' = sm_checks s \<and> sm_seed s' = sm_seed s \<and> sm_steps s' = sm_steps s"
  by (auto simp: after_kernel_def andthen_Inr)

text \<open>The world between two turns: a draw for a tie, and the clock moved to what comes next.\<close>

definition moved_on :: "sim_options \<Rightarrow> time_point \<Rightarrow> ('m, 'ev) world \<Rightarrow> ('m, 'ev) world \<Rightarrow> bool" where
  "moved_on o' t0 w w' \<longleftrightarrow> w_q w' = w_q w \<and> (w_now w' = w_now w \<or> w_now w < w_now w' \<and> w_now w' - t0 \<le> so_max_time o')"

lemma world_first_frame: "world_first kd wd w = (f, w') \<Longrightarrow> w_q w' = w_q w \<and> w_now w' = w_now w \<and> w_stopped w' = w_stopped w"
  by (auto simp: world_first_def Let_def split: option.splits if_splits prod.splits)

text \<open>A turn: the step, and what comes of it.\<close>

lemma sim_turn_elim:
  assumes "sim_turn o' e t0 s = Inr (r, s')"
  obtains (over) t k s1 where "step (sim_env (sm_seed s) e (w_now (sm_world s))) (sm_k s) = Inr (t, k)" "after_kernel o' k s = Inr s1"
      "s' = s1\<lparr>sm_steps := Suc (sm_steps s), sm_world := sm_world s'\<rparr>" "moved_on o' t0 (sm_world s1) (sm_world s')"
      "case check_all (sm_checks s) (k_model k) of
         Some name \<Rightarrow> r = Some (finish_report EndBroke (Some name) None t0 s')
       | None \<Rightarrow> r = None \<or> r = Some (finish_report EndIdle None None t0 s') \<or> r = Some (finish_report EndTime None None t0 s')
           \<or> t_exit t \<noteq> None \<and> r = Some (finish_report EndQuit None (t_exit t) t0 s')"
  | (ran) t k s1 s3 where "step (sim_env (sm_seed s) e (w_now (sm_world s))) (sm_k s) = Inr (t, k)" "after_kernel o' k s = Inr s1"
      "check_all (sm_checks s) (k_model k) = None" "s3 = s1\<lparr>sm_steps := Suc (sm_steps s), sm_world := sm_world s3\<rparr>"
      "moved_on o' t0 (sm_world s1) (sm_world s3)" "r = None" "run_one o' e s3 = Inr s'"
proof -
  obtain t k s1 where 1: "step (sim_env (sm_seed s) e (w_now (sm_world s))) (sm_k s) = Inr (t, k)" "after_kernel o' k s = Inr s1"
    using assms by (auto simp: sim_turn_def andthen_Inr)
  note f = after_kernel_frame [OF 1(2)]
  let ?s1 = "s1\<lparr>sm_steps := Suc (sm_steps s)\<rparr>"
  let ?kd = "kernel_next_deadline k" and ?wd = "next_due (sm_world s1)"
  obtain first w1 where w: "world_first ?kd ?wd (sm_world s1) = (first, w1)" by fastforce
  note wf = world_first_frame [OF w]
  let ?nxt = "the (if first then ?wd else ?kd)"
  let ?s3 = "if ?nxt > w_now w1 then s1\<lparr>sm_steps := Suc (sm_steps s), sm_world := w1\<lparr>w_now := ?nxt\<rparr>\<rparr>
    else s1\<lparr>sm_steps := Suc (sm_steps s), sm_world := w1\<rparr>"
  show thesis
  proof (cases "check_all (sm_checks s) (k_model k) = None \<and> t_exit t = None \<and> k_pending k = [] \<and> \<not> (?kd = None \<and> ?wd = None)
      \<and> \<not> ?nxt - t0 > so_max_time o' \<and> first")
    case True
    then have "run_one o' e ?s3 = Inr s'" "r = None"
      using assms 1 f w by (auto simp: sim_turn_def andthen_Inr Let_def split: if_splits)
    then show thesis using True wf by (intro ran [OF 1, of ?s3]) (auto simp: moved_on_def)
  next
    case False
    then show thesis using assms 1 f w wf
      by (intro over [OF 1]) (auto simp: sim_turn_def andthen_Inr Let_def moved_on_def split: option.splits if_splits)
  qed
qed

text \<open>What every turn keeps holds in the state a run ends in.\<close>

lemma run_turns_end:
  assumes "run_turns o' e t0 s = Inr (r, s')" "P s"
    and keep: "\<And>s s1. P s \<Longrightarrow> sm_steps s < so_max_steps o' \<Longrightarrow> sim_turn o' e t0 s = Inr (None, s1) \<Longrightarrow> P s1"
  shows "P s' \<and> so_max_steps o' \<le> sm_steps s' \<and> r = finish_report EndSteps None None t0 s'
    \<or> (\<exists>u. P u \<and> sm_steps u < so_max_steps o' \<and> sim_turn o' e t0 u = Inr (Some r, s'))"
  using assms
proof (induction o' e t0 s rule: run_turns.induct)
    case (1 o' e t0 s)
    show ?case
    proof (cases "so_max_steps o' \<le> sm_steps s")
      case False
      then obtain x s1 where t: "sim_turn o' e t0 s = Inr (x, s1)"
        and r: "(case x of Some rep \<Rightarrow> Inr (rep, s1) | None \<Rightarrow> run_turns o' e t0 s1) = Inr (r, s')"
        using 1(2) by (subst (asm) run_turns.simps) (auto simp: andthen_Inr)
      show ?thesis
      proof (cases x)
        case None
        then show ?thesis using 1(1) [OF False, of "(x, s1)" x s1] 1(3,4) t r False by simp
      qed (use t r 1(3) False in auto)
    qed (use 1(2,3) run_turns.simps [of o' e t0 s] in auto)
qed

section \<open>The executor\<close>

lemma set_insert_item: "set (insert_item x xs) = insert x (set xs)"
  by (induction xs) auto

lemma schedule_frame [simp]:
  "w_now (schedule d f w) = w_now w" "w_stopped (schedule d f w) = w_stopped w"
  by (simp_all add: schedule_def Let_def split: prod.split)

lemma schedule_items: "i \<in> set (w_q (schedule d f w)) \<Longrightarrow> i \<in> set (w_q w) \<or> it_due i = d \<and> it_run i = f"
  by (auto simp: schedule_def set_insert_item split: prod.splits)

text \<open>A new item is a task, due within the latencies.\<close>

definition late_task :: "sim_options \<Rightarrow> time_point \<Rightarrow> ('m, 'ev) item \<Rightarrow> bool" where
  "late_task o' now i \<longleftrightarrow> (\<exists>c j b. it_run i = RunTask c j b) \<and> now + so_latency_min o' \<le> it_due i
     \<and> (so_latency_max o' - so_latency_min o' \<le> rep_max \<longrightarrow> it_due i \<le> now + max (so_latency_min o') (so_latency_max o'))"

lemma below_span:
  assumes "below (latency_span lo hi + 1) r = Some (x, r')" "hi - lo \<le> rep_max"
  shows "int (unat x) \<le> max 0 (hi - lo)"
proof -
  have s: "uint (latency_span lo hi) = max 0 (hi - lo)"
    using assms(2) by (simp add: latency_span_def uint_word_of_int rep_max_val)
  then have n: "uint (latency_span lo hi + 1) = max 0 (hi - lo) + 1"
    using assms(2) by (subst uint_plus_if') (auto simp: rep_max_val)
  then have "latency_span lo hi + 1 \<noteq> 0" by (metis add.commute add_nonneg_eq_0_iff max.cobounded1 unsigned_0 zero_le_one zero_neq_one)
  then have "x < latency_span lo hi + 1" using assms(1) below_spec [of "latency_span lo hi + 1" r] by auto
  then show ?thesis using n by (simp add: word_less_def)
qed

lemma exec_post_frame:
  assumes "exec_post o' j body w = Inr w'"
  shows "w_now w' = w_now w \<and> (\<forall>i \<in> set (w_q w'). i \<in> set (w_q w) \<or> late_task o' (w_now w) i)"
proof (cases "w_stopped w")
  case False
  obtain crash r1 lose r2 where c: "chance (so_crash o') (w_rng w) = (crash, r1)" "chance (so_lose o') r1 = (lose, r2)" by fastforce
  obtain x r3 where x: "below (latency_span (so_latency_min o') (so_latency_max o') + 1) r2 = Some (x, r3)"
    and w': "w' = (if lose then w\<lparr>w_rng := r3\<rparr> else schedule (w_now w + (so_latency_min o' + int (unat x))) (RunTask crash j body) (w\<lparr>w_rng := r3\<rparr>))"
    using assms False c by (auto simp: exec_post_def Let_def split: option.splits prod.splits)
  have "late_task o' (w_now w) i" if "it_due i = w_now w + (so_latency_min o' + int (unat x))" "it_run i = RunTask crash j body" for i :: "('a, 'b) item"
    using that below_span [OF x] by (auto simp: late_task_def)
  then show ?thesis unfolding w' using schedule_items [of _ _ "RunTask crash j body" "w\<lparr>w_rng := r3\<rparr>"] by auto
qed (use assms in \<open>simp add: exec_post_def\<close>)

lemma exec_jobs_frame:
  "exec_jobs o' js (w, st) = Inr (w', st') \<Longrightarrow>
   w_now w' = w_now w \<and> (\<forall>i \<in> set (w_q w'). i \<in> set (w_q w) \<or> late_task o' (w_now w) i)"
proof (induction js arbitrary: w st)
  case (Cons j js)
  show ?case
  proof (cases j)
    case (TaskJob i body wh)
    then obtain w1 where 1: "exec_post o' i body w = Inr w1" "exec_jobs o' js (w1, st) = Inr (w', st')"
      using Cons.prems by (auto simp: andthen_Inr)
    then show ?thesis using Cons.IH [OF 1(2)] exec_post_frame [OF 1(1)] by auto
  qed (use Cons in auto)
qed simp

lemma after_kernel_world:
  "after_kernel o' k s = Inr s' \<Longrightarrow>
   w_now (sm_world s') = w_now (sm_world s) \<and>
   (\<forall>i \<in> set (w_q (sm_world s')). i \<in> set (w_q (sm_world s)) \<or> late_task o' (w_now (sm_world s)) i)"
  unfolding after_kernel_def by (auto simp: andthen_Inr dest!: exec_jobs_frame)

lemma after_kernel_both:
  "after_kernel o' k s = Inr s' \<Longrightarrow>
   (sm_k s' = k \<and> sm_checks s' = sm_checks s \<and> sm_seed s' = sm_seed s \<and> sm_steps s' = sm_steps s) \<and>
   w_now (sm_world s') = w_now (sm_world s) \<and>
   (\<forall>i \<in> set (w_q (sm_world s')). i \<in> set (w_q (sm_world s)) \<or> late_task o' (w_now (sm_world s)) i)"
  using after_kernel_frame after_kernel_world by blast

lemma run_one_world:
  "run_one o' e s = Inr s' \<Longrightarrow>
   w_now (sm_world s') = w_now (sm_world s) \<and> sm_steps s' = sm_steps s \<and> sm_checks s' = sm_checks s \<and> sm_seed s' = sm_seed s \<and>
   (\<forall>i \<in> set (w_q (sm_world s')). i \<in> set (w_q (sm_world s)) \<or> late_task o' (w_now (sm_world s)) i)"
  by (auto simp: run_one_def Let_def andthen_Inr split: list.splits sim_act.splits if_splits
    dest!: after_kernel_both)

section \<open>Reports\<close>

lemma sim_turn_bounds:
  assumes "sim_turn o' e t0 s = Inr (r, s')" "t0 \<le> w_now (sm_world s)" "w_now (sm_world s) - t0 \<le> so_max_time o'"
  shows "t0 \<le> w_now (sm_world s') \<and> w_now (sm_world s') - t0 \<le> so_max_time o'"
  using assms(1)
proof (cases rule: sim_turn_elim)
  case (over t k s1)
  then show ?thesis using assms(2,3) after_kernel_world [OF over(2)] by (auto simp: moved_on_def)
next
  case (ran t k s1 s3)
  then show ?thesis using assms(2,3) after_kernel_world [OF ran(2)] run_one_world [OF ran(7)] by (auto simp: moved_on_def)
qed


text \<open>Which reports a turn can end in.\<close>

lemma sim_turn_report:
  assumes "sim_turn o' e t0 s = Inr (Some r, s')"
  shows "sr_steps r = Suc (sm_steps s) \<and> sr_elapsed r = w_now (sm_world s') - t0 \<and> sr_messages r = k_recorded (sm_k s')
    \<and> sr_end r \<noteq> EndSteps \<and> (sr_exit r \<noteq> None) = (sr_end r = EndQuit)
    \<and> sr_broken r = check_all (sm_checks s) (k_model (sm_k s')) \<and> (sr_end r = EndBroke) = (sr_broken r \<noteq> None)"
  using assms
proof (cases rule: sim_turn_elim)
  case (over t k s1)
  have k: "sm_k s' = k" using after_kernel_frame [OF over(2)] over(3) by (metis sim.select_convs(3) sim.surjective sim.update_convs(2,5))
  then show ?thesis using over(5) sim_turn_steps [OF assms] by (auto simp: finish_report_def split: option.splits)
qed simp

lemma sim_turn_checks: "sim_turn o' e t0 s = Inr (r, s') \<Longrightarrow> sm_checks s' = sm_checks s \<and> sm_seed s' = sm_seed s"
  by (erule sim_turn_elim) (metis after_kernel_frame run_one_world sim.select_convs(1,6) sim.surjective sim.update_convs(2,5))+

text \<open>A report is consistent and within the limits: a check is named exactly when the run ended broken, an
  exit code is there exactly when the program quit, at most the allowed steps were taken (exactly as many
  when that ended it) and the simulated time is neither negative nor over its limit.\<close>

theorem sim_report_consistent:
  assumes "sim_run o' e s = Inr (r, s')" "0 \<le> so_max_time o'" "sm_steps s \<le> so_max_steps o'"
  shows "(sr_broken r \<noteq> None) = (sr_end r = EndBroke) \<and> (sr_exit r \<noteq> None) = (sr_end r = EndQuit)
    \<and> sr_steps r \<le> so_max_steps o' \<and> (sr_end r = EndSteps \<longrightarrow> sr_steps r = so_max_steps o')
    \<and> 0 \<le> sr_elapsed r \<and> sr_elapsed r \<le> so_max_time o'"
proof (cases "check_all (sm_checks s) (k_model (sm_k s))")
  case None
  let ?t0 = "w_now (sm_world s)"
  let ?P = "\<lambda>s. ?t0 \<le> w_now (sm_world s) \<and> w_now (sm_world s) - ?t0 \<le> so_max_time o' \<and> sm_steps s \<le> so_max_steps o'"
  have run: "run_turns o' e ?t0 s = Inr (r, s')" using assms(1) None by (simp add: sim_run_def Let_def)
  have "?P s" using assms(2,3) by simp
  have keep: "?P s1" if "?P s" "sm_steps s < so_max_steps o'" "sim_turn o' e ?t0 s = Inr (None, s1)" for s s1
    using that sim_turn_bounds [OF that(3)] sim_turn_steps [OF that(3)] by auto
  have "?P s' \<and> so_max_steps o' \<le> sm_steps s' \<and> r = finish_report EndSteps None None ?t0 s'
    \<or> (\<exists>u. ?P u \<and> sm_steps u < so_max_steps o' \<and> sim_turn o' e ?t0 u = Inr (Some r, s'))"
    by (rule run_turns_end [where P = ?P, OF run \<open>?P s\<close> keep])
  then show ?thesis
  proof (elim disjE exE)
    fix u
    assume u: "?P u \<and> sm_steps u < so_max_steps o' \<and> sim_turn o' e ?t0 u = Inr (Some r, s')"
    then show ?thesis using sim_turn_report [of o' e ?t0 u r s'] sim_turn_bounds [of o' e ?t0 u "Some r" s'] by auto
  qed (auto simp: finish_report_def)
qed (use assms in \<open>auto simp: sim_run_def Let_def finish_report_def\<close>)

section \<open>The record\<close>

lemma run_one_rec:
  assumes "run_one o' e s = Inr s'" "updates_return e" "rec_inv e md0 (sm_k s)"
  shows "rec_inv e md0 (sm_k s')"
proof -
  obtain i q where q: "w_q (sm_world s) = i # q" using assms(1) by (auto simp: run_one_def split: list.splits)
  let ?s1 = "s\<lparr>sm_world := (sm_world s)\<lparr>w_q := q\<rparr>\<rparr>"
  show ?thesis
  proof (cases "it_run i")
    case (Input ev)
    then obtain n k where k: "route (sim_env (sm_seed s) e (w_now (sm_world s))) ev (sm_k s) = Inr (n, k)" "after_kernel o' k ?s1 = Inr s'"
      using assms(1) q by (auto simp: run_one_def Let_def andthen_Inr)
    have "rec_inv e md0 k" using recorded.route_keeps [OF k(1), of md0] assms(2,3) by simp
    then show ?thesis using after_kernel_frame [OF k(2)] by simp
  next
    case (RunTask c j body)
    then show ?thesis using assms q rec_inv_cong [of e md0 "sm_k s" "sm_k s'"]
      by (auto simp: run_one_def andthen_Inr Let_def dest!: run_task_frame split: if_splits)
  qed (use assms q rec_inv_cong [of e md0 "sm_k s"] in \<open>auto simp: run_one_def Let_def dispatch_def push_pending_def\<close>)
qed

lemma step_rec:
  assumes "step (sim_env seed e t) k = Inr (x, k')" "updates_return e" "rec_inv e md0 k"
  shows "rec_inv e md0 k'"
  using recorded.step_keeps [OF assms(1), of md0] assms(2,3) by simp

lemma sim_turn_rec:
  assumes "sim_turn o' e t0 s = Inr (r, s')" "updates_return e" "rec_inv e md0 (sm_k s)"
  shows "rec_inv e md0 (sm_k s')"
  using assms(1)
proof (cases rule: sim_turn_elim)
  case (over t k s1)
  have "sm_k s' = k" using after_kernel_frame [OF over(2)] over(3) by (metis sim.select_convs(3) sim.surjective sim.update_convs(2,5))
  then show ?thesis using step_rec [OF over(1) assms(2,3)] by simp
next
  case (ran t k s1 s3)
  have "sm_k s3 = k" using after_kernel_frame [OF ran(2)] ran(4) by (metis sim.select_convs(3) sim.surjective sim.update_convs(2,5))
  then show ?thesis using run_one_rec [OF ran(7) assms(2)] step_rec [OF ran(1) assms(2,3)] by simp
qed

lemma new_sim_rec:
  assumes "new_sim o' e seed hs = Inr s" "updates_return e"
  shows "rec_inv e (fst (e_init e)) (sm_k s)"
proof -
  obtain k where k: "start (sim_env seed e 0) hs = Inr k" "sm_k s = k" using assms(1) by (auto simp: new_sim_def andthen_Inr)
  obtain md0 c where i: "e_init e = (md0, c)" by fastforce
  have "rec_inv e md0 (fresh_kernel (sim_env seed e 0) md0 hs)" by (simp add: rec_inv_def fresh_kernel_def Let_def)
  then show ?thesis
    using recorded.construct_keeps [of "sim_env seed e 0" md0 c hs k md0] k i assms(2) by (simp add: start_def)
qed

lemma sim_run_rec:
  assumes "sim_run o' e s = Inr (r, s')" "updates_return e" "rec_inv e md0 (sm_k s)"
  shows "rec_inv e md0 (sm_k s') \<and> sr_messages r = k_recorded (sm_k s')
    \<and> (sr_end r = EndBroke \<longrightarrow> sr_broken r = check_all (sm_checks s) (k_model (sm_k s')))"
proof (cases "check_all (sm_checks s) (k_model (sm_k s))")
  case None
  let ?t0 = "w_now (sm_world s)"
  let ?P = "\<lambda>u. rec_inv e md0 (sm_k u) \<and> sm_checks u = sm_checks s"
  have run: "run_turns o' e ?t0 s = Inr (r, s')" using assms(1) None by (simp add: sim_run_def Let_def)
  have "?P s" using assms(3) by simp
  have keep: "?P s1" if "?P u" "sm_steps u < so_max_steps o'" "sim_turn o' e ?t0 u = Inr (None, s1)" for u s1
    using that sim_turn_rec [OF that(3) assms(2)] sim_turn_checks [OF that(3)] by simp
  have "?P s' \<and> so_max_steps o' \<le> sm_steps s' \<and> r = finish_report EndSteps None None ?t0 s'
    \<or> (\<exists>u. ?P u \<and> sm_steps u < so_max_steps o' \<and> sim_turn o' e ?t0 u = Inr (Some r, s'))"
    by (rule run_turns_end [where P = ?P, OF run \<open>?P s\<close> keep])
  then show ?thesis
  proof (elim disjE exE)
    fix u
    assume u: "?P u \<and> sm_steps u < so_max_steps o' \<and> sim_turn o' e ?t0 u = Inr (Some r, s')"
    then show ?thesis using sim_turn_report [of o' e ?t0 u r s'] sim_turn_rec [of o' e ?t0 u "Some r" s' md0] assms(2) by auto
  qed (auto simp: finish_report_def)
qed (use assms in \<open>auto simp: sim_run_def Let_def finish_report_def\<close>)

text \<open>C14: the messages of a report reproduce the run: replaying them gives the model the run ended with, and
  for a broken run a model on which exactly the reported check fails first. (The program's updates return,
  and it declares no clock; the scenario only schedules and adds checks.)\<close>

theorem sim_failure_reproduces:
  assumes "updates_return e" "e_pclock e = Unclocked" "new_sim o' e seed hs = Inr s0" "sm_k s = sm_k s0"
    "sim_run o' e s = Inr (r, s')"
  shows "\<exists>md. replay (e_init e) (\<lambda>md m. e_update e md m None) (sr_messages r) = Inr md \<and> md = k_model (sm_k s')
    \<and> (sr_end r = EndBroke \<longrightarrow> check_all (sm_checks s) md = sr_broken r)"
proof -
  have "rec_inv e (fst (e_init e)) (sm_k s)" using new_sim_rec [OF assms(3,1)] assms(4) by simp
  from sim_run_rec [OF assms(5,1) this] show ?thesis using assms(2) by (simp add: rec_inv_def replay_def)
qed

section \<open>Checks after every message\<close>

definition no_input :: "('m, 'ev) world \<Rightarrow> bool" where
  "no_input w \<longleftrightarrow> (\<forall>i \<in> set (w_q w). \<forall>ev. it_run i \<noteq> Input ev)"

lemma no_input_grows:
  "no_input w \<Longrightarrow> \<forall>i \<in> set (w_q w'). i \<in> set (w_q w) \<or> late_task o' t i \<Longrightarrow> no_input w'"
  unfolding no_input_def late_task_def by (metis sim_act.distinct(5))

lemma run_one_quiet:
  assumes "run_one o' e s = Inr s'" "no_input (sm_world s)"
  shows "k_recorded (sm_k s') = k_recorded (sm_k s) \<and> k_model (sm_k s') = k_model (sm_k s)"
  using assms by (auto simp: run_one_def no_input_def dispatch_def push_pending_def andthen_Inr Let_def
    dest!: run_task_frame split: list.splits sim_act.splits if_splits)

lemma sim_turn_one:
  assumes "sim_turn o' e t0 s = Inr (r, s')" "no_input (sm_world s)"
  shows "no_input (sm_world s') \<and> (\<exists>ms. k_recorded (sm_k s') = k_recorded (sm_k s) @ ms \<and> length ms \<le> 1)
    \<and> (r = None \<longrightarrow> check_all (sm_checks s) (k_model (sm_k s')) = None)"
  using assms(1)
proof (cases rule: sim_turn_elim)
  case (over t k s1)
  have "sm_k s' = k" using after_kernel_frame [OF over(2)] over(3) by (metis sim.select_convs(3) sim.surjective sim.update_convs(2,5))
  moreover obtain ms where "k_recorded k = k_recorded (sm_k s) @ ms" "length ms \<le> 1" using step_one [OF over(1)] by auto
  moreover have "no_input (sm_world s')"
    using no_input_grows [OF assms(2), of "sm_world s1"] after_kernel_world [OF over(2)] over(4) by (auto simp: moved_on_def no_input_def)
  ultimately show ?thesis using over(5) by (auto split: option.splits)
next
  case (ran t k s1 s3)
  have k: "sm_k s3 = k" using after_kernel_frame [OF ran(2)] ran(4) by (metis sim.select_convs(3) sim.surjective sim.update_convs(2,5))
  obtain ms where "k_recorded k = k_recorded (sm_k s) @ ms" "length ms \<le> 1" using step_one [OF ran(1)] by auto
  moreover have 3: "no_input (sm_world s3)"
    using no_input_grows [OF assms(2), of "sm_world s1"] after_kernel_world [OF ran(2)] ran(5) by (auto simp: moved_on_def no_input_def)
  moreover have "no_input (sm_world s')" using no_input_grows [OF 3] run_one_world [OF ran(7)] by blast
  ultimately show ?thesis using run_one_quiet [OF ran(7) 3] ran(3) k by auto
qed

text \<open>The models after the messages from the \<open>n0\<close>-th on pass the checks.\<close>

definition passed ::
    "('md, 'm, 'h, 'o, 'k, 'e, 'ev, 'sk, 'hs) env \<Rightarrow> (string \<times> ('md \<Rightarrow> exc + bool)) list \<Rightarrow> nat \<Rightarrow> 'm list \<Rightarrow> bool" where
  "passed e cs n0 ms \<longleftrightarrow> (\<forall>n md. n0 \<le> n \<longrightarrow> n \<le> length ms \<longrightarrow>
     replay (e_init e) (\<lambda>md m. e_update e md m None) (take n ms) = Inr md \<longrightarrow> check_all cs md = None)"

lemma passed_more:
  assumes "passed e cs n0 ms" "length xs \<le> 1" "replay (e_init e) (\<lambda>md m. e_update e md m None) (ms @ xs) = Inr md" "check_all cs md = None"
  shows "passed e cs n0 (ms @ xs)"
  unfolding passed_def
proof (intro allI impI)
  fix n md'
  assume n: "n0 \<le> n" "n \<le> length (ms @ xs)" "replay (e_init e) (\<lambda>md m. e_update e md m None) (take n (ms @ xs)) = Inr md'"
  show "check_all cs md' = None"
  proof (cases "n \<le> length ms")
    case True
    then show ?thesis using assms(1) n by (simp add: passed_def)
  next
    case False
    then have "n = length (ms @ xs)" using n(2) assms(2) by simp
    then show ?thesis using n(3) assms(3,4) by simp
  qed
qed

lemma sim_run_passed:
  assumes "sim_run o' e s = Inr (r, s')" "updates_return e" "e_pclock e = Unclocked" "rec_inv e (fst (e_init e)) (sm_k s)"
    "no_input (sm_world s)" "report_ok r"
  shows "passed e (sm_checks s) (length (k_recorded (sm_k s))) (sr_messages r)"
proof -
  have first: "check_all (sm_checks s) (k_model (sm_k s)) = None"
    using assms(1,6) by (auto simp: sim_run_def report_ok_def finish_report_def Let_def split: option.splits)
  let ?t0 = "w_now (sm_world s)" and ?n0 = "length (k_recorded (sm_k s))"
  let ?P = "\<lambda>u. rec_inv e (fst (e_init e)) (sm_k u) \<and> sm_checks u = sm_checks s \<and> no_input (sm_world u)
    \<and> passed e (sm_checks s) ?n0 (k_recorded (sm_k u))"
  have rec: "replay (e_init e) (\<lambda>md m. e_update e md m None) (k_recorded k) = Inr (k_model k)"
    if "rec_inv e (fst (e_init e)) k" for k
    using that assms(3) by (simp add: rec_inv_def replay_def)
  have run: "run_turns o' e ?t0 s = Inr (r, s')" using assms(1) first by (simp add: sim_run_def Let_def)
  have p: "?P s" using assms(4,5) first rec [OF assms(4)] by (auto simp: passed_def)
  have more: "passed e (sm_checks s) ?n0 (k_recorded (sm_k s1))"
    if "?P u" "sim_turn o' e ?t0 u = Inr (x, s1)" "check_all (sm_checks s) (k_model (sm_k s1)) = None" for u x s1
  proof -
    note t = that
    obtain ms where ms: "k_recorded (sm_k s1) = k_recorded (sm_k u) @ ms" "length ms \<le> 1" using sim_turn_one [OF t(2)] t(1) by auto
    have "rec_inv e (fst (e_init e)) (sm_k s1)" using sim_turn_rec [OF that(2) assms(2)] that(1) by blast
    from rec [OF this] show ?thesis using passed_more [of e "sm_checks s" ?n0 "k_recorded (sm_k u)" ms] that(1,3) ms by simp
  qed
  have keep: "?P s1" if "?P u" "sm_steps u < so_max_steps o'" "sim_turn o' e ?t0 u = Inr (None, s1)" for u s1
    using that(1) sim_turn_rec [OF that(3) assms(2)] sim_turn_checks [OF that(3)] sim_turn_one [OF that(3)] more [OF that(1,3)] by simp
  have "?P s' \<and> so_max_steps o' \<le> sm_steps s' \<and> r = finish_report EndSteps None None ?t0 s'
    \<or> (\<exists>u. ?P u \<and> sm_steps u < so_max_steps o' \<and> sim_turn o' e ?t0 u = Inr (Some r, s'))"
    by (rule run_turns_end [where P = ?P, OF run p keep])
  then show ?thesis
  proof (elim disjE exE)
    fix u
    assume u: "?P u \<and> sm_steps u < so_max_steps o' \<and> sim_turn o' e ?t0 u = Inr (Some r, s')"
    then show ?thesis using sim_turn_report [of o' e ?t0 u r s'] more [of u "Some r" s'] assms(6) by (auto simp: report_ok_def)
  qed (simp add: finish_report_def)
qed


section \<open>Exploring\<close>

lemma explore_from_spec:
  "explore_from o' e hs sc first k n = Inr (k', f) \<Longrightarrow>
   k \<le> k' \<and> k' \<le> k + n \<and>
   (case f of None \<Rightarrow> k' = k + n \<and> (\<forall>i. k \<le> i \<and> i < k' \<longrightarrow> (\<exists>r. run_seed o' e hs sc (first + of_nat i) = Inr r \<and> report_ok r))
    | Some r \<Rightarrow> k < k' \<and> run_seed o' e hs sc (first + of_nat (k' - 1)) = Inr r \<and> \<not> report_ok r
        \<and> (\<forall>i. k \<le> i \<and> i < k' - 1 \<longrightarrow> (\<exists>r. run_seed o' e hs sc (first + of_nat i) = Inr r \<and> report_ok r)))"
proof (induction n arbitrary: k)
  case (Suc n)
  then obtain r where r: "run_seed o' e hs sc (first + of_nat k) = Inr r"
    and x: "(if report_ok r then explore_from o' e hs sc first (k + 1) n else Inr (k + 1, Some r)) = Inr (k', f)"
    by (auto simp: andthen_Inr)
  have split: "(\<forall>i. k \<le> i \<and> i < j \<longrightarrow> Q i) \<longleftrightarrow> (k < j \<longrightarrow> Q k) \<and> (\<forall>i. k + 1 \<le> i \<and> i < j \<longrightarrow> Q i)" for j Q
    by (metis Suc_eq_plus1 Suc_leI Suc_leD le_neq_implies_less order_refl)
  show ?case
  proof (cases "report_ok r")
    case True
    then show ?thesis using Suc.IH [of "k + 1"] x r unfolding split by (auto split: option.splits)
  qed (use x r in auto)
qed auto

text \<open>Exploring returns the first seed that breaks a check: with a failure, the seeds before the last one
  tried all ran to an unbroken report and the last one is the report given; without, all of them did.\<close>

theorem explore_first_broken:
  assumes "explore o' e hs sc first n = Inr (k, f)"
  shows "case f of
      None \<Rightarrow> k = n \<and> (\<forall>i < n. \<exists>r. run_seed o' e hs sc (first + of_nat i) = Inr r \<and> report_ok r)
    | Some r \<Rightarrow> 0 < k \<and> k \<le> n \<and> run_seed o' e hs sc (first + of_nat (k - 1)) = Inr r \<and> \<not> report_ok r
        \<and> (\<forall>i < k - 1. \<exists>r. run_seed o' e hs sc (first + of_nat i) = Inr r \<and> report_ok r)"
  using explore_from_spec [OF assms [unfolded explore_def]] by (auto split: option.splits)

section \<open>Latencies and seeds\<close>

text \<open>A task's result is due within the configured latencies: posting a task always returns, leaves the
  world's time alone, and whatever it adds to the queue is due at the earliest after the shortest latency and
  at the latest after the longest.\<close>

theorem task_latency_bounds:
  assumes "so_latency_max o' - so_latency_min o' \<le> rep_max"
  shows "\<exists>w'. exec_post o' j body w = Inr w' \<and> w_now w' = w_now w \<and>
    (\<forall>i \<in> set (w_q w') - set (w_q w). w_now w + so_latency_min o' \<le> it_due i \<and>
       it_due i \<le> w_now w + max (so_latency_min o') (so_latency_max o'))"
proof -
  have "\<exists>w'. exec_post o' j body w = Inr w'"
    by (auto simp: exec_post_def Let_def split: prod.split option.split) (metis below_def below_spec option.distinct(1))
  then obtain w' where "exec_post o' j body w = Inr w'" ..
  with exec_post_frame [OF this] assms show ?thesis by (fastforce simp: late_task_def)
qed

text \<open>The seed determines the program's random numbers, with one exception: what the kernel starts with depends
  on the seed the machine picks exactly when the test fixed none and the simulation's seed is the one whose
  split is zero.\<close>

theorem sim_seed_determines:
  "(\<exists>p q. fresh_kernel (sim_env seed (e\<lparr>e_picked_seed := p\<rparr>) t) md hs \<noteq> fresh_kernel (sim_env seed (e\<lparr>e_picked_seed := q\<rparr>) t) md hs)
   = (e_random_seed e = 0 \<and> seed = - golden)"
proof -
  have z: "fst (split_rng seed) = 0 \<longleftrightarrow> seed = - golden"
    using mix_inj [of "seed + golden" 0] by (auto simp: split_rng_def rng_next_def Let_def eq_neg_iff_add_eq_0)
  have "\<exists>p q :: u64. p \<noteq> q" by (metis zero_neq_one)
  then show ?thesis unfolding z [symmetric] by (auto simp: fresh_kernel_def sim_env_def Let_def)
qed

section \<open>A program to simulate\<close>

text \<open>Message 1 sets the model to one and sends 2, which sets it back to zero; 3 starts a task that posts 2.\<close>

definition flip :: "nat \<Rightarrow> nat \<Rightarrow> time_point option \<Rightarrow> nat \<times> (exc + (unit, unit, nat) cmd)" where
  "flip md m now =
     (if m = 1 then (1, Inr (Send 2)) else if m = 2 then (0, Inr CNone)
      else (md, Inr (Task (SendM 2 (\<lambda>_. Done ())) Pool [])))"

definition flip_env :: "(nat, nat, unit, unit, unit, unit, nat, nat, nat) env" where
  "flip_env = (demo Stop)\<lparr>e_update := flip, e_subscribe := (\<lambda>_. Inr SNone)\<rparr>"

definition flip_options :: sim_options where
  "flip_options = \<lparr>so_latency_min = 0, so_latency_max = 10, so_crash = 0, so_lose = 0, so_max_steps = 50, so_max_time = 1000\<rparr>"

definition flip_sim :: "(nat, nat, unit, unit, nat, nat, nat) sim" where
  "flip_sim = projr (new_sim flip_options flip_env 7 0)"

definition at_rest :: "nat \<Rightarrow> exc + bool" where
  "at_rest md = Inr (md = 0)"

definition flip_at :: "nat \<Rightarrow> (nat, nat, unit, unit, nat, nat, nat) sim" where
  "flip_at m = sim_check ''at rest'' at_rest (sim_at 5 m flip_sim)"

definition flip_run :: "(nat, nat, unit, unit, nat, nat, nat) sim \<Rightarrow> nat sim_report \<times> (nat, nat, unit, unit, nat, nat, nat) sim" where
  "flip_run s = projr (sim_run flip_options flip_env s)"

lemma flip_starts: "new_sim flip_options flip_env 7 0 = Inr flip_sim"
proof -
  have "\<not> isl (new_sim flip_options flip_env 7 0)" by code_simp
  then show ?thesis by (simp add: flip_sim_def)
qed

lemma flip_runs: "\<not> isl (sim_run flip_options flip_env s) \<Longrightarrow> sim_run flip_options flip_env s = Inr (fst (flip_run s), snd (flip_run s))"
  by (simp add: flip_run_def)

lemma flip_break: "\<not> isl (sim_run flip_options flip_env (flip_at 1))" "sr_end (fst (flip_run (flip_at 1))) = EndBroke"
  "sr_messages (fst (flip_run (flip_at 1))) = [1]" "sr_broken (fst (flip_run (flip_at 1))) = Some ''at rest''"
  by code_simp+

lemma flip_pass: "\<not> isl (sim_run flip_options flip_env (flip_at 3))" "sr_end (fst (flip_run (flip_at 3))) = EndIdle"
  "sr_messages (fst (flip_run (flip_at 3))) = [3, 2]"
  by code_simp+

lemma flip_simple: "updates_return flip_env" "e_pclock flip_env = Unclocked" "sm_k (flip_at m) = sm_k flip_sim"
  "sm_checks (flip_at m) = sm_checks flip_sim @ [(''at rest'', at_rest)]" "e_init flip_env = (0, CNone)"
  by (simp_all add: updates_return_def flip_env_def demo_def flip_def flip_at_def sim_at_def sim_check_def)

theorem sim_report_consistent_witness:
  "sr_end (fst (flip_run (flip_at 1))) = EndBroke \<and> sr_steps (fst (flip_run (flip_at 1))) \<le> 50
   \<and> 0 \<le> sr_elapsed (fst (flip_run (flip_at 1))) \<and> sr_elapsed (fst (flip_run (flip_at 1))) \<le> 1000"
proof -
  have "sm_steps (flip_at 1) = 0" by code_simp
  then show ?thesis using sim_report_consistent [OF flip_runs [OF flip_break(1)]] flip_break(2) by (simp add: flip_options_def)
qed

theorem sim_failure_reproduces_witness:
  "\<exists>md. replay (0, CNone :: (unit, unit, nat) cmd) (\<lambda>md m. e_update flip_env md m None) [1] = Inr md
     \<and> check_all (sm_checks (flip_at 1)) md = Some ''at rest''"
  using sim_failure_reproduces [OF flip_simple(1,2) flip_starts flip_simple(3) flip_runs [OF flip_break(1)]] flip_break(2-4)
  unfolding flip_simple(5) by auto


theorem explore_first_broken_witness:
  "\<exists>k r. explore flip_options flip_env 0 (\<lambda>s. Inr (sim_check ''at rest'' at_rest (sim_at 5 1 s))) 7 3 = Inr (k, Some r) \<and> k = 1 \<and> \<not> report_ok r"
proof -
  let ?x = "explore flip_options flip_env 0 (\<lambda>s. Inr (sim_check ''at rest'' at_rest (sim_at 5 1 s))) 7 3"
  have "\<not> isl ?x" "fst (projr ?x) = 1" "snd (projr ?x) \<noteq> None" by code_simp+
  then obtain r where x: "?x = Inr (1, Some r)" using Inr_pairI [of ?x 1] by auto
  then show ?thesis using explore_first_broken [OF x] by simp
qed

theorem task_latency_bounds_witness:
  "\<exists>w'. exec_post flip_options 0 (Done ()) (new_world 7 :: (nat, nat) world) = Inr w' \<and> w_now w' = 0 \<and>
    (\<forall>i \<in> set (w_q w') - {}. 0 \<le> it_due i \<and> it_due i \<le> 10)"
  using task_latency_bounds [of flip_options 0 "Done ()" "new_world 7 :: (nat, nat) world"]
  by (simp add: flip_options_def new_world_def rep_max_val)

text \<open>A scripted input escapes the checks: its message is folded where the input is routed, and the next
  step may fold another before any check runs. The run reported here is not broken although the model after its
  first message violates the check, and the same message delivered without an input breaks it.\<close>

theorem sim_input_skips_check:
  "\<exists>r s'. sim_run flip_options flip_env (sim_check ''at rest'' at_rest (sim_input 5 1 flip_sim)) = Inr (r, s') \<and> report_ok r
     \<and> \<not> passed flip_env (sm_checks s') 0 (sr_messages r) \<and> \<not> report_ok (fst (flip_run (flip_at 1)))"
proof -
  let ?s = "sim_check ''at rest'' at_rest (sim_input 5 1 flip_sim)"
  have k: "\<not> isl (sim_run flip_options flip_env ?s)" "sr_end (fst (flip_run ?s)) = EndIdle" "sr_messages (fst (flip_run ?s)) = [1, 2]"
    "check_all (sm_checks (snd (flip_run ?s))) 1 \<noteq> None" by code_simp+
  have "replay (e_init flip_env) (\<lambda>md m. e_update flip_env md m None) (take 1 [1, 2]) = Inr 1"
    by (simp add: flip_env_def demo_def flip_def replay_def)
  then have "\<not> passed flip_env (sm_checks (snd (flip_run ?s))) 0 (sr_messages (fst (flip_run ?s)))"
    using k(3,4) unfolding passed_def by fastforce
  then show ?thesis using flip_runs [OF k(1)] k(2) flip_break(2) by (intro exI conjI) (auto simp: report_ok_def)
qed

end
