(* ===== verification/Reactor.thy ===== *)
theory Reactor
  imports Jaal_Prelude
begin

text \<open>
  What every reactor shares (\<^verbatim>\<open>platform/concepts.hpp\<close>): interests, readiness, a table of slots with a list of free
  ones, and registrations, which own a slot until they are dropped or moved from. The locale \<open>reactor\<close> is the contract
  of a backend's table; each backend interprets it.
\<close>

section \<open>Interests and readiness\<close>

datatype interest = Read | Write | Read_Write

fun wants_read :: "interest \<Rightarrow> bool" where
  "wants_read Read = True" | "wants_read Write = False" | "wants_read Read_Write = True"

fun wants_write :: "interest \<Rightarrow> bool" where
  "wants_write Read = False" | "wants_write Write = True" | "wants_write Read_Write = True"

record readiness =
  rd_token :: "64 word"
  rd_readable :: bool
  rd_writable :: bool
  rd_hangup :: bool
  rd_error :: bool

text \<open>The entries of \<^verbatim>\<open>ready\<close> that are set; \<^verbatim>\<open>count\<close> is their number.\<close>

record wait_result =
  wr_woken :: bool
  wr_timeout :: bool
  wr_ready :: "readiness list"

definition max_ready :: nat where
  "max_ready = 16"

definition no_result :: wait_result where
  "no_result = \<lparr>wr_woken = False, wr_timeout = False, wr_ready = []\<rparr>"

datatype reactor_error = Bad_Handle | Already_Watched | Too_Many | Empty_Registration | Os_Error int

section \<open>The slot table\<close>

text \<open>The members every backend's slot has; a handle is a number.\<close>

record slot =
  sl_fd :: int
  sl_token :: "64 word"
  sl_live :: bool

record 'a table =
  tb_slots :: "'a list"
  tb_free :: "nat list"

definition new_table :: "'a table" where
  "new_table = \<lparr>tb_slots = [], tb_free = []\<rparr>"

text \<open>The index of a free slot, the last one freed, or of a new one.\<close>

definition take_slot :: "'a \<Rightarrow> 'a table \<Rightarrow> nat \<times> 'a table" where
  "take_slot d t = (if tb_free t \<noteq> [] then (last (tb_free t), t\<lparr>tb_free := butlast (tb_free t)\<rparr>)
     else (length (tb_slots t), t\<lparr>tb_slots := tb_slots t @ [d]\<rparr>))"

definition set_slot :: "nat \<Rightarrow> 'a \<Rightarrow> 'a table \<Rightarrow> 'a table" where
  "set_slot i x t = t\<lparr>tb_slots := (tb_slots t)[i := x]\<rparr>"

definition is_live :: "'a slot_scheme table \<Rightarrow> nat \<Rightarrow> bool" where
  "is_live t i \<longleftrightarrow> i < length (tb_slots t) \<and> sl_live (tb_slots t ! i)"

definition drop_slot :: "nat \<Rightarrow> 'a slot_scheme table \<Rightarrow> 'a slot_scheme table" where
  "drop_slot i t = (if \<not> is_live t i then t
     else t\<lparr>tb_slots := (tb_slots t)[i := (tb_slots t ! i)\<lparr>sl_live := False\<rparr>], tb_free := tb_free t @ [i]\<rparr>)"

definition live_slots :: "'a slot_scheme table \<Rightarrow> nat" where
  "live_slots t = length (filter sl_live (tb_slots t))"

definition watches :: "int \<Rightarrow> 'a slot_scheme table \<Rightarrow> bool" where
  "watches fd t \<longleftrightarrow> list_ex (\<lambda>sl. sl_live sl \<and> sl_fd sl = fd) (tb_slots t)"

text \<open>The free list names the dead slots, each once.\<close>

definition table_ok :: "'a slot_scheme table \<Rightarrow> bool" where
  "table_ok t \<longleftrightarrow> distinct (tb_free t) \<and> (\<forall>i. i \<in> set (tb_free t) \<longleftrightarrow> i < length (tb_slots t) \<and> \<not> sl_live (tb_slots t ! i))"

definition slot_at :: "'a slot_scheme table \<Rightarrow> nat \<Rightarrow> 'a slot_scheme option" where
  "slot_at t i = (if is_live t i then Some (tb_slots t ! i) else None)"

lemma new_table_ok [simp]: "table_ok new_table" "slot_at new_table i = None"
  by (simp_all add: new_table_def table_ok_def slot_at_def is_live_def)

lemma slot_at_Some: "slot_at t i = Some sl \<Longrightarrow> is_live t i \<and> tb_slots t ! i = sl \<and> sl_live sl"
  by (auto simp: slot_at_def is_live_def split: if_splits)

lemma watches_iff: "watches fd t \<longleftrightarrow> (\<exists>i sl. slot_at t i = Some sl \<and> sl_fd sl = fd)"
  by (auto simp: watches_def list_ex_length slot_at_def is_live_def)

lemma take_set_slot:
  assumes "table_ok t" "take_slot d t = (i, t1)" "sl_live x"
  shows "table_ok (set_slot i x t1)" "slot_at t i = None" "slot_at (set_slot i x t1) = (slot_at t)(i \<mapsto> x)"
proof -
  have "table_ok (set_slot i x t1) \<and> slot_at t i = None \<and> slot_at (set_slot i x t1) = (slot_at t)(i \<mapsto> x)"
  proof (cases "tb_free t = []")
    case True
    then show ?thesis using assms
      by (auto simp: take_slot_def set_slot_def table_ok_def slot_at_def is_live_def fun_eq_iff nth_append nth_list_update split: if_splits)
  next
    case False
    then obtain fs where fs: "tb_free t = fs @ [i]" "t1 = t\<lparr>tb_free := fs\<rparr>"
      using assms(2) by (auto simp: take_slot_def) (metis append_butlast_last_id)
    then have "distinct fs" "i \<notin> set fs" "i < length (tb_slots t)" "\<not> sl_live (tb_slots t ! i)"
      using assms(1) by (auto simp: table_ok_def)
    moreover have "\<forall>j. j \<in> set fs \<longleftrightarrow> j \<noteq> i \<and> j < length (tb_slots t) \<and> \<not> sl_live (tb_slots t ! j)"
      using assms(1) fs(1) \<open>i \<notin> set fs\<close> by (auto simp: table_ok_def)
    ultimately show ?thesis using assms(3) fs(2)
      by (auto simp: set_slot_def table_ok_def slot_at_def is_live_def fun_eq_iff nth_list_update)
  qed
  then show "table_ok (set_slot i x t1)" "slot_at t i = None" "slot_at (set_slot i x t1) = (slot_at t)(i \<mapsto> x)" by blast+
qed

lemma drop_slot_ok: "table_ok t \<Longrightarrow> table_ok (drop_slot i t)"
  by (auto simp: drop_slot_def table_ok_def is_live_def nth_list_update)

lemma drop_slot_at: "slot_at (drop_slot i t) = (slot_at t)(i := None)"
  by (auto simp: drop_slot_def slot_at_def is_live_def fun_eq_iff nth_list_update)

lemma set_live_slot:
  assumes "is_live t i" "sl_live x"
  shows "table_ok t \<Longrightarrow> table_ok (set_slot i x t)" "slot_at (set_slot i x t) = (slot_at t)(i \<mapsto> x)"
  using assms by (auto simp: set_slot_def table_ok_def slot_at_def is_live_def fun_eq_iff nth_list_update)

section \<open>Registrations\<close>

text \<open>A registration that is not empty knows its slot; the handle and the token it was made for are recorded beside it.\<close>

record registration =
  rg_slot :: nat
  rg_fd :: int
  rg_token :: "64 word"

definition reg_release :: "(nat \<Rightarrow> 's \<Rightarrow> 's) \<Rightarrow> registration option \<Rightarrow> 's \<Rightarrow> 's" where
  "reg_release unwatch r s = (case r of None \<Rightarrow> s | Some g \<Rightarrow> unwatch (rg_slot g) s)"

text \<open>The registrations a program holds, by the variable that holds them.\<close>

record 's holder =
  ho_state :: 's
  ho_regs :: "nat \<Rightarrow> registration option"

text \<open>\<^verbatim>\<open>operator=\<close> on two variables.\<close>

definition reg_assign :: "(nat \<Rightarrow> 's \<Rightarrow> 's) \<Rightarrow> nat \<Rightarrow> nat \<Rightarrow> 's holder \<Rightarrow> 's holder" where
  "reg_assign unwatch x y h =
     (if x = y then h
      else h\<lparr>ho_state := reg_release unwatch (ho_regs h x) (ho_state h),
             ho_regs := (ho_regs h)(x := ho_regs h y, y := None)\<rparr>)"

definition reg_modify :: "(nat \<Rightarrow> interest \<Rightarrow> 's \<Rightarrow> reactor_error option \<times> 's) \<Rightarrow> nat \<Rightarrow> interest \<Rightarrow> 's holder \<Rightarrow>
    reactor_error option \<times> 's holder" where
  "reg_modify modify x what h =
     (case ho_regs h x of None \<Rightarrow> (Some Empty_Registration, h)
      | Some g \<Rightarrow> (case modify (rg_slot g) what (ho_state h) of (r, s) \<Rightarrow> (r, h\<lparr>ho_state := s\<rparr>)))"

inductive rstep ::
  "(int \<Rightarrow> interest \<Rightarrow> 64 word \<Rightarrow> 's \<Rightarrow> (reactor_error + nat) \<times> 's) \<Rightarrow> (nat \<Rightarrow> 's \<Rightarrow> 's) \<Rightarrow>
   (nat \<Rightarrow> interest \<Rightarrow> 's \<Rightarrow> reactor_error option \<times> 's) \<Rightarrow> 's holder \<Rightarrow> 's holder \<Rightarrow> bool"
  for watch unwatch modify where
  r_watch: "ho_regs h x = None \<Longrightarrow> watch fd what tok (ho_state h) = (Inr i, s) \<Longrightarrow>
    rstep watch unwatch modify h
      (h\<lparr>ho_state := s, ho_regs := (ho_regs h)(x \<mapsto> \<lparr>rg_slot = i, rg_fd = fd, rg_token = tok\<rparr>)\<rparr>)"
| r_refused: "watch fd what tok (ho_state h) = (Inl e, s) \<Longrightarrow> rstep watch unwatch modify h (h\<lparr>ho_state := s\<rparr>)"
| r_drop: "rstep watch unwatch modify h
    (h\<lparr>ho_state := reg_release unwatch (ho_regs h x) (ho_state h), ho_regs := (ho_regs h)(x := None)\<rparr>)"
| r_assign: "rstep watch unwatch modify h (reg_assign unwatch x y h)"
| r_modify: "rstep watch unwatch modify h (snd (reg_modify modify x what h))"

section \<open>The contract of a backend\<close>

type_synonym slot_view = "nat \<Rightarrow> (int \<times> interest \<times> 64 word) option"

text \<open>Every registration a program holds names a slot of its own, which still watches the handle and carries the
  token it was made with, and every watched slot is held.\<close>

definition owned :: "(nat \<Rightarrow> registration option) \<Rightarrow> slot_view \<Rightarrow> bool" where
  "owned regs v \<longleftrightarrow> (\<forall>x g. regs x = Some g \<longrightarrow> (\<exists>what. v (rg_slot g) = Some (rg_fd g, what, rg_token g)))
     \<and> (\<forall>x y g g'. regs x = Some g \<longrightarrow> regs y = Some g' \<longrightarrow> rg_slot g = rg_slot g' \<longrightarrow> x = y)
     \<and> (\<forall>i. v i \<noteq> None \<longrightarrow> (\<exists>x g. regs x = Some g \<and> rg_slot g = i))"

lemma ownedI:
  assumes "\<And>x g. regs x = Some g \<Longrightarrow> \<exists>what. v (rg_slot g) = Some (rg_fd g, what, rg_token g)"
    and "\<And>x y g g'. regs x = Some g \<Longrightarrow> regs y = Some g' \<Longrightarrow> rg_slot g = rg_slot g' \<Longrightarrow> x = y"
    and "\<And>i d. v i = Some d \<Longrightarrow> \<exists>x g. regs x = Some g \<and> rg_slot g = i"
  shows "owned regs v"
  unfolding owned_def using assms by blast

lemma ownedD:
  assumes "owned regs v"
  shows "regs x = Some g \<Longrightarrow> \<exists>what. v (rg_slot g) = Some (rg_fd g, what, rg_token g)"
    and "regs x = Some g \<Longrightarrow> regs y = Some g' \<Longrightarrow> rg_slot g = rg_slot g' \<Longrightarrow> x = y"
    and "v i = Some d \<Longrightarrow> \<exists>x g. regs x = Some g \<and> rg_slot g = i"
  using assms unfolding owned_def by blast+

lemma owned_drop:
  assumes "owned regs v" "regs x = Some g"
  shows "owned (regs(x := None)) (v(rg_slot g := None))"
proof (rule ownedI)
  fix i d assume "(v(rg_slot g := None)) i = Some d"
  then have "v i = Some d" "i \<noteq> rg_slot g" by (auto split: if_splits)
  with ownedD(3) [OF assms(1)] assms(2) show "\<exists>y g'. (regs(x := None)) y = Some g' \<and> rg_slot g' = i"
    by (metis fun_upd_apply option.inject)
next
  fix y g' assume "(regs(x := None)) y = Some g'"
  then have y: "regs y = Some g'" "y \<noteq> x" by (auto split: if_splits)
  then have "rg_slot g' \<noteq> rg_slot g" using ownedD(2) [OF assms(1) y(1) assms(2)] by blast
  then show "\<exists>what. (v(rg_slot g := None)) (rg_slot g') = Some (rg_fd g', what, rg_token g')"
    using ownedD(1) [OF assms(1) y(1)] by simp
qed (use ownedD(2) [OF assms(1)] in \<open>auto split: if_splits\<close>)

lemma owned_new:
  assumes "owned regs v" "regs x = None" "v i = None"
  shows "owned (regs(x \<mapsto> \<lparr>rg_slot = i, rg_fd = fd, rg_token = tok\<rparr>)) (v(i \<mapsto> (fd, what, tok)))"
proof (rule ownedI)
  have other: "rg_slot g \<noteq> i" if "regs y = Some g" for y g using ownedD(1) [OF assms(1) that] assms(3) by auto
  show "\<exists>w. (v(i \<mapsto> (fd, what, tok))) (rg_slot g) = Some (rg_fd g, w, rg_token g)"
    if "(regs(x \<mapsto> \<lparr>rg_slot = i, rg_fd = fd, rg_token = tok\<rparr>)) y = Some g" for y g
    using that other ownedD(1) [OF assms(1)] by (cases "y = x") auto
  show "y = z"
    if "(regs(x \<mapsto> \<lparr>rg_slot = i, rg_fd = fd, rg_token = tok\<rparr>)) y = Some g"
      "(regs(x \<mapsto> \<lparr>rg_slot = i, rg_fd = fd, rg_token = tok\<rparr>)) z = Some g'" "rg_slot g = rg_slot g'" for y z g g'
    using that other ownedD(2) [OF assms(1)] by (cases "y = x"; cases "z = x") fastforce+
  show "\<exists>y g. (regs(x \<mapsto> \<lparr>rg_slot = i, rg_fd = fd, rg_token = tok\<rparr>)) y = Some g \<and> rg_slot g = j"
    if v: "(v(i \<mapsto> (fd, what, tok))) j = Some d" for j d
  proof (cases "j = i")
    case False
    then obtain y g where "regs y = Some g" "rg_slot g = j" using v ownedD(3) [OF assms(1)] by fastforce
    then show ?thesis using assms(2) by (intro exI [of _ y]) auto
  qed (auto intro!: exI [of _ x])
qed

lemma owned_change:
  assumes "owned regs v" "regs x = Some g"
  shows "owned regs (v(rg_slot g \<mapsto> (rg_fd g, what, rg_token g)))"
proof (rule ownedI)
  fix y g' assume y: "regs y = Some g'"
  show "\<exists>w. (v(rg_slot g \<mapsto> (rg_fd g, what, rg_token g))) (rg_slot g') = Some (rg_fd g', w, rg_token g')"
    using ownedD(2) [OF assms(1) y assms(2)] ownedD(1) [OF assms(1) y] y assms(2) by (cases "rg_slot g' = rg_slot g") auto
next
  fix i d assume "(v(rg_slot g \<mapsto> (rg_fd g, what, rg_token g))) i = Some d"
  then show "\<exists>x g. regs x = Some g \<and> rg_slot g = i"
    using ownedD(3) [OF assms(1)] assms(2) by (auto split: if_splits)
qed (use ownedD(2) [OF assms(1)] in blast)

lemma owned_move:
  assumes "owned regs v" "regs x = None" "x \<noteq> y"
  shows "owned (regs(x := regs y, y := None)) v"
proof (rule ownedI)
  show "\<exists>z g. (regs(x := regs y, y := None)) z = Some g \<and> rg_slot g = i" if "v i = Some d" for i d
  proof -
    obtain z g where z: "regs z = Some g" "rg_slot g = i" using ownedD(3) [OF assms(1) \<open>v i = Some d\<close>] by blast
    then show ?thesis using assms(2,3) by (intro exI [of _ "if z = y then x else z"] exI [of _ g]) auto
  qed
  show "\<exists>w. v (rg_slot g) = Some (rg_fd g, w, rg_token g)" if "(regs(x := regs y, y := None)) z = Some g" for z g
    using that ownedD(1) [OF assms(1)] by (auto split: if_splits)
  show "z = z'" if "(regs(x := regs y, y := None)) z = Some g" "(regs(x := regs y, y := None)) z' = Some g'"
    "rg_slot g = rg_slot g'" for z z' g g'
    using that assms(3) ownedD(2) [OF assms(1), of _ g _ g'] by (cases "z = x"; cases "z' = x") (auto split: if_splits)
qed

locale reactor =
  fixes ok :: "'s \<Rightarrow> bool"
    and view :: "'s \<Rightarrow> slot_view"
    and watch :: "int \<Rightarrow> interest \<Rightarrow> 64 word \<Rightarrow> 's \<Rightarrow> (reactor_error + nat) \<times> 's"
    and unwatch :: "nat \<Rightarrow> 's \<Rightarrow> 's"
    and modify :: "nat \<Rightarrow> interest \<Rightarrow> 's \<Rightarrow> reactor_error option \<times> 's"
  assumes watch_new: "ok s \<Longrightarrow> watch fd what tok s = (Inr i, s') \<Longrightarrow>
      ok s' \<and> view s i = None \<and> view s' = (view s)(i \<mapsto> (fd, what, tok))"
    and watch_refused: "ok s \<Longrightarrow> watch fd what tok s = (Inl e, s') \<Longrightarrow> ok s' \<and> view s' = view s"
    and watch_twice: "ok s \<Longrightarrow> view s i = Some (fd, w, t) \<Longrightarrow> fst (watch fd what tok s) = Inl Already_Watched"
    and unwatch_view: "ok s \<Longrightarrow> ok (unwatch i s) \<and> view (unwatch i s) = (view s)(i := None)"
    and modify_view: "ok s \<Longrightarrow> view s i = Some (fd, w, tok) \<Longrightarrow> modify i what s = (r, s') \<Longrightarrow>
      ok s' \<and> view s' = (if r = None then (view s)(i \<mapsto> (fd, what, tok)) else view s)"
begin

definition holds :: "'s holder \<Rightarrow> bool" where
  "holds h \<longleftrightarrow> ok (ho_state h) \<and> owned (ho_regs h) (view (ho_state h))"

lemma holds_release:
  assumes "holds h"
  shows "holds (h\<lparr>ho_state := reg_release unwatch (ho_regs h x) (ho_state h), ho_regs := (ho_regs h)(x := None)\<rparr>)"
proof (cases "ho_regs h x")
  case None
  then show ?thesis using assms by (simp add: reg_release_def holds_def fun_upd_idem)
next
  case (Some g)
  then show ?thesis using assms unwatch_view [of "ho_state h" "rg_slot g"] owned_drop [of "ho_regs h" _ x g]
    by (simp add: holds_def reg_release_def)
qed

lemma holds_step:
  assumes "rstep watch unwatch modify h h'" "holds h"
  shows "holds h'"
  using assms
proof (induction rule: rstep.induct)
  case (r_watch h x fd what tok i s)
  then show ?case using watch_new [of "ho_state h" fd what tok i s] by (auto simp: holds_def intro: owned_new)
next
  case (r_refused fd what tok h e s)
  then show ?case using watch_refused [of "ho_state h" fd what tok e s] by (simp add: holds_def)
next
  case (r_drop h x)
  then show ?case by (rule holds_release)
next
  case (r_assign h x y)
  show ?case
  proof (cases "x = y")
    case False
    from holds_release [OF r_assign, of x] show ?thesis
      using owned_move [of "(ho_regs h)(x := None)" _ x y] False
      by (simp add: holds_def reg_assign_def)
  qed (use r_assign in \<open>simp add: reg_assign_def\<close>)
next
  case (r_modify h x what)
  show ?case
  proof (cases "ho_regs h x")
    case (Some g)
    then obtain w where "view (ho_state h) (rg_slot g) = Some (rg_fd g, w, rg_token g)"
      using r_modify unfolding holds_def owned_def by blast
    moreover obtain r s where m: "modify (rg_slot g) what (ho_state h) = (r, s)" by fastforce
    ultimately have "ok s" "view s = (if r = None then (view (ho_state h))(rg_slot g \<mapsto> (rg_fd g, what, rg_token g)) else view (ho_state h))"
      using modify_view r_modify unfolding holds_def by blast+
    then show ?thesis using r_modify Some m owned_change [of "ho_regs h" _ x g what]
      by (auto simp: holds_def reg_modify_def)
  qed (use r_modify in \<open>simp add: reg_modify_def\<close>)
qed

lemma holds_reach: "(rstep watch unwatch modify)\<^sup>*\<^sup>* h h' \<Longrightarrow> holds h \<Longrightarrow> holds h'"
  by (induction rule: rtranclp_induct) (use holds_step in blast)+

end

end
