(* ===== verification/Poll_Reactor.thy ===== *)
theory Poll_Reactor
  imports Reactor
begin

text \<open>
  \<^verbatim>\<open>src/platform/posix/poll_reactor.cpp\<close>, the reference reactor. What \<^verbatim>\<open>poll\<close> returns, and how much time has passed
  at each call, are inputs of \<^verbatim>\<open>wait\<close>.
\<close>

section \<open>Watching\<close>

record poll_slot = slot +
  sl_what :: interest

definition no_poll_slot :: poll_slot where
  "no_poll_slot = \<lparr>sl_fd = -1, sl_token = 0, sl_live = False, sl_what = Read\<rparr>"

definition poll_watch :: "int \<Rightarrow> interest \<Rightarrow> 64 word \<Rightarrow> poll_slot table \<Rightarrow> (reactor_error + nat) \<times> poll_slot table" where
  "poll_watch fd what tok t =
     (if fd < 0 then (Inl Bad_Handle, t)
      else if watches fd t then (Inl Already_Watched, t)
      else (let (idx, t1) = take_slot no_poll_slot t
            in (Inr idx, set_slot idx \<lparr>sl_fd = fd, sl_token = tok, sl_live = True, sl_what = what\<rparr> t1)))"

definition poll_unwatch :: "nat \<Rightarrow> poll_slot table \<Rightarrow> poll_slot table" where
  "poll_unwatch i t = drop_slot i t"

definition poll_modify :: "nat \<Rightarrow> interest \<Rightarrow> poll_slot table \<Rightarrow> reactor_error option \<times> poll_slot table" where
  "poll_modify i what t =
     (if \<not> is_live t i then (Some Empty_Registration, t)
      else (None, set_slot i ((tb_slots t ! i)\<lparr>sl_what := what\<rparr>) t))"

definition poll_watched :: "poll_slot table \<Rightarrow> nat" where
  "poll_watched t = live_slots t"

section \<open>Waiting\<close>

definition int_max :: int where
  "int_max = 2147483647"

definition poll_timeout :: "int option \<Rightarrow> int" where
  "poll_timeout t = (case t of None \<Rightarrow> -1 | Some c \<Rightarrow> if c \<le> 0 then 0 else if c \<ge> int_max then int_max else c)"

definition time_left :: "int option \<Rightarrow> int \<Rightarrow> int option" where
  "time_left timeout spent = map_option (\<lambda>t. if t > spent then t - spent else 0) timeout"

text \<open>One entry of the array passed to \<^verbatim>\<open>poll\<close>: the descriptor and whether input and output are asked for.\<close>

record pollfd =
  pf_fd :: int
  pf_in :: bool
  pf_out :: bool

record revents =
  re_in :: bool
  re_out :: bool
  re_hup :: bool
  re_err :: bool
  re_nval :: bool

definition quiet :: "revents \<Rightarrow> bool" where
  "quiet re \<longleftrightarrow> \<not> (re_in re \<or> re_out re \<or> re_hup re \<or> re_err re \<or> re_nval re)"

text \<open>\<^verbatim>\<open>pfds\<close> after the waker's entry, each with the slot \<^verbatim>\<open>map\<close> remembers.\<close>

fun poll_set :: "nat \<Rightarrow> poll_slot list \<Rightarrow> (pollfd \<times> nat) list" where
  "poll_set i [] = []"
| "poll_set i (sl # sls) =
     (if \<not> sl_live sl then poll_set (i + 1) sls
      else (\<lparr>pf_fd = sl_fd sl, pf_in = wants_read (sl_what sl), pf_out = wants_write (sl_what sl)\<rparr>, i) # poll_set (i + 1) sls)"

definition to_ready :: "64 word \<Rightarrow> revents \<Rightarrow> readiness" where
  "to_ready tok re = \<lparr>rd_token = tok, rd_readable = re_in re, rd_writable = re_out re, rd_hangup = re_hup re,
     rd_error = re_err re \<or> re_nval re\<rparr>"

fun fill_ready :: "poll_slot list \<Rightarrow> (nat \<times> revents) list \<Rightarrow> readiness list \<Rightarrow> readiness list" where
  "fill_ready sls [] out = out"
| "fill_ready sls ((i, re) # rest) out =
     (if length out \<ge> max_ready then out
      else if quiet re then fill_ready sls rest out
      else fill_ready sls rest (out @ [to_ready (sl_token (sls ! i)) re]))"

text \<open>What \<^verbatim>\<open>wait\<close> makes of the events of the waker and of the watched descriptors. \<^verbatim>\<open>poll\<close> returns 0 when no entry
  has an event.\<close>

definition poll_result :: "poll_slot table \<Rightarrow> revents \<Rightarrow> revents list \<Rightarrow> wait_result" where
  "poll_result t wake res =
     (if quiet wake \<and> list_all quiet res then no_result\<lparr>wr_timeout := True\<rparr>
      else no_result\<lparr>wr_woken := re_in wake,
             wr_ready := fill_ready (tb_slots t) (zip (map snd (poll_set 0 (tb_slots t))) res) []\<rparr>)"

datatype polled = Interrupted | Failed int | Polled revents "revents list"

text \<open>\<^verbatim>\<open>wait\<close>: each answer of \<^verbatim>\<open>poll\<close> with the time spent before the call. The result is absent while the call has
  not returned; beside it stand the timeouts passed to \<^verbatim>\<open>poll\<close>.\<close>

fun poll_wait :: "int option \<Rightarrow> poll_slot table \<Rightarrow> (int \<times> polled) list \<Rightarrow> (int list \<times> (reactor_error + wait_result)) option" where
  "poll_wait timeout t [] = None"
| "poll_wait timeout t ((spent, answer) # rest) =
     (let c = poll_timeout (time_left timeout spent) in
      case answer of
        Interrupted \<Rightarrow> map_option (\<lambda>(cs, r). (c # cs, r)) (poll_wait timeout t rest)
      | Failed e \<Rightarrow> Some ([c], Inl (Os_Error e))
      | Polled wake res \<Rightarrow> Some ([c], Inr (poll_result t wake res)))"

section \<open>The table keeps its promises\<close>

definition poll_view :: "poll_slot table \<Rightarrow> slot_view" where
  "poll_view t i = map_option (\<lambda>sl. (sl_fd sl, sl_what sl, sl_token sl)) (slot_at t i)"

definition poll_ok :: "poll_slot table \<Rightarrow> bool" where
  "poll_ok t \<longleftrightarrow> table_ok t \<and> (\<forall>i sl. slot_at t i = Some sl \<longrightarrow> 0 \<le> sl_fd sl)
     \<and> (\<forall>i j sl sl'. slot_at t i = Some sl \<longrightarrow> slot_at t j = Some sl' \<longrightarrow> sl_fd sl = sl_fd sl' \<longrightarrow> i = j)"

lemma poll_watch_new:
  assumes "poll_ok t" "poll_watch fd what tok t = (Inr i, t')"
  shows "poll_ok t' \<and> poll_view t i = None \<and> poll_view t' = (poll_view t)(i \<mapsto> (fd, what, tok))"
proof -
  let ?x = "\<lparr>sl_fd = fd, sl_token = tok, sl_live = True, sl_what = what\<rparr> :: poll_slot"
  obtain t1 where t1: "take_slot no_poll_slot t = (i, t1)" "t' = set_slot i ?x t1" "0 \<le> fd" "\<not> watches fd t"
    using assms(2) by (auto simp: poll_watch_def split: if_splits prod.splits)
  have "table_ok t" using assms(1) by (simp add: poll_ok_def)
  note put = take_set_slot [OF this t1(1), of ?x, simplified, folded t1(2)]
  have "sl_fd sl \<noteq> fd" if "slot_at t j = Some sl" for j sl using t1(4) that unfolding watches_iff by blast
  then have "poll_ok t'" using assms(1) put(1,3) t1(3) unfolding poll_ok_def by auto
  then show ?thesis using put by (auto simp: poll_view_def fun_eq_iff)
qed

interpretation poll: reactor poll_ok poll_view poll_watch poll_unwatch poll_modify
proof
  fix t t' :: "poll_slot table" and fd what tok i w e
  assume ok: "poll_ok t"
  show "poll_watch fd what tok t = (Inr i, t') \<Longrightarrow>
    poll_ok t' \<and> poll_view t i = None \<and> poll_view t' = (poll_view t)(i \<mapsto> (fd, what, tok))"
    using poll_watch_new [OF ok] .
  show "poll_watch fd what tok t = (Inl e, t') \<Longrightarrow> poll_ok t' \<and> poll_view t' = poll_view t"
    using ok by (auto simp: poll_watch_def split: if_splits prod.splits)
  show "fst (poll_watch fd what tok t) = Inl Already_Watched" if v: "poll_view t i = Some (fd, w, tok')" for tok'
  proof -
    obtain sl where "slot_at t i = Some sl" "sl_fd sl = fd" using v by (auto simp: poll_view_def)
    then have "watches fd t" "0 \<le> fd" using ok by (auto simp: watches_iff poll_ok_def)
    then show ?thesis by (simp add: poll_watch_def)
  qed
  show "poll_ok (poll_unwatch i t) \<and> poll_view (poll_unwatch i t) = (poll_view t)(i := None)"
    using ok drop_slot_ok [of t i]
    by (auto simp: poll_ok_def poll_view_def poll_unwatch_def drop_slot_at fun_eq_iff)
  show "poll_ok t' \<and> poll_view t' = (if r = None then (poll_view t)(i \<mapsto> (fd, what, tok)) else poll_view t)"
    if v: "poll_view t i = Some (fd, w, tok)" and m: "poll_modify i what t = (r, t')" for r
  proof -
    obtain sl where sl: "slot_at t i = Some sl" "fd = sl_fd sl" "tok = sl_token sl" using v by (auto simp: poll_view_def)
    then have "is_live t i" "tb_slots t ! i = sl" "sl_live sl" using slot_at_Some by blast+
    then show ?thesis using m ok sl set_live_slot [of t i "sl\<lparr>sl_what := what\<rparr>"]
      by (auto simp: poll_modify_def poll_ok_def poll_view_def fun_eq_iff)
  qed
qed

definition poll_new :: "poll_slot table holder" where
  "poll_new = \<lparr>ho_state = new_table, ho_regs = \<lambda>_. None\<rparr>"

lemma poll_new_holds: "poll.holds poll_new"
  by (simp add: poll.holds_def poll_new_def poll_ok_def poll_view_def owned_def)

text \<open>C22: whatever a program does with its registrations (making, moving, assigning, changing and dropping them),
  each one it holds still names its own slot, watching the handle it was made for under its token; every
  watched slot is held by one; and no handle is watched twice: watching it again is refused.\<close>

theorem poll_registrations:
  assumes "(rstep poll_watch poll_unwatch poll_modify)\<^sup>*\<^sup>* poll_new h" "ho_regs h x = Some g"
  shows "(\<exists>what. poll_view (ho_state h) (rg_slot g) = Some (rg_fd g, what, rg_token g))
    \<and> (\<forall>y g'. ho_regs h y = Some g' \<longrightarrow> rg_slot g' = rg_slot g \<or> rg_fd g' = rg_fd g \<longrightarrow> y = x)
    \<and> (\<forall>i. poll_view (ho_state h) i \<noteq> None \<longrightarrow> (\<exists>y g'. ho_regs h y = Some g' \<and> rg_slot g' = i))
    \<and> poll_watch (rg_fd g) what tok (ho_state h) = (Inl Already_Watched, ho_state h)"
proof -
  have holds: "poll_ok (ho_state h)" "owned (ho_regs h) (poll_view (ho_state h))"
    using poll.holds_reach [OF assms(1) poll_new_holds] unfolding poll.holds_def by blast+
  note own = ownedD [OF holds(2)]
  obtain w where w: "poll_view (ho_state h) (rg_slot g) = Some (rg_fd g, w, rg_token g)" using own(1) [OF assms(2)] by blast
  have same: "rg_slot g' = rg_slot g" if "ho_regs h y = Some g'" "rg_fd g' = rg_fd g" for y g'
    using own(1) [OF that(1)] w that(2) holds(1) unfolding poll_ok_def poll_view_def by auto
  have "poll_watch (rg_fd g) what tok (ho_state h) = (Inl Already_Watched, ho_state h)"
    using poll.watch_twice [OF holds(1) w, of what tok] by (auto simp: poll_watch_def split: if_splits prod.splits)
  moreover have "y = x" if "ho_regs h y = Some g'" "rg_slot g' = rg_slot g \<or> rg_fd g' = rg_fd g" for y g'
    using that same [OF that(1)] own(2) [OF that(1) assms(2)] by blast
  ultimately show ?thesis using w own(3) by blast
qed

theorem poll_registrations_witness:
  "poll_watch 5 Read 1 (snd (poll_watch 5 Write 9 new_table)) = (Inl Already_Watched, snd (poll_watch 5 Write 9 new_table))"
proof -
  let ?g = "\<lparr>rg_slot = 0, rg_fd = 5, rg_token = 9\<rparr>"
  let ?h = "\<lparr>ho_state = snd (poll_watch 5 Write 9 new_table), ho_regs = [0 \<mapsto> ?g]\<rparr>"
  have "poll_watch 5 Write 9 new_table = (Inr 0, snd (poll_watch 5 Write 9 new_table))"
    by (simp add: poll_watch_def watches_def new_table_def take_slot_def)
  from r_watch [of poll_new 0 poll_watch, unfolded poll_new_def, simplified, OF this]
  have "rstep poll_watch poll_unwatch poll_modify poll_new ?h" by (simp add: poll_new_def)
  then have "(rstep poll_watch poll_unwatch poll_modify)\<^sup>*\<^sup>* poll_new ?h" by blast
  from poll_registrations [OF this, of 0 ?g Read 1] show ?thesis by simp
qed

section \<open>What a wait reports\<close>

lemma poll_set_slots:
  "map snd (poll_set k sls) = map fst (filter (\<lambda>(i, sl). sl_live sl) (enumerate k sls))"
  by (induction k sls rule: poll_set.induct) auto

text \<open>The readiness of the first slots, in order, that have an event.\<close>

definition ready_slots :: "poll_slot list \<Rightarrow> revents list \<Rightarrow> readiness list" where
  "ready_slots sls res = map (\<lambda>(sl, re). to_ready (sl_token sl) re) (filter (\<lambda>(sl, re). \<not> quiet re) (zip (filter sl_live sls) res))"

lemma fill_ready_take:
  assumes "length out \<le> max_ready"
  shows "fill_ready sls ps out =
    take max_ready (out @ map (\<lambda>(i, re). to_ready (sl_token (sls ! i)) re) (filter (\<lambda>(i, re). \<not> quiet re) ps))"
  using assms by (induction sls ps out rule: fill_ready.induct) auto

lemma poll_set_tokens:
  "map (\<lambda>(i, re). f (sls ! (i - k)) re) (filter (\<lambda>(i, re). P re) (zip (map snd (poll_set k sls)) res))
   = map (\<lambda>(sl, re). f sl re) (filter (\<lambda>(sl, re). P re) (zip (filter sl_live sls) res))"
proof (induction k sls arbitrary: res rule: poll_set.induct)
  case (2 k sl sls)
  have shift: "map (\<lambda>(i, re). f ((sl # sls) ! (i - k)) re) (filter (\<lambda>(i, re). P re) (zip (map snd (poll_set (k + 1) sls)) rs))
    = map (\<lambda>(i, re). f (sls ! (i - (k + 1))) re) (filter (\<lambda>(i, re). P re) (zip (map snd (poll_set (k + 1) sls)) rs))" for rs
    by (rule map_cong) (auto dest!: set_zip_leftD simp: poll_set_slots in_set_enumerate_eq nth_Cons')
  show ?case
  proof (cases "sl_live sl")
    case True
    then show ?thesis using 2(2) shift by (cases res) auto
  next
    case False
    then show ?thesis using 2(1) shift by simp
  qed
qed simp

text \<open>A wait that does not fail or time out reports the events \<^verbatim>\<open>poll\<close> returned for the watched handles, each under
  the token of its registration, in slot order and at most sixteen of them; it reports a timeout exactly when
  nothing happened at all.\<close>

theorem poll_wait_reports:
  "poll_result t wake res =
     (if quiet wake \<and> list_all quiet res then \<lparr>wr_woken = False, wr_timeout = True, wr_ready = []\<rparr>
      else \<lparr>wr_woken = re_in wake, wr_timeout = False, wr_ready = take 16 (ready_slots (tb_slots t) res)\<rparr>)"
  using poll_set_tokens [of "\<lambda>sl. to_ready (sl_token sl)" "tb_slots t" 0 "\<lambda>re. \<not> quiet re" res]
  by (simp add: poll_result_def no_result_def fill_ready_take ready_slots_def max_ready_def)

section \<open>How long it waits\<close>

text \<open>An interrupted wait goes on with the time that is left: every timeout passed to \<^verbatim>\<open>poll\<close> is negative only for
  a wait without a deadline, never longer than the time left and exactly that when it fits an \<^verbatim>\<open>int\<close>; only
  the last call was not interrupted.\<close>

theorem poll_wait_timeouts:
  assumes "poll_wait timeout t answers = Some (cs, r)"
  shows "cs \<noteq> [] \<and> length cs \<le> length answers
    \<and> (\<forall>i < length cs. snd (answers ! i) = Interrupted \<longleftrightarrow> i + 1 < length cs)
    \<and> (\<forall>i < length cs. case timeout of None \<Rightarrow> cs ! i = -1
        | Some d \<Rightarrow> 0 \<le> cs ! i \<and> cs ! i \<le> max 0 (d - fst (answers ! i))
            \<and> (d - fst (answers ! i) \<le> int_max \<longrightarrow> cs ! i = max 0 (d - fst (answers ! i))))"
  using assms
proof (induction timeout t answers arbitrary: cs rule: poll_wait.induct)
  case (2 timeout t spent answer rest)
  have c: "case timeout of None \<Rightarrow> poll_timeout (time_left timeout spent) = -1
    | Some d \<Rightarrow> 0 \<le> poll_timeout (time_left timeout spent) \<and> poll_timeout (time_left timeout spent) \<le> max 0 (d - spent)
        \<and> (d - spent \<le> int_max \<longrightarrow> poll_timeout (time_left timeout spent) = max 0 (d - spent))"
    by (auto simp: poll_timeout_def time_left_def int_max_def split: option.splits)
  show ?case
  proof (cases "answer = Interrupted")
    case True
    then obtain cs' where cs': "poll_wait timeout t rest = Some (cs', r)" "cs = poll_timeout (time_left timeout spent) # cs'"
      using 2(2) by (auto simp: Let_def)
    from 2(1) [OF refl True cs'(1)] show ?thesis using c cs'(2) True by (auto simp: nth_Cons' All_less_Suc2 split: option.splits)
  next
    case False
    then have "cs = [poll_timeout (time_left timeout spent)]" using 2(2) by (auto simp: Let_def split: polled.splits)
    then show ?thesis using c False by (auto split: option.splits)
  qed
qed simp

theorem poll_wait_timeouts_witness:
  "poll_wait (Some 10) new_table [(0, Interrupted), (4, Failed 22)] = Some ([10, 6], Inl (Os_Error 22)) \<and> (6::int) \<le> max 0 (10 - 4)"
proof -
  have run: "poll_wait (Some 10) new_table [(0, Interrupted), (4, Failed 22)] = Some ([10, 6], Inl (Os_Error 22))"
    by (simp add: poll_timeout_def time_left_def int_max_def)
  with poll_wait_timeouts [OF run] show ?thesis by (auto dest: spec [of _ 1])
qed

end
