(* ===== verification/Epoll_Reactor.thy ===== *)
theory Epoll_Reactor
  imports Reactor
begin

text \<open>
  \<^verbatim>\<open>src/platform/linux/epoll_reactor.cpp\<close>. The epoll instance is the system's: its operations are parameters, and what the
  code relies on is \<open>epoll_laws\<close>, the documented effect of each on the interest list.
\<close>

section \<open>The system\<close>

record ep_event =
  ev_in :: bool
  ev_out :: bool
  ev_tag :: nat

text \<open>\<^verbatim>\<open>epoll_ctl\<close> with its three operations (the result is an error number, 0 for success; the reactor ignores the one of
  a deletion), and what closing a descriptor does to the instance.\<close>

record 'o epoll_ops =
  ep_add :: "int \<Rightarrow> ep_event \<Rightarrow> 'o \<Rightarrow> int \<times> 'o"
  ep_mod :: "int \<Rightarrow> ep_event \<Rightarrow> 'o \<Rightarrow> int \<times> 'o"
  ep_del :: "int \<Rightarrow> 'o \<Rightarrow> 'o"
  ep_close :: "int \<Rightarrow> 'o \<Rightarrow> 'o"

definition EEXIST :: int where
  "EEXIST = 17"

text \<open>\<open>lookup\<close> is the interest list. Adding fails with \<^verbatim>\<open>EEXIST\<close> exactly for a descriptor that is on it; a failure
  changes nothing; deleting and closing take the descriptor off.\<close>

definition epoll_laws :: "'o epoll_ops \<Rightarrow> ('o \<Rightarrow> int \<Rightarrow> ep_event option) \<Rightarrow> bool" where
  "epoll_laws ops lookup \<longleftrightarrow>
     (\<forall>fd ev os e os'. ep_add ops fd ev os = (e, os') \<longrightarrow>
        (lookup os fd \<noteq> None \<longleftrightarrow> e = EEXIST) \<and> lookup os' = (if e = 0 then (lookup os)(fd \<mapsto> ev) else lookup os))
     \<and> (\<forall>fd ev os e os'. ep_mod ops fd ev os = (e, os') \<longrightarrow> lookup os' = (if e = 0 then (lookup os)(fd \<mapsto> ev) else lookup os))
     \<and> (\<forall>fd os. lookup (ep_del ops fd os) = (lookup os)(fd := None) \<and> lookup (ep_close ops fd os) = (lookup os)(fd := None))"

lemma epoll_lawsD:
  assumes "epoll_laws ops lookup"
  shows "ep_add ops fd ev os = (e, os') \<Longrightarrow> lookup os fd \<noteq> None \<longleftrightarrow> e = EEXIST"
    and "ep_add ops fd ev os = (e, os') \<Longrightarrow> lookup os' = (if e = 0 then (lookup os)(fd \<mapsto> ev) else lookup os)"
    and "ep_mod ops fd ev os = (e, os') \<Longrightarrow> lookup os' = (if e = 0 then (lookup os)(fd \<mapsto> ev) else lookup os)"
    and "lookup (ep_del ops fd os) = (lookup os)(fd := None)"
  using assms unfolding epoll_laws_def by blast+

section \<open>The reactor\<close>

record 'o epoll_state =
  es_table :: "slot table"
  es_os :: 'o

definition no_slot :: slot where
  "no_slot = \<lparr>sl_fd = -1, sl_token = 0, sl_live = False\<rparr>"

definition event_of :: "interest \<Rightarrow> nat \<Rightarrow> ep_event" where
  "event_of what idx = \<lparr>ev_in = wants_read what, ev_out = wants_write what, ev_tag = idx + 1\<rparr>"

definition epoll_watch :: "'o epoll_ops \<Rightarrow> int \<Rightarrow> interest \<Rightarrow> 64 word \<Rightarrow> 'o epoll_state \<Rightarrow> (reactor_error + nat) \<times> 'o epoll_state" where
  "epoll_watch ops fd what tok s =
     (if fd < 0 then (Inl Bad_Handle, s)
      else (let (idx, t) = take_slot no_slot (es_table s);
                (e, os) = ep_add ops fd (event_of what idx) (es_os s) in
            if e \<noteq> 0
            then (Inl (if e = EEXIST then Already_Watched else Os_Error e),
                  s\<lparr>es_table := t\<lparr>tb_free := tb_free t @ [idx]\<rparr>, es_os := os\<rparr>)
            else (Inr idx, s\<lparr>es_table := set_slot idx \<lparr>sl_fd = fd, sl_token = tok, sl_live = True\<rparr> t, es_os := os\<rparr>)))"

definition epoll_unwatch :: "'o epoll_ops \<Rightarrow> nat \<Rightarrow> 'o epoll_state \<Rightarrow> 'o epoll_state" where
  "epoll_unwatch ops i s =
     (if \<not> is_live (es_table s) i then s
      else s\<lparr>es_os := ep_del ops (sl_fd (tb_slots (es_table s) ! i)) (es_os s), es_table := drop_slot i (es_table s)\<rparr>)"

definition epoll_modify :: "'o epoll_ops \<Rightarrow> nat \<Rightarrow> interest \<Rightarrow> 'o epoll_state \<Rightarrow> reactor_error option \<times> 'o epoll_state" where
  "epoll_modify ops i what s =
     (if \<not> is_live (es_table s) i then (Some Empty_Registration, s)
      else (case ep_mod ops (sl_fd (tb_slots (es_table s) ! i)) (event_of what i) (es_os s) of
              (e, os) \<Rightarrow> (if e \<noteq> 0 then Some (Os_Error e) else None, s\<lparr>es_os := os\<rparr>)))"

definition epoll_watched :: "'o epoll_state \<Rightarrow> nat" where
  "epoll_watched s = live_slots (es_table s)"

text \<open>One event \<^verbatim>\<open>epoll_wait\<close> returns.\<close>

record ep_ready =
  er_tag :: nat
  er_in :: bool
  er_out :: bool
  er_hup :: bool
  er_err :: bool

text \<open>The loop over the events that were returned; no event is a timeout.\<close>

fun epoll_fill :: "slot list \<Rightarrow> ep_ready list \<Rightarrow> wait_result \<Rightarrow> wait_result" where
  "epoll_fill sls [] out = out"
| "epoll_fill sls (e # es) out =
     (if er_tag e = 0 then epoll_fill sls es (out\<lparr>wr_woken := True\<rparr>)
      else if er_tag e - 1 \<ge> length sls \<or> \<not> sl_live (sls ! (er_tag e - 1)) then epoll_fill sls es out
      else if length (wr_ready out) \<ge> max_ready then epoll_fill sls es out
      else epoll_fill sls es (out\<lparr>wr_ready := wr_ready out @
             [\<lparr>rd_token = sl_token (sls ! (er_tag e - 1)), rd_readable = er_in e, rd_writable = er_out e,
               rd_hangup = er_hup e, rd_error = er_err e\<rparr>]\<rparr>))"

definition epoll_result :: "'o epoll_state \<Rightarrow> ep_ready list \<Rightarrow> wait_result" where
  "epoll_result s es = (if es = [] then no_result\<lparr>wr_timeout := True\<rparr> else epoll_fill (tb_slots (es_table s)) es no_result)"

section \<open>The reactor is one\<close>

definition interest_of :: "ep_event \<Rightarrow> interest" where
  "interest_of ev = (if ev_in ev then if ev_out ev then Read_Write else Read else Write)"

lemma interest_of_event [simp]: "interest_of (event_of what i) = what" "ev_tag (event_of what i) = i + 1"
  by (cases what) (simp_all add: interest_of_def event_of_def)

definition epoll_view :: "('o \<Rightarrow> int \<Rightarrow> ep_event option) \<Rightarrow> 'o epoll_state \<Rightarrow> slot_view" where
  "epoll_view lookup s i = (case slot_at (es_table s) i of None \<Rightarrow> None
     | Some sl \<Rightarrow> map_option (\<lambda>ev. (sl_fd sl, interest_of ev, sl_token sl)) (lookup (es_os s) (sl_fd sl)))"

text \<open>Every live slot's descriptor is on the interest list under the slot's own tag.\<close>

definition epoll_ok :: "('o \<Rightarrow> int \<Rightarrow> ep_event option) \<Rightarrow> 'o epoll_state \<Rightarrow> bool" where
  "epoll_ok lookup s \<longleftrightarrow> table_ok (es_table s)
     \<and> (\<forall>i sl. slot_at (es_table s) i = Some sl \<longrightarrow>
          0 \<le> sl_fd sl \<and> (\<exists>ev. lookup (es_os s) (sl_fd sl) = Some ev \<and> ev_tag ev = i + 1))"

lemma epoll_okD:
  assumes "epoll_ok lookup s" "slot_at (es_table s) i = Some sl"
  shows "0 \<le> sl_fd sl" "\<exists>ev. lookup (es_os s) (sl_fd sl) = Some ev \<and> ev_tag ev = i + 1"
  using assms unfolding epoll_ok_def by blast+

lemma epoll_fd_inj:
  assumes "epoll_ok lookup s" "slot_at (es_table s) i = Some sl" "slot_at (es_table s) j = Some sl'" "sl_fd sl = sl_fd sl'"
  shows "i = j"
  using epoll_okD(2) [OF assms(1,2)] epoll_okD(2) [OF assms(1,3)] assms(4) by auto

lemma put_back:
  assumes "table_ok t" "take_slot d t = (i, t1)" "\<not> sl_live d"
  shows "table_ok (t1\<lparr>tb_free := tb_free t1 @ [i]\<rparr>)" "slot_at (t1\<lparr>tb_free := tb_free t1 @ [i]\<rparr>) = slot_at t"
proof -
  show "table_ok (t1\<lparr>tb_free := tb_free t1 @ [i]\<rparr>)"
  proof (cases "tb_free t = []")
    case True
    then show ?thesis using assms by (auto simp: take_slot_def table_ok_def nth_append less_Suc_eq split: if_splits)
  next
    case False
    then have "t1 = t\<lparr>tb_free := butlast (tb_free t)\<rparr>" "i = last (tb_free t)" using assms(2) by (auto simp: take_slot_def)
    then show ?thesis using assms(1) append_butlast_last_id [OF False] by simp
  qed
  show "slot_at (t1\<lparr>tb_free := tb_free t1 @ [i]\<rparr>) = slot_at t"
    using assms(2,3) by (auto simp: take_slot_def slot_at_def is_live_def fun_eq_iff nth_append split: if_splits)
qed

lemma epoll_watch_new:
  assumes laws: "epoll_laws ops lookup" and ok: "epoll_ok lookup s" and w: "epoll_watch ops fd what tok s = (Inr i, s')"
  shows "epoll_ok lookup s' \<and> epoll_view lookup s i = None \<and> epoll_view lookup s' = (epoll_view lookup s)(i \<mapsto> (fd, what, tok))"
proof -
  let ?x = "\<lparr>sl_fd = fd, sl_token = tok, sl_live = True\<rparr>"
  obtain t os where t: "take_slot no_slot (es_table s) = (i, t)" "ep_add ops fd (event_of what i) (es_os s) = (0, os)"
    "es_table s' = set_slot i ?x t" "es_os s' = os" "0 \<le> fd"
    using w by (auto simp: epoll_watch_def Let_def split: if_splits prod.splits)
  have "table_ok (es_table s)" using ok by (simp add: epoll_ok_def)
  note put = take_set_slot [OF this t(1), of ?x, simplified, folded t(3)]
  have os: "lookup (es_os s) fd = None" "lookup os = (lookup (es_os s))(fd \<mapsto> event_of what i)"
    using epoll_lawsD(1,2) [OF laws t(2)] by (simp_all add: EEXIST_def)
  have other: "sl_fd sl \<noteq> fd" if "slot_at (es_table s) j = Some sl" for j sl
    using epoll_okD(2) [OF ok that] os(1) by auto
  have "epoll_ok lookup s'" unfolding epoll_ok_def
  proof (intro conjI allI impI)
    fix j sl assume j: "slot_at (es_table s') j = Some sl"
    have "0 \<le> sl_fd sl \<and> (\<exists>ev. lookup (es_os s') (sl_fd sl) = Some ev \<and> ev_tag ev = j + 1)"
    proof (cases "j = i")
      case True
      then have "sl = ?x" using j put(3) by simp
      then show ?thesis using True t(4,5) os(2) by simp
    next
      case False
      then have "slot_at (es_table s) j = Some sl" using j put(3) by simp
      then show ?thesis using epoll_okD [OF ok] other t(4) os(2) by simp
    qed
    then show "0 \<le> sl_fd sl" "\<exists>ev. lookup (es_os s') (sl_fd sl) = Some ev \<and> ev_tag ev = j + 1" by blast+
  qed (rule put(1))
  then show ?thesis using put os t(4) other by (auto simp: epoll_view_def fun_eq_iff split: option.splits)
qed

lemma epoll_watch_refused:
  assumes laws: "epoll_laws ops lookup" and ok: "epoll_ok lookup s" and w: "epoll_watch ops fd what tok s = (Inl e, s')"
  shows "epoll_ok lookup s' \<and> epoll_view lookup s' = epoll_view lookup s"
proof (cases "fd < 0")
  case True
  then show ?thesis using w ok by (simp add: epoll_watch_def)
next
  case False
  obtain i t where t: "take_slot no_slot (es_table s) = (i, t)" by fastforce
  obtain c os where c: "ep_add ops fd (event_of what i) (es_os s) = (c, os)" by fastforce
  have s': "c \<noteq> 0" "s' = s\<lparr>es_table := t\<lparr>tb_free := tb_free t @ [i]\<rparr>, es_os := os\<rparr>"
    using w False t c by (auto simp: epoll_watch_def split: if_splits)
  have "lookup os = lookup (es_os s)" using epoll_lawsD(2) [OF laws c] s'(1) by simp
  moreover have "table_ok (es_table s)" using ok by (simp add: epoll_ok_def)
  note put_back [OF this t]
  ultimately show ?thesis using ok s'(2) by (auto simp: epoll_ok_def epoll_view_def no_slot_def fun_eq_iff split: option.splits)
qed

lemma epoll_unwatch_view:
  assumes laws: "epoll_laws ops lookup" and ok: "epoll_ok lookup s"
  shows "epoll_ok lookup (epoll_unwatch ops i s) \<and> epoll_view lookup (epoll_unwatch ops i s) = (epoll_view lookup s)(i := None)"
proof (cases "is_live (es_table s) i")
  case False
  then show ?thesis using ok by (auto simp: epoll_unwatch_def epoll_view_def slot_at_def fun_eq_iff)
next
  case True
  define sl where "sl = tb_slots (es_table s) ! i"
  have sl: "slot_at (es_table s) i = Some sl" using True by (simp add: sl_def slot_at_def)
  have s': "es_table (epoll_unwatch ops i s) = drop_slot i (es_table s)" "lookup (es_os (epoll_unwatch ops i s)) = (lookup (es_os s))(sl_fd sl := None)"
    using True epoll_lawsD(4) [OF laws] by (simp_all add: epoll_unwatch_def sl_def)
  have other: "sl_fd sl' \<noteq> sl_fd sl" if "slot_at (es_table s) j = Some sl'" "j \<noteq> i" for j sl'
    using epoll_fd_inj [OF ok that(1) sl] that(2) by blast
  have "epoll_ok lookup (epoll_unwatch ops i s)" unfolding epoll_ok_def
  proof (intro conjI allI impI)
    fix j sl' assume "slot_at (es_table (epoll_unwatch ops i s)) j = Some sl'"
    then have j: "slot_at (es_table s) j = Some sl'" "j \<noteq> i" using s'(1) by (auto simp: drop_slot_at split: if_splits)
    show "0 \<le> sl_fd sl'" "\<exists>ev. lookup (es_os (epoll_unwatch ops i s)) (sl_fd sl') = Some ev \<and> ev_tag ev = j + 1"
      using epoll_okD [OF ok j(1)] other [OF j] s'(2) by simp_all
  qed (use ok s'(1) in \<open>simp add: epoll_ok_def drop_slot_ok\<close>)
  moreover have "epoll_view lookup (epoll_unwatch ops i s) j = ((epoll_view lookup s)(i := None)) j" for j
    using s' other by (cases "slot_at (es_table s) j") (auto simp: epoll_view_def drop_slot_at)
  ultimately show ?thesis by (simp add: fun_eq_iff)
qed

lemma epoll_modify_view:
  assumes laws: "epoll_laws ops lookup" and ok: "epoll_ok lookup s" and v: "epoll_view lookup s i = Some (fd, w, tok)"
    and m: "epoll_modify ops i what s = (r, s')"
  shows "epoll_ok lookup s' \<and> epoll_view lookup s' = (if r = None then (epoll_view lookup s)(i \<mapsto> (fd, what, tok)) else epoll_view lookup s)"
proof -
  obtain sl where sl: "slot_at (es_table s) i = Some sl" "fd = sl_fd sl" "tok = sl_token sl"
    using v by (auto simp: epoll_view_def split: option.splits)
  then have live: "is_live (es_table s) i" "tb_slots (es_table s) ! i = sl" using slot_at_Some by blast+
  obtain e os where e: "ep_mod ops fd (event_of what i) (es_os s) = (e, os)" by fastforce
  have s': "es_table s' = es_table s" "es_os s' = os" "r = None \<longleftrightarrow> e = 0" using m live sl(2) e by (auto simp: epoll_modify_def split: if_splits)
  have lk: "lookup os = (if e = 0 then (lookup (es_os s))(fd \<mapsto> event_of what i) else lookup (es_os s))"
    using epoll_lawsD(3) [OF laws e] .
  have other: "sl_fd sl' \<noteq> fd" if "slot_at (es_table s) j = Some sl'" "j \<noteq> i" for j sl'
    using epoll_fd_inj [OF ok that(1) sl(1)] sl(2) that(2) by blast
  have "epoll_ok lookup s'" unfolding epoll_ok_def s'(1,2)
  proof (intro conjI allI impI)
    fix j sl' assume j: "slot_at (es_table s) j = Some sl'"
    show "0 \<le> sl_fd sl'" "\<exists>ev. lookup os (sl_fd sl') = Some ev \<and> ev_tag ev = j + 1"
      using epoll_okD [OF ok j] other [OF j] j sl lk by (cases "j = i"; auto)+
  qed (use ok in \<open>simp add: epoll_ok_def\<close>)
  moreover have "epoll_view lookup s' j = (if r = None then (epoll_view lookup s)(i \<mapsto> (fd, what, tok)) else epoll_view lookup s) j" for j
    using s' lk other sl by (cases "slot_at (es_table s) j") (auto simp: epoll_view_def)
  ultimately show ?thesis by (simp add: fun_eq_iff)
qed

lemma epoll_watch_twice:
  assumes laws: "epoll_laws ops lookup" and ok: "epoll_ok lookup s" and v: "epoll_view lookup s i = Some (fd, w, t)"
  shows "fst (epoll_watch ops fd what tok s) = Inl Already_Watched"
proof -
  obtain sl where "slot_at (es_table s) i = Some sl" "sl_fd sl = fd" using v by (auto simp: epoll_view_def split: option.splits)
  then have fd: "0 \<le> fd" "lookup (es_os s) fd \<noteq> None" using epoll_okD [OF ok] by fastforce+
  obtain k tb where k: "take_slot no_slot (es_table s) = (k, tb)" by fastforce
  obtain e os where e: "ep_add ops fd (event_of what k) (es_os s) = (e, os)" by fastforce
  then have "e = EEXIST" using epoll_lawsD(1) [OF laws e] fd(2) by blast
  then show ?thesis using fd(1) k e by (simp add: epoll_watch_def EEXIST_def)
qed

text \<open>Over any system that keeps the laws, the reactor fulfils the contract.\<close>

lemma epoll_reactor: "epoll_laws ops lookup \<Longrightarrow>
    reactor (epoll_ok lookup) (epoll_view lookup) (epoll_watch ops) (epoll_unwatch ops) (epoll_modify ops)"
  by (rule reactor.intro)
    (rule epoll_watch_new epoll_watch_refused epoll_watch_twice epoll_unwatch_view epoll_modify_view; assumption)+

definition epoll_new :: "'o \<Rightarrow> 'o epoll_state holder" where
  "epoll_new os = \<lparr>ho_state = \<lparr>es_table = new_table, es_os = os\<rparr>, ho_regs = \<lambda>_. None\<rparr>"

text \<open>Over any system that keeps the documented laws, the epoll reactor treats registrations as the reference
  does: each one held names its own slot under its token, its descriptor is on the interest list with the
  slot's tag, and watching a watched descriptor is refused.\<close>

theorem epoll_registrations:
  assumes "epoll_laws ops lookup" "(rstep (epoll_watch ops) (epoll_unwatch ops) (epoll_modify ops))\<^sup>*\<^sup>* (epoll_new os) h"
    "ho_regs h x = Some g"
  shows "(\<exists>what. epoll_view lookup (ho_state h) (rg_slot g) = Some (rg_fd g, what, rg_token g))
    \<and> (\<exists>ev. lookup (es_os (ho_state h)) (rg_fd g) = Some ev \<and> ev_tag ev = rg_slot g + 1)
    \<and> (\<forall>y g'. ho_regs h y = Some g' \<longrightarrow> rg_slot g' = rg_slot g \<or> rg_fd g' = rg_fd g \<longrightarrow> y = x)
    \<and> fst (epoll_watch ops (rg_fd g) what tok (ho_state h)) = Inl Already_Watched"
proof -
  note r = epoll_reactor [OF assms(1)]
  have "reactor.holds (epoll_ok lookup) (epoll_view lookup) (epoll_new os)"
    by (simp add: reactor.holds_def [OF r] epoll_new_def epoll_ok_def epoll_view_def owned_def)
  from reactor.holds_reach [OF r assms(2) this]
  have holds: "epoll_ok lookup (ho_state h)" "owned (ho_regs h) (epoll_view lookup (ho_state h))"
    by (simp_all add: reactor.holds_def [OF r])
  note own = ownedD [OF holds(2)]
  have slot: "\<exists>w sl. slot_at (es_table (ho_state h)) (rg_slot g') = Some sl \<and> sl_fd sl = rg_fd g'
      \<and> epoll_view lookup (ho_state h) (rg_slot g') = Some (rg_fd g', w, rg_token g')" if "ho_regs h y = Some g'" for y g'
    using own(1) [OF that] by (auto simp: epoll_view_def split: option.splits)
  obtain w sl where sl: "slot_at (es_table (ho_state h)) (rg_slot g) = Some sl" "sl_fd sl = rg_fd g"
    "epoll_view lookup (ho_state h) (rg_slot g) = Some (rg_fd g, w, rg_token g)" using slot [OF assms(3)] by blast
  have "y = x" if y: "ho_regs h y = Some g'" "rg_slot g' = rg_slot g \<or> rg_fd g' = rg_fd g" for y g'
    using slot [OF y(1)] sl epoll_fd_inj [OF holds(1) _ sl(1)] own(2) [OF y(1) assms(3)] y(2) by metis
  then show ?thesis
    using sl epoll_okD(2) [OF holds(1) sl(1)] epoll_watch_twice [OF assms(1) holds(1) sl(3)] by auto
qed

text \<open>A registration that outlives its descriptor takes another one's watch away. When the owner closes a watched
  descriptor and the system gives the same number to a new one, the new one can be watched; dropping the old
  registration then removes it from the interest list, although its own registration still holds it.\<close>

theorem epoll_reused_descriptor:
  assumes "epoll_laws ops lookup" "epoll_ok lookup s" "slot_at (es_table s) i = Some sl"
    "epoll_watch ops (sl_fd sl) what tok (s\<lparr>es_os := ep_close ops (sl_fd sl) (es_os s)\<rparr>) = (Inr j, s')"
  shows "j \<noteq> i \<and> is_live (es_table (epoll_unwatch ops i s')) j \<and> sl_fd (tb_slots (es_table (epoll_unwatch ops i s')) ! j) = sl_fd sl
    \<and> lookup (es_os (epoll_unwatch ops i s')) (sl_fd sl) = None"
proof -
  let ?x = "\<lparr>sl_fd = sl_fd sl, sl_token = tok, sl_live = True\<rparr>"
  obtain t os where t: "take_slot no_slot (es_table s) = (j, t)" "es_table s' = set_slot j ?x t" "es_os s' = os"
    using assms(4) by (auto simp: epoll_watch_def Let_def split: if_splits prod.splits)
  have "table_ok (es_table s)" using assms(2) by (simp add: epoll_ok_def)
  note put = take_set_slot [OF this t(1), of ?x, simplified, folded t(2)]
  have ji: "j \<noteq> i" using put(2) assms(3) by auto
  then have i: "slot_at (es_table s') i = Some sl" using put(3) assms(3) by simp
  then have un: "es_table (epoll_unwatch ops i s') = drop_slot i (es_table s')"
    "lookup (es_os (epoll_unwatch ops i s')) = (lookup os)(sl_fd sl := None)"
    using slot_at_Some [OF i] epoll_lawsD(4) [OF assms(1)] t(3) by (simp_all add: epoll_unwatch_def)
  have "slot_at (drop_slot i (es_table s')) j = Some ?x" using put(3) ji by (simp add: drop_slot_at)
  from slot_at_Some [OF this] show ?thesis using ji un by auto
qed

text \<open>A system that keeps the laws: the interest list itself.\<close>

definition map_ops :: "(int \<rightharpoonup> ep_event) epoll_ops" where
  "map_ops = \<lparr>ep_add = \<lambda>fd ev m. (case m fd of None \<Rightarrow> (0, m(fd \<mapsto> ev)) | Some _ \<Rightarrow> (EEXIST, m)),
     ep_mod = \<lambda>fd ev m. (case m fd of None \<Rightarrow> (2, m) | Some _ \<Rightarrow> (0, m(fd \<mapsto> ev))),
     ep_del = \<lambda>fd m. m(fd := None), ep_close = \<lambda>fd m. m(fd := None)\<rparr>"

lemma map_ops_laws: "epoll_laws map_ops (\<lambda>m. m)"
  by (auto simp: epoll_laws_def map_ops_def EEXIST_def split: option.splits)

definition one_watched :: "(int \<rightharpoonup> ep_event) epoll_state" where
  "one_watched = snd (epoll_watch map_ops 5 Read 9 \<lparr>es_table = new_table, es_os = (\<lambda>_. None)\<rparr>)"

lemma one_watched_eq: "one_watched = \<lparr>es_table = \<lparr>tb_slots = [\<lparr>sl_fd = 5, sl_token = 9, sl_live = True\<rparr>], tb_free = []\<rparr>, es_os = [5 \<mapsto> event_of Read 0]\<rparr>"
  by (simp add: one_watched_def epoll_watch_def map_ops_def new_table_def take_slot_def set_slot_def)

theorem epoll_registrations_witness: "fst (epoll_watch map_ops 5 Write 1 one_watched) = Inl Already_Watched"
proof -
  let ?g = "\<lparr>rg_slot = 0, rg_fd = 5, rg_token = 9\<rparr>"
  let ?h = "\<lparr>ho_state = one_watched, ho_regs = [0 \<mapsto> ?g]\<rparr>"
  have "epoll_watch map_ops 5 Read 9 \<lparr>es_table = new_table, es_os = (\<lambda>_. None)\<rparr> = (Inr 0, one_watched)"
    by (simp add: one_watched_eq epoll_watch_def map_ops_def new_table_def take_slot_def set_slot_def)
  from r_watch [of "epoll_new (\<lambda>_. None)" 0 "epoll_watch map_ops", unfolded epoll_new_def, simplified, OF this]
  have "rstep (epoll_watch map_ops) (epoll_unwatch map_ops) (epoll_modify map_ops) (epoll_new (\<lambda>_. None)) ?h" by (simp add: epoll_new_def)
  then have "(rstep (epoll_watch map_ops) (epoll_unwatch map_ops) (epoll_modify map_ops))\<^sup>*\<^sup>* (epoll_new (\<lambda>_. None)) ?h" by blast
  from epoll_registrations [OF map_ops_laws this, of 0 ?g Write 1] show ?thesis by simp
qed

theorem epoll_reused_descriptor_witness:
  "es_os (epoll_unwatch map_ops 0 (snd (epoll_watch map_ops 5 Read 4 (one_watched\<lparr>es_os := (\<lambda>_. None)\<rparr>)))) 5 = None"
proof -
  have ok: "epoll_ok (\<lambda>m. m) one_watched"
    by (auto simp: one_watched_eq epoll_ok_def table_ok_def slot_at_def is_live_def nth_Cons' split: if_splits)
  have sl: "slot_at (es_table one_watched) 0 = Some \<lparr>sl_fd = 5, sl_token = 9, sl_live = True\<rparr>"
    by (simp add: one_watched_eq slot_at_def is_live_def)
  let ?s = "one_watched\<lparr>es_os := ep_close map_ops 5 (es_os one_watched)\<rparr>"
  have "?s = one_watched\<lparr>es_os := (\<lambda>_. None)\<rparr>" by (auto simp: one_watched_eq map_ops_def)
  moreover have "epoll_watch map_ops 5 Read 4 ?s = (Inr 1, snd (epoll_watch map_ops 5 Read 4 ?s))"
    by (simp add: one_watched_eq epoll_watch_def map_ops_def take_slot_def)
  ultimately show ?thesis using epoll_reused_descriptor [OF map_ops_laws ok sl, of Read 4 1] by simp
qed

section \<open>What a wait reports\<close>

text \<open>The readiness an event stands for, when its tag is a live slot's.\<close>

definition event_ready :: "slot list \<Rightarrow> ep_ready \<Rightarrow> readiness" where
  "event_ready sls e = \<lparr>rd_token = sl_token (sls ! (er_tag e - 1)), rd_readable = er_in e, rd_writable = er_out e,
     rd_hangup = er_hup e, rd_error = er_err e\<rparr>"

definition event_live :: "slot list \<Rightarrow> ep_ready \<Rightarrow> bool" where
  "event_live sls e \<longleftrightarrow> er_tag e \<noteq> 0 \<and> er_tag e - 1 < length sls \<and> sl_live (sls ! (er_tag e - 1))"

lemma epoll_fill_take:
  assumes "length (wr_ready out) \<le> max_ready"
  shows "epoll_fill sls es out = out\<lparr>wr_woken := wr_woken out \<or> (\<exists>e \<in> set es. er_tag e = 0),
    wr_ready := take max_ready (wr_ready out @ map (event_ready sls) (filter (event_live sls) es))\<rparr>"
  using assms by (induction sls es out rule: epoll_fill.induct) (auto simp: event_ready_def event_live_def)

text \<open>A wait reports every event of a live slot, in the order the system returned them and at most sixteen, under
  the token of the registration whose descriptor it is; a wake when the waker's event is among them; and a
  timeout exactly when there is none.\<close>

theorem epoll_wait_reports:
  assumes "epoll_ok lookup s" "slot_at (es_table s) i = Some sl" "lookup (es_os s) (sl_fd sl) = Some ev"
    "er_tag e = ev_tag ev"
  shows "epoll_result s (e # es) = \<lparr>wr_woken = (\<exists>e \<in> set es. er_tag e = 0), wr_timeout = False,
      wr_ready = take 16 (event_ready (tb_slots (es_table s)) e # map (event_ready (tb_slots (es_table s))) (filter (event_live (tb_slots (es_table s))) es))\<rparr>
    \<and> rd_token (event_ready (tb_slots (es_table s)) e) = sl_token sl \<and> epoll_result s [] = \<lparr>wr_woken = False, wr_timeout = True, wr_ready = []\<rparr>"
proof -
  have "er_tag e = i + 1" using epoll_okD(2) [OF assms(1,2)] assms(3,4) by auto
  then have "event_live (tb_slots (es_table s)) e" "rd_token (event_ready (tb_slots (es_table s)) e) = sl_token sl" "er_tag e \<noteq> 0"
    using slot_at_Some [OF assms(2)] by (auto simp: event_live_def event_ready_def is_live_def)
  then show ?thesis by (simp add: epoll_result_def epoll_fill_take no_result_def max_ready_def del: epoll_fill.simps)
qed

theorem epoll_wait_reports_witness:
  "wr_ready (epoll_result one_watched [\<lparr>er_tag = 1, er_in = True, er_out = False, er_hup = False, er_err = False\<rparr>])
   = [\<lparr>rd_token = 9, rd_readable = True, rd_writable = False, rd_hangup = False, rd_error = False\<rparr>]"
proof -
  let ?e = "\<lparr>er_tag = 1, er_in = True, er_out = False, er_hup = False, er_err = False\<rparr>"
  have ok: "epoll_ok (\<lambda>m. m) one_watched"
    by (auto simp: one_watched_eq epoll_ok_def table_ok_def slot_at_def is_live_def nth_Cons' split: if_splits)
  have "slot_at (es_table one_watched) 0 = Some \<lparr>sl_fd = 5, sl_token = 9, sl_live = True\<rparr>"
    by (simp add: one_watched_eq slot_at_def is_live_def)
  from epoll_wait_reports [OF ok this, of "event_of Read 0" ?e "[]"] show ?thesis
    by (simp add: one_watched_eq event_ready_def)
qed

end
