(* ===== verification/Kqueue_Reactor.thy ===== *)
theory Kqueue_Reactor
  imports Reactor
begin

text \<open>
  \<^verbatim>\<open>src/platform/darwin/kqueue_reactor.cpp\<close>. One change of the kernel queue is a parameter (an error number, 0 for
  success, and the queue afterwards); \<^verbatim>\<open>kevent\<close> with no room for events applies its changes in order and stops at
  the first that fails.
\<close>

datatype kfilter = KRead | KWrite
datatype kchange = KAdd int kfilter nat | KDelete int kfilter

type_synonym 'o kq_change = "kchange \<Rightarrow> 'o \<Rightarrow> int \<times> 'o"

fun kevent :: "'o kq_change \<Rightarrow> kchange list \<Rightarrow> 'o \<Rightarrow> int \<times> 'o" where
  "kevent change [] os = (0, os)"
| "kevent change (c # cs) os = (case change c os of (e, os1) \<Rightarrow> if e \<noteq> 0 then (e, os1) else kevent change cs os1)"

text \<open>The filters of the queue: adding and deleting do what they say when they succeed and nothing otherwise.\<close>

definition kq_laws :: "'o kq_change \<Rightarrow> ('o \<Rightarrow> int \<times> kfilter \<Rightarrow> nat option) \<Rightarrow> bool" where
  "kq_laws change filters \<longleftrightarrow>
     (\<forall>fd f u os e os'. change (KAdd fd f u) os = (e, os') \<longrightarrow>
        filters os' = (if e = 0 then (filters os)((fd, f) \<mapsto> u) else filters os))
     \<and> (\<forall>fd f os e os'. change (KDelete fd f) os = (e, os') \<longrightarrow>
        filters os' = (if e = 0 then (filters os)((fd, f) := None) else filters os))"

lemma kq_add_law:
  "kq_laws change filters \<Longrightarrow> change (KAdd fd f u) os = (e, os') \<Longrightarrow>
   filters os' = (if e = 0 then (filters os)((fd, f) \<mapsto> u) else filters os)"
  unfolding kq_laws_def by blast

record kq_slot = slot +
  ks_what :: interest

record 'o kq_state =
  kq_table :: "kq_slot table"
  kq_os :: 'o

definition no_kq_slot :: kq_slot where
  "no_kq_slot = \<lparr>sl_fd = 0, sl_token = 0, sl_live = False, ks_what = Read\<rparr>"

definition adds :: "int \<Rightarrow> nat \<Rightarrow> bool \<Rightarrow> bool \<Rightarrow> kchange list" where
  "adds fd idx r w = (if r then [KAdd fd KRead (idx + 1)] else []) @ (if w then [KAdd fd KWrite (idx + 1)] else [])"

definition deletes :: "int \<Rightarrow> bool \<Rightarrow> bool \<Rightarrow> kchange list" where
  "deletes fd r w = (if r then [KDelete fd KRead] else []) @ (if w then [KDelete fd KWrite] else [])"

definition kq_watch :: "'o kq_change \<Rightarrow> int \<Rightarrow> interest \<Rightarrow> 64 word \<Rightarrow> 'o kq_state \<Rightarrow> (reactor_error + nat) \<times> 'o kq_state" where
  "kq_watch change fd what tok s =
     (if fd < 0 then (Inl Bad_Handle, s)
      else if watches fd (kq_table s) then (Inl Already_Watched, s)
      else (let (idx, t) = take_slot no_kq_slot (kq_table s);
                (e, os) = kevent change (adds fd idx (wants_read what) (wants_write what)) (kq_os s) in
            if e \<noteq> 0 then (Inl (Os_Error e), s\<lparr>kq_table := t\<lparr>tb_free := tb_free t @ [idx]\<rparr>, kq_os := os\<rparr>)
            else (Inr idx, s\<lparr>kq_table := set_slot idx \<lparr>sl_fd = fd, sl_token = tok, sl_live = True, ks_what = what\<rparr> t, kq_os := os\<rparr>)))"

definition kq_unwatch :: "'o kq_change \<Rightarrow> nat \<Rightarrow> 'o kq_state \<Rightarrow> 'o kq_state" where
  "kq_unwatch change i s =
     (if \<not> is_live (kq_table s) i then s
      else (let sl = tb_slots (kq_table s) ! i
            in s\<lparr>kq_os := snd (kevent change (deletes (sl_fd sl) (wants_read (ks_what sl)) (wants_write (ks_what sl))) (kq_os s)),
                 kq_table := drop_slot i (kq_table s)\<rparr>))"

definition kq_modify :: "'o kq_change \<Rightarrow> nat \<Rightarrow> interest \<Rightarrow> 'o kq_state \<Rightarrow> reactor_error option \<times> 'o kq_state" where
  "kq_modify change i what s =
     (if \<not> is_live (kq_table s) i then (Some Empty_Registration, s)
      else (let sl = tb_slots (kq_table s) ! i; old = ks_what sl in
        if old = what then (None, s)
        else (let os1 = snd (kevent change (deletes (sl_fd sl) (wants_read old \<and> \<not> wants_read what) (wants_write old \<and> \<not> wants_write what)) (kq_os s));
                  (e, os2) = kevent change (adds (sl_fd sl) i (\<not> wants_read old \<and> wants_read what) (\<not> wants_write old \<and> wants_write what)) os1
              in if e \<noteq> 0 then (Some (Os_Error e), s\<lparr>kq_os := os2\<rparr>)
                 else (None, s\<lparr>kq_os := os2, kq_table := set_slot i (sl\<lparr>ks_what := what\<rparr>) (kq_table s)\<rparr>))))"

section \<open>Waiting\<close>

text \<open>An event: the waker's, or a filter's with the slot it was added for.\<close>

datatype kq_event = User | Event kfilter nat bool bool

definition add_event :: "kfilter \<Rightarrow> bool \<Rightarrow> bool \<Rightarrow> readiness \<Rightarrow> readiness" where
  "add_event f eof err rd = rd\<lparr>rd_readable := rd_readable rd \<or> f = KRead, rd_writable := rd_writable rd \<or> f = KWrite,
     rd_hangup := rd_hangup rd \<or> eof, rd_error := rd_error rd \<or> err\<rparr>"

text \<open>The last entry with this token.\<close>

definition last_entry :: "64 word \<Rightarrow> readiness list \<Rightarrow> nat option" where
  "last_entry tok out = (case filter (\<lambda>k. rd_token (out ! k) = tok) [0..<length out] of [] \<Rightarrow> None | ks \<Rightarrow> Some (last ks))"

fun kq_fill :: "kq_slot list \<Rightarrow> kq_event list \<Rightarrow> wait_result \<Rightarrow> wait_result" where
  "kq_fill sls [] out = out"
| "kq_fill sls (User # es) out = kq_fill sls es (out\<lparr>wr_woken := True\<rparr>)"
| "kq_fill sls (Event f udata eof err # es) out =
     (let idx = udata - 1 in
      if idx \<ge> length sls \<or> \<not> sl_live (sls ! idx) then kq_fill sls es out
      else (case last_entry (sl_token (sls ! idx)) (wr_ready out) of
              Some k \<Rightarrow> kq_fill sls es (out\<lparr>wr_ready := (wr_ready out)[k := add_event f eof err (wr_ready out ! k)]\<rparr>)
            | None \<Rightarrow> if length (wr_ready out) \<ge> max_ready then kq_fill sls es out
                else kq_fill sls es (out\<lparr>wr_ready := wr_ready out @ [add_event f eof err
                       \<lparr>rd_token = sl_token (sls ! idx), rd_readable = False, rd_writable = False, rd_hangup = False, rd_error = False\<rparr>]\<rparr>)))"

definition max_chunk_ms :: int where
  "max_chunk_ms = 24 * 60 * 60 * 1000"

text \<open>The seconds and nanoseconds of one wait, or no limit.\<close>

definition to_timespec :: "int option \<Rightarrow> (int \<times> int) option" where
  "to_timespec t = map_option (\<lambda>c. let c1 = (if c < 0 then 0 else c); c2 = (if c1 > max_chunk_ms then max_chunk_ms else c1)
     in (c2 div 1000, (c2 mod 1000) * 1000000)) t"

datatype kq_answer = KInterrupted | KFailed int | KEvents "kq_event list"

fun kq_wait :: "int option \<Rightarrow> kq_slot list \<Rightarrow> (int \<times> kq_answer) list \<Rightarrow> ((int \<times> int) option list \<times> (reactor_error + wait_result)) option" where
  "kq_wait timeout sls [] = None"
| "kq_wait timeout sls ((spent, answer) # rest) =
     (let left = map_option (\<lambda>t. if t > spent then t - spent else 0) timeout;
          ts = to_timespec left;
          again = map_option (\<lambda>(tss, r). (ts # tss, r)) (kq_wait timeout sls rest) in
      case answer of
        KInterrupted \<Rightarrow> again
      | KFailed e \<Rightarrow> Some ([ts], Inl (Os_Error e))
      | KEvents [] \<Rightarrow> (if (case left of None \<Rightarrow> False | Some l \<Rightarrow> l > max_chunk_ms) then again
                       else Some ([ts], Inr (no_result\<lparr>wr_timeout := True\<rparr>)))
      | KEvents es \<Rightarrow> Some ([ts], Inr (kq_fill sls es no_result)))"

section \<open>Long waits\<close>

definition timespec_ns :: "int \<times> int \<Rightarrow> int" where
  "timespec_ns ts = fst ts * 1000000000 + snd ts"

lemma to_timespec_ns: "0 \<le> c \<Longrightarrow> c \<le> max_chunk_ms \<Longrightarrow> map_option timespec_ns (to_timespec (Some c)) = Some (c * 1000000)"
  by (simp add: to_timespec_def timespec_ns_def) (use div_mult_mod_eq [of c 1000] in linarith)

lemma kq_fill_no_timeout: "wr_timeout (kq_fill sls es out) = wr_timeout out"
  by (induction sls es out rule: kq_fill.induct) (auto simp: Let_def split: option.splits)

text \<open>A wait longer than the system accepts is split: a timeout is reported only after a call that was given exactly
  the time left, at most a day; a longer remainder waits again.\<close>

theorem kq_wait_full_time:
  assumes "kq_wait (Some d) sls answers = Some (tss, Inr out)" "wr_timeout out"
  shows "tss \<noteq> [] \<and> length tss \<le> length answers
    \<and> d - fst (answers ! (length tss - 1)) \<le> max_chunk_ms
    \<and> map_option timespec_ns (last tss) = Some (max 0 (d - fst (answers ! (length tss - 1))) * 1000000)"
  using assms
proof (induction answers arbitrary: tss)
  case (Cons a answers)
  obtain spent ans where a: "a = (spent, ans)" by fastforce
  define l where "l = (if d > spent then d - spent else 0)"
  have l: "0 \<le> l" "l = max 0 (d - spent)" by (auto simp: l_def)
  show ?case
  proof (cases "ans = KEvents [] \<and> l \<le> max_chunk_ms")
    case True
    then have "tss = [to_timespec (Some l)]" using Cons.prems(1) a by (auto simp: l_def [symmetric] Let_def)
    then show ?thesis using to_timespec_ns [of l] l True a by (auto simp: max_def split: if_splits)
  next
    case False
    have "wr_timeout (kq_fill sls (e # es) no_result) = False" for e es
      unfolding kq_fill_no_timeout by (simp add: no_result_def)
    then obtain tss' where "kq_wait (Some d) sls answers = Some (tss', Inr out)" "tss = to_timespec (Some l) # tss'"
      using Cons.prems a False by (auto simp: l_def [symmetric] Let_def split: kq_answer.splits list.splits if_splits)
    then show ?thesis using Cons.IH [of tss'] Cons.prems(2) by (auto simp: nth_Cons')
  qed
qed simp

theorem kq_wait_full_time_witness:
  "\<exists>tss. kq_wait (Some 100000000) [] [(0, KEvents []), (99999990, KEvents [])] = Some (tss, Inr (no_result\<lparr>wr_timeout := True\<rparr>))
    \<and> map_option timespec_ns (last tss) = Some 10000000"
proof -
  let ?as = "[(0, KEvents []), (99999990, KEvents [])]"
  have run: "kq_wait (Some 100000000) [] ?as = Some ([to_timespec (Some 100000000), to_timespec (Some 10)], Inr (no_result\<lparr>wr_timeout := True\<rparr>))"
    by (simp add: max_chunk_ms_def)
  from kq_wait_full_time [OF run] show ?thesis unfolding run by simp
qed

section \<open>A watch that fails half way\<close>

text \<open>When the second of two filters cannot be added, \<^verbatim>\<open>watch\<close> fails and frees the slot but leaves the first filter in
  the queue. The next watch gets that slot, and readability of the refused descriptor is then reported under
  the new registration's token.\<close>

theorem kq_half_watched:
  assumes "kq_laws change filters" "0 \<le> fd" "\<not> watches fd (kq_table s)" "take_slot no_kq_slot (kq_table s) = (i, t)"
    "change (KAdd fd KRead (i + 1)) (kq_os s) = (0, os1)" "change (KAdd fd KWrite (i + 1)) os1 = (e, os2)" "e \<noteq> 0"
    "kq_watch change fd Read_Write tok s = (r, s1)" "kq_watch change fd2 Read tok2 s1 = (Inr j, s2)" "fd2 \<noteq> fd"
    "table_ok (kq_table s)"
  shows "r = Inl (Os_Error e) \<and> j = i \<and> filters (kq_os s2) (fd, KRead) = Some (i + 1)
    \<and> map rd_token (wr_ready (kq_fill (tb_slots (kq_table s2)) [Event KRead (i + 1) False False] no_result)) = [tok2]"
proof -
  have s1: "r = Inl (Os_Error e)" "s1 = s\<lparr>kq_table := t\<lparr>tb_free := tb_free t @ [i]\<rparr>, kq_os := os2\<rparr>"
    using assms(2-8) by (auto simp: kq_watch_def adds_def)
  obtain os3 where os3: "kevent change [KAdd fd2 KRead (j + 1)] os2 = (0, os3)" "j = i"
    "s2 = s1\<lparr>kq_table := set_slot i \<lparr>sl_fd = fd2, sl_token = tok2, sl_live = True, ks_what = Read\<rparr> (t\<lparr>tb_free := tb_free t\<rparr>), kq_os := os3\<rparr>"
    using assms(9) s1(2) by (auto simp: kq_watch_def adds_def take_slot_def Let_def split: if_splits prod.splits)
  have "change (KAdd fd2 KRead (j + 1)) os2 = (0, os3)" using os3(1) by (auto split: prod.splits if_splits)
  from kq_add_law [OF assms(1) this] have "filters os3 (fd, KRead) = filters os2 (fd, KRead)" using assms(10) by simp
  also have "filters os2 = filters os1" using kq_add_law [OF assms(1) assms(6)] assms(7) by simp
  also have "filters os1 (fd, KRead) = Some (i + 1)" using kq_add_law [OF assms(1) assms(5)] by simp
  finally have f: "filters os3 (fd, KRead) = Some (i + 1)" .
  have "i < length (tb_slots t)"
  proof (cases "tb_free (kq_table s) = []")
    case False
    then have "i \<in> set (tb_free (kq_table s))" "tb_slots t = tb_slots (kq_table s)" using assms(4) by (auto simp: take_slot_def)
    then show ?thesis using assms(11) unfolding table_ok_def by metis
  qed (use assms(4) in \<open>auto simp: take_slot_def\<close>)
  then show ?thesis using s1(1) os3(2,3) f by (simp add: set_slot_def add_event_def last_entry_def no_result_def max_ready_def)
qed

text \<open>A queue that refuses to watch descriptor 5 for writing.\<close>

fun picky :: "(int \<times> kfilter \<rightharpoonup> nat) kq_change" where
  "picky (KAdd fd f u) m = (if fd = 5 \<and> f = KWrite then (22, m) else (0, m((fd, f) \<mapsto> u)))"
| "picky (KDelete fd f) m = (0, m((fd, f) := None))"

definition empty_kq :: "(int \<times> kfilter \<rightharpoonup> nat) kq_state" where
  "empty_kq = \<lparr>kq_table = new_table, kq_os = (\<lambda>_. None)\<rparr>"

theorem kq_half_watched_witness:
  "map rd_token (wr_ready (kq_fill (tb_slots (kq_table (snd (kq_watch picky 6 Read 2 (snd (kq_watch picky 5 Read_Write 1 empty_kq))))))
     [Event KRead 1 False False] no_result)) = [2]"
proof -
  have laws: "kq_laws picky (\<lambda>m. m)" by (auto simp: kq_laws_def split: if_splits)
  let ?s1 = "snd (kq_watch picky 5 Read_Write 1 empty_kq)"
  have s1: "?s1 = \<lparr>kq_table = \<lparr>tb_slots = [no_kq_slot], tb_free = [0]\<rparr>, kq_os = [(5, KRead) \<mapsto> 1]\<rparr>"
    by (simp add: kq_watch_def empty_kq_def new_table_def watches_def take_slot_def adds_def)
  have "fst (kq_watch picky 6 Read 2 ?s1) = Inr 0"
    unfolding s1 by (simp add: kq_watch_def watches_def take_slot_def adds_def no_kq_slot_def)
  then have w: "kq_watch picky 6 Read 2 ?s1 = (Inr 0, snd (kq_watch picky 6 Read 2 ?s1))" by (metis prod.collapse)
  have "table_ok (kq_table empty_kq)" "\<not> watches 5 (kq_table empty_kq)" "take_slot no_kq_slot (kq_table empty_kq) = (0, \<lparr>tb_slots = [no_kq_slot], tb_free = []\<rparr>)"
    by (simp_all add: empty_kq_def) (simp_all add: new_table_def watches_def take_slot_def)
  from kq_half_watched [OF laws _ this(2,3) _ _ _ prod.collapse [symmetric] w _ this(1), where e = 22] show ?thesis by simp
qed

end
