(* ===== verification/Wait_Reactor.thy ===== *)
theory Wait_Reactor
  imports Reactor
begin

text \<open>
  \<^verbatim>\<open>src/platform/windows/wait_reactor.cpp\<close>. What the system answers (which handles are signalled, what a peek finds, how
  much room a pipe has, how long a wait took) and what the reader threads have done are inputs of a probe.
\<close>

section \<open>Slots and their readers\<close>

datatype wkind = Waitable | Stream | File | Pipe

text \<open>The reactor's side of a \<^verbatim>\<open>pipe_reader\<close>; \<open>pr_can_block\<close> is what the reactor stored, the thread may clear the flag too.\<close>

record pipe_reader =
  pr_can_block :: bool
  pr_armed :: bool
  pr_spurious :: nat

definition new_reader :: pipe_reader where
  "new_reader = \<lparr>pr_can_block = True, pr_armed = False, pr_spurious = 0\<rparr>"

record win_slot = slot +
  ws_what :: interest
  ws_kind :: wkind
  ws_reader :: "pipe_reader option"

definition no_win_slot :: win_slot where
  "no_win_slot = \<lparr>sl_fd = 0, sl_token = 0, sl_live = False, ws_what = Read, ws_kind = Waitable, ws_reader = None\<rparr>"

definition invalid_handle_value :: int where
  "invalid_handle_value = -1"

definition max_watched :: nat where
  "max_watched = 63"

text \<open>\<^verbatim>\<open>state::apply\<close>; \<open>starts\<close> says whether the reader's events and thread can be made.\<close>

definition apply_reader :: "bool \<Rightarrow> win_slot \<Rightarrow> win_slot" where
  "apply_reader starts sl =
     (if ws_kind sl \<noteq> Pipe then sl
      else if ws_what sl = Read
      then (if ws_reader sl = None then sl\<lparr>ws_reader := if starts then Some new_reader else None\<rparr> else sl)
      else sl\<lparr>ws_reader := None\<rparr>)"

definition add_slot :: "bool \<Rightarrow> int \<Rightarrow> 64 word \<Rightarrow> interest \<Rightarrow> wkind \<Rightarrow> win_slot table \<Rightarrow> (reactor_error + nat) \<times> win_slot table" where
  "add_slot starts h tok what k t =
     (if h = 0 \<or> h = invalid_handle_value then (Inl Bad_Handle, t)
      else if watches h t then (Inl Already_Watched, t)
      else if live_slots t \<ge> max_watched then (Inl Too_Many, t)
      else (let (idx, t1) = take_slot no_win_slot t
            in (Inr idx, set_slot idx (apply_reader starts
                 \<lparr>sl_fd = h, sl_token = tok, sl_live = True, ws_what = what, ws_kind = k, ws_reader = None\<rparr>) t1)))"

text \<open>\<^verbatim>\<open>watch\<close> asks the system what the handle is.\<close>

definition win_watch :: "(int \<Rightarrow> wkind) \<Rightarrow> bool \<Rightarrow> int \<Rightarrow> interest \<Rightarrow> 64 word \<Rightarrow> win_slot table \<Rightarrow> (reactor_error + nat) \<times> win_slot table" where
  "win_watch kind_of starts h what tok t = add_slot starts h tok what (kind_of h) t"

definition watch_pipe :: "bool \<Rightarrow> int \<Rightarrow> 64 word \<Rightarrow> win_slot table \<Rightarrow> (reactor_error + nat) \<times> win_slot table" where
  "watch_pipe starts h tok t = add_slot starts h tok Read Pipe t"

definition win_unwatch :: "nat \<Rightarrow> win_slot table \<Rightarrow> win_slot table" where
  "win_unwatch i t =
     (if \<not> is_live t i then t else drop_slot i (set_slot i ((tb_slots t ! i)\<lparr>ws_reader := None\<rparr>) t))"

definition win_modify :: "bool \<Rightarrow> nat \<Rightarrow> interest \<Rightarrow> win_slot table \<Rightarrow> reactor_error option \<times> win_slot table" where
  "win_modify starts i what t =
     (if \<not> is_live t i then (Some Empty_Registration, t)
      else (None, set_slot i (apply_reader starts ((tb_slots t ! i)\<lparr>ws_what := what\<rparr>)) t))"

section \<open>Probing\<close>

datatype peeked = Avail nat | Gone | Transient
datatype write_room = Broken | Unknown | Room nat

text \<open>The system at one moment: the waker's event, signalled handles, peeks and free space, and of each handle's
  reader whether its \<^verbatim>\<open>ready\<close> event is set and whether its thread has given up.\<close>

record win_os =
  wo_wake :: bool
  wo_signalled :: "int \<Rightarrow> bool"
  wo_peek :: "int \<Rightarrow> peeked"
  wo_room :: "int \<Rightarrow> write_room"
  wo_ready :: "int \<Rightarrow> bool"
  wo_gave_up :: "int \<Rightarrow> bool"

definition nothing :: readiness where
  "nothing = \<lparr>rd_token = 0, rd_readable = False, rd_writable = False, rd_hangup = False, rd_error = False\<rparr>"

definition can_block :: "win_os \<Rightarrow> win_slot \<Rightarrow> bool" where
  "can_block os sl = (case ws_reader sl of None \<Rightarrow> False | Some r \<Rightarrow> pr_can_block r \<and> \<not> wo_gave_up os (sl_fd sl))"

definition armed :: "win_slot \<Rightarrow> bool" where
  "armed sl = (case ws_reader sl of None \<Rightarrow> False | Some r \<Rightarrow> pr_armed r)"

definition on_reader :: "(pipe_reader \<Rightarrow> pipe_reader) \<Rightarrow> win_slot \<Rightarrow> win_slot" where
  "on_reader f sl = sl\<lparr>ws_reader := map_option f (ws_reader sl)\<rparr>"

definition spurious_limit :: nat where
  "spurious_limit = 64"

text \<open>The rearming of a reader whose read found nothing, or the end of using it.\<close>

definition rearm_reader :: "bool \<Rightarrow> pipe_reader \<Rightarrow> pipe_reader" where
  "rearm_reader fired r =
     (let r1 = (if fired then r\<lparr>pr_spurious := pr_spurious r + 1\<rparr> else r)
      in if fired \<and> pr_spurious r1 > spurious_limit then r1\<lparr>pr_can_block := False\<rparr> else r1\<lparr>pr_armed := True\<rparr>)"

definition probe_pipe_read :: "win_os \<Rightarrow> win_slot \<Rightarrow> win_slot \<times> readiness" where
  "probe_pipe_read os sl =
     (let threaded = can_block os sl; pending = (threaded \<and> armed sl) in
      if pending \<and> \<not> wo_ready os (sl_fd sl) then (sl, nothing)
      else (let sl1 = (if pending then on_reader (pr_armed_update (\<lambda>_. False)) sl else sl) in
        case wo_peek os (sl_fd sl) of
          Avail n \<Rightarrow>
            if n \<noteq> 0 then (on_reader (pr_spurious_update (\<lambda>_. 0)) sl1, nothing\<lparr>rd_readable := True\<rparr>)
            else ((if threaded then on_reader (rearm_reader pending) sl1 else sl1), nothing)
        | Gone \<Rightarrow> (sl1, nothing\<lparr>rd_readable := True, rd_hangup := True\<rparr>)
        | Transient \<Rightarrow> (sl1, nothing)))"

definition probe_pipe_write :: "win_os \<Rightarrow> win_slot \<Rightarrow> readiness option" where
  "probe_pipe_write os sl =
     (case wo_room os (sl_fd sl) of
        Broken \<Rightarrow> Some (nothing\<lparr>rd_writable := True, rd_hangup := True, rd_error := True\<rparr>)
      | Unknown \<Rightarrow> Some (nothing\<lparr>rd_writable := True\<rparr>)
      | Room n \<Rightarrow> if n = 0 then None else Some (nothing\<lparr>rd_writable := True\<rparr>))"

text \<open>One slot in the loop of \<^verbatim>\<open>probe\<close>: the slot afterwards, what it reports, and whether it must be polled.\<close>

definition probe_slot :: "win_os \<Rightarrow> win_slot \<Rightarrow> win_slot \<times> readiness \<times> bool" where
  "probe_slot os sl =
     (let r = wants_read (ws_what sl); w = wants_write (ws_what sl); sig = wo_signalled os (sl_fd sl) in
      case ws_kind sl of
        Waitable \<Rightarrow> (sl, (if sig then nothing\<lparr>rd_readable := r, rd_writable := w\<rparr> else nothing), False)
      | Stream \<Rightarrow> (sl, nothing\<lparr>rd_readable := r \<and> sig, rd_writable := w\<rparr>, False)
      | File \<Rightarrow> (sl, nothing\<lparr>rd_readable := r, rd_writable := w\<rparr>, False)
      | Pipe \<Rightarrow>
          (let (sl1, rd1) = (if r then probe_pipe_read os sl else (sl, nothing));
               poll1 = (r \<and> \<not> can_block os sl1) in
           if w \<and> \<not> rd_hangup rd1
           then (case probe_pipe_write os sl1 of
                   Some wr \<Rightarrow> (sl1, rd1\<lparr>rd_writable := True, rd_hangup := rd_hangup rd1 \<or> rd_hangup wr, rd_error := rd_error rd1 \<or> rd_error wr\<rparr>, poll1)
                 | None \<Rightarrow> (sl1, rd1, True))
           else (sl1, rd1, poll1)))"

definition reports :: "readiness \<Rightarrow> bool" where
  "reports rd \<longleftrightarrow> rd_readable rd \<or> rd_writable rd \<or> rd_hangup rd \<or> rd_error rd"

text \<open>The loop of \<^verbatim>\<open>probe\<close> over the slots: the slots, the reports so far, and \<^verbatim>\<open>must_poll\<close>.\<close>

fun probe_slots :: "win_os \<Rightarrow> win_slot list \<Rightarrow> readiness list \<Rightarrow> bool \<Rightarrow> win_slot list \<times> readiness list \<times> bool" where
  "probe_slots os [] out must_poll = ([], out, must_poll)"
| "probe_slots os (sl # sls) out must_poll =
     (if \<not> sl_live sl \<or> length out \<ge> max_ready
      then (let (sls', r) = probe_slots os sls out must_poll in (sl # sls', r))
      else (let (sl', rd, poll) = probe_slot os sl;
                (sls', r) = probe_slots os sls (if reports rd then out @ [rd\<lparr>rd_token := sl_token sl\<rparr>] else out) (must_poll \<or> poll)
            in (sl' # sls', r)))"

text \<open>\<^verbatim>\<open>probe\<close>: the table, what to return, whether anything was ready, and whether something must be polled.\<close>

definition probe_all :: "win_os \<Rightarrow> win_slot table \<Rightarrow> win_slot table \<times> wait_result \<times> bool \<times> bool" where
  "probe_all os t =
     (let (sls, out, must_poll) = probe_slots os (tb_slots t) [] False
      in (t\<lparr>tb_slots := sls\<rparr>, no_result\<lparr>wr_woken := wo_wake os, wr_ready := out\<rparr>, wo_wake os \<or> out \<noteq> [], must_poll))"

section \<open>Waiting\<close>

definition INFINITE :: int where
  "INFINITE = 4294967295"

definition wait_ms :: "int option \<Rightarrow> int" where
  "wait_ms t = (case t of None \<Rightarrow> INFINITE | Some c \<Rightarrow> if c \<le> 0 then 0 else if c \<ge> INFINITE then INFINITE else c)"

definition poll_quantum :: int where
  "poll_quantum = 5"

definition wait_slice :: "int \<Rightarrow> int \<Rightarrow> bool \<Rightarrow> int" where
  "wait_slice limit spent must_poll =
     (let slice = (if limit \<noteq> INFINITE then (if spent \<ge> limit then 0 else limit - spent) else limit)
      in if must_poll then min slice poll_quantum else slice)"

datatype wait_object = Waker | Handle int | Reader_Ready int

text \<open>What a slot adds to the wait list.\<close>

definition slot_objects :: "win_os \<Rightarrow> win_slot \<Rightarrow> wait_object list" where
  "slot_objects os sl =
     (if \<not> sl_live sl then []
      else if ws_kind sl = Waitable \<or> ws_kind sl = Stream \<and> wants_read (ws_what sl) then [Handle (sl_fd sl)]
      else if ws_kind sl = Pipe \<and> wants_read (ws_what sl) \<and> armed sl \<and> can_block os sl then [Reader_Ready (sl_fd sl)]
      else [])"

definition wait_list :: "win_os \<Rightarrow> win_slot table \<Rightarrow> wait_object list" where
  "wait_list os t = Waker # concat (map (slot_objects os) (tb_slots t))"

text \<open>One turn of the loop: the system when the wait list is made, the time spent before and after the wait, its
  failure if it failed, and the system at the probe that follows.\<close>

record win_turn =
  tu_before :: win_os
  tu_spent :: int
  tu_failed :: "int option"
  tu_after :: win_os
  tu_spent_after :: int

text \<open>The loop of \<^verbatim>\<open>wait\<close>; beside the result stand the slices and wait lists passed to the system. The result is absent
  while the call has not returned.\<close>

fun wait_loop :: "int \<Rightarrow> bool \<Rightarrow> win_slot table \<Rightarrow> win_turn list \<Rightarrow>
    ((int \<times> wait_object list) list \<times> win_slot table \<times> (reactor_error + wait_result)) option" where
  "wait_loop limit must_poll t [] = None"
| "wait_loop limit must_poll t (tu # rest) =
     (let call = (wait_slice limit (tu_spent tu) must_poll, wait_list (tu_before tu) t) in
      case tu_failed tu of
        Some e \<Rightarrow> Some ([call], t, Inl (Os_Error e))
      | None \<Rightarrow>
          (let (t1, out, any, must_poll1) = probe_all (tu_after tu) t in
           if any then Some ([call], t1, Inr out)
           else if limit \<noteq> INFINITE \<and> tu_spent_after tu \<ge> limit then Some ([call], t1, Inr (out\<lparr>wr_timeout := True\<rparr>))
           else map_option (\<lambda>(calls, r). (call # calls, r)) (wait_loop limit must_poll1 t1 rest)))"

definition win_wait :: "int option \<Rightarrow> win_os \<Rightarrow> win_slot table \<Rightarrow> win_turn list \<Rightarrow>
    ((int \<times> wait_object list) list \<times> win_slot table \<times> (reactor_error + wait_result)) option" where
  "win_wait timeout os t turns =
     (let (t1, out, any, must_poll) = probe_all os t in
      if any then Some ([], t1, Inr out) else wait_loop (wait_ms timeout) must_poll t1 turns)"

section \<open>The table keeps its promises\<close>

definition win_view :: "win_slot table \<Rightarrow> slot_view" where
  "win_view t i = map_option (\<lambda>sl. (sl_fd sl, ws_what sl, sl_token sl)) (slot_at t i)"

definition win_ok :: "win_slot table \<Rightarrow> bool" where
  "win_ok t \<longleftrightarrow> table_ok t \<and> (\<forall>i sl. slot_at t i = Some sl \<longrightarrow> sl_fd sl \<noteq> 0 \<and> sl_fd sl \<noteq> invalid_handle_value)
     \<and> (\<forall>i j sl sl'. slot_at t i = Some sl \<longrightarrow> slot_at t j = Some sl' \<longrightarrow> sl_fd sl = sl_fd sl' \<longrightarrow> i = j)"

lemma apply_reader_slot [simp]:
  "sl_fd (apply_reader b sl) = sl_fd sl" "sl_token (apply_reader b sl) = sl_token sl" "sl_live (apply_reader b sl) = sl_live sl"
  "ws_what (apply_reader b sl) = ws_what sl" "ws_kind (apply_reader b sl) = ws_kind sl"
  by (simp_all add: apply_reader_def)

lemma win_watch_new:
  assumes "win_ok t" "win_watch kind_of starts h what tok t = (Inr i, t')"
  shows "win_ok t' \<and> win_view t i = None \<and> win_view t' = (win_view t)(i \<mapsto> (h, what, tok))"
proof -
  define x where "x = apply_reader starts
    \<lparr>sl_fd = h, sl_token = tok, sl_live = True, ws_what = what, ws_kind = kind_of h, ws_reader = None\<rparr>"
  obtain t1 where t1: "take_slot no_win_slot t = (i, t1)" "t' = set_slot i x t1" "h \<noteq> 0" "h \<noteq> invalid_handle_value" "\<not> watches h t"
    using assms(2) by (auto simp: win_watch_def add_slot_def x_def split: if_splits prod.splits)
  have x: "sl_live x" "sl_fd x = h" "ws_what x = what" "sl_token x = tok" by (simp_all add: x_def)
  have "table_ok t" using assms(1) by (simp add: win_ok_def)
  note put = take_set_slot [OF this t1(1) x(1), folded t1(2)]
  have "sl_fd sl \<noteq> h" if "slot_at t j = Some sl" for j sl using t1(5) that unfolding watches_iff by blast
  note other = this
  have "win_ok t'" unfolding win_ok_def
  proof (intro conjI allI impI)
    fix j k sl sl' assume "slot_at t' j = Some sl" "slot_at t' k = Some sl'" "sl_fd sl = sl_fd sl'"
    then show "j = k" using assms(1) put(3) x(2) other unfolding win_ok_def by (cases "j = i"; cases "k = i") fastforce+
  qed (use assms(1) put t1(3,4) x(2) in \<open>auto simp: win_ok_def split: if_splits\<close>)
  then show ?thesis using put x by (auto simp: win_view_def fun_eq_iff)
qed

interpretation win: reactor win_ok win_view "win_watch kind_of starts" win_unwatch "win_modify starts" for kind_of starts
proof
  fix t t' :: "win_slot table" and h what tok i w e
  assume ok: "win_ok t"
  show "win_watch kind_of starts h what tok t = (Inr i, t') \<Longrightarrow>
    win_ok t' \<and> win_view t i = None \<and> win_view t' = (win_view t)(i \<mapsto> (h, what, tok))"
    using win_watch_new [OF ok] .
  show "win_watch kind_of starts h what tok t = (Inl e, t') \<Longrightarrow> win_ok t' \<and> win_view t' = win_view t"
    using ok by (auto simp: win_watch_def add_slot_def split: if_splits prod.splits)
  show "fst (win_watch kind_of starts h what tok t) = Inl Already_Watched" if v: "win_view t i = Some (h, w, tok')" for tok'
  proof -
    obtain sl where "slot_at t i = Some sl" "sl_fd sl = h" using v by (auto simp: win_view_def)
    then have "watches h t" "h \<noteq> 0" "h \<noteq> invalid_handle_value" using ok by (auto simp: watches_iff win_ok_def)
    then show ?thesis by (simp add: win_watch_def add_slot_def)
  qed
  show "win_ok (win_unwatch i t) \<and> win_view (win_unwatch i t) = (win_view t)(i := None)"
  proof (cases "is_live t i")
    case True
    define x where "x = (tb_slots t ! i)\<lparr>ws_reader := None\<rparr>"
    have x: "sl_live x" "slot_at t i = Some (tb_slots t ! i)" using True by (simp_all add: x_def is_live_def slot_at_def)
    have t: "table_ok (set_slot i x t)" "slot_at (set_slot i x t) = (slot_at t)(i \<mapsto> x)"
      using set_live_slot [OF True x(1)] ok by (simp_all add: win_ok_def)
    then have "slot_at (win_unwatch i t) = (slot_at t)(i := None)" "table_ok (win_unwatch i t)"
      using True drop_slot_ok by (auto simp: win_unwatch_def drop_slot_at x_def)
    then show ?thesis using ok by (auto simp: win_ok_def win_view_def fun_eq_iff)
  next
    case False
    then show ?thesis using ok by (auto simp: win_unwatch_def win_view_def slot_at_def fun_eq_iff)
  qed
  show "win_ok t' \<and> win_view t' = (if r = None then (win_view t)(i \<mapsto> (h, what, tok)) else win_view t)"
    if v: "win_view t i = Some (h, w, tok)" and m: "win_modify starts i what t = (r, t')" for r
  proof -
    obtain sl where sl: "slot_at t i = Some sl" "h = sl_fd sl" "tok = sl_token sl" using v by (auto simp: win_view_def)
    then have "is_live t i" "tb_slots t ! i = sl" "sl_live sl" using slot_at_Some by blast+
    then show ?thesis using m ok sl set_live_slot [of t i "apply_reader starts (sl\<lparr>ws_what := what\<rparr>)"]
      by (auto simp: win_modify_def win_ok_def win_view_def fun_eq_iff)
  qed
qed

section \<open>What a probe leaves to the wait\<close>

lemma on_reader_slot [simp]:
  "sl_fd (on_reader f sl) = sl_fd sl" "sl_token (on_reader f sl) = sl_token sl" "sl_live (on_reader f sl) = sl_live sl"
  "ws_what (on_reader f sl) = ws_what sl" "ws_kind (on_reader f sl) = ws_kind sl"
  by (simp_all add: on_reader_def)

lemma probe_pipe_read_slot:
  "probe_pipe_read os sl = (sl', rd) \<Longrightarrow> sl_fd sl' = sl_fd sl \<and> sl_token sl' = sl_token sl \<and> sl_live sl' = sl_live sl
     \<and> ws_what sl' = ws_what sl \<and> ws_kind sl' = ws_kind sl"
  by (auto simp: probe_pipe_read_def Let_def split: if_splits peeked.splits)

lemma probe_slot_slot:
  "probe_slot os sl = (sl', rd, poll) \<Longrightarrow> sl_fd sl' = sl_fd sl \<and> sl_token sl' = sl_token sl \<and> sl_live sl' = sl_live sl
     \<and> ws_what sl' = ws_what sl \<and> ws_kind sl' = ws_kind sl"
  by (auto simp: probe_slot_def Let_def dest: probe_pipe_read_slot split: if_splits wkind.splits prod.splits option.splits)

lemma probe_pipe_read_armed:
  assumes "probe_pipe_read os sl = (sl', rd)" "\<not> reports rd" "can_block os sl'" "wo_peek os (sl_fd sl) \<noteq> Transient"
  shows "armed sl'"
proof (cases "ws_reader sl")
  case None
  then show ?thesis using assms
    by (auto simp: probe_pipe_read_def can_block_def armed_def on_reader_def reports_def nothing_def split: peeked.splits if_splits)
next
  case (Some r)
  then show ?thesis using assms
    by (auto simp: probe_pipe_read_def can_block_def armed_def on_reader_def reports_def nothing_def rearm_reader_def Let_def
        split: peeked.splits if_splits)
qed

lemma probe_slot_covers:
  assumes "probe_slot os sl = (sl', rd, False)" "\<not> reports rd" "sl_live sl" "wo_peek os (sl_fd sl) \<noteq> Transient"
  shows "slot_objects os sl' \<noteq> []"
proof (cases "ws_kind sl")
  case Pipe
  have r: "wants_read (ws_what sl)"
  proof (rule ccontr)
    assume "\<not> wants_read (ws_what sl)"
    moreover have "wants_write (ws_what sl)" using calculation by (cases "ws_what sl") auto
    ultimately show False using assms(1,2) Pipe
      by (auto simp: probe_slot_def nothing_def reports_def split: option.splits)
  qed
  obtain sl1 rd1 where p: "probe_pipe_read os sl = (sl1, rd1)" by fastforce
  then have "sl' = sl1" "\<not> reports rd1" "can_block os sl1"
    using assms(1,2) Pipe r by (auto simp: probe_slot_def reports_def Let_def split: if_splits option.splits)
  then show ?thesis using probe_pipe_read_armed [OF p] probe_pipe_read_slot [OF p] assms(3,4) Pipe r
    by (simp add: slot_objects_def)
next
  case File
  then show ?thesis using assms(1,2) by (cases "ws_what sl") (auto simp: probe_slot_def nothing_def reports_def)
next
  case Stream
  then show ?thesis using assms by (cases "ws_what sl") (auto simp: probe_slot_def nothing_def reports_def slot_objects_def)
qed (use assms in \<open>auto simp: probe_slot_def slot_objects_def\<close>)

lemma probe_slots_grow: "probe_slots os sls out mp = (sls', out', mp') \<Longrightarrow> length out \<le> length out' \<and> (mp \<longrightarrow> mp')"
proof (induction sls arbitrary: out mp sls')
  case (Cons sl sls)
  show ?case
  proof (cases "\<not> sl_live sl \<or> length out \<ge> max_ready")
    case True
    then obtain ts where "probe_slots os sls out mp = (ts, out', mp')" using Cons.prems by (auto split: prod.splits)
    from Cons.IH [OF this] show ?thesis .
  next
    case False
    obtain sl1 rd poll where "probe_slot os sl = (sl1, rd, poll)" by (cases "probe_slot os sl")
    then obtain ts where "probe_slots os sls (if reports rd then out @ [rd\<lparr>rd_token := sl_token sl\<rparr>] else out) (mp \<or> poll) = (ts, out', mp')"
      using Cons.prems False by (auto split: prod.splits)
    from Cons.IH [OF this] show ?thesis by (auto split: if_splits)
  qed
qed simp

lemma probe_slots_covers:
  assumes "probe_slots os sls [] False = (sls', [], False)" "i < length sls" "sl_live (sls ! i)"
    "wo_peek os (sl_fd (sls ! i)) \<noteq> Transient"
  shows "i < length sls' \<and> sl_fd (sls' ! i) = sl_fd (sls ! i) \<and> slot_objects os (sls' ! i) \<noteq> []"
  using assms
proof (induction sls arbitrary: i sls')
  case (Cons sl sls)
  show ?case
  proof (cases "sl_live sl")
    case False
    then obtain ts where "probe_slots os sls [] False = (ts, [], False)" "sls' = sl # ts"
      using Cons.prems(1) by (auto split: prod.splits)
    then show ?thesis using Cons.IH [of ts "i - 1"] Cons.prems(2-) False by (cases i) auto
  next
    case True
    obtain sl1 rd poll where p: "probe_slot os sl = (sl1, rd, poll)" by (cases "probe_slot os sl")
    obtain ts where ts: "probe_slots os sls (if reports rd then [] @ [rd\<lparr>rd_token := sl_token sl\<rparr>] else []) poll = (ts, [], False)"
      "sls' = sl1 # ts"
      using Cons.prems(1) True p by (auto simp: max_ready_def split: prod.splits)
    from probe_slots_grow [OF ts(1)] have q: "\<not> reports rd" "\<not> poll" by (auto split: if_splits)
    then have "probe_slots os sls [] False = (ts, [], False)" using ts(1) by simp
    then show ?thesis
      using Cons.IH [of ts "i - 1"] Cons.prems(2-) ts(2) p q probe_slot_covers [of os sl sl1 rd] probe_slot_slot [OF p]
      by (cases i) auto
  qed
qed simp


text \<open>A wait may miss a pipe. When the peek after a finished read fails for a passing reason, or when the reader's
  thread gives up between the probe and the making of the wait list, the pipe is neither reported nor polled nor
  on the list: nothing it does ends the wait.\<close>

theorem win_wait_may_miss:
  assumes "sl_live sl" "ws_kind sl = Pipe" "ws_what sl = Read" "ws_reader sl = Some r" "pr_can_block r" "pr_armed r"
    "\<not> wo_gave_up os (sl_fd sl)"
    "wo_ready os (sl_fd sl) \<and> wo_peek os (sl_fd sl) = Transient \<or> \<not> wo_ready os (sl_fd sl) \<and> wo_gave_up os' (sl_fd sl)"
  shows "case probe_slot os sl of (sl', rd, must_poll) \<Rightarrow> \<not> reports rd \<and> \<not> must_poll \<and> slot_objects os' sl' = []"
  using assms
  by (auto simp: probe_slot_def probe_pipe_read_def can_block_def armed_def on_reader_def reports_def nothing_def slot_objects_def Let_def)

definition pipe_slot :: win_slot where
  "pipe_slot = \<lparr>sl_fd = 7, sl_token = 3, sl_live = True, ws_what = Read, ws_kind = Pipe, ws_reader = Some (new_reader\<lparr>pr_armed := True\<rparr>)\<rparr>"

definition busy_os :: win_os where
  "busy_os = \<lparr>wo_wake = False, wo_signalled = \<lambda>_. False, wo_peek = \<lambda>_. Transient, wo_room = \<lambda>_. Room 0,
     wo_ready = \<lambda>_. True, wo_gave_up = \<lambda>_. False\<rparr>"

theorem win_wait_may_miss_witness:
  "case probe_slot busy_os pipe_slot of (sl', rd, must_poll) \<Rightarrow> \<not> reports rd \<and> \<not> must_poll \<and> slot_objects busy_os sl' = []"
  using win_wait_may_miss [of pipe_slot "new_reader\<lparr>pr_armed := True\<rparr>" busy_os busy_os]
  by (simp add: pipe_slot_def busy_os_def new_reader_def)

definition idle_os :: win_os where
  "idle_os = busy_os\<lparr>wo_peek := \<lambda>_. Avail 0, wo_ready := \<lambda>_. False\<rparr>"


section \<open>How long it waits\<close>

lemma wait_slice_bounds:
  "0 \<le> limit \<Longrightarrow> limit \<le> INFINITE \<Longrightarrow> limit \<noteq> INFINITE \<Longrightarrow> 0 \<le> wait_slice limit spent mp \<and> wait_slice limit spent mp \<le> max 0 (limit - spent)"
  by (auto simp: wait_slice_def poll_quantum_def Let_def)

lemma probe_outcome:
  assumes "probe_all os t = (t', out, any, mp)"
  shows "\<not> wr_timeout out" "any \<Longrightarrow> wr_woken out \<or> wr_ready out \<noteq> []" "\<not> any \<Longrightarrow> \<not> wr_woken out" "\<not> any \<Longrightarrow> wr_ready out = []"
  using assms by (auto simp: probe_all_def no_result_def split: prod.splits)

lemma wait_loop_deadline:
  assumes "wait_loop limit mp t turns = Some (calls, t', Inr out)" "0 \<le> limit" "limit \<le> INFINITE"
  shows "calls \<noteq> [] \<and> length calls \<le> length turns
    \<and> (wr_timeout out \<longrightarrow> limit \<noteq> INFINITE \<and> limit \<le> tu_spent_after (turns ! (length calls - 1)) \<and> \<not> wr_woken out \<and> wr_ready out = [])
    \<and> (\<not> wr_timeout out \<longrightarrow> wr_woken out \<or> wr_ready out \<noteq> [])
    \<and> (\<forall>i < length calls. limit \<noteq> INFINITE \<longrightarrow> 0 \<le> fst (calls ! i) \<and> fst (calls ! i) \<le> max 0 (limit - tu_spent (turns ! i)))"
  using assms
proof (induction turns arbitrary: mp t calls)
  case (Cons tu rest)
  obtain t1 o1 any mp1 where p: "probe_all (tu_after tu) t = (t1, o1, any, mp1)" by (cases "probe_all (tu_after tu) t")
  have f: "tu_failed tu = None" using Cons.prems(1) by (auto simp: Let_def split: option.splits)
  define c where "c = (wait_slice limit (tu_spent tu) mp, wait_list (tu_before tu) t)"
  have b: "limit \<noteq> INFINITE \<longrightarrow> 0 \<le> fst c \<and> fst c \<le> max 0 (limit - tu_spent tu)"
    using wait_slice_bounds [OF Cons.prems(2,3)] by (simp add: c_def)
  have "wait_loop limit mp t (tu # rest) = (if any then Some ([c], t1, Inr o1)
     else if limit \<noteq> INFINITE \<and> limit \<le> tu_spent_after tu then Some ([c], t1, Inr (o1\<lparr>wr_timeout := True\<rparr>))
     else map_option (\<lambda>(calls, r). (c # calls, r)) (wait_loop limit mp1 t1 rest))"
    using p f by (simp add: c_def Let_def)
  note step = trans [OF this [symmetric] Cons.prems(1)]
  show ?case
  proof (cases "any \<or> limit \<noteq> INFINITE \<and> limit \<le> tu_spent_after tu")
    case True
    then have "calls = [c]" "out = (if any then o1 else o1\<lparr>wr_timeout := True\<rparr>)" using step by (auto split: if_splits)
    note co = this
    show ?thesis
    proof (cases any)
      case yes: True
      have "out = o1" using co(2) yes by simp
      moreover note probe_outcome(1,2) [OF p] yes
      ultimately have "\<not> wr_timeout out" "wr_woken out \<or> wr_ready out \<noteq> []" by blast+
      then show ?thesis unfolding co(1) using b by simp
    next
      case no: False
      then have "out = o1\<lparr>wr_timeout := True\<rparr>" "\<not> wr_woken o1" "wr_ready o1 = []" "limit \<noteq> INFINITE" "limit \<le> tu_spent_after tu"
        using co(2) True probe_outcome(3,4) [OF p] by simp_all
      then show ?thesis unfolding co(1) using b by simp
    qed
  next
    case False
    then obtain cs where cs: "wait_loop limit mp1 t1 rest = Some (cs, t', Inr out)" "calls = c # cs" using step by auto
    from Cons.IH [OF cs(1) Cons.prems(2,3)] have ih: "cs \<noteq> []" "length cs \<le> length rest"
      "wr_timeout out \<longrightarrow> limit \<noteq> INFINITE \<and> limit \<le> tu_spent_after (rest ! (length cs - 1)) \<and> \<not> wr_woken out \<and> wr_ready out = []"
      "\<not> wr_timeout out \<longrightarrow> wr_woken out \<or> wr_ready out \<noteq> []"
      "\<forall>i < length cs. limit \<noteq> INFINITE \<longrightarrow> 0 \<le> fst (cs ! i) \<and> fst (cs ! i) \<le> max 0 (limit - tu_spent (rest ! i))"
      by blast+
    have "\<forall>i < length calls. limit \<noteq> INFINITE \<longrightarrow> 0 \<le> fst (calls ! i) \<and> fst (calls ! i) \<le> max 0 (limit - tu_spent ((tu # rest) ! i))"
      unfolding cs(2) length_Cons All_less_Suc2 using b ih(5) by simp
    moreover have "(tu # rest) ! (length calls - 1) = rest ! (length cs - 1)" using cs(2) ih(1) by simp
    ultimately show ?thesis using cs(2) ih(1-4) by simp
  qed
qed simp

text \<open>A wait reports a timeout only when nothing was ready, it has a deadline, and the deadline has passed; it
  never asks the system to sleep past the deadline, and every other return carries a wake or a report.\<close>

theorem win_wait_deadline:
  assumes "win_wait timeout os t turns = Some (calls, t', Inr out)"
  shows "(wr_timeout out \<longrightarrow> (\<exists>d. timeout = Some d \<and> d < INFINITE \<and> max 0 d \<le> tu_spent_after (turns ! (length calls - 1)))
        \<and> \<not> wr_woken out \<and> wr_ready out = [])
    \<and> (\<not> wr_timeout out \<longrightarrow> wr_woken out \<or> wr_ready out \<noteq> [])
    \<and> (\<forall>i < length calls. \<forall>d. timeout = Some d \<longrightarrow> d < INFINITE \<longrightarrow> fst (calls ! i) \<le> max 0 (max 0 d - tu_spent (turns ! i)))"
proof -
  obtain t1 o1 any mp where p: "probe_all os t = (t1, o1, any, mp)" by (cases "probe_all os t")
  have w: "0 \<le> wait_ms timeout" "wait_ms timeout \<le> INFINITE" by (auto simp: wait_ms_def INFINITE_def split: option.splits)
  have d: "timeout = Some d \<Longrightarrow> d < INFINITE \<Longrightarrow> wait_ms timeout = max 0 d \<and> wait_ms timeout \<noteq> INFINITE" for d
    by (auto simp: wait_ms_def INFINITE_def)
  have e: "wait_ms timeout \<noteq> INFINITE \<Longrightarrow> \<exists>d. timeout = Some d \<and> d < INFINITE"
    by (auto simp: wait_ms_def INFINITE_def split: option.splits if_splits)
  show ?thesis
  proof (cases any)
    case True
    then have "calls = []" "out = o1" using assms p by (simp_all add: win_wait_def)
    then show ?thesis using probe_outcome(1,2) [OF p] True by simp
  next
    case False
    then have "wait_loop (wait_ms timeout) mp t1 turns = Some (calls, t', Inr out)" using assms p by (simp add: win_wait_def)
    note l = wait_loop_deadline [OF this w]
    have "\<exists>d. timeout = Some d \<and> d < INFINITE \<and> max 0 d \<le> tu_spent_after (turns ! (length calls - 1))"
      if "wr_timeout out"
    proof -
      have *: "wait_ms timeout \<noteq> INFINITE" "wait_ms timeout \<le> tu_spent_after (turns ! (length calls - 1))" using l that by blast+
      obtain c where "timeout = Some c" "c < INFINITE" using e [OF *(1)] by blast
      then show ?thesis using d *(2) by metis
    qed
    moreover have "fst (calls ! i) \<le> max 0 (max 0 d - tu_spent (turns ! i))"
      if "i < length calls" "timeout = Some d" "d < INFINITE" for i d
      using l d [OF that(2,3)] that(1) by metis
    ultimately show ?thesis using l by blast
  qed
qed

theorem win_wait_deadline_witness:
  "\<exists>calls out. win_wait (Some 4) idle_os \<lparr>tb_slots = [pipe_slot], tb_free = []\<rparr>
      [\<lparr>tu_before = idle_os, tu_spent = 1, tu_failed = None, tu_after = idle_os, tu_spent_after = 4\<rparr>] = Some (calls, out)
    \<and> fst (calls ! 0) \<le> 3"
proof -
  let ?t = "\<lparr>tb_slots = [pipe_slot], tb_free = []\<rparr> :: win_slot table"
  let ?u = "\<lparr>tu_before = idle_os, tu_spent = 1, tu_failed = None, tu_after = idle_os, tu_spent_after = 4\<rparr> :: win_turn"
  have p: "probe_all idle_os ?t = (?t, no_result, False, False)"
    by (simp add: probe_all_def idle_os_def busy_os_def pipe_slot_def new_reader_def probe_slot_def probe_pipe_read_def can_block_def
        armed_def nothing_def reports_def no_result_def max_ready_def)
  have "win_wait (Some 4) idle_os ?t [?u] = Some ([(3, wait_list idle_os ?t)], ?t, Inr (no_result\<lparr>wr_timeout := True\<rparr>))"
    by (simp add: win_wait_def p wait_ms_def INFINITE_def wait_slice_def)
  note run = this
  from win_wait_deadline [OF run] show ?thesis unfolding run by (auto simp: INFINITE_def)
qed

end
