(* ===== verification/Win_Command.thy ===== *)
theory Win_Command
  imports Jaal_Prelude "HOL-Library.Char_ord"
begin

text \<open>
  The command line a process is started with on Windows (\<^verbatim>\<open>src/platform/windows/process.cpp\<close>). The program that reads it
  back is not part of the sources: \<open>argv_rules\<close> states the documented rules by which it splits off an argument.
\<close>

abbreviation BS :: char where "BS \<equiv> CHR 0x5C"
abbreviation QT :: char where "QT \<equiv> CHR 0x22"

definition special :: "char \<Rightarrow> bool" where
  "special c \<longleftrightarrow> c \<in> {CHR '' '', CHR 0x09, CHR 0x0A, CHR 0x0B, QT}"

text \<open>The loop of \<^verbatim>\<open>quote_arg\<close>, with the number of backslashes held back.\<close>

fun quote_loop :: "string \<Rightarrow> nat \<Rightarrow> string" where
  "quote_loop [] b = replicate (b * 2) BS @ [QT]"
| "quote_loop (c # cs) b =
     (if c = BS then quote_loop cs (b + 1)
      else if c = QT then replicate (b * 2 + 1) BS @ QT # quote_loop cs 0
      else replicate b BS @ c # quote_loop cs 0)"

definition quote_arg :: "string \<Rightarrow> string" where
  "quote_arg arg = (if arg \<noteq> [] \<and> \<not> list_ex special arg then arg else QT # quote_loop arg 0)"

text \<open>The loop of \<^verbatim>\<open>join_command_line\<close>: a space before every argument but the first.\<close>

fun join_from :: "nat \<Rightarrow> string list \<Rightarrow> string" where
  "join_from i [] = []"
| "join_from i (a # as) = (if i \<noteq> 0 then '' '' else []) @ quote_arg a @ join_from (i + 1) as"

definition join_command_line :: "string list \<Rightarrow> string" where
  "join_command_line argv = join_from 0 argv"

definition lower :: "char \<Rightarrow> char" where
  "lower c = (if CHR ''A'' \<le> c \<and> c \<le> CHR ''Z'' then char_of (of_char c + (32 :: nat)) else c)"

definition iequals :: "string \<Rightarrow> string \<Rightarrow> bool" where
  "iequals a b \<longleftrightarrow> length a = length b \<and> list_all2 (\<lambda>x y. lower x = lower y) a b"

definition cmd_command_line :: "string \<Rightarrow> string" where
  "cmd_command_line payload = ''cmd.exe /S /C '' @ [QT] @ payload @ [QT]"

text \<open>The program's name after the last separator of its path.\<close>

definition file_name :: "string \<Rightarrow> string" where
  "file_name exe = rev (takeWhile (\<lambda>c. c \<noteq> BS \<and> c \<noteq> CHR ''/'') (rev exe))"

definition is_cmd_switch :: "string \<Rightarrow> bool" where
  "is_cmd_switch sw \<longleftrightarrow> length sw = 2 \<and> sw ! 0 \<in> {CHR ''/'', CHR ''-''} \<and> lower (sw ! 1) \<in> {CHR ''c'', CHR ''k''}"

text \<open>The arguments after the first, but not the last, in \<^verbatim>\<open>cmd_form_command_line\<close>.\<close>

fun quote_rest :: "string list \<Rightarrow> string" where
  "quote_rest (a # b # as) = '' '' @ quote_arg a @ quote_rest (b # as)"
| "quote_rest _ = []"

definition cmd_form_command_line :: "string list \<Rightarrow> string" where
  "cmd_form_command_line argv =
     (if length argv < 3 then []
      else if \<not> iequals (file_name (argv ! 0)) ''cmd'' \<and> \<not> iequals (file_name (argv ! 0)) ''cmd.exe'' then []
      else if \<not> is_cmd_switch (argv ! (length argv - 2)) then []
      else quote_arg (argv ! 0) @ quote_rest (tl argv) @ '' '' @ [QT] @ last argv @ [QT])"

text \<open>Which line \<^verbatim>\<open>spawn\<close> passes on.\<close>

definition spawn_command_line :: "string \<Rightarrow> string list \<Rightarrow> string" where
  "spawn_command_line verbatim argv =
     (if verbatim \<noteq> [] then verbatim
      else if cmd_form_command_line argv \<noteq> [] then cmd_form_command_line argv
      else join_command_line argv)"

section \<open>Reading it back\<close>

definition arg_blank :: "char \<Rightarrow> bool" where
  "arg_blank c \<longleftrightarrow> c = CHR '' '' \<or> c = CHR 0x09"

text \<open>
  \<open>tok q s\<close> is the argument read from \<open>s\<close> and what is left, \<open>q\<close> telling whether a quotation is open. An even run of
  backslashes before a quote is halved and the quote opens or closes a quotation; an odd run is halved and the
  quote is part of the argument; other backslashes stand for themselves; a arg_blank outside a quotation ends
  the argument. What a quote means right after one that closes a quotation is left open.
\<close>

definition argv_rules :: "(bool \<Rightarrow> string \<Rightarrow> string \<times> string) \<Rightarrow> bool" where
  "argv_rules tok \<longleftrightarrow>
     (\<forall>q n s. (q \<longrightarrow> s = [] \<or> hd s \<noteq> QT) \<longrightarrow>
        tok q (replicate (2 * n) BS @ QT # s) = map_prod (append (replicate n BS)) id (tok (\<not> q) s))
     \<and> (\<forall>q n s. tok q (replicate (2 * n + 1) BS @ QT # s) = map_prod (append (replicate n BS @ [QT])) id (tok q s))
     \<and> (\<forall>q n c s. c \<noteq> BS \<longrightarrow> c \<noteq> QT \<longrightarrow> q \<or> \<not> arg_blank c \<longrightarrow>
        tok q (replicate n BS @ c # s) = map_prod (append (replicate n BS @ [c])) id (tok q s))
     \<and> (\<forall>n c s. arg_blank c \<longrightarrow> tok False (replicate n BS @ c # s) = (replicate n BS, c # s))
     \<and> (\<forall>q n. tok q (replicate n BS) = (replicate n BS, []))"

lemma argv_rulesD:
  assumes "argv_rules tok"
  shows "(q \<Longrightarrow> s = [] \<or> hd s \<noteq> QT) \<Longrightarrow>
      tok q (replicate (2 * n) BS @ QT # s) = map_prod (append (replicate n BS)) id (tok (\<not> q) s)"
    and "tok q (replicate (2 * n + 1) BS @ QT # s) = map_prod (append (replicate n BS @ [QT])) id (tok q s)"
    and "c \<noteq> BS \<Longrightarrow> c \<noteq> QT \<Longrightarrow> q \<or> \<not> arg_blank c \<Longrightarrow>
      tok q (replicate n BS @ c # s) = map_prod (append (replicate n BS @ [c])) id (tok q s)"
    and "arg_blank c \<Longrightarrow> tok False (replicate n BS @ c # s) = (replicate n BS, c # s)"
    and "tok q (replicate n BS) = (replicate n BS, [])"
  using assms by (simp_all add: argv_rules_def) (cases q; simp)

definition ends_arg :: "string \<Rightarrow> bool" where
  "ends_arg rest \<longleftrightarrow> rest = [] \<or> arg_blank (hd rest)"

lemma tok_end: "argv_rules tok \<Longrightarrow> ends_arg rest \<Longrightarrow> tok False (replicate n BS @ rest) = (replicate n BS, rest)"
  using argv_rulesD(4,5) [of tok] by (cases rest) (auto simp: ends_arg_def)

lemma replicate_snoc: "replicate n x @ x # xs = replicate (Suc n) x @ xs"
  by (simp add: replicate_app_Cons_same)

lemma tok_quoted:
  assumes "argv_rules tok" "ends_arg rest"
  shows "tok True (quote_loop cs b @ rest) = (replicate b BS @ cs, rest)"
proof (induction cs b rule: quote_loop.induct)
  case (1 b)
  have "rest = [] \<or> hd rest \<noteq> QT" using assms(2) by (auto simp: ends_arg_def arg_blank_def)
  then show ?case using argv_rulesD(1) [OF assms(1), of True rest b] tok_end [OF assms, of 0] by (simp add: mult.commute)
next
  case (2 c cs b)
  consider (bs) "c = BS" | (qt) "c = QT" | (other) "c \<noteq> BS" "c \<noteq> QT" by blast
  then show ?case
  proof cases
    case bs
    then show ?thesis using 2(1) by (simp add: replicate_app_Cons_same)
  next
    case qt
    then show ?thesis using argv_rulesD(2) [OF assms(1), of True b] 2(2) by (simp add: mult.commute)
  next
    case other
    then show ?thesis using argv_rulesD(3) [OF assms(1), of c True b] 2(3) by simp
  qed
qed

lemma tok_plain:
  assumes "argv_rules tok" "ends_arg rest"
  shows "\<not> list_ex special cs \<Longrightarrow> tok False (replicate b BS @ cs @ rest) = (replicate b BS @ cs, rest)"
proof (induction cs arbitrary: b)
  case Nil
  then show ?case using tok_end [OF assms] by simp
next
  case (Cons c cs)
  then have c: "\<not> arg_blank c" "c \<noteq> QT" by (auto simp: special_def arg_blank_def)
  show ?case
  proof (cases "c = BS")
    case True
    then show ?thesis using Cons.IH [of "Suc b"] Cons.prems by (simp add: replicate_app_Cons_same)
  next
    case False
    then show ?thesis using argv_rulesD(3) [OF assms(1), of c False b "cs @ rest"] Cons.IH [of 0] Cons.prems c by simp
  qed
qed

lemma tok_arg:
  assumes "argv_rules tok" "ends_arg rest"
  shows "tok False (quote_arg a @ rest) = (a, rest)"
proof (cases "a \<noteq> [] \<and> \<not> list_ex special a")
  case True
  then show ?thesis using tok_plain [OF assms, of a 0] by (simp add: quote_arg_def)
next
  case False
  then have "quote_arg a = QT # quote_loop a 0" unfolding quote_arg_def by (rule if_not_P)
  then show ?thesis
    using argv_rulesD(1) [OF assms(1), of False "quote_loop a 0 @ rest" 0] tok_quoted [OF assms, of a 0] by simp
qed

text \<open>A line from which these arguments, and no others, are read one after the other.\<close>

fun reads :: "(bool \<Rightarrow> string \<Rightarrow> string \<times> string) \<Rightarrow> string \<Rightarrow> string list \<Rightarrow> bool" where
  "reads tok l [] \<longleftrightarrow> l = []"
| "reads tok l [a] \<longleftrightarrow> tok False l = (a, [])"
| "reads tok l (a # b # as) \<longleftrightarrow> (\<exists>c r. tok False l = (a, c # r) \<and> arg_blank c \<and> reads tok r (b # as))"

lemma join_from_Suc: "join_from (Suc j) xs = join_from (Suc k) xs"
proof (induction xs arbitrary: j k)
  case (Cons a as)
  from Cons [of "Suc j" "Suc k"] show ?case by simp
qed simp


text \<open>A reader that keeps the rules.\<close>

fun read_arg :: "nat \<Rightarrow> bool \<Rightarrow> string \<Rightarrow> string \<times> string" where
  "read_arg b q [] = (replicate b BS, [])"
| "read_arg b q (c # s) =
     (if c = BS then read_arg (b + 1) q s
      else if c = QT
      then (if even b then map_prod (append (replicate (b div 2) BS)) id (read_arg 0 (\<not> q) s)
            else map_prod (append (replicate (b div 2) BS @ [QT])) id (read_arg 0 q s))
      else if q \<or> \<not> arg_blank c then map_prod (append (replicate b BS @ [c])) id (read_arg 0 q s)
      else (replicate b BS, c # s))"

lemma read_arg_BS: "read_arg b q (replicate n BS @ s) = read_arg (b + n) q s"
  by (induction n arbitrary: b) auto

lemma read_arg_rules: "argv_rules (read_arg 0)"
  using read_arg_BS [of 0 _ _ "[]"] by (auto simp: argv_rules_def read_arg_BS arg_blank_def)


section \<open>The form for cmd\<close>

lemma join_from_append: "join_from i (as @ [a]) = join_from i as @ (if i + length as \<noteq> 0 then '' '' else []) @ quote_arg a"
  by (induction as arbitrary: i) auto

lemma quote_rest_join: "as \<noteq> [] \<Longrightarrow> quote_rest as = join_from (Suc i) (butlast as)"
proof (induction as arbitrary: i rule: quote_rest.induct)
  case (1 a b as)
  then show ?case using 1(1) [of "Suc i"] by simp
qed auto

text \<open>The line for \<^verbatim>\<open>cmd /c payload\<close> is the usual one up to the payload, which follows as it is between two quotes.\<close>

theorem cmd_form_payload:
  assumes "cmd_form_command_line argv \<noteq> []"
  shows "cmd_form_command_line argv = join_command_line (butlast argv) @ '' '' @ [QT] @ last argv @ [QT]"
proof -
  from assms have len: "3 \<le> length argv" by (auto simp: cmd_form_command_line_def split: if_splits)
  then obtain a as where a: "argv = a # as" "as \<noteq> []" by (cases argv; cases "tl argv") auto
  have "quote_rest as = join_from 1 (butlast as)" using quote_rest_join [OF a(2), of 0] by simp
  then show ?thesis using assms a by (auto simp: cmd_form_command_line_def join_command_line_def split: if_splits)
qed

end
