(* ===== verification/File_Lock.thy ===== *)
theory File_Lock
  imports Jaal_Prelude
begin

text \<open>
  File locks: the bounded wait of \<^verbatim>\<open>platform/file_lock.hpp\<close>, over any lock, and the scripted lock of
  \<^verbatim>\<open>src/platform/sim/file_lock.cpp\<close>.
\<close>

section \<open>The scripted lock\<close>

datatype lock_mode = Exclusive | Shared

datatype lock_error = Errno int | Deadlock

record fact =
  fa_held_by_other :: bool
  fa_fail_errno :: int
  fa_acquisitions :: int

definition no_fact :: fact where
  "no_fact = \<lparr>fa_held_by_other = False, fa_fail_errno = 0, fa_acquisitions = 0\<rparr>"

text \<open>A target nobody named has the default fact.\<close>

type_synonym facts = "string \<Rightarrow> fact"

definition lw_hold :: "string \<Rightarrow> facts \<Rightarrow> facts" where
  "lw_hold target f = f(target := (f target)\<lparr>fa_held_by_other := True\<rparr>)"

definition lw_drop :: "string \<Rightarrow> facts \<Rightarrow> facts" where
  "lw_drop target f = f(target := (f target)\<lparr>fa_held_by_other := False\<rparr>)"

definition lw_fail :: "string \<Rightarrow> int \<Rightarrow> facts \<Rightarrow> facts" where
  "lw_fail target err f = f(target := (f target)\<lparr>fa_fail_errno := err\<rparr>)"

definition lw_reset :: facts where
  "lw_reset = (\<lambda>_. no_fact)"

definition lock_sidecar_for :: "string \<Rightarrow> string" where
  "lock_sidecar_for target = target @ ''.lock''"

record sim_lock =
  lk_target :: string
  lk_sidecar :: string
  lk_held :: bool

text \<open>The end both ways of acquiring share.\<close>

definition granted :: "string \<Rightarrow> lock_mode \<Rightarrow> facts \<Rightarrow> sim_lock \<times> facts" where
  "granted target m f =
     (let a = (f target)\<lparr>fa_acquisitions := fa_acquisitions (f target) + 1\<rparr>;
          b = (if m = Exclusive then a\<lparr>fa_held_by_other := True\<rparr> else a)
      in (\<lparr>lk_target = target, lk_sidecar = lock_sidecar_for target, lk_held = True\<rparr>, f(target := b)))"

definition sim_acquire :: "string \<Rightarrow> lock_mode \<Rightarrow> facts \<Rightarrow> (lock_error + sim_lock) \<times> facts" where
  "sim_acquire target m f =
     (if fa_fail_errno (f target) \<noteq> 0 then (Inl (Errno (fa_fail_errno (f target))), f)
      else if fa_held_by_other (f target) \<and> m = Exclusive then (Inl Deadlock, f)
      else (case granted target m f of (l, f1) \<Rightarrow> (Inr l, f1)))"

definition sim_try_acquire :: "string \<Rightarrow> lock_mode \<Rightarrow> facts \<Rightarrow> (lock_error + sim_lock option) \<times> facts" where
  "sim_try_acquire target m f =
     (if fa_fail_errno (f target) \<noteq> 0 then (Inl (Errno (fa_fail_errno (f target))), f)
      else if fa_held_by_other (f target) \<and> m = Exclusive then (Inr None, f)
      else (case granted target m f of (l, f1) \<Rightarrow> (Inr (Some l), f1)))"

text \<open>\<^verbatim>\<open>release\<close>, which the destructor repeats.\<close>

definition sim_release :: "sim_lock \<Rightarrow> facts \<Rightarrow> sim_lock \<times> facts" where
  "sim_release l f =
     (if \<not> lk_held l then (l, f)
      else (l\<lparr>lk_held := False\<rparr>, f(lk_target l := (f (lk_target l))\<lparr>fa_held_by_other := False\<rparr>)))"

text \<open>Locks of a program that asks only for exclusive ones and leaves the script alone.\<close>

record locks =
  ls_locks :: "nat \<Rightarrow> sim_lock option"
  ls_facts :: facts

inductive lstep :: "locks \<Rightarrow> locks \<Rightarrow> bool" where
  l_take: "ls_locks s x = None \<Longrightarrow> sim_try_acquire target Exclusive (ls_facts s) = (Inr (Some l), f) \<Longrightarrow>
    lstep s \<lparr>ls_locks = (ls_locks s)(x \<mapsto> l), ls_facts = f\<rparr>"
| l_release: "ls_locks s x = Some l \<Longrightarrow> sim_release l (ls_facts s) = (l', f) \<Longrightarrow>
    lstep s \<lparr>ls_locks = (ls_locks s)(x \<mapsto> l'), ls_facts = f\<rparr>"
| l_destroy: "ls_locks s x = Some l \<Longrightarrow> sim_release l (ls_facts s) = (l', f) \<Longrightarrow>
    lstep s \<lparr>ls_locks = (ls_locks s)(x := None), ls_facts = f\<rparr>"

definition holds_lock :: "locks \<Rightarrow> string \<Rightarrow> nat \<Rightarrow> bool" where
  "holds_lock s target x \<longleftrightarrow> (\<exists>l. ls_locks s x = Some l \<and> lk_held l \<and> lk_target l = target)"

definition locks_ok :: "locks \<Rightarrow> bool" where
  "locks_ok s \<longleftrightarrow> (\<forall>target x. holds_lock s target x \<longrightarrow> fa_held_by_other (ls_facts s target) \<and> (\<forall>y. holds_lock s target y \<longrightarrow> y = x))"

lemma locks_ok_step:
  assumes "lstep s s'" "locks_ok s"
  shows "locks_ok s'"
  using assms
proof (induction rule: lstep.induct)
  case (l_take s x target l f)
  then have l: "l = \<lparr>lk_target = target, lk_sidecar = lock_sidecar_for target, lk_held = True\<rparr>"
    "fa_held_by_other (f target)" "\<not> fa_held_by_other (ls_facts s target)" "\<And>t. t \<noteq> target \<Longrightarrow> f t = ls_facts s t"
    by (auto simp: sim_try_acquire_def granted_def Let_def split: if_splits)
  have "holds_lock \<lparr>ls_locks = (ls_locks s)(x \<mapsto> l), ls_facts = f\<rparr> t y \<longleftrightarrow> (y = x \<and> t = target) \<or> (y \<noteq> x \<and> holds_lock s t y)" for t y
    using l(1) by (auto simp: holds_lock_def)
  then show ?case using l l_take.prems l_take.hyps(1) unfolding locks_ok_def by (metis locks.select_convs(2))
next
  case (l_release s x l l' f)
  have h: "holds_lock \<lparr>ls_locks = (ls_locks s)(x \<mapsto> l'), ls_facts = f\<rparr> t y \<longleftrightarrow> y \<noteq> x \<and> holds_lock s t y" for t y
    using l_release by (auto simp: holds_lock_def sim_release_def split: if_splits)
  have "f t = ls_facts s t" if "holds_lock s t y" "y \<noteq> x" for t y
    using that l_release unfolding locks_ok_def holds_lock_def by (auto simp: sim_release_def split: if_splits)
  then show ?case using h l_release.prems unfolding locks_ok_def by (metis locks.select_convs(2))
next
  case (l_destroy s x l l' f)
  have h: "holds_lock \<lparr>ls_locks = (ls_locks s)(x := None), ls_facts = f\<rparr> t y \<longleftrightarrow> y \<noteq> x \<and> holds_lock s t y" for t y
    using l_destroy by (auto simp: holds_lock_def)
  have "f t = ls_facts s t" if "holds_lock s t y" "y \<noteq> x" for t y
    using that l_destroy unfolding locks_ok_def holds_lock_def by (auto simp: sim_release_def split: if_splits)
  then show ?case using h l_destroy.prems unfolding locks_ok_def by (metis locks.select_convs(2))
qed

text \<open>Exclusive locks exclude each other.\<close>

theorem sim_lock_exclusive:
  assumes "lstep\<^sup>*\<^sup>* \<lparr>ls_locks = \<lambda>_. None, ls_facts = lw_reset\<rparr> s" "holds_lock s target x" "holds_lock s target y"
  shows "x = y"
proof -
  have "locks_ok s" using assms(1)
    by (induction rule: rtranclp_induct) (use locks_ok_step in \<open>auto simp: locks_ok_def holds_lock_def\<close>)
  then show ?thesis using assms(2,3) unfolding locks_ok_def by metis
qed

text \<open>A shared lock is granted while an exclusive one is held, and giving it back lets a second exclusive one in.\<close>

theorem sim_shared_breaks_exclusive:
  "\<exists>l1 l2 l3 f1 f2 f3. sim_try_acquire t Exclusive lw_reset = (Inr (Some l1), f1) \<and> sim_try_acquire t Shared f1 = (Inr (Some l2), f2)
     \<and> sim_try_acquire t Exclusive (snd (sim_release l2 f2)) = (Inr (Some l3), f3) \<and> lk_held l1 \<and> lk_held l3"
  by (simp add: sim_try_acquire_def granted_def sim_release_def lw_reset_def no_fact_def)

section \<open>Waiting a bounded time\<close>

definition ms :: int where
  "ms = 1000000"

text \<open>The loop of \<^verbatim>\<open>acquire_within\<close> over any lock: what each \<^verbatim>\<open>try_acquire\<close> returned and the time after it. Durations are in
  nanoseconds, the step in milliseconds; beside the result, absent while the call has not returned, stand the
  sleeps.\<close>

fun within_loop :: "int \<Rightarrow> int \<Rightarrow> (('e + 'l option) \<times> int) list \<Rightarrow> int list \<times> ('e + 'l option) option" where
  "within_loop step deadline [] = ([], None)"
| "within_loop step deadline ((got, now) # rest) =
     (case got of
        Inr None \<Rightarrow>
          (if now \<ge> deadline then ([], Some (Inr None))
           else (let d = min (step * ms) (deadline - now); (ds, r) = within_loop (min (step * 2) 8) deadline rest in (d # ds, r)))
      | _ \<Rightarrow> ([], Some got))"

definition acquire_within :: "int \<Rightarrow> int \<Rightarrow> (('e + 'l option) \<times> int) list \<Rightarrow> int list \<times> ('e + 'l option) option" where
  "acquire_within start limit answers = within_loop 1 (start + limit * ms) answers"

lemma within_loop_sleeps:
  assumes "within_loop step dl answers = (ds, r)" "1 \<le> step" "step \<le> 8"
  shows "length ds \<le> length answers \<and> (\<forall>i < length ds. 0 < ds ! i \<and> ds ! i \<le> 8 * ms \<and> snd (answers ! i) + ds ! i \<le> dl)
    \<and> (r = Some (Inr None) \<longrightarrow> length ds < length answers \<and> dl \<le> snd (answers ! length ds))"
  using assms
proof (induction step dl answers arbitrary: ds rule: within_loop.induct)
  case (2 step dl got now rest)
  show ?case
  proof (cases "got = Inr None \<and> now < dl")
    case True
    define d where "d = min (step * ms) (dl - now)"
    obtain ds' where ds': "within_loop (min (step * 2) 8) dl rest = (ds', r)" "ds = d # ds'"
      using "2.prems"(1) True by (auto simp: d_def Let_def split: prod.splits)
    have d: "0 < d \<and> d \<le> 8 * ms \<and> now + d \<le> dl" using True "2.prems"(2,3) by (auto simp: d_def ms_def)
    have "1 \<le> min (step * 2) 8" "min (step * 2) 8 \<le> 8" using "2.prems"(2) by auto
    from "2.IH" [OF _ _ _ _ ds'(1) this] True
    have ih: "length ds' \<le> length rest" "\<forall>i < length ds'. 0 < ds' ! i \<and> ds' ! i \<le> 8 * ms \<and> snd (rest ! i) + ds' ! i \<le> dl"
      "r = Some (Inr None) \<longrightarrow> length ds' < length rest \<and> dl \<le> snd (rest ! length ds')" by auto
    show ?thesis unfolding ds'(2) length_Cons All_less_Suc2 using ih d by simp
  next
    case False
    then have "ds = []" "r = Some (Inr None) \<longrightarrow> dl \<le> now" using "2.prems"(1) by (auto split: sum.splits option.splits if_splits)
    then show ?thesis by simp
  qed
qed simp

text \<open>How many more tries the time left allows.\<close>

definition tries :: "int \<Rightarrow> int \<Rightarrow> nat" where
  "tries dl now = nat ((dl - now + ms - 1) div ms)"

lemma tries_less: "now < dl \<Longrightarrow> now + d \<le> now' \<Longrightarrow> d \<ge> ms \<or> now + d \<ge> dl \<Longrightarrow> tries dl now' < tries dl now"
proof -
  assume a: "now < dl" "now + d \<le> now'" "d \<ge> ms \<or> now + d \<ge> dl"
  have "(dl - now' + ms - 1) div ms \<le> (max (dl - now) ms - ms + ms - 1) div ms"
    using a by (intro zdiv_mono1) (auto simp: ms_def)
  also have "\<dots> < (dl - now + ms - 1) div ms" using a(1) by (auto simp: ms_def max_def)
  finally have "(dl - now' + ms - 1) div ms < (dl - now + ms - 1) div ms" .
  moreover have "0 < (dl - now + ms - 1) div ms" using a(1) by (simp add: ms_def)
  ultimately show ?thesis unfolding tries_def by simp
qed

lemma within_loop_returns:
  assumes "within_loop step dl answers = (ds, r)" "1 \<le> step" "answers \<noteq> []" "tries dl (snd (hd answers)) < length answers"
    "\<forall>i < length ds. i + 1 < length answers \<longrightarrow> snd (answers ! i) + ds ! i \<le> snd (answers ! (i + 1))"
  shows "r \<noteq> None"
  using assms
proof (induction step dl answers arbitrary: ds rule: within_loop.induct)
  case (2 step dl got now rest)
  show ?case
  proof (cases "got = Inr None \<and> now < dl")
    case True
    define d where "d = min (step * ms) (dl - now)"
    obtain ds' where ds': "within_loop (min (step * 2) 8) dl rest = (ds', r)" "ds = d # ds'"
      using "2.prems"(1) True by (auto simp: d_def Let_def split: prod.splits)
    have pos: "0 < tries dl now" using True by (simp add: tries_def ms_def pos_imp_zdiv_pos_iff)
    then obtain g n as where rest: "rest = (g, n) # as" using "2.prems"(4) by (cases rest) auto
    have "now + d \<le> n" using "2.prems"(5) ds'(2) rest by (auto dest: spec [of _ 0])
    moreover have "ms \<le> d \<or> dl \<le> now + d" using "2.prems"(2) by (auto simp: d_def ms_def)
    ultimately have less: "tries dl n < tries dl now" using tries_less True by blast
    have tick: "\<forall>i < length ds'. i + 1 < length rest \<longrightarrow> snd (rest ! i) + ds' ! i \<le> snd (rest ! (i + 1))"
    proof (intro allI impI)
      fix i assume "i < length ds'" "i + 1 < length rest"
      then show "snd (rest ! i) + ds' ! i \<le> snd (rest ! (i + 1))" using "2.prems"(5) [rule_format, of "Suc i"] ds'(2) by simp
    qed
    have more: "rest \<noteq> []" "tries dl (snd (hd rest)) < length rest" using less "2.prems"(4) rest by auto
    have "1 \<le> min (step * 2) 8" using "2.prems"(2) by auto
    from "2.IH" [OF _ _ _ _ ds'(1) this more tick] True show ?thesis by simp
  next
    case False
    then show ?thesis using "2.prems"(1) by (auto split: sum.splits option.splits if_splits)
  qed
qed simp



end
