(* ===== verification/Process.thy ===== *)
theory Process
  imports Jaal_Prelude
begin

text \<open>
  How a child process is started and how it ends (\<^verbatim>\<open>platform/process.hpp\<close>), and the contract of its backends:
  \<^verbatim>\<open>reap\<close> of a child that has ended is stable, whatever else is called.
\<close>

section \<open>How a child is started, and how it ends\<close>

datatype stream_to = To_Pipe | To_Null | To_Inherit

record process_spec =
  ps_argv :: "string list"
  ps_env :: "(string \<times> string) list"
  ps_env_is_complete :: bool
  ps_cwd :: string
  ps_stdin_from :: stream_to
  ps_stdout_to :: stream_to
  ps_stderr_to :: stream_to
  ps_merge_stderr :: bool
  ps_new_session :: bool
  ps_windows_command_line :: string

text \<open>The defaults of the members.\<close>

definition default_spec :: process_spec where
  "default_spec = \<lparr>ps_argv = [], ps_env = [], ps_env_is_complete = False, ps_cwd = [], ps_stdin_from = To_Null,
     ps_stdout_to = To_Pipe, ps_stderr_to = To_Pipe, ps_merge_stderr = False, ps_new_session = True,
     ps_windows_command_line = []\<rparr>"

datatype exit_kind = Exited | Signalled

record exit_status =
  ex_how :: exit_kind
  ex_code :: int

definition exit_ok :: "exit_status \<Rightarrow> bool" where
  "exit_ok s \<longleftrightarrow> ex_how s = Exited \<and> ex_code s = 0"

datatype stop_mode = Graceful | Forceful

datatype stop_scope = Leader | Tree

section \<open>The contract\<close>

text \<open>
  \<open>stop_child\<close> and \<open>reap_child\<close> are given what the system answers to their calls. A child is \<open>over\<close> once
  its status is in the object.
\<close>

datatype 'a child_op = Stop 'a stop_mode stop_scope | Reap 'a

locale child_contract =
  fixes over :: "'s \<Rightarrow> bool"
    and final :: "'s \<Rightarrow> exit_status"
    and stop_child :: "'a \<Rightarrow> stop_mode \<Rightarrow> stop_scope \<Rightarrow> 's \<Rightarrow> 's"
    and reap_child :: "'a \<Rightarrow> 's \<Rightarrow> exit_status option \<times> 's"
  assumes stop_over: "over s \<Longrightarrow> stop_child a m c s = s"
    and reap_over: "over s \<Longrightarrow> fst (reap_child a s) = Some (final s) \<and> over (snd (reap_child a s)) \<and>
      final (snd (reap_child a s)) = final s"
    and reap_status: "fst (reap_child a s) = Some x \<Longrightarrow> over (snd (reap_child a s)) \<and> final (snd (reap_child a s)) = x"
begin

primrec run_child :: "'a child_op list \<Rightarrow> 's \<Rightarrow> exit_status option list \<times> 's" where
  "run_child [] s = ([], s)"
| "run_child (q # ops) s =
     (case q of
        Stop a m c \<Rightarrow> run_child ops (stop_child a m c s)
      | Reap a \<Rightarrow> (case reap_child a s of (r, s1) \<Rightarrow> (case run_child ops s1 of (rs, s2) \<Rightarrow> (r # rs, s2))))"

lemma run_over:
  assumes "over s"
  shows "set (fst (run_child ops s)) \<subseteq> {Some (final s)} \<and> over (snd (run_child ops s)) \<and>
    final (snd (run_child ops s)) = final s"
  using assms
proof (induction ops arbitrary: s)
  case Nil
  then show ?case by simp
next
  case (Cons q ops)
  show ?case
  proof (cases q)
    case (Stop a m c)
    then show ?thesis using Cons by (simp add: stop_over)
  next
    case (Reap a)
    obtain r s1 where r: "reap_child a s = (r, s1)" by (cases "reap_child a s")
    have s1: "r = Some (final s)" "over s1" "final s1 = final s" using reap_over [OF Cons.prems, of a] r by auto
    obtain rs s2 where rs: "run_child ops s1 = (rs, s2)" by (cases "run_child ops s1")
    show ?thesis using Cons.IH [OF s1(2)] s1 r rs Reap by auto
  qed
qed

text \<open>Every status a sequence of calls returns is the same one.\<close>

lemma run_one_status:
  "\<exists>x. set (fst (run_child ops s)) \<subseteq> {None, Some x}"
proof (induction ops arbitrary: s)
  case Nil
  then show ?case by simp
next
  case (Cons q ops)
  show ?case
  proof (cases q)
    case (Stop a m c)
    then show ?thesis using Cons by simp
  next
    case (Reap a)
    obtain r s1 where r: "reap_child a s = (r, s1)" by (cases "reap_child a s")
    obtain rs s2 where rs: "run_child ops s1 = (rs, s2)" by (cases "run_child ops s1")
    show ?thesis
    proof (cases r)
      case None
      then show ?thesis using Cons.IH [of s1] r rs Reap by auto
    next
      case (Some x)
      then have "over s1" "final s1 = x" using reap_status [of a s x] r by auto
      then show ?thesis using run_over [of s1 ops] r rs Reap Some by (intro exI [of _ x]) auto
    qed
  qed
qed

end

end
