(* ===== verification/Posix_Process.thy ===== *)
theory Posix_Process
  imports Process
begin

text \<open>
  Child processes on POSIX systems (\<^verbatim>\<open>src/platform/posix/process.cpp\<close>): what a started program finds in its
  descriptor table, environment and signal state, how a failed start is report_reaches, and signalling and reaping.
  The answers of the system are fields of \<open>posix\<close>; descriptor tables are maps, and the effect of a call on
  them (\<^verbatim>\<open>pipe2\<close>, \<^verbatim>\<open>dup2\<close>, \<^verbatim>\<open>close\<close>, \<^verbatim>\<open>close_range\<close>, \<^verbatim>\<open>exec\<close>) is written out.
\<close>

section \<open>Descriptor tables\<close>

datatype pipe_name = P_out | P_err | P_in | P_report | P_death

datatype open_file = Old nat | Read_End pipe_name | Write_End pipe_name | Dev_Null | Pid_Fd int

text \<open>An entry is the open file and its close-on-exec flag.\<close>

type_synonym fd_table = "int \<rightharpoonup> open_file \<times> bool"

record pipe_pair =
  pp_r :: int
  pp_w :: int

definition no_pipe :: pipe_pair where
  "no_pipe = \<lparr>pp_r = -1, pp_w = -1\<rparr>"

definition close_fd :: "int \<Rightarrow> fd_table \<Rightarrow> fd_table" where
  "close_fd fd t = t(fd := None)"

definition close_end :: "int \<Rightarrow> fd_table \<Rightarrow> fd_table" where
  "close_end fd t = (if fd \<ge> 0 then close_fd fd t else t)"

definition close_both :: "pipe_pair \<Rightarrow> fd_table \<Rightarrow> fd_table" where
  "close_both p t = close_end (pp_w p) (close_end (pp_r p) t)"

text \<open>A call of \<^verbatim>\<open>close_range\<close> that the kernel carries out; one it refuses changes nothing.\<close>

definition close_range :: "int \<Rightarrow> int \<Rightarrow> fd_table \<Rightarrow> fd_table" where
  "close_range lo hi t = (\<lambda>fd. if lo \<le> fd \<and> fd \<le> hi then None else t fd)"

definition try_close_range :: "(int \<Rightarrow> int \<Rightarrow> bool) \<Rightarrow> int \<Rightarrow> int \<Rightarrow> bool \<times> fd_table \<Rightarrow> bool \<times> fd_table" where
  "try_close_range granted lo hi s =
     (if fst s \<and> granted lo hi then (True, close_range lo hi (snd s)) else (False, snd s))"

text \<open>One round of the loop over the two descriptors to keep.\<close>

definition skip_kept :: "(int \<Rightarrow> int \<Rightarrow> bool) \<Rightarrow> int \<Rightarrow> int \<times> bool \<times> fd_table \<Rightarrow> int \<times> bool \<times> fd_table" where
  "skip_kept granted k s =
     (case s of (lo, r) \<Rightarrow>
        if k < lo then (lo, r)
        else (k + 1, if k > lo then try_close_range granted lo (k - 1) r else r))"

function close_loop :: "int \<Rightarrow> int \<Rightarrow> int \<Rightarrow> int \<Rightarrow> fd_table \<Rightarrow> fd_table" where
  "close_loop fd up a b t =
     (if fd < up then close_loop (fd + 1) up a b (if fd \<noteq> a \<and> fd \<noteq> b then close_fd fd t else t) else t)"
  by auto
termination
  by (relation "measure (\<lambda>(fd, up, _). nat (up - fd))") auto

declare close_loop.simps [simp del]

definition loop_top :: "int \<Rightarrow> int" where
  "loop_top open_max = (if open_max > 0 \<and> open_max < 2 ^ 16 then open_max else 2 ^ 16)"

definition close_fds_above_stderr ::
  "bool \<Rightarrow> (int \<Rightarrow> int \<Rightarrow> bool) \<Rightarrow> int \<Rightarrow> int \<Rightarrow> int \<Rightarrow> fd_table \<Rightarrow> fd_table" where
  "close_fds_above_stderr linux granted open_max a0 b0 t =
     (let (a, b) = (if a0 > b0 then (b0, a0) else (a0, b0));
          (ok, t1) = (if linux
             then (case skip_kept granted b (skip_kept granted a (3, True, t)) of
                     (lo, r) \<Rightarrow> try_close_range granted lo (2 ^ 32 - 1) r)
             else (False, t))
      in if ok then t1 else close_loop 3 (loop_top open_max) a b t1)"

section \<open>Starting a child\<close>

record impl =
  im_pid :: int
  im_out :: pipe_pair
  im_err :: pipe_pair
  im_in :: pipe_pair
  im_death :: pipe_pair
  im_pidfd :: int
  im_merged :: bool
  im_claimed_group :: bool
  im_adopted :: bool
  im_reaped :: bool
  im_exit_exact :: bool
  im_status :: exit_status

definition new_impl :: impl where
  "new_impl = \<lparr>im_pid = -1, im_out = no_pipe, im_err = no_pipe, im_in = no_pipe, im_death = no_pipe, im_pidfd = -1,
     im_merged = False, im_claimed_group = False, im_adopted = False, im_reaped = False, im_exit_exact = False,
     im_status = \<lparr>ex_how = Exited, ex_code = 0\<rparr>\<rparr>"

text \<open>What the system answers during a start. An error is its \<^verbatim>\<open>errno\<close>.\<close>

record posix =
  sy_linux :: bool
  sy_pipe :: "fd_table \<Rightarrow> int + int \<times> int"
  sy_fork :: "int + int"
  sy_pidfd_open :: "fd_table \<Rightarrow> int"
  sy_setsid :: bool
  sy_chdir :: "string \<Rightarrow> int option"
  sy_open_null :: "fd_table \<Rightarrow> int option"
  sy_dup2 :: "int \<Rightarrow> int \<Rightarrow> int option"
  sy_close_range :: "int \<Rightarrow> int \<Rightarrow> bool"
  sy_open_max :: int
  sy_nsig :: nat
  sy_sigstop :: nat
  sy_exec :: "string list \<Rightarrow> string list \<Rightarrow> int option"
  sy_environ :: "string list"

datatype spawn_error = Empty_Argv | Pipe_Failed int | Fork_Failed int | Exec_Failed int | No_Pid | Not_Watchable

definition pipe_open :: "posix \<Rightarrow> pipe_name \<Rightarrow> bool \<Rightarrow> fd_table \<Rightarrow> int + pipe_pair \<times> fd_table" where
  "pipe_open sys n cloexec t =
     (case sy_pipe sys t of
        Inl e \<Rightarrow> Inl e
      | Inr (r, w) \<Rightarrow> Inr (\<lparr>pp_r = r, pp_w = w\<rparr>, t(r \<mapsto> (Read_End n, cloexec), w \<mapsto> (Write_End n, cloexec))))"

definition pipe_if :: "bool \<Rightarrow> posix \<Rightarrow> pipe_name \<Rightarrow> bool \<Rightarrow> fd_table \<Rightarrow> int + pipe_pair \<times> fd_table" where
  "pipe_if want sys n cloexec t = (if want then pipe_open sys n cloexec t else Inr (no_pipe, t))"

definition want_out :: "process_spec \<Rightarrow> bool" where
  "want_out spec \<longleftrightarrow> ps_stdout_to spec = To_Pipe"

definition want_err :: "process_spec \<Rightarrow> bool" where
  "want_err spec \<longleftrightarrow> ps_stderr_to spec = To_Pipe \<and> \<not> ps_merge_stderr spec"

definition want_in :: "process_spec \<Rightarrow> bool" where
  "want_in spec \<longleftrightarrow> ps_stdin_from spec = To_Pipe"

text \<open>The entries a child gets, or nothing when it inherits the parent's environment as it is.\<close>

definition env_store :: "process_spec \<Rightarrow> string list \<Rightarrow> string list option" where
  "env_store spec environ =
     (if ps_env spec \<noteq> [] \<or> ps_env_is_complete spec
      then Some ((if ps_env_is_complete spec then [] else environ) @ map (\<lambda>(k, v). k @ ''='' @ v) (ps_env spec))
      else None)"

text \<open>\<^verbatim>\<open>getenv\<close> of the C library: the value of the first entry of that name.\<close>

fun getenv :: "string \<Rightarrow> string list \<Rightarrow> string option" where
  "getenv k [] = None"
| "getenv k (e # es) = (if take (length k + 1) e = k @ ''='' then Some (drop (length k + 1) e) else getenv k es)"

text \<open>
  The destructor of the streams: every end still open is closed, and the exit descriptor. \<open>~impl\<close> signals a
  child that was never reaped, see below.
\<close>

definition close_impl :: "impl \<Rightarrow> fd_table \<Rightarrow> fd_table" where
  "close_impl s t = close_end (im_pidfd s) (close_both (im_death s) (close_both (im_in s) (close_both (im_err s) (close_both (im_out s) t))))"

subsection \<open>The child's side\<close>

datatype disposition = Default | Ignore | Handler nat

record signal_state =
  sg_disp :: "nat \<Rightarrow> disposition"
  sg_mask :: "nat set"

record started_program =
  pr_fds :: "int \<rightharpoonup> open_file"
  pr_argv :: "string list"
  pr_env :: "string list"
  pr_signals :: signal_state
  pr_own_session :: bool

text \<open>
  A child that fails dies with the error and says whether the report was written into the report pipe: the
  descriptor \<^verbatim>\<open>report.w\<close> may name another file by then.
\<close>

datatype child_end = Started started_program | Died int bool

definition report_reaches :: "int \<Rightarrow> fd_table \<Rightarrow> bool" where
  "report_reaches w t \<longleftrightarrow> (case t w of Some (Write_End P_report, _) \<Rightarrow> True | _ \<Rightarrow> False)"

definition dup2 :: "posix \<Rightarrow> int \<Rightarrow> int \<Rightarrow> fd_table \<Rightarrow> int + fd_table" where
  "dup2 sys old new t =
     (case sy_dup2 sys old new of
        Some e \<Rightarrow> Inl e
      | None \<Rightarrow> (case t old of
          None \<Rightarrow> Inl 9
        | Some (f, _) \<Rightarrow> Inr (if old = new then t else t(new \<mapsto> (f, False)))))"

text \<open>A \<^verbatim>\<open>dup2\<close> whose failure is fatal, and the one to \<^verbatim>\<open>/dev/null\<close>, whose failure is not.\<close>

definition dup2_null :: "posix \<Rightarrow> int option \<Rightarrow> int \<Rightarrow> fd_table \<Rightarrow> fd_table" where
  "dup2_null sys devnull new t =
     (case devnull of
        None \<Rightarrow> t
      | Some d \<Rightarrow> (case dup2 sys d new t of Inl _ \<Rightarrow> t | Inr t1 \<Rightarrow> t1))"

definition place_stdin :: "posix \<Rightarrow> process_spec \<Rightarrow> impl \<Rightarrow> int option \<Rightarrow> fd_table \<Rightarrow> int + fd_table" where
  "place_stdin sys spec s devnull t =
     (if want_in spec then dup2 sys (pp_r (im_in s)) 0 t
      else if ps_stdin_from spec = To_Null then Inr (dup2_null sys devnull 0 t)
      else Inr t)"

definition place_stdout :: "posix \<Rightarrow> process_spec \<Rightarrow> impl \<Rightarrow> int option \<Rightarrow> fd_table \<Rightarrow> int + fd_table" where
  "place_stdout sys spec s devnull t =
     (if want_out spec then dup2 sys (pp_w (im_out s)) 1 t
      else if ps_stdout_to spec = To_Null then Inr (dup2_null sys devnull 1 t)
      else Inr t)"

definition place_stderr :: "posix \<Rightarrow> process_spec \<Rightarrow> impl \<Rightarrow> int option \<Rightarrow> fd_table \<Rightarrow> int + fd_table" where
  "place_stderr sys spec s devnull t =
     (if im_merged s \<and> want_out spec then dup2 sys 1 2 t
      else if want_err spec then dup2 sys (pp_w (im_err s)) 2 t
      else if ps_stderr_to spec = To_Null then Inr (dup2_null sys devnull 2 t)
      else Inr t)"

definition reset_signals :: "nat \<Rightarrow> nat \<Rightarrow> signal_state \<Rightarrow> signal_state" where
  "reset_signals nsig sigstop g =
     \<lparr>sg_disp = fold (\<lambda>sig d. if sig \<noteq> 9 \<and> sig \<noteq> sigstop then d(sig := Default) else d) [1..<nsig] (sg_disp g), sg_mask = {}\<rparr>"

definition exec_table :: "fd_table \<Rightarrow> int \<rightharpoonup> open_file" where
  "exec_table t = (\<lambda>fd. case t fd of Some (f, False) \<Rightarrow> Some f | _ \<Rightarrow> None)"

text \<open>The three streams, each placed in the table the one before it left.\<close>

definition place_streams :: "posix \<Rightarrow> process_spec \<Rightarrow> impl \<Rightarrow> int option \<Rightarrow> fd_table \<Rightarrow> (int \<times> fd_table) + fd_table" where
  "place_streams sys spec s devnull t =
     (case place_stdin sys spec s devnull t of
        Inl e \<Rightarrow> Inl (e, t)
      | Inr t1 \<Rightarrow> (case place_stdout sys spec s devnull t1 of
          Inl e \<Rightarrow> Inl (e, t1)
        | Inr t2 \<Rightarrow> (case place_stderr sys spec s devnull t2 of
            Inl e \<Rightarrow> Inl (e, t2)
          | Inr t3 \<Rightarrow> Inr t3)))"

text \<open>Signals, descriptors, environment and \<^verbatim>\<open>exec\<close>.\<close>

definition run_program :: "posix \<Rightarrow> process_spec \<Rightarrow> impl \<Rightarrow> pipe_pair \<Rightarrow> signal_state \<Rightarrow> fd_table \<Rightarrow> child_end" where
  "run_program sys spec s report g t =
     (let t1 = close_fds_above_stderr (sy_linux sys) (sy_close_range sys) (sy_open_max sys) (pp_w report)
                 (if sy_linux sys then -1 else pp_w (im_death s)) t;
          env = (case env_store spec (sy_environ sys) of None \<Rightarrow> sy_environ sys | Some es \<Rightarrow> es)
      in case sy_exec sys (ps_argv spec) env of
           Some e \<Rightarrow> Died e (report_reaches (pp_w report) t1)
         | None \<Rightarrow> Started \<lparr>pr_fds = exec_table t1, pr_argv = ps_argv spec, pr_env = env,
                     pr_signals = reset_signals (sy_nsig sys) (sy_sigstop sys) g,
                     pr_own_session = (ps_new_session spec \<and> sy_setsid sys)\<rparr>)"

definition with_null :: "int option \<Rightarrow> fd_table \<Rightarrow> fd_table" where
  "with_null devnull t = (case devnull of None \<Rightarrow> t | Some d \<Rightarrow> t(d \<mapsto> (Dev_Null, True)))"

definition child_main :: "posix \<Rightarrow> process_spec \<Rightarrow> impl \<Rightarrow> pipe_pair \<Rightarrow> signal_state \<Rightarrow> fd_table \<Rightarrow> child_end" where
  "child_main sys spec s report g t =
     (case (if ps_cwd spec = [] then None else sy_chdir sys (ps_cwd spec)) of
        Some e \<Rightarrow> Died e (report_reaches (pp_w report) t)
      | None \<Rightarrow>
        (let devnull = sy_open_null sys t
         in case place_streams sys spec s devnull (with_null devnull t) of
              Inl (e, t1) \<Rightarrow> Died e (report_reaches (pp_w report) t1)
            | Inr t1 \<Rightarrow> run_program sys spec s report g t1))"

subsection \<open>The parent's side\<close>

text \<open>The four or five pipes. On an error the destructor closes the ones already open.\<close>

definition open_pipes :: "posix \<Rightarrow> process_spec \<Rightarrow> fd_table \<Rightarrow> (int \<times> fd_table) + impl \<times> pipe_pair \<times> fd_table" where
  "open_pipes sys spec t =
     (let s0 = new_impl\<lparr>im_merged := ps_merge_stderr spec\<rparr>
      in case pipe_if (want_out spec) sys P_out True t of
        Inl e \<Rightarrow> Inl (e, close_impl s0 t)
      | Inr (out, t1) \<Rightarrow>
        (let s1 = s0\<lparr>im_out := out\<rparr>
         in case pipe_if (want_err spec) sys P_err True t1 of
           Inl e \<Rightarrow> Inl (e, close_impl s1 t1)
         | Inr (err, t2) \<Rightarrow>
           (let s2 = s1\<lparr>im_err := err\<rparr>
            in case pipe_if (want_in spec) sys P_in True t2 of
              Inl e \<Rightarrow> Inl (e, close_impl s2 t2)
            | Inr (inp, t3) \<Rightarrow>
              (let s3 = s2\<lparr>im_in := inp\<rparr>
               in case pipe_open sys P_report True t3 of
                 Inl e \<Rightarrow> Inl (e, close_impl s3 t3)
               | Inr (report, t4) \<Rightarrow>
                 (case pipe_if (\<not> sy_linux sys) sys P_death False t4 of
                    Inl e \<Rightarrow> Inl (e, close_impl s3 (close_both report t4))
                  | Inr (death, t5) \<Rightarrow> Inr (s3\<lparr>im_death := death\<rparr>, report, t5))))))"

text \<open>The parent after \<^verbatim>\<open>fork\<close>: it keeps its ends only, and opens the exit descriptor.\<close>

definition parent_ends :: "posix \<Rightarrow> int \<Rightarrow> impl \<Rightarrow> pipe_pair \<Rightarrow> fd_table \<Rightarrow> impl \<times> fd_table" where
  "parent_ends sys pid s report t =
     (let t1 = close_end (pp_w (im_death s)) (close_end (pp_r (im_in s)) (close_end (pp_w (im_err s))
                 (close_end (pp_w (im_out s)) (close_end (pp_w report) t))));
          s1 = s\<lparr>im_pid := pid, im_out := (im_out s)\<lparr>pp_w := -1\<rparr>, im_err := (im_err s)\<lparr>pp_w := -1\<rparr>,
                 im_in := (im_in s)\<lparr>pp_r := -1\<rparr>, im_death := (im_death s)\<lparr>pp_w := -1\<rparr>\<rparr>
      in if sy_linux sys then
           (let d = sy_pidfd_open sys t1
            in (s1\<lparr>im_pidfd := d, im_exit_exact := d \<ge> 0\<rparr>, if d \<ge> 0 then t1(d \<mapsto> (Pid_Fd pid, True)) else t1))
         else (s1, t1))"

text \<open>
  \<^verbatim>\<open>spawn\<close>, with how the child ended up, the result and the parent's table. An interrupted read of the report
  is repeated and not visible here, and the non-blocking mode of the parent's ends is not part of a table.
\<close>

definition spawn ::
  "posix \<Rightarrow> process_spec \<Rightarrow> signal_state \<Rightarrow> fd_table \<Rightarrow> child_end option \<times> (spawn_error + impl) \<times> fd_table" where
  "spawn sys spec g t =
     (if ps_argv spec = [] then (None, Inl Empty_Argv, t)
      else case open_pipes sys spec t of
        Inl (e, t1) \<Rightarrow> (None, Inl (Pipe_Failed e), t1)
      | Inr (s, report, t1) \<Rightarrow>
        (case sy_fork sys of
           Inl e \<Rightarrow> (None, Inl (Fork_Failed e), close_impl s (close_both report t1))
         | Inr pid \<Rightarrow>
           (case parent_ends sys pid s report t1 of (s1, t2) \<Rightarrow>
              (let child = child_main sys spec s report g t1;
                   child_errno = (case child of Died e True \<Rightarrow> e | _ \<Rightarrow> 0);
                   t3 = close_end (pp_r report) t2
               in if child_errno \<noteq> 0 then (Some child, Inl (Exec_Failed child_errno), close_impl s1 t3)
                  else (Some child, Inr s1, t3)))))"

section \<open>Watching, signalling and reaping\<close>

datatype sys_call = Kill int int | Pidfd_Signal int int | Wait int bool

datatype wait_status = Ws_Exited int | Ws_Signaled int | Ws_Other

datatype wait_answer = Interrupted | Not_Yet | Wait_Error int | Ended wait_status

text \<open>What the system answers to one call of \<^verbatim>\<open>stop\<close>, \<^verbatim>\<open>reap\<close> or the destructor.\<close>

record answers =
  an_linux :: bool
  an_getpgid :: "int \<Rightarrow> int"
  an_kill :: "int \<Rightarrow> int \<Rightarrow> int option"
  an_pidfd_signal :: "int \<Rightarrow> int \<Rightarrow> bool"
  an_death_ready :: bool
  an_waits :: "wait_answer list"

datatype process_error = Kill_Failed int | Nothing_To_Reap | Still_Running | Wait_Failed int

definition leads_own_group :: "answers \<Rightarrow> impl \<Rightarrow> bool" where
  "leads_own_group a s =
     (if im_pid s \<le> 0 then False
      else if im_adopted s then im_claimed_group s
      else an_getpgid a (im_pid s) = im_pid s)"

definition exit_fd :: "impl \<Rightarrow> int" where
  "exit_fd s = (if im_pidfd s \<ge> 0 then im_pidfd s else pp_r (im_death s))"

text \<open>\<^verbatim>\<open>signal_via_pidfd\<close>: the calls it makes, and whether the signal was sent.\<close>

definition signal_via_pidfd :: "answers \<Rightarrow> int \<Rightarrow> int \<Rightarrow> sys_call list \<times> bool" where
  "signal_via_pidfd a d sig =
     (if d < 0 then ([], False) else ([Pidfd_Signal d sig], an_pidfd_signal a d sig))"

text \<open>The signal to the child alone, which \<^verbatim>\<open>stop\<close> and the destructor share.\<close>

definition signal_leader :: "answers \<Rightarrow> impl \<Rightarrow> int \<Rightarrow> sys_call list \<times> int option" where
  "signal_leader a s sig =
     (case (if an_linux a then signal_via_pidfd a (im_pidfd s) sig else ([], False)) of (calls, sent) \<Rightarrow>
        if sent then (calls, None)
        else (calls @ [Kill (im_pid s) sig], an_kill a (im_pid s) sig))"

definition ignore_gone :: "int option \<Rightarrow> process_error + unit" where
  "ignore_gone r = (case r of Some e \<Rightarrow> if e \<noteq> 3 then Inl (Kill_Failed e) else Inr () | None \<Rightarrow> Inr ())"

definition stop_posix :: "answers \<Rightarrow> stop_mode \<Rightarrow> stop_scope \<Rightarrow> impl \<Rightarrow> sys_call list \<times> (process_error + unit)" where
  "stop_posix a m c s =
     (if im_pid s \<le> 0 \<or> im_reaped s then ([], Inr ())
      else
        (let sig = (if m = Graceful then 15 else 9);
             leader = (case signal_leader a s sig of (calls, r) \<Rightarrow> (calls, ignore_gone r))
         in if c = Tree \<and> leads_own_group a s then
              (case an_kill a (- im_pid s) sig of
                 None \<Rightarrow> ([Kill (- im_pid s) sig], Inr ())
               | Some e \<Rightarrow> if e \<noteq> 3 then ([Kill (- im_pid s) sig], Inl (Kill_Failed e))
                           else (Kill (- im_pid s) sig # fst leader, snd leader))
            else leader))"

text \<open>The loop around \<^verbatim>\<open>waitpid\<close>; no value means it still waits.\<close>

fun waitpid_loop :: "wait_answer list \<Rightarrow> (process_error + wait_status) option" where
  "waitpid_loop [] = None"
| "waitpid_loop (Interrupted # ws) = waitpid_loop ws"
| "waitpid_loop (Not_Yet # ws) = Some (Inl Still_Running)"
| "waitpid_loop (Wait_Error e # ws) = Some (Inl (Wait_Failed e))"
| "waitpid_loop (Ended st # ws) = Some (Inr st)"

definition status_of :: "wait_status \<Rightarrow> exit_status \<Rightarrow> exit_status" where
  "status_of st old =
     (case st of
        Ws_Exited n \<Rightarrow> \<lparr>ex_how = Exited, ex_code = n\<rparr>
      | Ws_Signaled n \<Rightarrow> \<lparr>ex_how = Signalled, ex_code = n\<rparr>
      | Ws_Other \<Rightarrow> old)"

definition death_fired :: "answers \<Rightarrow> impl \<Rightarrow> bool" where
  "death_fired a s \<longleftrightarrow> \<not> im_exit_exact s \<and> pp_r (im_death s) \<ge> 0 \<and> an_death_ready a"

text \<open>\<^verbatim>\<open>reap\<close>. A \<^verbatim>\<open>waitpid\<close> that is interrupted and repeated counts as one call.\<close>

definition reap_posix :: "answers \<Rightarrow> impl \<Rightarrow> sys_call list \<times> (process_error + exit_status) option \<times> impl" where
  "reap_posix a s =
     (if im_reaped s then ([], Some (Inr (im_status s)), s)
      else if im_pid s \<le> 0 then ([], Some (Inl Nothing_To_Reap), s)
      else ([Wait (im_pid s) (\<not> death_fired a s)],
        (case waitpid_loop (an_waits a) of
           None \<Rightarrow> (None, s)
         | Some (Inl e) \<Rightarrow> (Some (Inl e), s)
         | Some (Inr st) \<Rightarrow>
             (let x = status_of st (im_status s) in (Some (Inr x), s\<lparr>im_status := x, im_reaped := True\<rparr>)))))"

text \<open>The calls of the destructor on the child; \<open>close_impl\<close> is what it does to the descriptors.\<close>

definition destroy_posix :: "answers \<Rightarrow> impl \<Rightarrow> sys_call list" where
  "destroy_posix a s =
     (if im_pid s > 0 \<and> \<not> im_reaped s then
        (if leads_own_group a s then [Kill (- im_pid s) 9] else []) @ fst (signal_leader a s 9) @ [Wait (im_pid s) True]
      else [])"

section \<open>Adopting a child\<close>

record adopted_child =
  ad_pid :: int
  ad_pidfd :: int
  ad_stdout :: int
  ad_stderr :: int
  ad_stdin :: int
  ad_merged :: bool
  ad_leads_own_group :: bool

text \<open>The calls on the child, the result and the table; a refusal runs the destructor.\<close>

definition adopt :: "posix \<Rightarrow> answers \<Rightarrow> adopted_child \<Rightarrow> fd_table \<Rightarrow> sys_call list \<times> (spawn_error + impl) \<times> fd_table" where
  "adopt sys a c t =
     (if ad_pid c \<le> 0 then
        ([], Inl No_Pid, fold close_end [ad_pidfd c, ad_stdout c, ad_stderr c, ad_stdin c] t)
      else
        (let s0 = new_impl\<lparr>im_pid := ad_pid c, im_merged := ad_merged c, im_claimed_group := ad_leads_own_group c,
                    im_adopted := True, im_out := no_pipe\<lparr>pp_r := ad_stdout c\<rparr>,
                    im_err := no_pipe\<lparr>pp_r := (if ad_merged c then -1 else ad_stderr c)\<rparr>,
                    im_in := no_pipe\<lparr>pp_w := ad_stdin c\<rparr>\<rparr>;
             (s, t1) = (if sy_linux sys then
                  (if ad_pidfd c \<ge> 0 then (s0\<lparr>im_pidfd := ad_pidfd c, im_exit_exact := True\<rparr>, t)
                   else let d = sy_pidfd_open sys t
                        in (s0\<lparr>im_pidfd := d, im_exit_exact := d \<ge> 0\<rparr>,
                            if d \<ge> 0 then t(d \<mapsto> (Pid_Fd (ad_pid c), True)) else t))
                else (s0, close_end (ad_pidfd c) t))
         in if im_pidfd s < 0 then (destroy_posix a s, Inl Not_Watchable, close_impl s t1)
            else ([], Inr s, t1)))"

text \<open>The handles a caller watches; a stream that is not a pipe has none.\<close>

definition handle_of :: "int \<Rightarrow> int option" where
  "handle_of fd = (if fd \<ge> 0 then Some fd else None)"

definition stdout_handle :: "impl \<Rightarrow> int option" where
  "stdout_handle s = handle_of (pp_r (im_out s))"

definition stderr_handle :: "impl \<Rightarrow> int option" where
  "stderr_handle s = (if im_merged s then None else handle_of (pp_r (im_err s)))"

definition stdin_handle :: "impl \<Rightarrow> int option" where
  "stdin_handle s = handle_of (pp_w (im_in s))"

definition close_stdin :: "impl \<Rightarrow> fd_table \<Rightarrow> impl \<times> fd_table" where
  "close_stdin s t = (s\<lparr>im_in := (im_in s)\<lparr>pp_w := -1\<rparr>\<rparr>, close_end (pp_w (im_in s)) t)"

section \<open>Closing what the child must not see\<close>

lemma close_loop_exact:
  "close_loop fd up a b t = (\<lambda>x. if fd \<le> x \<and> x < up \<and> x \<noteq> a \<and> x \<noteq> b then None else t x)"
proof (induction fd up a b t rule: close_loop.induct)
  case (1 fd up a b t)
  show ?case
  proof (cases "fd < up")
    case True
    then show ?thesis using 1 by (subst close_loop.simps) (auto simp: close_fd_def fun_eq_iff)
  next
    case False
    then show ?thesis by (subst close_loop.simps) (auto simp: fun_eq_iff)
  qed
qed

text \<open>A table that lost some of what is to be closed, and nothing else.\<close>

definition partly_closed :: "int \<Rightarrow> int \<Rightarrow> fd_table \<Rightarrow> fd_table \<Rightarrow> bool" where
  "partly_closed a b t t1 \<longleftrightarrow> (\<forall>x. t1 x = t x \<or> (3 \<le> x \<and> x \<noteq> a \<and> x \<noteq> b \<and> t1 x = None))"

lemma close_loop_partly:
  assumes "partly_closed a b t t1" "dom t \<subseteq> {..<up}"
  shows "close_loop 3 up a b t1 = (\<lambda>x. if 3 \<le> x \<and> x \<noteq> a \<and> x \<noteq> b then None else t x)"
proof -
  have "t x = None" if "\<not> x < up" for x using assms(2) that by (metis domIff lessThan_iff subsetD)
  moreover have "t1 x = t x \<or> (3 \<le> x \<and> x \<noteq> a \<and> x \<noteq> b \<and> t1 x = None)" for x using assms(1) by (simp add: partly_closed_def)
  ultimately show ?thesis unfolding close_loop_exact fun_eq_iff by (metis (full_types))
qed

lemma skip_kept_partly:
  assumes "partly_closed a b t (snd r)" "3 \<le> lo" "k = a \<or> k = b" "\<forall>x \<in> {a, b}. lo \<le> x \<longrightarrow> k \<le> x"
    "skip_kept granted k (lo, r) = (lo1, r1)"
  shows "partly_closed a b t (snd r1) \<and> 3 \<le> lo1 \<and> (\<forall>x \<in> {a, b}. lo1 \<le> x \<longrightarrow> lo \<le> x \<and> x \<noteq> k)"
  using assms unfolding skip_kept_def try_close_range_def close_range_def partly_closed_def
  by (auto split: if_splits)

text \<open>
  The descriptors above standard error are closed but for the two to keep, either by \<^verbatim>\<open>close_range\<close> or, when it is
  refused, by the loop, which only reaches the first 65536.
\<close>

lemma close_fds_exact:
  assumes "dom t \<subseteq> {0..<2 ^ 31}" "(linux \<and> (\<forall>lo hi. granted lo hi)) \<or> dom t \<subseteq> {..<loop_top m}"
  shows "close_fds_above_stderr linux granted m a0 b0 t = (\<lambda>x. if 3 \<le> x \<and> x \<noteq> a0 \<and> x \<noteq> b0 then None else t x)"
proof -
  define a where "a = min a0 b0"
  define b where "b = max a0 b0"
  have ab: "(if a0 > b0 then (b0, a0) else (a0, b0)) = (a, b)" "a \<le> b" by (auto simp: a_def b_def)
  have goal: "(\<lambda>x. if 3 \<le> x \<and> x \<noteq> a0 \<and> x \<noteq> b0 then None else t x) = (\<lambda>x. if 3 \<le> x \<and> x \<noteq> a \<and> x \<noteq> b then None else t x)"
    by (auto simp: a_def b_def fun_eq_iff)
  obtain lo1 r1 where s1: "skip_kept granted a (3, True, t) = (lo1, r1)" by (cases "skip_kept granted a (3, True, t)")
  obtain lo2 r2 where s2: "skip_kept granted b (lo1, r1) = (lo2, r2)" by (cases "skip_kept granted b (lo1, r1)")
  have p0: "partly_closed a b t (snd (True, t))" by (simp add: partly_closed_def)
  have p1: "partly_closed a b t (snd r1)" "3 \<le> lo1" "\<forall>x \<in> {a, b}. lo1 \<le> x \<longrightarrow> x \<noteq> a"
    using skip_kept_partly [OF p0, of 3 a granted lo1 r1] s1 ab(2) by auto
  then have "\<forall>x \<in> {a, b}. lo1 \<le> x \<longrightarrow> b \<le> x" by auto
  from skip_kept_partly [OF p1(1,2) _ this s2] p1(3)
  have p2: "partly_closed a b t (snd r2)" "3 \<le> lo2" "\<forall>x \<in> {a, b}. \<not> lo2 \<le> x" by auto
  then have p3: "partly_closed a b t (snd (try_close_range granted lo2 (2 ^ 32 - 1) r2))"
    by (auto simp: try_close_range_def close_range_def partly_closed_def)
  have full: "snd (try_close_range granted lo2 (2 ^ 32 - 1) r2) = (\<lambda>x. if 3 \<le> x \<and> x \<noteq> a \<and> x \<noteq> b then None else t x)"
    if "fst (try_close_range granted lo2 (2 ^ 32 - 1) r2)"
  proof -
    have "t x = None" if "\<not> x < 2 ^ 31" for x using assms(1) that by (metis atLeastLessThan_iff domIff subsetD)
    then have "t x = None" if "4294967295 < x" for x using that by auto
    then show ?thesis using that s1 s2 ab(2)
      by (auto simp: skip_kept_def try_close_range_def close_range_def fun_eq_iff split: if_splits)
  qed
  have ok: "fst (try_close_range granted lo2 (2 ^ 32 - 1) r2)" if "\<forall>lo hi. granted lo hi"
    using that s1 s2 by (auto simp: skip_kept_def try_close_range_def split: if_splits)
  obtain k t1 where k: "try_close_range granted lo2 (2 ^ 32 - 1) r2 = (k, t1)" by (cases "try_close_range granted lo2 (2 ^ 32 - 1) r2")
  show ?thesis
  proof (cases "linux \<and> k")
    case True
    then show ?thesis using full k by (simp add: close_fds_above_stderr_def ab(1) s1 s2 goal)
  next
    case False
    then have d: "dom t \<subseteq> {..<loop_top m}" using assms(2) ok k by auto
    show ?thesis using False close_loop_partly [OF p3 d] close_loop_partly [OF _ d, of a b t] p0 k
      by (auto simp: close_fds_above_stderr_def ab(1) s1 s2 goal)
  qed
qed

section \<open>Pipes come and go\<close>

text \<open>
  The descriptors the system hands out are free and below a limit, and errors are positive. \<open>streams_work\<close>:
  \<^verbatim>\<open>dup2\<close> of an open descriptor succeeds.
\<close>

definition fresh_system :: "int \<Rightarrow> posix \<Rightarrow> bool" where
  "fresh_system lim sys \<longleftrightarrow>
     (\<forall>t r w. sy_pipe sys t = Inr (r, w) \<longrightarrow> 0 \<le> r \<and> 0 \<le> w \<and> r < lim \<and> w < lim \<and> r \<noteq> w \<and> t r = None \<and> t w = None) \<and>
     (\<forall>t d. sy_open_null sys t = Some d \<longrightarrow> 0 \<le> d \<and> d < lim \<and> t d = None) \<and>
     (\<forall>t. 0 \<le> sy_pidfd_open sys t \<longrightarrow> t (sy_pidfd_open sys t) = None)"

definition errors_positive :: "posix \<Rightarrow> bool" where
  "errors_positive sys \<longleftrightarrow>
     (\<forall>d e. sy_chdir sys d = Some e \<longrightarrow> 0 < e) \<and> (\<forall>x y e. sy_dup2 sys x y = Some e \<longrightarrow> 0 < e) \<and>
     (\<forall>x y e. sy_exec sys x y = Some e \<longrightarrow> 0 < e)"

definition streams_work :: "posix \<Rightarrow> bool" where
  "streams_work sys \<longleftrightarrow> (\<forall>x y. sy_dup2 sys x y = None)"

definition ends :: "pipe_pair \<Rightarrow> int set" where
  "ends p = {pp_r p, pp_w p} \<inter> {0..}"

definition impl_ends :: "impl \<Rightarrow> int set" where
  "impl_ends s = ends (im_out s) \<union> ends (im_err s) \<union> ends (im_in s) \<union> ends (im_death s) \<union> ({im_pidfd s} \<inter> {0..})"

lemma close_end_restrict: "close_end fd t = t |` (- ({fd} \<inter> {0..}))"
  by (auto simp: close_end_def close_fd_def restrict_map_def fun_eq_iff)

lemma close_both_restrict: "close_both p t = t |` (- ends p)"
  by (auto simp: close_both_def close_end_restrict restrict_map_def ends_def fun_eq_iff)

lemma close_impl_restrict: "close_impl s t = t |` (- impl_ends s)"
  by (auto simp: close_impl_def close_both_restrict close_end_restrict restrict_map_def impl_ends_def fun_eq_iff)

lemma ends_no_pipe [simp]: "ends no_pipe = {}"
  by (simp add: ends_def no_pipe_def)

text \<open>A pipe in a table, and the table before it was opened.\<close>

definition pipe_in :: "fd_table \<Rightarrow> pipe_name \<Rightarrow> bool \<Rightarrow> pipe_pair \<Rightarrow> bool" where
  "pipe_in t n cl p \<longleftrightarrow> 0 \<le> pp_r p \<and> 0 \<le> pp_w p \<and> t (pp_r p) = Some (Read_End n, cl) \<and> t (pp_w p) = Some (Write_End n, cl)"

lemma pipe_open_table:
  assumes "fresh_system lim sys" "pipe_open sys n cl t = Inr (p, t1)"
  shows "t1 |` (- ends p) = t \<and> pipe_in t1 n cl p \<and> ends p \<inter> dom t = {} \<and> ends p \<subseteq> {..<lim}"
proof -
  obtain r w where p: "sy_pipe sys t = Inr (r, w)" "p = \<lparr>pp_r = r, pp_w = w\<rparr>"
    "t1 = t(r \<mapsto> (Read_End n, cl), w \<mapsto> (Write_End n, cl))"
    using assms(2) by (auto simp: pipe_open_def split: sum.splits)
  have "0 \<le> r \<and> 0 \<le> w \<and> r < lim \<and> w < lim \<and> r \<noteq> w \<and> t r = None \<and> t w = None"
    using assms(1) p(1) unfolding fresh_system_def by blast
  then show ?thesis using p(2,3) by (auto simp: ends_def pipe_in_def restrict_map_def fun_eq_iff dom_def)
qed

lemma pipe_if_table:
  assumes "fresh_system lim sys" "pipe_if want sys n cl t = Inr (p, t1)"
  shows "t1 |` (- ends p) = t \<and> (want \<longrightarrow> pipe_in t1 n cl p) \<and> ends p \<inter> dom t = {} \<and> ends p \<subseteq> {..<lim}"
  using pipe_open_table [OF assms(1), of n cl t p t1] assms(2) by (auto simp: pipe_if_def split: if_splits)

lemma restrict_eqD: "t1 |` A = t \<Longrightarrow> x \<in> dom t \<Longrightarrow> t1 x = t x"
  by (auto simp: restrict_map_def dom_def split: if_splits)

lemma pipe_in_later: "pipe_in t n cl p \<Longrightarrow> t1 |` A = t \<Longrightarrow> pipe_in t1 n cl p"
  unfolding pipe_in_def by (metis domI restrict_eqD)

text \<open>The pipes of a start that reached \<^verbatim>\<open>fork\<close>.\<close>

lemma open_pipes_table:
  assumes "fresh_system lim sys" "open_pipes sys spec t = Inr (s, report, t5)"
  shows "t5 |` (- (impl_ends s \<union> ends report)) = t"
    and "want_out spec \<Longrightarrow> pipe_in t5 P_out True (im_out s)" "want_err spec \<Longrightarrow> pipe_in t5 P_err True (im_err s)"
    and "want_in spec \<Longrightarrow> pipe_in t5 P_in True (im_in s)" "pipe_in t5 P_report True report"
    and "\<not> sy_linux sys \<Longrightarrow> pipe_in t5 P_death False (im_death s)" "sy_linux sys \<Longrightarrow> im_death s = no_pipe"
    and "im_merged s = ps_merge_stderr spec" "im_pidfd s = -1"
    and "(impl_ends s \<union> ends report) \<inter> dom t = {}" "impl_ends s \<union> ends report \<subseteq> {0..<lim}"
proof -
  obtain out t1 err t2 inp t3 t4 death where
    o: "pipe_if (want_out spec) sys P_out True t = Inr (out, t1)" and
    e: "pipe_if (want_err spec) sys P_err True t1 = Inr (err, t2)" and
    i: "pipe_if (want_in spec) sys P_in True t2 = Inr (inp, t3)" and
    r: "pipe_open sys P_report True t3 = Inr (report, t4)" and
    d: "pipe_if (\<not> sy_linux sys) sys P_death False t4 = Inr (death, t5)" and
    s: "s = new_impl\<lparr>im_merged := ps_merge_stderr spec, im_out := out, im_err := err, im_in := inp, im_death := death\<rparr>"
    using assms(2) by (auto simp: open_pipes_def Let_def split: sum.splits prod.splits)
  note O = pipe_if_table [OF assms(1) o] and E = pipe_if_table [OF assms(1) e] and I = pipe_if_table [OF assms(1) i]
    and R = pipe_open_table [OF assms(1) r] and D = pipe_if_table [OF assms(1) d]
  have R': "pipe_in t5 P_report True report" using pipe_in_later [of t4] R D by blast
  have I': "pipe_in t5 P_in True inp" if "want_in spec" using pipe_in_later [of t3 _ _ _ t4] pipe_in_later [of t4 _ _ _ t5] that R D I by blast
  have E3: "pipe_in t3 P_err True err" if "want_err spec" using pipe_in_later [of t2 _ _ _ t3] that E I by blast
  have E': "pipe_in t5 P_err True err" if "want_err spec" using pipe_in_later [of t3 _ _ _ t4] pipe_in_later [of t4 _ _ _ t5] that R D E3 by blast
  have O3: "pipe_in t3 P_out True out" if "want_out spec" using pipe_in_later [of t1 _ _ _ t2] pipe_in_later [of t2 _ _ _ t3] that O E I by blast
  have O': "pipe_in t5 P_out True out" if "want_out spec" using pipe_in_later [of t3 _ _ _ t4] pipe_in_later [of t4 _ _ _ t5] that R D O3 by blast
  have ends: "impl_ends s = ends out \<union> ends err \<union> ends inp \<union> ends death" by (auto simp: s new_impl_def impl_ends_def)
  have "t = t5 |` (- ends death) |` (- ends report) |` (- ends inp) |` (- ends err) |` (- ends out)"
    using O E I R D by simp
  then show "t5 |` (- (impl_ends s \<union> ends report)) = t" by (simp add: ends Int_ac)
  have "dom t \<subseteq> dom t1" "dom t1 \<subseteq> dom t2" "dom t2 \<subseteq> dom t3" "dom t3 \<subseteq> dom t4"
    using O E I R by (auto simp: restrict_map_def dom_def split: if_splits)
  moreover have "ends out \<inter> dom t = {}" "ends err \<inter> dom t1 = {}" "ends inp \<inter> dom t2 = {}" "ends report \<inter> dom t3 = {}"
    "ends death \<inter> dom t4 = {}" using O E I R D by simp_all
  ultimately show "(impl_ends s \<union> ends report) \<inter> dom t = {}" unfolding ends by blast
  have "ends p \<subseteq> {0..<lim}" if "ends p \<subseteq> {..<lim}" for p using that by (auto simp: ends_def)
  then have "ends out \<subseteq> {0..<lim}" "ends err \<subseteq> {0..<lim}" "ends inp \<subseteq> {0..<lim}" "ends report \<subseteq> {0..<lim}"
    "ends death \<subseteq> {0..<lim}" using O E I R D by simp_all
  then show "impl_ends s \<union> ends report \<subseteq> {0..<lim}" unfolding ends by blast
  show "sy_linux sys \<Longrightarrow> im_death s = no_pipe" using d by (simp add: s pipe_if_def)
  show "want_out spec \<Longrightarrow> pipe_in t5 P_out True (im_out s)" "want_err spec \<Longrightarrow> pipe_in t5 P_err True (im_err s)"
    "want_in spec \<Longrightarrow> pipe_in t5 P_in True (im_in s)" "pipe_in t5 P_report True report"
    "\<not> sy_linux sys \<Longrightarrow> pipe_in t5 P_death False (im_death s)"
    using O' E' I' R' D by (simp_all add: s)
  show "im_merged s = ps_merge_stderr spec" "im_pidfd s = -1" by (simp_all add: s new_impl_def)
qed

text \<open>A start that failed to open a pipe has closed the others.\<close>

lemma open_pipes_error:
  assumes "fresh_system lim sys" "open_pipes sys spec t = Inl (e, t1)"
  shows "t1 = t"
  using assms(2)
  by (auto simp: open_pipes_def Let_def close_impl_restrict close_both_restrict impl_ends_def new_impl_def Int_ac
      dest!: pipe_if_table [OF assms(1)] pipe_open_table [OF assms(1)] split: sum.splits prod.splits)

lemma spawn_cases:
  assumes "spawn sys spec g t = (c, r, t')"
  obtains (empty) "c = None" "r = Inl Empty_Argv" "t' = t"
  | (pipe) e where "open_pipes sys spec t = Inl (e, t')" "c = None" "r = Inl (Pipe_Failed e)"
  | (fork) e s report t1 where "open_pipes sys spec t = Inr (s, report, t1)" "c = None" "r = Inl (Fork_Failed e)"
      "t' = close_impl s (close_both report t1)"
  | (child) pid s report t1 s1 t2 where "open_pipes sys spec t = Inr (s, report, t1)"
      "parent_ends sys pid s report t1 = (s1, t2)" "c = Some (child_main sys spec s report g t1)"
      "\<exists>e. e \<noteq> 0 \<and> child_main sys spec s report g t1 = Died e True \<and> r = Inl (Exec_Failed e) \<and>
           t' = close_impl s1 (close_end (pp_r report) t2) \<or>
         e = 0 \<and> (\<forall>x. child_main sys spec s report g t1 = Died x True \<longrightarrow> x = 0) \<and> r = Inr s1 \<and> t' = close_end (pp_r report) t2"
proof (cases "open_pipes sys spec t")
  case (Inl q)
  then show ?thesis using assms empty pipe by (cases q) (auto simp: spawn_def split: if_splits)
next
  case (Inr q)
  obtain s report t1 where q: "q = (s, report, t1)" by (cases q)
  show ?thesis
  proof (cases "sy_fork sys")
    case (Inl e)
    then show ?thesis using assms Inr q empty fork by (auto simp: spawn_def split: if_splits)
  next
    case (Inr pid)
    obtain s1 t2 where p: "parent_ends sys pid s report t1 = (s1, t2)" by (cases "parent_ends sys pid s report t1")
    show ?thesis
    proof (cases "ps_argv spec = []")
      case True
      then show ?thesis using assms empty by (simp add: spawn_def)
    next
      case False
      then show ?thesis using assms Inr \<open>open_pipes sys spec t = Inr q\<close> q p
        by (intro child [OF _ p]) (auto simp: spawn_def Let_def split: if_splits child_end.splits bool.splits)
    qed
  qed
qed

lemma parent_table:
  assumes "fresh_system lim sys" "parent_ends sys pid s report t1 = (s1, t2)" "im_pidfd s = -1"
    "t1 |` (- (impl_ends s \<union> ends report)) = t"
  shows "close_impl s1 (close_end (pp_r report) t2) = t"
proof -
  define C where "C = {pp_w report, pp_w (im_out s), pp_w (im_err s), pp_r (im_in s), pp_w (im_death s)} \<inter> {0..}"
  define x where "x = t1 |` (- C)"
  have x: "close_end (pp_w (im_death s)) (close_end (pp_r (im_in s)) (close_end (pp_w (im_err s))
                 (close_end (pp_w (im_out s)) (close_end (pp_w report) t1)))) = x"
    by (auto simp: x_def C_def close_end_restrict restrict_map_def fun_eq_iff)
  define K where "K = ({pp_r report, pp_r (im_out s), pp_r (im_err s), pp_w (im_in s), pp_r (im_death s)} \<inter> {0..})"
  have U: "impl_ends s \<union> ends report = C \<union> K" using assms(3) by (auto simp: C_def K_def impl_ends_def ends_def)
  have xt: "x |` (- K) = t" using assms(4) by (simp add: x_def U)
  have cl: "close_impl s1 (close_end (pp_r report) y) = y |` (- (impl_ends s1 \<union> ({pp_r report} \<inter> {0..})))" for y
    by (auto simp: close_impl_restrict close_end_restrict restrict_map_def fun_eq_iff)
  show ?thesis
  proof (cases "sy_linux sys \<and> sy_pidfd_open sys x \<ge> 0")
    case False
    then have s1: "t2 = x" "impl_ends s1 \<union> ({pp_r report} \<inter> {0..}) = K"
      using assms(2,3) x by (auto simp: parent_ends_def Let_def K_def impl_ends_def ends_def split: if_splits)
    then show ?thesis using xt by (simp only: cl)
  next
    case True
    define d where "d = sy_pidfd_open sys x"
    have s1: "t2 = x(d \<mapsto> (Pid_Fd pid, True))" "impl_ends s1 \<union> ({pp_r report} \<inter> {0..}) = insert d K"
      using assms(2,3) x True by (auto simp: parent_ends_def Let_def K_def impl_ends_def ends_def d_def split: if_splits)
    have "x d = None" using assms(1) True unfolding fresh_system_def d_def by blast
    then have "(x(d \<mapsto> (Pid_Fd pid, True))) |` (- insert d K) = t"
      unfolding xt [symmetric] by (auto simp: restrict_map_def fun_eq_iff)
    then show ?thesis by (simp only: cl s1)
  qed
qed

text \<open>C26: Starting a child leaks no descriptor. A start that fails, wherever it fails, leaves the parent's table as it
  found it; after one that succeeds, closing what the process object holds does.\<close>

theorem spawn_leaks_nothing:
  assumes "fresh_system lim sys" "spawn sys spec g t = (c, r, t')"
  shows "(case r of Inl _ \<Rightarrow> t' = t | Inr s \<Rightarrow> close_impl s t' = t)"
  using assms(2)
proof (cases rule: spawn_cases)
  case (pipe e)
  then show ?thesis using open_pipes_error [OF assms(1)] by simp
next
  case (fork e s report t1)
  then show ?thesis using open_pipes_table(1) [OF assms(1) fork(1)]
    by (simp add: close_impl_restrict close_both_restrict Int_commute)
next
  case (child pid s report t1 s1 t2)
  have "close_impl s1 (close_end (pp_r report) t2) = t"
    using parent_table [OF assms(1) child(2)] open_pipes_table [OF assms(1) child(1)] by simp
  then show ?thesis using child(4) by auto
qed simp

section \<open>What the started program finds\<close>

text \<open>Placing a stream writes one of the first three entries.\<close>

lemma dup2_table:
  "dup2 sys old new t = Inr t1 \<Longrightarrow> (\<forall>x. x \<noteq> new \<longrightarrow> t1 x = t x) \<and> (old \<noteq> new \<longrightarrow> t1 new = map_option (\<lambda>q. (fst q, False)) (t old))"
  by (auto simp: dup2_def split: option.splits prod.splits if_splits)

lemma dup2_null_table: "x \<noteq> new \<Longrightarrow> dup2_null sys d new t x = t x"
  by (auto simp: dup2_null_def split: option.splits sum.splits dest: dup2_table)

lemma place_keeps:
  "place_stdin sys spec s d t = Inr t1 \<Longrightarrow> x \<noteq> 0 \<Longrightarrow> t1 x = t x"
  "place_stdout sys spec s d t = Inr t1 \<Longrightarrow> x \<noteq> 1 \<Longrightarrow> t1 x = t x"
  "place_stderr sys spec s d t = Inr t1 \<Longrightarrow> x \<noteq> 2 \<Longrightarrow> t1 x = t x"
  unfolding place_stdin_def place_stdout_def place_stderr_def
  by (auto simp: dup2_null_table dest: dup2_table split: if_splits)

lemma place_streams_keeps:
  "place_streams sys spec s d t = Inr t1 \<Longrightarrow> 3 \<le> x \<Longrightarrow> t1 x = t x"
  "place_streams sys spec s d t = Inl (e, t1) \<Longrightarrow> 3 \<le> x \<Longrightarrow> t1 x = t x"
  by (auto simp: place_streams_def place_keeps split: sum.splits)

text \<open>\<^verbatim>\<open>/dev/null\<close> as the child has it, if it could be opened.\<close>

definition null_in :: "fd_table \<Rightarrow> int option \<Rightarrow> bool" where
  "null_in t d = (case d of None \<Rightarrow> True | Some n \<Rightarrow> 3 \<le> n \<and> t n = Some (Dev_Null, True))"

lemma dup2_null_works:
  assumes "streams_work sys" "null_in t d" "new < 3"
  shows "exec_table (dup2_null sys d new t) new = (if d \<noteq> None then Some Dev_Null else exec_table t new)"
  using assms by (auto simp: dup2_null_def dup2_def streams_work_def null_in_def exec_table_def split: option.splits)

lemma dup2_exec:
  "dup2 sys old new t = Inr t1 \<Longrightarrow> t old = Some (f, cl) \<Longrightarrow> old \<noteq> new \<Longrightarrow> exec_table t1 new = Some f"
  using dup2_table [of sys old new t t1] by (simp add: exec_table_def)

definition stdin_file :: "bool \<Rightarrow> process_spec \<Rightarrow> fd_table \<Rightarrow> open_file option" where
  "stdin_file null spec t = (case ps_stdin_from spec of To_Pipe \<Rightarrow> Some (Read_End P_in) | To_Null \<Rightarrow> if null then Some Dev_Null else exec_table t 0 | To_Inherit \<Rightarrow> exec_table t 0)"

definition stdout_file :: "bool \<Rightarrow> process_spec \<Rightarrow> fd_table \<Rightarrow> open_file option" where
  "stdout_file null spec t = (case ps_stdout_to spec of To_Pipe \<Rightarrow> Some (Write_End P_out) | To_Null \<Rightarrow> if null then Some Dev_Null else exec_table t 1 | To_Inherit \<Rightarrow> exec_table t 1)"

definition stderr_file :: "bool \<Rightarrow> process_spec \<Rightarrow> fd_table \<Rightarrow> open_file option" where
  "stderr_file null spec t =
     (if ps_merge_stderr spec \<and> ps_stdout_to spec = To_Pipe then Some (Write_End P_out)
      else case ps_stderr_to spec of
        To_Pipe \<Rightarrow> if ps_merge_stderr spec then exec_table t 2 else Some (Write_End P_err)
      | To_Null \<Rightarrow> if null then Some Dev_Null else exec_table t 2
      | To_Inherit \<Rightarrow> exec_table t 2)"

text \<open>The pipes, all above the standard streams, as the child finds them.\<close>

definition child_pipes :: "process_spec \<Rightarrow> impl \<Rightarrow> fd_table \<Rightarrow> bool" where
  "child_pipes spec s t \<longleftrightarrow>
     (want_in spec \<longrightarrow> 3 \<le> pp_r (im_in s) \<and> t (pp_r (im_in s)) = Some (Read_End P_in, True)) \<and>
     (want_out spec \<longrightarrow> 3 \<le> pp_w (im_out s) \<and> t (pp_w (im_out s)) = Some (Write_End P_out, True)) \<and>
     (want_err spec \<longrightarrow> 3 \<le> pp_w (im_err s) \<and> t (pp_w (im_err s)) = Some (Write_End P_err, True)) \<and>
     im_merged s = ps_merge_stderr spec"

lemma child_pipes_later: "child_pipes spec s t \<Longrightarrow> (\<And>x. 3 \<le> x \<Longrightarrow> t1 x = t x) \<Longrightarrow> child_pipes spec s t1"
  by (auto simp: child_pipes_def)

lemma place_streams_files:
  assumes "streams_work sys" "child_pipes spec s t" "null_in t d"
    "place_streams sys spec s d t = Inr t3"
  shows "exec_table t3 0 = stdin_file (d \<noteq> None) spec t" "exec_table t3 1 = stdout_file (d \<noteq> None) spec t" "exec_table t3 2 = stderr_file (d \<noteq> None) spec t"
proof -
  obtain t1 t2 where p: "place_stdin sys spec s d t = Inr t1" "place_stdout sys spec s d t1 = Inr t2"
    "place_stderr sys spec s d t2 = Inr t3"
    using assms(4) by (auto simp: place_streams_def split: sum.splits)
  have c1: "child_pipes spec s t1" "null_in t1 d"
    using child_pipes_later [OF assms(2), of t1] place_keeps(1) [OF p(1)] assms(3) by (auto simp: null_in_def split: option.splits)
  have c2: "child_pipes spec s t2" "null_in t2 d"
    using child_pipes_later [OF c1(1), of t2] place_keeps(2) [OF p(2)] c1(2) by (auto simp: null_in_def split: option.splits)
  have z: "exec_table t1 0 = stdin_file (d \<noteq> None) spec t"
    using p(1) assms(2) dup2_null_works [OF assms(1,3), of 0] dup2_exec [of sys "pp_r (im_in s)" 0 t t1]
    by (auto simp: place_stdin_def stdin_file_def want_in_def child_pipes_def split: stream_to.splits if_splits)
  have o: "exec_table t2 1 = stdout_file (d \<noteq> None) spec t1"
    using p(2) c1(1) dup2_null_works [OF assms(1) c1(2), of 1] dup2_exec [of sys "pp_w (im_out s)" 1 t1 t2]
    by (auto simp: place_stdout_def stdout_file_def want_out_def child_pipes_def split: stream_to.splits if_splits)
  have e: "exec_table t3 2 = stderr_file (d \<noteq> None) spec t2"
  proof (cases "ps_merge_stderr spec \<and> want_out spec")
    case True
    then have "t2 1 = Some (Write_End P_out, False)"
      using p(2) c1(1) dup2_table [of sys _ 1 t1 t2] by (auto simp: place_stdout_def child_pipes_def)
    then show ?thesis using p(3) True c2(1) dup2_exec [of sys 1 2 t2 t3]
      by (auto simp: place_stderr_def stderr_file_def want_out_def child_pipes_def)
  next
    case False
    then show ?thesis using p(3) c2(1) dup2_null_works [OF assms(1) c2(2), of 2] dup2_exec [of sys "pp_w (im_err s)" 2 t2 t3]
      by (auto simp: place_stderr_def stderr_file_def want_out_def want_err_def child_pipes_def split: stream_to.splits if_splits)
  qed
  have k: "t1 1 = t 1" "t2 2 = t 2" "t3 0 = t1 0" "t3 1 = t2 1"
    using place_keeps(1) [OF p(1)] place_keeps(2) [OF p(2)] place_keeps(3) [OF p(3)] by simp_all
  then have x: "exec_table t1 1 = exec_table t 1" "exec_table t2 2 = exec_table t 2" "exec_table t3 0 = exec_table t1 0"
    "exec_table t3 1 = exec_table t2 1" by (simp_all add: exec_table_def)
  show "exec_table t3 0 = stdin_file (d \<noteq> None) spec t" using z x by simp
  show "exec_table t3 1 = stdout_file (d \<noteq> None) spec t" using o x by (auto simp: stdout_file_def split: stream_to.splits)
  show "exec_table t3 2 = stderr_file (d \<noteq> None) spec t" using e x by (auto simp: stderr_file_def split: stream_to.splits)
qed

text \<open>The parent's standard streams are open, and its descriptors are descriptors.\<close>

definition std_open :: "int \<Rightarrow> fd_table \<Rightarrow> bool" where
  "std_open lim t \<longleftrightarrow> t 0 \<noteq> None \<and> t 1 \<noteq> None \<and> t 2 \<noteq> None \<and> dom t \<subseteq> {0..<lim}"

lemma ends_above:
  assumes "std_open lim t" "e \<inter> dom t = {}" "e \<subseteq> {0..<lim}" "x \<in> e"
  shows "3 \<le> (x :: int)"
proof -
  have "x \<noteq> 0" "x \<noteq> 1" "x \<noteq> 2" "0 \<le> x" using assms unfolding std_open_def by (auto simp: dom_def)
  then show ?thesis by linarith
qed

text \<open>What the child starts from when the parent's standard streams are open.\<close>

lemma child_start:
  assumes "fresh_system lim sys" "std_open lim t" "open_pipes sys spec t = Inr (s, report, t5)"
  shows "child_pipes spec s t5" "3 \<le> pp_w report" "t5 (pp_w report) = Some (Write_End P_report, True)"
    "dom t5 \<subseteq> {0..<lim}" "x \<in> {0, 1, 2} \<Longrightarrow> t5 x = t x"
    "\<not> sy_linux sys \<Longrightarrow> 3 \<le> pp_w (im_death s) \<and> t5 (pp_w (im_death s)) = Some (Write_End P_death, False)"
proof -
  note O = open_pipes_table [OF assms(1,3)]
  have up: "3 \<le> x" if "x \<in> impl_ends s \<union> ends report" for x by (rule ends_above [OF assms(2) O(10,11) that])
  have e: "pp_r p \<in> ends p \<and> pp_w p \<in> ends p" if "pipe_in t5 n cl p" for n cl p using that by (auto simp: pipe_in_def ends_def)
  show "3 \<le> pp_w report" "t5 (pp_w report) = Some (Write_End P_report, True)" using up e O(5) by (auto simp: pipe_in_def)
  show "\<not> sy_linux sys \<Longrightarrow> 3 \<le> pp_w (im_death s) \<and> t5 (pp_w (im_death s)) = Some (Write_End P_death, False)"
    using up e [OF O(6)] O(6) by (auto simp: pipe_in_def impl_ends_def)
  show "child_pipes spec s t5" unfolding child_pipes_def
    using up e [OF O(2)] e [OF O(3)] e [OF O(4)] O(2,3,4,8) by (auto simp: pipe_in_def impl_ends_def)
  show "t5 x = t x" if "x \<in> {0, 1, 2}" using restrict_eqD [OF O(1)] that assms(2) by (auto simp: std_open_def)
  have "dom t5 \<subseteq> dom t \<union> (impl_ends s \<union> ends report)" using O(1) by (auto simp: restrict_map_def dom_def)
  then show "dom t5 \<subseteq> {0..<lim}" using O(11) assms(2) unfolding std_open_def by blast
qed

text \<open>
  All of them can be closed: \<^verbatim>\<open>close_range\<close> does, or the limit of descriptors is within the loop's bound.
\<close>

definition closable :: "int \<Rightarrow> posix \<Rightarrow> bool" where
  "closable lim sys \<longleftrightarrow>
     3 \<le> lim \<and> lim \<le> 2 ^ 31 \<and> ((sy_linux sys \<and> (\<forall>lo hi. sy_close_range sys lo hi)) \<or> lim \<le> loop_top (sy_open_max sys))"

lemma child_closes:
  assumes "closable lim sys" "fresh_system lim sys" "std_open lim t" "open_pipes sys spec t = Inr (s, report, t5)"
    and "d = sy_open_null sys t5" "t0 = with_null d t5" "place_streams sys spec s d t0 = Inr t1"
  shows "close_fds_above_stderr (sy_linux sys) (sy_close_range sys) (sy_open_max sys) (pp_w report) k t1 =
    (\<lambda>x. if 3 \<le> x \<and> x \<noteq> pp_w report \<and> x \<noteq> k then None else t1 x)"
proof -
  have "0 \<le> n \<and> n < lim" if "d = Some n" for n using assms(2,5) that unfolding fresh_system_def by metis
  then have "dom t0 \<subseteq> {0..<lim}" using child_start(4) [OF assms(2-4)] assms(6) by (auto simp: with_null_def split: option.splits)
  moreover have "dom t1 \<subseteq> dom t0 \<union> {0, 1, 2}"
  proof
    fix x assume "x \<in> dom t1"
    then show "x \<in> dom t0 \<union> {0, 1, 2}"
      using assms(7) place_keeps(1) place_keeps(2) place_keeps(3) by (fastforce simp: place_streams_def dom_def split: sum.splits)
  qed
  moreover have "{0, 1, 2} \<subseteq> {0..<lim}" using assms(1) by (auto simp: closable_def)
  ultimately have "dom t1 \<subseteq> {0..<lim}" by blast
  moreover have "{0..<lim} \<subseteq> {0..<2 ^ 31}" using assms(1) by (auto simp: closable_def)
  ultimately show ?thesis using assms(1) by (intro close_fds_exact) (auto simp: closable_def)
qed

lemma reset_fold:
  "fold (\<lambda>sig d. if sig \<noteq> 9 \<and> sig \<noteq> k then d(sig := Default) else d) xs d0 x =
     (if x \<in> set xs \<and> x \<noteq> 9 \<and> x \<noteq> k then Default else d0 x)"
  by (induction xs arbitrary: d0) auto

lemma child_main_died:
  assumes "closable lim sys" "fresh_system lim sys" "errors_positive sys" "std_open lim t"
    and "open_pipes sys spec t = Inr (s, report, t5)" "child_main sys spec s report g t5 = Died e b"
  shows "b \<and> 0 < e"
proof -
  note S = child_start [OF assms(2,4,5)]
  define d where "d = sy_open_null sys t5"
  define t0 where "t0 = with_null d t5"
  have fresh: "t5 n = None" if "d = Some n" for n using assms(2) that unfolding fresh_system_def d_def by metis
  have r0: "t0 (pp_w report) = Some (Write_End P_report, True)" using S(3) fresh by (auto simp: t0_def with_null_def split: option.splits)
  have main: "child_main sys spec s report g t5 =
    (case (if ps_cwd spec = [] then None else sy_chdir sys (ps_cwd spec)) of
        Some e \<Rightarrow> Died e (report_reaches (pp_w report) t5)
      | None \<Rightarrow> (case place_streams sys spec s d t0 of
            Inl (e, t1) \<Rightarrow> Died e (report_reaches (pp_w report) t1)
          | Inr t1 \<Rightarrow> run_program sys spec s report g t1))"
    by (simp only: child_main_def Let_def d_def t0_def)
  show ?thesis
  proof (cases "place_streams sys spec s d t0")
    case (Inl q)
    obtain e' t1 where q: "q = (e', t1)" by (cases q)
    have pos: "0 < e'" using Inl assms(3) unfolding q errors_positive_def
      by (auto simp: place_streams_def place_stdin_def place_stdout_def place_stderr_def dup2_def split: sum.splits if_splits option.splits)
    have "t1 (pp_w report) = Some (Write_End P_report, True)"
      using place_streams_keeps(2) [of sys spec s d t0 e' t1] Inl q S(2) r0 by simp
    then show ?thesis using assms(3,6) Inl S(3) pos q unfolding main
      by (auto simp: report_reaches_def errors_positive_def split: option.splits if_splits)
  next
    case (Inr t1)
    then have "t1 (pp_w report) = Some (Write_End P_report, True)" using place_streams_keeps(1) S(2) r0 by metis
    moreover note child_closes [OF assms(1,2,4,5) d_def t0_def Inr]
    ultimately have "0 < e' \<and> b'" if "run_program sys spec s report g t1 = Died e' b'" for e' b'
      using that assms(3) by (auto simp: run_program_def report_reaches_def errors_positive_def Let_def split: option.splits)
    then show ?thesis using assms(3,6) Inr S(3) unfolding main
      by (auto simp: report_reaches_def errors_positive_def split: option.splits if_splits)
  qed
qed

text \<open>C25: A start that was refused is noticed. With the standard streams of the parent open, \<^verbatim>\<open>spawn\<close> fails with the error
  of the child's \<^verbatim>\<open>chdir\<close>, \<^verbatim>\<open>dup2\<close> or \<^verbatim>\<open>exec\<close> whenever the child did not get to run the program, and succeeds whenever it did.\<close>

theorem spawn_notices:
  assumes "closable lim sys" "fresh_system lim sys" "errors_positive sys" "std_open lim t"
    and "spawn sys spec g t = (Some c, r, t')"
  shows "case c of Died e _ \<Rightarrow> r = Inl (Exec_Failed e) | Started p \<Rightarrow> \<exists>s. r = Inr s"
  using assms(5)
proof (cases rule: spawn_cases)
  case (child pid s report t1 s1 t2)
  then have c: "child_main sys spec s report g t1 = c" by simp
  show ?thesis
  proof (cases c)
    case (Died e b)
    then have "b \<and> 0 < e" using child_main_died [OF assms(1-4) child(1)] c by blast
    then show ?thesis using child(4) c Died by auto
  qed (use child(4) c in auto)
qed auto

lemma child_main_started:
  assumes "closable lim sys" "fresh_system lim sys" "streams_work sys" "std_open lim t"
    and "open_pipes sys spec t = Inr (s, report, t5)" "child_main sys spec s report g t5 = Started p"
  shows "pr_fds p 0 = stdin_file (sy_open_null sys t5 \<noteq> None) spec t" "pr_fds p 1 = stdout_file (sy_open_null sys t5 \<noteq> None) spec t"
      "pr_fds p 2 = stderr_file (sy_open_null sys t5 \<noteq> None) spec t"
    and "fd \<ge> 3 \<Longrightarrow> pr_fds p fd = None \<or> \<not> sy_linux sys \<and> pr_fds p fd = Some (Write_End P_death)"
    and "pr_argv p = ps_argv spec" "pr_signals p = reset_signals (sy_nsig sys) (sy_sigstop sys) g"
    and "pr_env p = (case env_store spec (sy_environ sys) of None \<Rightarrow> sy_environ sys | Some es \<Rightarrow> es)"
proof -
  note S = child_start [OF assms(2,4,5)]
  define d where "d = sy_open_null sys t5"
  define t0 where "t0 = with_null d t5"
  have n3: "3 \<le> n \<and> t5 n = None" if "d = Some n" for n
  proof -
    have n0: "t5 n = None" "0 \<le> n" using assms(2) that unfolding fresh_system_def d_def by metis+
    then have "n \<noteq> 0" "n \<noteq> 1" "n \<noteq> 2" using S(5) assms(4) by (auto simp: std_open_def)
    then show ?thesis using n0 by linarith
  qed
  obtain t1 where t1: "place_streams sys spec s d t0 = Inr t1" "run_program sys spec s report g t1 = Started p"
    using assms(6) by (auto simp: child_main_def Let_def d_def t0_def split: option.splits if_splits sum.splits prod.splits)
  have t0: "null_in t0 d" using n3 by (auto simp: t0_def with_null_def null_in_def split: option.splits)
  have keep: "t0 x = Some v" if "t5 x = Some v" for x v
    using that n3 by (cases "d = Some x") (auto simp: t0_def with_null_def split: option.splits)
  have cp: "child_pipes spec s t0" using S(1) by (simp add: child_pipes_def keep)
  have same: "exec_table t0 x = exec_table t x" if "x \<in> {0, 1, 2}" for x
    using that S(5) [of x] n3 by (auto simp: exec_table_def t0_def with_null_def split: option.splits)
  note F = place_streams_files [OF assms(3) cp t0 t1(1)]
  define t2 where "t2 = (\<lambda>x. if 3 \<le> x \<and> x \<noteq> pp_w report \<and> x \<noteq> (if sy_linux sys then -1 else pp_w (im_death s)) then None else t1 x)"
  have p: "pr_fds p = exec_table t2" "pr_argv p = ps_argv spec" "pr_signals p = reset_signals (sy_nsig sys) (sy_sigstop sys) g"
    "pr_env p = (case env_store spec (sy_environ sys) of None \<Rightarrow> sy_environ sys | Some es \<Rightarrow> es)"
    using t1(2) child_closes [OF assms(1,2,4,5) d_def t0_def t1(1)]
    by (auto simp: run_program_def Let_def t2_def split: option.splits)
  have low: "pr_fds p x = exec_table t1 x" if "x < 3" for x using that by (simp add: p(1) exec_table_def t2_def)
  show "pr_fds p 0 = stdin_file (sy_open_null sys t5 \<noteq> None) spec t" using F(1) low [of 0] same [of 0] by (auto simp: stdin_file_def d_def split: stream_to.splits)
  show "pr_fds p 1 = stdout_file (sy_open_null sys t5 \<noteq> None) spec t" using F(2) low [of 1] same [of 1] by (auto simp: stdout_file_def d_def split: stream_to.splits)
  show "pr_fds p 2 = stderr_file (sy_open_null sys t5 \<noteq> None) spec t" using F(3) low [of 2] same [of 2] by (auto simp: stderr_file_def d_def split: stream_to.splits)
  have high: "t1 x = Some v" if "3 \<le> x" "t5 x = Some v" for x v
    using place_streams_keeps(1) [OF t1(1) that(1)] keep [OF that(2)] by simp
  have w: "t1 (pp_w report) = Some (Write_End P_report, True)" by (rule high [OF S(2,3)])
  have de: "\<not> sy_linux sys \<Longrightarrow> t1 (pp_w (im_death s)) = Some (Write_End P_death, False)" using high S(6) by blast
  show "pr_fds p fd = None \<or> \<not> sy_linux sys \<and> pr_fds p fd = Some (Write_End P_death)" if "fd \<ge> 3"
    using that w de by (auto simp: p(1) exec_table_def t2_def)
  show "pr_argv p = ps_argv spec" "pr_signals p = reset_signals (sy_nsig sys) (sy_sigstop sys) g"
    "pr_env p = (case env_store spec (sy_environ sys) of None \<Rightarrow> sy_environ sys | Some es \<Rightarrow> es)" by (rule p)+
qed

text \<open>Whether the child of a start could open \<^verbatim>\<open>/dev/null\<close>.\<close>

definition null_opened :: "posix \<Rightarrow> process_spec \<Rightarrow> fd_table \<Rightarrow> bool" where
  "null_opened sys spec t = (case open_pipes sys spec t of Inl _ \<Rightarrow> False | Inr (_, _, t1) \<Rightarrow> sy_open_null sys t1 \<noteq> None)"


section \<open>Limits of the start\<close>

subsection \<open>An example system\<close>

text \<open>
  Linux with descriptors handed out from a few places, in order; \<open>works\<close> says whether \<^verbatim>\<open>exec\<close> finds the program.
\<close>

fun first_free :: "(int \<times> int) list \<Rightarrow> fd_table \<Rightarrow> int + int \<times> int" where
  "first_free [] t = Inl 24"
| "first_free ((r, w) # ps) t = (if t r = None \<and> t w = None then Inr (r, w) else first_free ps t)"

definition small_system :: "(int \<times> int) list \<Rightarrow> bool \<Rightarrow> posix" where
  "small_system places works =
     \<lparr>sy_linux = True, sy_pipe = first_free places, sy_fork = Inr 100, sy_pidfd_open = (\<lambda>t. if t 20 = None then 20 else -1),
      sy_setsid = True, sy_chdir = (\<lambda>_. None), sy_open_null = (\<lambda>t. if t 30 = None then Some 30 else None),
      sy_dup2 = (\<lambda>_ _. None), sy_close_range = (\<lambda>_ _. True), sy_open_max = 1024, sy_nsig = 65, sy_sigstop = 19,
      sy_exec = (\<lambda>_ _. if works then None else Some 2), sy_environ = [''HOME=/root'']\<rparr>"

definition table_of :: "int list \<Rightarrow> fd_table" where
  "table_of fds = (\<lambda>x. if x \<in> set fds then Some (Old (nat x), False) else None)"

definition no_signals :: signal_state where
  "no_signals = \<lparr>sg_disp = (\<lambda>_. Ignore), sg_mask = {1}\<rparr>"

lemma first_free_fresh:
  "first_free ps t = Inr (r, w) \<Longrightarrow> (r, w) \<in> set ps \<and> t r = None \<and> t w = None"
  by (induction ps t rule: first_free.induct) (auto split: if_splits)

lemma small_system_laws:
  assumes "\<forall>(r, w) \<in> set ps. 0 \<le> r \<and> 0 \<le> w \<and> r < 1024 \<and> w < 1024 \<and> r \<noteq> w"
  shows "fresh_system 1024 (small_system ps k)" "closable 1024 (small_system ps k)" "errors_positive (small_system ps k)"
    "streams_work (small_system ps k)"
  using assms by (auto simp: fresh_system_def closable_def errors_positive_def streams_work_def small_system_def
      dest!: first_free_fresh split: if_splits)

definition above_std :: "(int \<times> int) list" where
  "above_std = [(4, 5), (6, 7), (8, 9), (10, 11)]"

lemma above_std_ok: "\<forall>(r, w) \<in> set above_std. 0 \<le> r \<and> 0 \<le> w \<and> r < (1024 :: int) \<and> w < (1024 :: int) \<and> r \<noteq> w"
  by (simp add: above_std_def)

definition example_spec :: process_spec where
  "example_spec = default_spec\<lparr>ps_argv := [''ls'']\<rparr>"

lemmas small_run = spawn_def open_pipes_def pipe_if_def pipe_open_def parent_ends_def child_main_def place_streams_def
  place_stdin_def place_stdout_def place_stderr_def dup2_def dup2_null_def run_program_def with_null_def want_in_def
  want_out_def want_err_def env_store_def small_system_def above_std_def table_of_def example_spec_def default_spec_def
  Let_def no_pipe_def new_impl_def close_end_def close_fd_def report_reaches_def

lemmas small_close = close_fds_above_stderr_def skip_kept_def try_close_range_def close_range_def

lemma small_refused:
  "\<exists>t'. spawn (small_system above_std False) example_spec no_signals (table_of [0, 1, 2, 3]) =
     (Some (Died 2 True), Inl (Exec_Failed 2), t')"
  by (simp add: small_run small_close)

lemma small_started:
  "\<exists>p r t'. spawn (small_system above_std True) example_spec no_signals (table_of [0, 1, 2, 3]) = (Some (Started p), r, t')"
  by (simp add: small_run small_close)

lemma small_std_open: "std_open 1024 (table_of [0, 1, 2, 3])"
  by (auto simp: std_open_def table_of_def split: if_splits)

theorem spawn_leaks_nothing_witness:
  "\<exists>c r t'. spawn (small_system above_std False) example_spec no_signals (table_of [0, 1, 2, 3]) = (c, Inl r, t') \<and>
     t' = table_of [0, 1, 2, 3]"
proof -
  obtain t' where s: "spawn (small_system above_std False) example_spec no_signals (table_of [0, 1, 2, 3]) =
    (Some (Died 2 True), Inl (Exec_Failed 2), t')" using small_refused by blast
  then show ?thesis using spawn_leaks_nothing [OF small_system_laws(1) [OF above_std_ok] s] by simp
qed

theorem spawn_notices_witness:
  "\<exists>e c r t'. spawn (small_system above_std False) example_spec no_signals (table_of [0, 1, 2, 3]) = (Some (Died e c), r, t') \<and>
     r = Inl (Exec_Failed e)"
proof -
  obtain t' where s: "spawn (small_system above_std False) example_spec no_signals (table_of [0, 1, 2, 3]) =
    (Some (Died 2 True), Inl (Exec_Failed 2), t')" using small_refused by blast
  note L = small_system_laws [OF above_std_ok, of False]
  show ?thesis using spawn_notices [OF L(2,1,3) small_std_open s] s by auto
qed


subsection \<open>Without the standard streams\<close>

text \<open>
  A parent that closed its own standard streams. The descriptors of the pipes are then among the first three: the
  one of the report is overwritten before it is used, and one that is already in place keeps its close-on-exec flag.
\<close>

text \<open>Where standard output and error of the parent are closed, a program that does not exist is started successfully:
  the report pipe is at the descriptors of the streams, the child puts \<^verbatim>\<open>/dev/null\<close> over its end, and the report of
  the failure goes there.\<close>

theorem spawn_refusal_unnoticed:
  "\<exists>s t'. spawn (small_system [(1, 2), (4, 5)] False) (example_spec\<lparr>ps_stdout_to := To_Null, ps_stderr_to := To_Null\<rparr>)
      no_signals (table_of [0]) = (Some (Died 2 False), Inr s, t')"
  by (simp add: small_run small_close)

text \<open>Where standard input of the parent is closed and the program is to read from a pipe, its standard input is closed: the
  pipe already is at descriptor 0, where \<^verbatim>\<open>dup2\<close> does nothing, and closes when the program is executed.\<close>

theorem spawn_loses_stdin:
  "\<exists>p s t'. spawn (small_system [(0, 3), (4, 5)] True)
      (example_spec\<lparr>ps_stdin_from := To_Pipe, ps_stdout_to := To_Inherit, ps_stderr_to := To_Inherit\<rparr>)
      no_signals (table_of [1, 2]) = (Some (Started p), Inr s, t') \<and> pr_fds p 0 = None \<and> stdin_handle s = Some 3"
  by (simp add: small_run small_close exec_table_def stdin_handle_def handle_of_def)

subsection \<open>The environment\<close>

lemma getenv_append: "getenv k (xs @ ys) = (case getenv k xs of None \<Rightarrow> getenv k ys | Some v \<Rightarrow> Some v)"
  by (induction xs) auto

lemma getenv_complete:
  "list_all (\<lambda>(k, v). CHR ''='' \<notin> set k) env \<Longrightarrow> CHR ''='' \<notin> set k \<Longrightarrow>
   getenv k (map (\<lambda>(k, v). k @ ''='' @ v) env) = map_of env k"
proof (induction env)
  case (Cons q env)
  obtain k' v where q: "q = (k', v)" by (cases q)
  have "take (length k + 1) (k' @ ''='' @ v) = k @ ''='' \<longleftrightarrow> k' = k"
  proof
    assume t: "take (length k + 1) (k' @ ''='' @ v) = k @ ''=''"
    have k': "CHR ''='' \<notin> set k'" using Cons.prems(1) q by simp
    have "takeWhile (\<lambda>c. c \<noteq> CHR ''='') (k' @ ''='' @ v) = k'" using k' by (auto simp: takeWhile_append)
    moreover have "takeWhile (\<lambda>c. c \<noteq> CHR ''='') (k' @ ''='' @ v) = k"
    proof -
      have "k' @ ''='' @ v = (k @ ''='') @ drop (length k + 1) (k' @ ''='' @ v)" using t by (metis append_take_drop_id)
      then have "takeWhile (\<lambda>c. c \<noteq> CHR ''='') (k' @ ''='' @ v) =
        takeWhile (\<lambda>c. c \<noteq> CHR ''='') ((k @ ''='') @ drop (length k + 1) (k' @ ''='' @ v))" by simp
      then show ?thesis using Cons.prems(2) by (auto simp: takeWhile_append)
    qed
    ultimately show "k' = k" by simp
  qed simp
  then show ?case using Cons q by simp
qed simp

text \<open>What a program is given on top of the parent's environment comes after it, so it does not change a variable that the
  parent has: \<^verbatim>\<open>getenv\<close> still finds the parent's value. Only a complete environment gives every variable the value
  asked for.\<close>

theorem layered_env_parent_wins:
  assumes "list_all (\<lambda>(k, v). CHR ''='' \<notin> set k) (ps_env spec)" "CHR ''='' \<notin> set k" "env_store spec parent = Some es"
  shows "getenv k es = (if ps_env_is_complete spec then map_of (ps_env spec) k
    else case getenv k parent of Some v \<Rightarrow> Some v | None \<Rightarrow> map_of (ps_env spec) k)"
  using assms getenv_complete [OF assms(1,2)] by (auto simp: env_store_def getenv_append split: if_splits option.splits)

theorem layered_env_parent_wins_witness:
  "getenv ''HOME'' (the (env_store (example_spec\<lparr>ps_env := [(''HOME'', ''/tmp'')]\<rparr>) [''HOME=/root''])) = Some ''/root''"
proof -
  have e: "env_store (example_spec\<lparr>ps_env := [(''HOME'', ''/tmp'')]\<rparr>) [''HOME=/root''] = Some [''HOME=/root'', ''HOME=/tmp'']"
    by (simp add: env_store_def example_spec_def default_spec_def)
  show ?thesis using layered_env_parent_wins [OF _ _ e, of "''HOME''"] e by (simp add: example_spec_def default_spec_def)
qed

section \<open>The life of a child\<close>

text \<open>What \<open>stop\<close> and \<open>reap\<close> do to the object, for the contract.\<close>

definition reap_state :: "answers \<Rightarrow> impl \<Rightarrow> exit_status option \<times> impl" where
  "reap_state a s = (case reap_posix a s of (_, r, s1) \<Rightarrow> (case r of Some (Inr x) \<Rightarrow> Some x | _ \<Rightarrow> None, s1))"

interpretation posix_child: child_contract im_reaped im_status "\<lambda>_ _ _ s. s" reap_state
  by unfold_locales (auto simp: reap_state_def reap_posix_def Let_def split: if_splits option.splits sum.splits)

text \<open>
  The calls that name the child or its group, in order, and the point where \<^verbatim>\<open>waitpid\<close> returned its status: from
  then on the number may belong to another process.
\<close>

datatype event = Call sys_call | Collected

fun quiet_after_collect :: "event list \<Rightarrow> bool" where
  "quiet_after_collect [] = True"
| "quiet_after_collect (Call c # es) = quiet_after_collect es"
| "quiet_after_collect (Collected # es) = (es = [])"

definition op_events :: "answers child_op \<Rightarrow> impl \<Rightarrow> event list \<times> impl" where
  "op_events q s =
     (case q of
        Stop a m c \<Rightarrow> (map Call (fst (stop_posix a m c s)), s)
      | Reap a \<Rightarrow> (case reap_posix a s of (calls, _, s1) \<Rightarrow>
          (map Call calls @ (if im_reaped s1 \<and> \<not> im_reaped s then [Collected] else []), s1)))"

text \<open>Any sequence of calls, then the destructor.\<close>

fun life :: "answers child_op list \<Rightarrow> answers \<Rightarrow> impl \<Rightarrow> event list" where
  "life [] a s = map Call (destroy_posix a s)"
| "life (q # qs) a s = (case op_events q s of (es, s1) \<Rightarrow> es @ life qs a s1)"

lemma quiet_calls: "quiet_after_collect (map Call cs @ es) = quiet_after_collect es"
  by (induction cs) auto

lemma life_reaped: "im_reaped s \<Longrightarrow> life qs a s = []"
proof (induction qs)
  case Nil
  then show ?case by (simp add: destroy_posix_def)
next
  case (Cons q qs)
  then show ?case by (cases q) (auto simp: op_events_def stop_posix_def reap_posix_def)
qed


text \<open>Every status \<^verbatim>\<open>reap\<close> returns is the same one, in any sequence of stops and reaps.\<close>

theorem reap_one_status:
  "\<exists>x. set (fst (posix_child.run_child ops s)) \<subseteq> {None, Some x}"
  by (rule posix_child.run_one_status)

text \<open>
  \<^verbatim>\<open>reap\<close> waits only when the death pipe says that the child is ending. Elsewhere an answer of \<^verbatim>\<open>waitpid\<close> that is
  not an interruption ends it.
\<close>

lemma reap_nohang:
  assumes "im_exit_exact s" "\<not> im_reaped s" "0 < im_pid s"
  shows "fst (reap_posix a s) = [Wait (im_pid s) True]"
  using assms by (simp add: reap_posix_def death_fired_def)

lemma waitpid_loop_returns: "list_ex (\<lambda>w. w \<noteq> Interrupted) ws \<Longrightarrow> waitpid_loop ws \<noteq> None"
  by (induction ws rule: waitpid_loop.induct) auto

text \<open>A child taken over that cannot be watched is refused, its descriptors are closed, and it is killed: the
  object that was to hold it is destroyed. Off Linux that is every child.\<close>

theorem adopt_refusal_kills:
  assumes "0 < ad_pid c" "\<not> sy_linux sys" "\<not> an_linux a" "\<not> ad_leads_own_group c"
  shows "\<exists>t'. adopt sys a c t = ([Kill (ad_pid c) 9, Wait (ad_pid c) True], Inl Not_Watchable, t')"
  using assms
  by (simp add: adopt_def Let_def destroy_posix_def signal_leader_def leads_own_group_def new_impl_def)

theorem adopt_refusal_kills_witness:
  "\<exists>t'. adopt (small_system above_std True\<lparr>sy_linux := False\<rparr>)
      \<lparr>an_linux = False, an_getpgid = (\<lambda>p. p), an_kill = (\<lambda>_ _. None), an_pidfd_signal = (\<lambda>_ _. False), an_death_ready = False, an_waits = []\<rparr>
      \<lparr>ad_pid = 77, ad_pidfd = -1, ad_stdout = 3, ad_stderr = -1, ad_stdin = -1, ad_merged = False, ad_leads_own_group = False\<rparr>
      (table_of [0, 1, 2, 3]) = ([Kill 77 9, Wait 77 True], Inl Not_Watchable, t')"
  by (rule adopt_refusal_kills [of "\<lparr>ad_pid = 77, ad_pidfd = -1, ad_stdout = 3, ad_stderr = -1, ad_stdin = -1,
      ad_merged = False, ad_leads_own_group = False\<rparr>", simplified]) (simp_all add: small_system_def)

end
