(* ===== verification/Decimal.thy ===== *)
theory Decimal
  imports Jaal_Prelude
begin

text \<open>Decimal numbers as the C and C++ libraries read and print them.\<close>

definition is_digit :: "char \<Rightarrow> bool" where
  "is_digit c \<longleftrightarrow> 48 \<le> (of_char c :: nat) \<and> (of_char c :: nat) \<le> 57"

definition digit_value :: "char \<Rightarrow> int" where
  "digit_value c = int (of_char c :: nat) - 48"

definition digits_value :: "string \<Rightarrow> int" where
  "digits_value ds = fold (\<lambda>c n. n * 10 + digit_value c) ds 0"

fun show_nat :: "nat \<Rightarrow> string" where
  "show_nat n = (if n < 10 then [char_of (48 + n)] else show_nat (n div 10) @ [char_of (48 + n mod 10)])"

declare show_nat.simps [simp del]

lemma digit_char: "n < 10 \<Longrightarrow> is_digit (char_of (48 + n)) \<and> digit_value (char_of (48 + n)) = int n"
  by (simp add: is_digit_def digit_value_def)

lemma show_nat_digits: "list_all is_digit (show_nat n) \<and> show_nat n \<noteq> [] \<and> digits_value (show_nat n) = int n"
proof (induction n rule: show_nat.induct)
  case (1 n)
  show ?case
  proof (cases "n < 10")
    case True
    then show ?thesis using digit_char [OF True] by (simp add: show_nat.simps [of n] digits_value_def)
  next
    case False
    then show ?thesis using 1 digit_char [of "n mod 10"]
      by (simp add: show_nat.simps [of n] digits_value_def) (metis div_mult_mod_eq of_nat_add of_nat_mult of_nat_numeral)
  qed
qed

lemma show_nat_inj: "show_nat m = show_nat n \<Longrightarrow> m = n"
  by (metis of_nat_eq_iff show_nat_digits)

end
