(* ===== verification/Sim_Process.thy ===== *)
theory Sim_Process
  imports Process Decimal
begin

text \<open>
  The scripted child (\<^verbatim>\<open>src/platform/sim/process.cpp\<close>): the script its arguments spell, the steps it takes, and
  what a reader of its pipes finds. How many bytes a full pipe still takes is a parameter.
\<close>

section \<open>Scripts\<close>

datatype step_kind = Write_Out | Write_Err | Fill_Pipe | Exit_Ok | Exit_Code | Killed

record sim_step =
  st_what :: step_kind
  st_bytes :: string
  st_value :: int

definition blank_step :: sim_step where
  "blank_step = \<lparr>st_what = Exit_Ok, st_bytes = [], st_value = 0\<rparr>"

text \<open>\<^verbatim>\<open>find(':')\<close> with the two \<^verbatim>\<open>substr\<close>: the part before the first colon and the part after it.\<close>

definition split_colon :: "string \<Rightarrow> string \<times> string" where
  "split_colon a = (takeWhile (\<lambda>c. c \<noteq> CHR '':'') a, tl (dropWhile (\<lambda>c. c \<noteq> CHR '':'') a))"

text \<open>\<^verbatim>\<open>atoi\<close> of the C library, for values that fit an \<^verbatim>\<open>int\<close>.\<close>

definition is_space :: "char \<Rightarrow> bool" where
  "is_space c \<longleftrightarrow> (of_char c :: nat) = 32 \<or> (9 \<le> (of_char c :: nat) \<and> (of_char c :: nat) \<le> 13)"

definition atoi :: "string \<Rightarrow> int" where
  "atoi s =
     (case dropWhile is_space s of
        [] \<Rightarrow> 0
      | c # cs \<Rightarrow>
        if c = CHR ''-'' then - digits_value (takeWhile is_digit cs)
        else if c = CHR ''+'' then digits_value (takeWhile is_digit cs)
        else digits_value (takeWhile is_digit (c # cs)))"

definition parse_step :: "string \<Rightarrow> sim_step option" where
  "parse_step a =
     (case split_colon a of (head, tail) \<Rightarrow>
        if head = ''out'' then Some (blank_step\<lparr>st_what := Write_Out, st_bytes := tail\<rparr>)
        else if head = ''err'' then Some (blank_step\<lparr>st_what := Write_Err, st_bytes := tail\<rparr>)
        else if head = ''fill'' then Some (blank_step\<lparr>st_what := Fill_Pipe\<rparr>)
        else if head = ''exit'' then
          Some (blank_step\<lparr>st_what := (if tail = [] then Exit_Ok else Exit_Code), st_value := (if tail = [] then 0 else atoi tail)\<rparr>)
        else if head = ''kill'' then
          Some (blank_step\<lparr>st_what := Killed, st_value := (if tail = [] then 9 else atoi tail)\<rparr>)
        else None)"

definition parse_sim_script :: "string list \<Rightarrow> sim_step list" where
  "parse_sim_script argv = List.map_filter parse_step (drop 1 argv)"

section \<open>The child\<close>

text \<open>A pipe: whether it was opened, whether the child still holds the end it has, and the bytes in it.\<close>

record pipe_state =
  pe_opened :: bool
  pe_child_end :: bool
  pe_bytes :: string

definition shut_pipe :: pipe_state where
  "shut_pipe = \<lparr>pe_opened = False, pe_child_end = False, pe_bytes = []\<rparr>"

definition open_pipe :: pipe_state where
  "open_pipe = \<lparr>pe_opened = True, pe_child_end = True, pe_bytes = []\<rparr>"

definition drop_end :: "pipe_state \<Rightarrow> pipe_state" where
  "drop_end p = p\<lparr>pe_child_end := False\<rparr>"

record sim_process =
  sp_script :: "sim_step list"
  sp_next :: nat
  sp_out :: pipe_state
  sp_err :: pipe_state
  sp_in :: pipe_state
  sp_exit :: pipe_state
  sp_merged :: bool
  sp_done :: bool
  sp_reaped :: bool
  sp_status :: exit_status
  sp_ident :: "64 word"

text \<open>
  The pipes \<^verbatim>\<open>spawn\<close> opens, in order: whether each is wanted, and the answers of the system, an error or none, to the
  calls it makes.
\<close>

fun first_failure :: "bool list \<Rightarrow> int option list \<Rightarrow> int option" where
  "first_failure [] answers = None"
| "first_failure (False # ws) answers = first_failure ws answers"
| "first_failure (True # ws) [] = None"
| "first_failure (True # ws) (Some e # answers) = Some e"
| "first_failure (True # ws) (None # answers) = first_failure ws answers"

definition new_child :: "process_spec \<Rightarrow> 64 word \<Rightarrow> sim_process" where
  "new_child spec ident =
     \<lparr>sp_script = parse_sim_script (ps_argv spec), sp_next = 0,
       sp_out = (if ps_stdout_to spec = To_Pipe then open_pipe else shut_pipe),
       sp_err = (if ps_stderr_to spec = To_Pipe \<and> \<not> ps_merge_stderr spec then open_pipe else shut_pipe),
       sp_in = (if ps_stdin_from spec = To_Pipe then open_pipe else shut_pipe),
       sp_exit = open_pipe, sp_merged = ps_merge_stderr spec, sp_done = False, sp_reaped = False,
       sp_status = \<lparr>ex_how = Exited, ex_code = 0\<rparr>, sp_ident = ident\<rparr>"

text \<open>\<^verbatim>\<open>spawn\<close>; \<open>next_id\<close> is the counter the function keeps.\<close>

definition sim_spawn :: "process_spec \<Rightarrow> int option list \<Rightarrow> 64 word \<Rightarrow> (int + sim_process) \<times> 64 word" where
  "sim_spawn spec answers next_id =
     (case first_failure [True, ps_stdout_to spec = To_Pipe, ps_stderr_to spec = To_Pipe \<and> \<not> ps_merge_stderr spec,
                          ps_stdin_from spec = To_Pipe] answers of
        Some e \<Rightarrow> (Inl e, next_id + 1)
      | None \<Rightarrow> (Inr (new_child spec next_id), next_id + 1))"

definition finish_child :: "exit_status \<Rightarrow> sim_process \<Rightarrow> sim_process" where
  "finish_child x s =
     (if sp_done s then s
      else s\<lparr>sp_status := x, sp_done := True, sp_out := drop_end (sp_out s), sp_err := drop_end (sp_err s),
             sp_in := drop_end (sp_in s), sp_exit := drop_end (sp_exit s)\<rparr>)"

text \<open>
  What a pipe takes: given what is in it and how much is offered, the bytes the call writes, where zero stands
  for a refusal. A call never writes more than it was given.
\<close>

type_synonym takes = "nat \<Rightarrow> nat \<Rightarrow> nat"

function write_bytes :: "takes \<Rightarrow> string \<Rightarrow> string \<Rightarrow> string" where
  "write_bytes tk held bytes =
     (if bytes = [] then held
      else let n = min (tk (length held) (length bytes)) (length bytes)
           in if n > 0 then write_bytes tk (held @ take n bytes) (drop n bytes) else held)"
  by auto
termination
  by (relation "measure (\<lambda>(_, _, bytes). length bytes)") auto

declare write_bytes.simps [simp del]

definition emit :: "takes \<Rightarrow> string \<Rightarrow> bool \<Rightarrow> sim_process \<Rightarrow> sim_process" where
  "emit tk bytes to_err s =
     (if sp_done s then s
      else if to_err \<and> \<not> sp_merged s then
        (if pe_child_end (sp_err s) then s\<lparr>sp_err := (sp_err s)\<lparr>pe_bytes := write_bytes tk (pe_bytes (sp_err s)) bytes\<rparr>\<rparr> else s)
      else
        (if pe_child_end (sp_out s) then s\<lparr>sp_out := (sp_out s)\<lparr>pe_bytes := write_bytes tk (pe_bytes (sp_out s)) bytes\<rparr>\<rparr> else s))"

text \<open>Blocks of zero bytes until the pipe refuses. A pipe that never refuses gives no result.\<close>

partial_function (option) fill_bytes :: "takes \<Rightarrow> string \<Rightarrow> string option" where
  "fill_bytes tk held =
     (let n = min (tk (length held) 4096) 4096
      in if n > 0 then fill_bytes tk (held @ replicate n (CHR 0x00)) else Some held)"

definition fill :: "takes \<Rightarrow> sim_process \<Rightarrow> sim_process option" where
  "fill tk s =
     (if sp_done s \<or> \<not> pe_child_end (sp_out s) then Some s
      else map_option (\<lambda>b. s\<lparr>sp_out := (sp_out s)\<lparr>pe_bytes := b\<rparr>\<rparr>) (fill_bytes tk (pe_bytes (sp_out s))))"

definition perform :: "takes \<Rightarrow> sim_step \<Rightarrow> sim_process \<Rightarrow> sim_process option" where
  "perform tk st s =
     (case st_what st of
        Write_Out \<Rightarrow> Some (emit tk (st_bytes st) False s)
      | Write_Err \<Rightarrow> Some (emit tk (st_bytes st) True s)
      | Fill_Pipe \<Rightarrow> fill tk s
      | Exit_Ok \<Rightarrow> Some (finish_child \<lparr>ex_how = Exited, ex_code = 0\<rparr> s)
      | Exit_Code \<Rightarrow> Some (finish_child \<lparr>ex_how = Exited, ex_code = st_value st\<rparr> s)
      | Killed \<Rightarrow> Some (finish_child \<lparr>ex_how = Signalled, ex_code = st_value st\<rparr> s))"

definition sim_step_child :: "takes \<Rightarrow> sim_process \<Rightarrow> (bool \<times> sim_process) option" where
  "sim_step_child tk s =
     (if sp_next s \<ge> length (sp_script s) then Some (False, s)
      else map_option (Pair True) (perform tk (sp_script s ! sp_next s) (s\<lparr>sp_next := sp_next s + 1\<rparr>)))"

partial_function (option) run_to_completion :: "takes \<Rightarrow> sim_process \<Rightarrow> sim_process option" where
  "run_to_completion tk s =
     Option.bind (sim_step_child tk s) (\<lambda>(more, s1). if more then run_to_completion tk s1 else Some s1)"

definition sim_stop :: "stop_mode \<Rightarrow> stop_scope \<Rightarrow> sim_process \<Rightarrow> sim_process" where
  "sim_stop m c s =
     (if sp_done s then s
      else finish_child (if m = Graceful then \<lparr>ex_how = Signalled, ex_code = 15\<rparr> else \<lparr>ex_how = Signalled, ex_code = 9\<rparr>) s)"

definition sim_reap :: "sim_process \<Rightarrow> exit_status option \<times> sim_process" where
  "sim_reap s = (if \<not> sp_done s then (None, s) else (Some (sp_status s), s\<lparr>sp_reaped := True\<rparr>))"

section \<open>The contract\<close>

interpretation sim_child: child_contract sp_done sp_status "\<lambda>_::unit. sim_stop" "\<lambda>_::unit. sim_reap"
  by unfold_locales (auto simp: sim_stop_def sim_reap_def split: if_splits)

section \<open>What the child leaves behind\<close>

text \<open>Pipes of a given capacity: a write is never refused before they are full, and always then.\<close>

definition bounded_by :: "nat \<Rightarrow> takes \<Rightarrow> bool" where
  "bounded_by cap tk \<longleftrightarrow> (\<forall>held n. held \<ge> cap \<longrightarrow> tk held n = 0)"

lemma fill_bytes_returns:
  assumes "bounded_by cap tk"
  shows "\<exists>z. fill_bytes tk held = Some (held @ replicate z (CHR 0x00)) \<and> tk (length held + z) 4096 = 0"
proof (induction "cap - length held" arbitrary: held rule: less_induct)
  case less
  define n where "n = min (tk (length held) 4096) 4096"
  show ?case
  proof (cases "n > 0")
    case True
    then have "length held < cap" using assms unfolding bounded_by_def n_def by (metis not_le min_0L not_gr_zero)
    then have "cap - length (held @ replicate n (CHR 0x00)) < cap - length held" using True by simp
    from less [OF this] obtain z where
      "fill_bytes tk (held @ replicate n (CHR 0x00)) = Some ((held @ replicate n (CHR 0x00)) @ replicate z (CHR 0x00))"
      "tk (length held + n + z) 4096 = 0" by auto
    then show ?thesis using True
      by (intro exI [of _ "n + z"]) (simp add: fill_bytes.simps [of tk held] n_def [symmetric] replicate_add add.assoc)
  next
    case False
    then show ?thesis by (intro exI [of _ 0]) (simp add: fill_bytes.simps [of tk held] n_def [symmetric], simp add: n_def)
  qed
qed

lemma write_bytes_prefix: "\<exists>w. write_bytes tk held bytes = held @ w \<and> (\<exists>r. bytes = w @ r)"
proof (induction tk held bytes rule: write_bytes.induct)
  case (1 tk held bytes)
  define n where "n = min (tk (length held) (length bytes)) (length bytes)"
  show ?case
  proof (cases "bytes \<noteq> [] \<and> n > 0")
    case True
    from 1 [OF _ n_def] True obtain w r where w: "write_bytes tk (held @ take n bytes) (drop n bytes) = (held @ take n bytes) @ w"
      "drop n bytes = w @ r" by auto
    then have "bytes = (take n bytes @ w) @ r" by (metis append_assoc append_take_drop_id)
    then show ?thesis using True w(1) by (auto simp: write_bytes.simps [of tk held bytes] n_def [symmetric])
  next
    case False
    then show ?thesis by (auto simp: write_bytes.simps [of tk held bytes] n_def [symmetric])
  qed
qed

text \<open>A pipe with room for everything that is still to be written.\<close>

definition roomy :: "nat \<Rightarrow> takes \<Rightarrow> bool" where
  "roomy cap tk \<longleftrightarrow> (\<forall>h n. h < cap \<longrightarrow> 0 < n \<longrightarrow> 0 < tk h n)"

lemma write_bytes_all:
  "roomy cap tk \<Longrightarrow> length held + length bytes \<le> cap \<Longrightarrow> write_bytes tk held bytes = held @ bytes"
proof (induction tk held bytes rule: write_bytes.induct)
  case (1 tk held bytes)
  define n where "n = min (tk (length held) (length bytes)) (length bytes)"
  show ?case
  proof (cases "bytes = []")
    case False
    then have "n > 0" using 1(2,3) unfolding roomy_def n_def by (cases bytes) auto
    moreover have "n \<le> length bytes" unfolding n_def by simp
    ultimately show ?thesis using 1(1) [OF False n_def] 1(2,3) False
      by (simp add: write_bytes.simps [of tk held bytes] n_def [symmetric])
  qed (simp add: write_bytes.simps)
qed

text \<open>The reference: what a script writes before it ends, and how it ends.\<close>

definition step_ends :: "sim_step \<Rightarrow> bool" where
  "step_ends st \<longleftrightarrow> st_what st \<in> {Exit_Ok, Exit_Code, Killed}"

definition step_status :: "sim_step \<Rightarrow> exit_status" where
  "step_status st =
     \<lparr>ex_how = (if st_what st = Killed then Signalled else Exited), ex_code = (if st_what st = Exit_Ok then 0 else st_value st)\<rparr>"

definition written :: "step_kind set \<Rightarrow> sim_step list \<Rightarrow> string" where
  "written ks script = concat (map st_bytes (filter (\<lambda>st. st_what st \<in> ks) (takeWhile (\<lambda>st. \<not> step_ends st) script)))"

definition ending :: "sim_step list \<Rightarrow> exit_status option" where
  "ending script = map_option step_status (List.find step_ends script)"

lemma perform_returns:
  assumes "bounded_by cap tk"
  shows "\<exists>s1. perform tk st s = Some s1 \<and> sp_next s1 = sp_next s \<and> sp_script s1 = sp_script s"
proof -
  obtain b where "fill_bytes tk (pe_bytes (sp_out s)) = Some b" using fill_bytes_returns [OF assms] by blast
  then show ?thesis by (auto simp: perform_def emit_def fill_def finish_child_def split: step_kind.splits)
qed

lemma run_returns:
  assumes "bounded_by cap tk"
  shows "\<exists>s1. run_to_completion tk s = Some s1 \<and> sp_next s1 = max (sp_next s) (length (sp_script s)) \<and> sp_script s1 = sp_script s"
proof (induction "length (sp_script s) - sp_next s" arbitrary: s)
  case 0
  then show ?case by (simp add: run_to_completion.simps sim_step_child_def)
next
  case (Suc n)
  then have l: "sp_next s < length (sp_script s)" by simp
  obtain s1 where s1: "perform tk (sp_script s ! sp_next s) (s\<lparr>sp_next := sp_next s + 1\<rparr>) = Some s1"
    "sp_next s1 = sp_next s + 1" "sp_script s1 = sp_script s"
    using perform_returns [OF assms] by fastforce
  have "n = length (sp_script s1) - sp_next s1" using Suc(2) s1 by simp
  from Suc(1) [OF this] show ?case using l s1
    by (auto simp: run_to_completion.simps [of tk s] sim_step_child_def)
qed

text \<open>After the end nothing changes but the place in the script.\<close>

lemma perform_done: "sp_done s \<Longrightarrow> perform tk st s = Some s"
  by (auto simp: perform_def emit_def fill_def finish_child_def split: step_kind.splits)

lemma run_done:
  "sp_done s \<Longrightarrow> run_to_completion tk s = Some (s\<lparr>sp_next := max (sp_next s) (length (sp_script s))\<rparr>)"
proof (induction "length (sp_script s) - sp_next s" arbitrary: s)
  case 0
  then show ?case by (simp add: run_to_completion.simps sim_step_child_def max_def)
next
  case (Suc n)
  then have l: "sp_next s < length (sp_script s)" by simp
  have "n = length (sp_script s) - (sp_next s + 1)" using Suc(2) by simp
  then have "run_to_completion tk (s\<lparr>sp_next := sp_next s + 1\<rparr>) = Some (s\<lparr>sp_next := max (sp_next s + 1) (length (sp_script s))\<rparr>)"
    using Suc(1) [of "s\<lparr>sp_next := sp_next s + 1\<rparr>"] Suc(3) by simp
  then show ?case using l Suc(3) by (simp add: run_to_completion.simps [of tk s] sim_step_child_def perform_done max_def)
qed

definition out_kinds :: "bool \<Rightarrow> step_kind set" where
  "out_kinds merged = (if merged then {Write_Out, Write_Err} else {Write_Out})"

definition err_kinds :: "bool \<Rightarrow> step_kind set" where
  "err_kinds merged = (if merged then {} else {Write_Err})"

text \<open>The bytes of both pipes after the rest of a script.\<close>

definition left_by :: "sim_process \<Rightarrow> sim_step list \<Rightarrow> string \<times> string" where
  "left_by s r =
     (pe_bytes (sp_out s) @ (if pe_child_end (sp_out s) then written (out_kinds (sp_merged s)) r else []),
      pe_bytes (sp_err s) @ (if pe_child_end (sp_err s) then written (err_kinds (sp_merged s)) r else []))"

definition fits :: "nat \<Rightarrow> sim_process \<Rightarrow> sim_step list \<Rightarrow> bool" where
  "fits cap s r \<longleftrightarrow> length (fst (left_by s r)) \<le> cap \<and> length (snd (left_by s r)) \<le> cap"

definition plain_steps :: "sim_step list \<Rightarrow> bool" where
  "plain_steps r = list_all (\<lambda>st. st_what st \<noteq> Fill_Pipe) r"

lemma written_Cons:
  "written ks (st # r) = (if step_ends st then [] else (if st_what st \<in> ks then st_bytes st else []) @ written ks r)"
  by (simp add: written_def)

lemma ending_Cons: "ending (st # r) = (if step_ends st then Some (step_status st) else ending r)"
  by (simp add: ending_def)

lemma perform_ends:
  "step_ends st \<Longrightarrow> perform tk st s = Some (finish_child (step_status st) s)"
  by (auto simp: step_ends_def perform_def step_status_def)

lemma perform_writes:
  assumes "roomy cap tk" "\<not> sp_done s" "\<not> step_ends st" "st_what st \<noteq> Fill_Pipe" "fits cap s (st # r)"
  shows "\<exists>s1. perform tk st s = Some s1 \<and> \<not> sp_done s1 \<and> sp_next s1 = sp_next s \<and> sp_script s1 = sp_script s \<and>
    left_by s1 r = left_by s (st # r)"
proof -
  have k: "st_what st = Write_Out \<or> st_what st = Write_Err" using assms(3,4) by (cases "st_what st") (auto simp: step_ends_def)
  have o: "write_bytes tk (pe_bytes (sp_out s)) (st_bytes st) = pe_bytes (sp_out s) @ st_bytes st"
    if "pe_child_end (sp_out s)" "st_what st \<in> out_kinds (sp_merged s)"
    by (rule write_bytes_all [OF assms(1)]) (use assms(3,5) that in \<open>simp add: fits_def left_by_def written_Cons\<close>)
  have e: "write_bytes tk (pe_bytes (sp_err s)) (st_bytes st) = pe_bytes (sp_err s) @ st_bytes st"
    if "pe_child_end (sp_err s)" "st_what st \<in> err_kinds (sp_merged s)"
    by (rule write_bytes_all [OF assms(1)]) (use assms(3,5) that in \<open>simp add: fits_def left_by_def written_Cons\<close>)
  from k show ?thesis
    by (rule disjE; cases "sp_merged s")
      (use o e assms(2,3) in \<open>auto simp: perform_def emit_def left_by_def written_Cons out_kinds_def err_kinds_def\<close>)
qed

lemma run_live:
  assumes "roomy cap tk"
  shows "drop (sp_next s) (sp_script s) = r \<Longrightarrow> \<not> sp_done s \<Longrightarrow> plain_steps r \<Longrightarrow> fits cap s r \<Longrightarrow>
    \<exists>s1. run_to_completion tk s = Some s1 \<and> (pe_bytes (sp_out s1), pe_bytes (sp_err s1)) = left_by s r \<and>
      (case ending r of None \<Rightarrow> \<not> sp_done s1 | Some x \<Rightarrow> sp_done s1 \<and> sp_status s1 = x)"
proof (induction r arbitrary: s)
  case Nil
  then show ?case by (auto simp: run_to_completion.simps [of tk s] sim_step_child_def left_by_def written_def ending_def)
next
  case (Cons st r)
  define s0 where "s0 = s\<lparr>sp_next := sp_next s + 1\<rparr>"
  have l: "sp_next s < length (sp_script s)" using Cons.prems(1) by (metis drop_eq_Nil not_le list.distinct(1))
  have st: "sp_script s ! sp_next s = st" "drop (sp_next s + 1) (sp_script s) = r"
    using Cons.prems(1) l by (auto simp: Cons_nth_drop_Suc [symmetric])
  have run: "run_to_completion tk s = run_to_completion tk s1" if "perform tk st s0 = Some s1" for s1
    using that l st(1) by (simp add: run_to_completion.simps [of tk s] sim_step_child_def s0_def)
  show ?case
  proof (cases "step_ends st")
    case True
    have "run_to_completion tk s = run_to_completion tk (finish_child (step_status st) s0)" by (rule run) (simp add: perform_ends True)
    then show ?thesis using Cons.prems(2) True
      by (simp add: run_done finish_child_def s0_def drop_end_def left_by_def written_Cons ending_Cons)
  next
    case False
    have lb: "left_by s0 q = left_by s q" for q by (simp add: s0_def left_by_def)
    obtain s1 where s1: "perform tk st s0 = Some s1" "\<not> sp_done s1" "sp_next s1 = sp_next s + 1" "sp_script s1 = sp_script s"
      "left_by s1 r = left_by s (st # r)"
      using perform_writes [OF assms, of s0 st r] Cons.prems(2-4) False lb
      by (auto simp: plain_steps_def fits_def s0_def)
    have "fits cap s1 r" using Cons.prems(4) s1(5) by (simp add: fits_def)
    then have "\<exists>s2. run_to_completion tk s1 = Some s2 \<and> (pe_bytes (sp_out s2), pe_bytes (sp_err s2)) = left_by s1 r \<and>
      (case ending r of None \<Rightarrow> \<not> sp_done s2 | Some x \<Rightarrow> sp_done s2 \<and> sp_status s2 = x)"
      using Cons.prems(3) s1 st(2) by (intro Cons.IH) (auto simp: plain_steps_def)
    then show ?thesis using run [OF s1(1)] s1(5) False by (simp add: ending_Cons)
  qed
qed

text \<open>C29: A scripted child whose pipes have room runs to the end of its script. What it wrote before it ended, and
  nothing else, is in its pipes, and still is after it was stopped and reaped; the status \<^verbatim>\<open>reap\<close> returns is that of
  the first step that ends it, and there is none if no step does.\<close>

theorem sim_output_survives:
  assumes "sim_spawn spec answers i = (Inr s, j)" "roomy cap tk"
    and "plain_steps (parse_sim_script (ps_argv spec))" "fits cap s (parse_sim_script (ps_argv spec))"
  shows "\<exists>s1. run_to_completion tk s = Some s1 \<and>
    (\<forall>m c. \<forall>s2 \<in> {s1, sim_stop m c s1, snd (sim_reap s1)}.
       pe_bytes (sp_out s2) =
         (if ps_stdout_to spec = To_Pipe then written (out_kinds (ps_merge_stderr spec)) (parse_sim_script (ps_argv spec)) else []) \<and>
       pe_bytes (sp_err s2) =
         (if ps_stderr_to spec = To_Pipe then written (err_kinds (ps_merge_stderr spec)) (parse_sim_script (ps_argv spec)) else [])) \<and>
    fst (sim_reap s1) = ending (parse_sim_script (ps_argv spec))"
proof -
  have s: "s = new_child spec i" using assms(1) by (auto simp: sim_spawn_def split: option.splits)
  obtain s1 where s1: "run_to_completion tk s = Some s1"
    "(pe_bytes (sp_out s1), pe_bytes (sp_err s1)) = left_by s (parse_sim_script (ps_argv spec))"
    "case ending (parse_sim_script (ps_argv spec)) of None \<Rightarrow> \<not> sp_done s1 | Some x \<Rightarrow> sp_done s1 \<and> sp_status s1 = x"
    using run_live [OF assms(2), of s] assms(3,4) by (auto simp: s new_child_def)
  have b: "pe_bytes (sp_out s1) =
      (if ps_stdout_to spec = To_Pipe then written (out_kinds (ps_merge_stderr spec)) (parse_sim_script (ps_argv spec)) else [])"
    "pe_bytes (sp_err s1) =
      (if ps_stderr_to spec = To_Pipe then written (err_kinds (ps_merge_stderr spec)) (parse_sim_script (ps_argv spec)) else [])"
    using s1(2) by (auto simp: left_by_def s new_child_def open_pipe_def shut_pipe_def err_kinds_def written_def)
  have "fst (sim_reap s1) = ending (parse_sim_script (ps_argv spec))"
    using s1(3) by (auto simp: sim_reap_def split: option.splits)
  then show ?thesis using s1(1) b by (auto simp: sim_stop_def sim_reap_def finish_child_def drop_end_def)
qed

theorem sim_output_survives_witness:
  "\<exists>s1. run_to_completion (\<lambda>h n. 64 - h)
      (new_child (default_spec\<lparr>ps_argv := [''sim'', ''out:hi'', ''exit:3'', ''out:no'']\<rparr>) 7) = Some s1 \<and>
    pe_bytes (sp_out s1) = ''hi'' \<and> fst (sim_reap s1) = Some \<lparr>ex_how = Exited, ex_code = 3\<rparr>"
proof -
  let ?spec = "default_spec\<lparr>ps_argv := [''sim'', ''out:hi'', ''exit:3'', ''out:no'']\<rparr>"
  have p: "parse_sim_script (ps_argv ?spec) =
    [\<lparr>st_what = Write_Out, st_bytes = ''hi'', st_value = 0\<rparr>, \<lparr>st_what = Exit_Code, st_bytes = [], st_value = 3\<rparr>,
     \<lparr>st_what = Write_Out, st_bytes = ''no'', st_value = 0\<rparr>]"
    by code_simp
  have "sim_spawn ?spec [] 7 = (Inr (new_child ?spec 7), 8)"
    by (simp add: sim_spawn_def default_spec_def)
  from sim_output_survives [OF this, of 64 "\<lambda>h n. 64 - h"]
  show ?thesis unfolding p
    by (auto simp: roomy_def plain_steps_def fits_def left_by_def written_def step_ends_def out_kinds_def err_kinds_def
        new_child_def default_spec_def open_pipe_def ending_def step_status_def)
qed

text \<open>A scripted child always comes to the end of its script: a pipe that is full refuses, so neither the step that
  fills a pipe nor the loop over the steps runs forever.\<close>

theorem sim_run_returns:
  assumes "bounded_by cap tk"
  shows "\<exists>s1. run_to_completion tk s = Some s1 \<and> sp_next s1 = max (sp_next s) (length (sp_script s)) \<and>
    sim_step_child tk s1 = Some (False, s1)"
  using run_returns [OF assms, of s] by (auto simp: sim_step_child_def)

theorem sim_run_returns_witness:
  "\<exists>s1. run_to_completion (\<lambda>h n. 8192 - h) (new_child (default_spec\<lparr>ps_argv := [''sim'', ''fill'', ''exit'']\<rparr>) 7) = Some s1"
  using sim_run_returns [of 8192 "\<lambda>h n. 8192 - h" "new_child (default_spec\<lparr>ps_argv := [''sim'', ''fill'', ''exit'']\<rparr>) 7"]
  by (auto simp: bounded_by_def)

section \<open>Scripts as arguments\<close>

definition show_int :: "int \<Rightarrow> string" where
  "show_int i = (if i < 0 then CHR ''-'' # show_nat (nat (- i)) else show_nat (nat i))"

text \<open>The argument that spells a step.\<close>

definition render_step :: "sim_step \<Rightarrow> string" where
  "render_step st =
     (case st_what st of
        Write_Out \<Rightarrow> ''out:'' @ st_bytes st
      | Write_Err \<Rightarrow> ''err:'' @ st_bytes st
      | Fill_Pipe \<Rightarrow> ''fill''
      | Exit_Ok \<Rightarrow> ''exit''
      | Exit_Code \<Rightarrow> ''exit:'' @ show_int (st_value st)
      | Killed \<Rightarrow> ''kill:'' @ show_int (st_value st))"

text \<open>Steps whose unused members have their defaults.\<close>

definition step_ok :: "sim_step \<Rightarrow> bool" where
  "step_ok st =
     (case st_what st of
        Write_Out \<Rightarrow> st_value st = 0
      | Write_Err \<Rightarrow> st_value st = 0
      | Fill_Pipe \<Rightarrow> st_bytes st = [] \<and> st_value st = 0
      | Exit_Ok \<Rightarrow> st_bytes st = [] \<and> st_value st = 0
      | Exit_Code \<Rightarrow> st_bytes st = []
      | Killed \<Rightarrow> st_bytes st = [])"

lemma show_nat_head:
  obtains c cs where "show_nat n = c # cs" "\<not> is_space c" "c \<noteq> CHR ''-''" "c \<noteq> CHR ''+''"
proof -
  obtain c cs where c: "show_nat n = c # cs" "is_digit c" using show_nat_digits [of n] by (cases "show_nat n") auto
  moreover have "\<not> is_space c" "c \<noteq> CHR ''-''" "c \<noteq> CHR ''+''" using c(2) by (auto simp: is_digit_def is_space_def)
  ultimately show ?thesis using that by blast
qed

lemma atoi_show: "atoi (show_int i) = i"
proof -
  have t: "takeWhile is_digit (show_nat n) = show_nat n" for n
    using show_nat_digits [of n] by (simp add: list_all_iff takeWhile_eq_all_conv)
  show ?thesis
  proof (cases "i < 0")
    case True
    then show ?thesis using show_nat_digits [of "nat (- i)"] by (simp add: atoi_def show_int_def is_space_def t)
  next
    case False
    obtain c cs where c: "show_nat (nat i) = c # cs" "\<not> is_space c" "c \<noteq> CHR ''-''" "c \<noteq> CHR ''+''" by (rule show_nat_head)
    have "atoi (show_int i) = digits_value (takeWhile is_digit (show_nat (nat i)))" using False c by (simp add: atoi_def show_int_def)
    then show ?thesis using False t [of "nat i"] show_nat_digits [of "nat i"] by simp
  qed
qed

lemma show_int_not_empty: "show_int i \<noteq> []"
  using show_nat_digits [of "nat i"] by (simp add: show_int_def)

lemma parse_render: "step_ok st \<Longrightarrow> parse_step (render_step st) = Some st"
  by (cases st; cases "st_what st")
    (auto simp: parse_step_def render_step_def split_colon_def step_ok_def blank_step_def atoi_show show_int_not_empty)

text \<open>Every script can be spelled: from the arguments that spell its steps, after the program's name, the
  parser reads the script back, bytes with colons and negative values included.\<close>

theorem sim_script_roundtrip:
  assumes "list_all step_ok script"
  shows "parse_sim_script (name # map render_step script) = script"
  using assms by (induction script) (auto simp: parse_sim_script_def List.map_filter_def parse_render)

theorem sim_script_roundtrip_witness:
  "parse_sim_script (''sim'' # map render_step [blank_step\<lparr>st_what := Write_Out, st_bytes := ''a:b''\<rparr>, blank_step\<lparr>st_what := Killed, st_value := 15\<rparr>]) =
    [blank_step\<lparr>st_what := Write_Out, st_bytes := ''a:b''\<rparr>, blank_step\<lparr>st_what := Killed, st_value := 15\<rparr>]"
  by (rule sim_script_roundtrip) (simp add: step_ok_def blank_step_def)

end
