(* ===== verification/Posix_Signals.thy ===== *)
theory Posix_Signals
  imports Jaal_Prelude
begin

text \<open>
  Signals on POSIX systems (\<^verbatim>\<open>src/platform/posix/signals.cpp\<close>): a table of eight slots, each a pipe and a word of pending bits, a
  handler that may run on any thread at any time, and the owners that install, take and release. Every atomic
  operation is a step; steps of several runs of the handler, of the owners and of code elsewhere that opens and closes
  descriptors interleave freely.
\<close>

section \<open>State\<close>

definition slot_count :: nat where
  "slot_count = 8"

definition signal_count :: nat where
  "signal_count = 5"

text \<open>SIGINT, SIGTERM, SIGHUP, SIGWINCH and SIGCHLD, with their numbers on Linux.\<close>

definition native_of :: "nat \<Rightarrow> int" where
  "native_of i = (if i = 0 then 2 else if i = 1 then 15 else if i = 2 then 1 else if i = 3 then 28 else if i = 4 then 17 else 0)"

definition signal_index :: "int \<Rightarrow> nat option" where
  "signal_index sig = List.find (\<lambda>i. native_of i = sig) [0..<signal_count]"

record sig_slot =
  ss_fd :: int
  ss_wants :: "32 word"
  ss_pending :: "32 word"
  ss_read_fd :: int
  ss_used :: bool

definition empty_slot :: sig_slot where
  "empty_slot = \<lparr>ss_fd = -1, ss_wants = 0, ss_pending = 0, ss_read_fd = -1, ss_used = False\<rparr>"

text \<open>What happens to a signal: the handler of this file, nothing, or an action set elsewhere.\<close>

datatype action = Ours | Ignored | Theirs nat

text \<open>A descriptor: the write end of a slot's pipe with the bytes in it, its read end, or anything else.\<close>

datatype desc = Slot_Write nat nat | Slot_Read nat | Other

text \<open>Where a run of the handler is: at a slot, before loading its descriptor, before setting the bit, before writing, at the end.\<close>

datatype handler_pc = At_Slot nat | At_Fd nat | At_Or nat int | At_Write nat int | At_End

text \<open>Where the thread that holds the lock is.\<close>

datatype locker =
    Free
  | Installed nat int "32 word"
  | Wanted nat int
  | Unwanted nat
  | Unpublished nat int
  | Quiet nat int

record signals =
  g_slots :: "nat \<Rightarrow> sig_slot"
  g_in_handler :: nat
  g_refs :: "nat \<Rightarrow> nat"
  g_installed :: "nat \<Rightarrow> bool"
  g_prev :: "nat \<Rightarrow> action"
  g_action :: "nat \<Rightarrow> action"
  g_table :: "int \<rightharpoonup> desc"
  g_runs :: "(nat \<times> handler_pc) list"
  g_lock :: locker
  g_owner :: "nat \<Rightarrow> 32 word option"
  g_drained :: "nat \<Rightarrow> bool"

definition no_signals_yet :: "(nat \<Rightarrow> action) \<Rightarrow> (int \<rightharpoonup> desc) \<Rightarrow> signals" where
  "no_signals_yet act t =
     \<lparr>g_slots = (\<lambda>_. empty_slot), g_in_handler = 0, g_refs = (\<lambda>_. 0), g_installed = (\<lambda>_. False), g_prev = act, g_action = act,
      g_table = t, g_runs = [], g_lock = Free, g_owner = (\<lambda>_. None), g_drained = (\<lambda>_. False)\<rparr>"

definition upd_slot :: "nat \<Rightarrow> (sig_slot \<Rightarrow> sig_slot) \<Rightarrow> signals \<Rightarrow> signals" where
  "upd_slot k f s = s\<lparr>g_slots := (g_slots s)(k := f (g_slots s k))\<rparr>"

section \<open>The handler\<close>

text \<open>A write that finds the pipe full changes nothing; one to a descriptor of other code is the harm to avoid.\<close>

definition write_byte :: "nat \<Rightarrow> int \<Rightarrow> (int \<rightharpoonup> desc) \<Rightarrow> int \<rightharpoonup> desc" where
  "write_byte cap fd t =
     (case t fd of
        Some (Slot_Write k n) \<Rightarrow> t(fd \<mapsto> Slot_Write k (if n < cap then n + 1 else n))
      | _ \<Rightarrow> t)"

fun handler_step :: "nat \<Rightarrow> nat \<Rightarrow> handler_pc \<Rightarrow> signals \<Rightarrow> handler_pc option \<times> signals" where
  "handler_step cap i (At_Slot k) s =
     (if k \<ge> slot_count then (Some At_End, s)
      else if \<not> bit (ss_wants (g_slots s k)) i then (Some (At_Slot (k + 1)), s)
      else (Some (At_Fd k), s))"
| "handler_step cap i (At_Fd k) s =
     (if ss_fd (g_slots s k) < 0 then (Some (At_Slot (k + 1)), s) else (Some (At_Or k (ss_fd (g_slots s k))), s))"
| "handler_step cap i (At_Or k fd) s =
     (Some (At_Write k fd), upd_slot k (\<lambda>sl. sl\<lparr>ss_pending := set_bit i (ss_pending sl)\<rparr>) s)"
| "handler_step cap i (At_Write k fd) s = (Some (At_Slot (k + 1)), s\<lparr>g_table := write_byte cap fd (g_table s)\<rparr>)"
| "handler_step cap i At_End s = (None, s\<lparr>g_in_handler := g_in_handler s - 1\<rparr>)"

section \<open>Installing and releasing\<close>

definition honour_inherited_ignore :: "nat \<Rightarrow> bool" where
  "honour_inherited_ignore i \<longleftrightarrow> native_of i \<in> {2, 15, 1}"

definition inherited_ignore :: "nat \<Rightarrow> signals \<Rightarrow> bool" where
  "inherited_ignore i s \<longleftrightarrow> g_action s i = Ignored"

text \<open>\<open>ok\<close> says for which signals \<^verbatim>\<open>sigaction\<close> succeeds.\<close>

definition add_handler :: "(nat \<Rightarrow> bool) \<Rightarrow> nat \<Rightarrow> signals \<Rightarrow> bool \<times> signals" where
  "add_handler ok i s =
     (if g_refs s i > 0 then (True, s\<lparr>g_refs := (g_refs s)(i := g_refs s i + 1)\<rparr>)
      else if \<not> ok i then (False, s)
      else (True, s\<lparr>g_refs := (g_refs s)(i := g_refs s i + 1), g_prev := (g_prev s)(i := g_action s i),
              g_action := (g_action s)(i := Ours), g_installed := (g_installed s)(i := True)\<rparr>))"

definition drop_handler :: "nat \<Rightarrow> signals \<Rightarrow> signals" where
  "drop_handler i s =
     (let s1 = s\<lparr>g_refs := (g_refs s)(i := g_refs s i - 1)\<rparr>
      in if g_refs s1 i > 0 then s1
         else if g_installed s1 i
         then s1\<lparr>g_action := (g_action s1)(i := g_prev s1 i), g_installed := (g_installed s1)(i := False)\<rparr>
         else s1)"

fun add_wanted :: "(nat \<Rightarrow> bool) \<Rightarrow> 32 word \<Rightarrow> nat list \<Rightarrow> 32 word \<Rightarrow> signals \<Rightarrow> 32 word \<times> signals" where
  "add_wanted ok wanted [] got s = (got, s)"
| "add_wanted ok wanted (i # is) got s =
     (if \<not> bit wanted i then add_wanted ok wanted is got s
      else if \<not> g_installed s i \<and> honour_inherited_ignore i \<and> inherited_ignore i s then add_wanted ok wanted is got s
      else (case add_handler ok i s of (added, s1) \<Rightarrow>
              add_wanted ok wanted is (if added then set_bit i got else got) s1))"

definition drop_all :: "32 word \<Rightarrow> signals \<Rightarrow> signals" where
  "drop_all got s = fold (\<lambda>i s. if bit got i then drop_handler i s else s) [0..<signal_count] s"

text \<open>The first slot that is not used.\<close>

definition free_slot :: "signals \<Rightarrow> nat option" where
  "free_slot s = List.find (\<lambda>k. \<not> ss_used (g_slots s k)) [0..<slot_count]"

text \<open>\<^verbatim>\<open>install\<close> up to the two stores that publish the slot, with the pipe the system gave it.\<close>

definition install_begin :: "(nat \<Rightarrow> bool) \<Rightarrow> 32 word \<Rightarrow> nat \<Rightarrow> int \<Rightarrow> int \<Rightarrow> signals \<Rightarrow> signals" where
  "install_begin ok wanted k r w s =
     (let s1 = upd_slot k (\<lambda>sl. sl\<lparr>ss_used := True, ss_read_fd := r, ss_pending := 0\<rparr>)
                 (s\<lparr>g_table := (g_table s)(r \<mapsto> Slot_Read k, w \<mapsto> Slot_Write k 0)\<rparr>)
      in case add_wanted ok wanted [0..<signal_count] 0 s1 of (got, s2) \<Rightarrow>
           s2\<lparr>g_owner := (g_owner s2)(k := Some got), g_lock := Installed k w got\<rparr>)"

definition store_wants :: "nat \<Rightarrow> 32 word \<Rightarrow> signals \<Rightarrow> signals" where
  "store_wants k w s = upd_slot k (\<lambda>sl. sl\<lparr>ss_wants := w\<rparr>) s"

definition store_fd :: "nat \<Rightarrow> int \<Rightarrow> signals \<Rightarrow> signals" where
  "store_fd k fd s = upd_slot k (\<lambda>sl. sl\<lparr>ss_fd := fd\<rparr>) s"

text \<open>\<^verbatim>\<open>release\<close>: the exchange of the descriptor and the handlers, and, once no handler runs, the rest.\<close>

definition unpublish :: "nat \<Rightarrow> 32 word \<Rightarrow> signals \<Rightarrow> signals" where
  "unpublish k got s =
     (drop_all got (store_fd k (-1) s))\<lparr>g_owner := (g_owner s)(k := None), g_lock := Unpublished k (ss_fd (g_slots s k))\<rparr>"

definition close_slot :: "nat \<Rightarrow> int \<Rightarrow> signals \<Rightarrow> signals" where
  "close_slot k w s =
     (let t = (if w \<ge> 0 then (g_table s)(w := None) else g_table s);
          r = ss_read_fd (g_slots s k)
      in upd_slot k (\<lambda>sl. sl\<lparr>ss_read_fd := -1, ss_pending := 0, ss_used := False\<rparr>)
           (s\<lparr>g_table := (if r \<ge> 0 then t(r := None) else t), g_lock := Free\<rparr>))"

section \<open>Taking\<close>

text \<open>\<^verbatim>\<open>take\<close> in two steps: every byte is read, then the bits are exchanged for none.\<close>

definition drain_slot :: "nat \<Rightarrow> signals \<Rightarrow> signals" where
  "drain_slot k s =
     s\<lparr>g_table := (\<lambda>fd. case g_table s fd of
          Some (Slot_Write j n) \<Rightarrow> Some (Slot_Write j (if j = k then 0 else n)) | x \<Rightarrow> x),
       g_drained := (g_drained s)(k := True)\<rparr>"

definition exchange_pending :: "nat \<Rightarrow> signals \<Rightarrow> 32 word \<times> signals" where
  "exchange_pending k s =
     (ss_pending (g_slots s k), upd_slot k (\<lambda>sl. sl\<lparr>ss_pending := 0\<rparr>) (s\<lparr>g_drained := (g_drained s)(k := False)\<rparr>))"

text \<open>The slot the holder of the lock works on.\<close>

definition busy_with :: "nat \<Rightarrow> signals \<Rightarrow> bool" where
  "busy_with k s =
     (case g_lock s of
        Free \<Rightarrow> False | Installed j _ _ \<Rightarrow> j = k | Wanted j _ \<Rightarrow> j = k | Unwanted j \<Rightarrow> j = k
      | Unpublished j _ \<Rightarrow> j = k | Quiet j _ \<Rightarrow> j = k)"

inductive sstep :: "nat \<Rightarrow> signals \<Rightarrow> signals \<Rightarrow> bool" for cap where
  arrive: "signal_index sig = Some i \<Longrightarrow> g_action s i = Ours \<Longrightarrow>
    sstep cap s (s\<lparr>g_in_handler := g_in_handler s + 1, g_runs := g_runs s @ [(i, At_Slot 0)]\<rparr>)"
| run: "j < length (g_runs s) \<Longrightarrow> g_runs s ! j = (i, pc) \<Longrightarrow> handler_step cap i pc s = (Some pc', s') \<Longrightarrow>
    sstep cap s (s'\<lparr>g_runs := (g_runs s)[j := (i, pc')]\<rparr>)"
| return: "j < length (g_runs s) \<Longrightarrow> g_runs s ! j = (i, pc) \<Longrightarrow> handler_step cap i pc s = (None, s') \<Longrightarrow>
    sstep cap s (s'\<lparr>g_runs := take j (g_runs s) @ drop (j + 1) (g_runs s)\<rparr>)"
| install: "g_lock s = Free \<Longrightarrow> free_slot s = Some k \<Longrightarrow> r \<noteq> w \<Longrightarrow> 0 \<le> r \<Longrightarrow> 0 \<le> w \<Longrightarrow> g_table s r = None \<Longrightarrow> g_table s w = None \<Longrightarrow>
    sstep cap s (install_begin ok wanted k r w s)"
| want: "g_lock s = Installed k w got \<Longrightarrow> sstep cap s ((store_wants k got s)\<lparr>g_lock := Wanted k w\<rparr>)"
| publish: "g_lock s = Wanted k w \<Longrightarrow> sstep cap s ((store_fd k w s)\<lparr>g_lock := Free\<rparr>)"
| release: "g_lock s = Free \<Longrightarrow> g_owner s k = Some got \<Longrightarrow> \<not> g_drained s k \<Longrightarrow>
    sstep cap s ((store_wants k 0 s)\<lparr>g_lock := Unwanted k\<rparr>)"
| unpublish: "g_lock s = Unwanted k \<Longrightarrow> g_owner s k = Some got \<Longrightarrow> sstep cap s (unpublish k got s)"
| wait_out: "g_lock s = Unpublished k w \<Longrightarrow> g_in_handler s = 0 \<Longrightarrow> sstep cap s (s\<lparr>g_lock := Quiet k w\<rparr>)"
| close: "g_lock s = Quiet k w \<Longrightarrow> sstep cap s (close_slot k w s)"
| drain_slot: "g_owner s k = Some got \<Longrightarrow> \<not> busy_with k s \<Longrightarrow> \<not> g_drained s k \<Longrightarrow> sstep cap s (drain_slot k s)"
| exchange: "g_drained s k \<Longrightarrow> sstep cap s (snd (exchange_pending k s))"
| other_open: "g_table s fd = None \<Longrightarrow> sstep cap s (s\<lparr>g_table := (g_table s)(fd \<mapsto> Other)\<rparr>)"
| other_close: "g_table s fd = Some Other \<Longrightarrow> sstep cap s (s\<lparr>g_table := (g_table s)(fd := None)\<rparr>)"

inductive sreach :: "nat \<Rightarrow> (nat \<Rightarrow> action) \<Rightarrow> signals \<Rightarrow> bool" for cap act where
  start: "(\<And>fd d. t fd = Some d \<Longrightarrow> d = Other) \<Longrightarrow> sreach cap act (no_signals_yet act t)"
| step: "sreach cap act s \<Longrightarrow> sstep cap s s' \<Longrightarrow> sreach cap act s'"

section \<open>No write to a descriptor that is not ours\<close>

definition holds_fd :: "handler_pc \<Rightarrow> nat \<Rightarrow> int \<Rightarrow> bool" where
  "holds_fd pc k fd \<longleftrightarrow> pc = At_Or k fd \<or> pc = At_Write k fd"

definition writes_to :: "signals \<Rightarrow> nat \<Rightarrow> int \<Rightarrow> bool" where
  "writes_to s k fd \<longleftrightarrow> 0 \<le> fd \<and> (\<exists>n. g_table s fd = Some (Slot_Write k n))"

text \<open>What a run of the handler holds is published, or waits to be closed until no run is left.\<close>

definition runs_ok :: "signals \<Rightarrow> bool" where
  "runs_ok s \<longleftrightarrow> g_in_handler s = length (g_runs s) \<and>
     (\<forall>i pc k fd. (i, pc) \<in> set (g_runs s) \<longrightarrow> holds_fd pc k fd \<longrightarrow>
        0 \<le> fd \<and> (ss_fd (g_slots s k) = fd \<or> g_lock s = Unpublished k fd))"

definition slots_ok :: "signals \<Rightarrow> bool" where
  "slots_ok s \<longleftrightarrow>
     (\<forall>k. 0 \<le> ss_fd (g_slots s k) \<longrightarrow> writes_to s k (ss_fd (g_slots s k))) \<and>
     (\<forall>k. ss_used (g_slots s k) \<longrightarrow> g_table s (ss_read_fd (g_slots s k)) = Some (Slot_Read k)) \<and>
     (\<forall>k. \<not> ss_used (g_slots s k) \<longrightarrow> ss_fd (g_slots s k) < 0 \<and> g_owner s k = None \<and> \<not> busy_with k s) \<and>
     (\<forall>k. g_drained s k \<longrightarrow> g_owner s k \<noteq> None \<and> \<not> busy_with k s)"

definition lock_ok :: "signals \<Rightarrow> bool" where
  "lock_ok s \<longleftrightarrow>
     (\<forall>k w got. g_lock s = Installed k w got \<longrightarrow> ss_fd (g_slots s k) < 0 \<and> writes_to s k w \<and> ss_pending (g_slots s k) = 0) \<and>
     (\<forall>k w. g_lock s = Wanted k w \<longrightarrow> ss_fd (g_slots s k) < 0 \<and> writes_to s k w \<and> ss_pending (g_slots s k) = 0) \<and>
     (\<forall>k w. g_lock s = Unpublished k w \<or> g_lock s = Quiet k w \<longrightarrow> ss_fd (g_slots s k) < 0 \<and> writes_to s k w) \<and>
     (\<forall>k. g_owner s k \<noteq> None \<longrightarrow> \<not> (\<exists>w got. g_lock s = Installed k w got \<or> g_lock s = Wanted k w) \<longrightarrow> 0 \<le> ss_fd (g_slots s k))"

definition sig_inv :: "signals \<Rightarrow> bool" where
  "sig_inv s \<longleftrightarrow> runs_ok s \<and> slots_ok s \<and> lock_ok s"

lemmas sig_defs = sig_inv_def runs_ok_def slots_ok_def lock_ok_def writes_to_def busy_with_def

text \<open>The bookkeeping of handlers touches nothing else.\<close>

definition same_but_handlers :: "signals \<Rightarrow> signals \<Rightarrow> bool" where
  "same_but_handlers s s' \<longleftrightarrow> g_slots s' = g_slots s \<and> g_in_handler s' = g_in_handler s \<and> g_table s' = g_table s \<and>
     g_runs s' = g_runs s \<and> g_lock s' = g_lock s \<and> g_owner s' = g_owner s \<and> g_drained s' = g_drained s"

lemma same_refl: "same_but_handlers s s"
  by (simp add: same_but_handlers_def)

lemma same_trans: "same_but_handlers s s1 \<Longrightarrow> same_but_handlers s1 s2 \<Longrightarrow> same_but_handlers s s2"
  by (simp add: same_but_handlers_def)

lemma add_handler_same: "same_but_handlers s (snd (add_handler ok i s))"
  by (simp add: add_handler_def same_but_handlers_def)

lemma drop_handler_same: "same_but_handlers s (drop_handler i s)"
  by (simp add: drop_handler_def same_but_handlers_def Let_def)

lemma add_wanted_same: "same_but_handlers s (snd (add_wanted ok wanted is got s))"
proof (induction "is" arbitrary: got s)
  case (Cons i "is")
  obtain b s1 where a: "add_handler ok i s = (b, s1)" by (cases "add_handler ok i s")
  then have "same_but_handlers s s1" using add_handler_same [of s ok i] by simp
  then show ?case using Cons a by (auto intro: same_trans)
qed (simp add: same_refl)

lemma drop_all_same: "same_but_handlers s (drop_all got s)"
proof -
  have "same_but_handlers s (fold (\<lambda>i s. if bit got i then drop_handler i s else s) is s)" for "is"
    by (induction "is" arbitrary: s) (auto intro: same_refl same_trans drop_handler_same)
  then show ?thesis by (simp add: drop_all_def)
qed

lemma same_fields:
  assumes "same_but_handlers s s'"
  shows "g_slots s' = g_slots s" "g_in_handler s' = g_in_handler s" "g_table s' = g_table s" "g_runs s' = g_runs s"
    "g_lock s' = g_lock s" "g_owner s' = g_owner s" "g_drained s' = g_drained s"
  using assms by (auto simp: same_but_handlers_def)

lemma install_fields:
  "g_slots (install_begin ok wanted k r w s) = (g_slots s)(k := (g_slots s k)\<lparr>ss_used := True, ss_read_fd := r, ss_pending := 0\<rparr>)"
  "g_in_handler (install_begin ok wanted k r w s) = g_in_handler s" "g_runs (install_begin ok wanted k r w s) = g_runs s"
  "g_table (install_begin ok wanted k r w s) = (g_table s)(r \<mapsto> Slot_Read k, w \<mapsto> Slot_Write k 0)"
  "\<exists>got. g_owner (install_begin ok wanted k r w s) = (g_owner s)(k := Some got) \<and> g_lock (install_begin ok wanted k r w s) = Installed k w got"
  "g_drained (install_begin ok wanted k r w s) = g_drained s"
proof -
  define s1 where "s1 = upd_slot k (\<lambda>sl. sl\<lparr>ss_used := True, ss_read_fd := r, ss_pending := 0\<rparr>)
                 (s\<lparr>g_table := (g_table s)(r \<mapsto> Slot_Read k, w \<mapsto> Slot_Write k 0)\<rparr>)"
  obtain got s2 where a: "add_wanted ok wanted [0..<signal_count] 0 s1 = (got, s2)" by (cases "add_wanted ok wanted [0..<signal_count] 0 s1")
  have i: "install_begin ok wanted k r w s = s2\<lparr>g_owner := (g_owner s2)(k := Some got), g_lock := Installed k w got\<rparr>"
    using a by (simp add: install_begin_def s1_def Let_def)
  have "same_but_handlers s1 s2" using add_wanted_same [of s1 ok wanted "[0..<signal_count]" 0] a by simp
  note f = same_fields [OF this]
  show "g_slots (install_begin ok wanted k r w s) = (g_slots s)(k := (g_slots s k)\<lparr>ss_used := True, ss_read_fd := r, ss_pending := 0\<rparr>)"
    "g_in_handler (install_begin ok wanted k r w s) = g_in_handler s" "g_runs (install_begin ok wanted k r w s) = g_runs s"
    "g_table (install_begin ok wanted k r w s) = (g_table s)(r \<mapsto> Slot_Read k, w \<mapsto> Slot_Write k 0)"
    "\<exists>got. g_owner (install_begin ok wanted k r w s) = (g_owner s)(k := Some got) \<and> g_lock (install_begin ok wanted k r w s) = Installed k w got"
    "g_drained (install_begin ok wanted k r w s) = g_drained s"
    unfolding i by (simp_all add: f) (simp_all add: s1_def upd_slot_def)
qed

lemma unpublish_fields:
  "g_slots (unpublish k got s) = (g_slots s)(k := (g_slots s k)\<lparr>ss_fd := -1\<rparr>)" "g_in_handler (unpublish k got s) = g_in_handler s"
  "g_runs (unpublish k got s) = g_runs s" "g_table (unpublish k got s) = g_table s" "g_owner (unpublish k got s) = (g_owner s)(k := None)"
  "g_lock (unpublish k got s) = Unpublished k (ss_fd (g_slots s k))" "g_drained (unpublish k got s) = g_drained s"
  using same_fields [OF drop_all_same [of "store_fd k (-1) s" got]] by (simp_all add: unpublish_def store_fd_def upd_slot_def)


text \<open>One step of a run that goes on: it changes pending bits or bytes, or only where the run is.\<close>

lemma handler_step_cases:
  assumes "handler_step cap i pc s = (Some pc', s')"
  obtains (move) "s' = s" "\<And>k fd. holds_fd pc' k fd \<Longrightarrow> fd = ss_fd (g_slots s k) \<and> 0 \<le> fd" "\<And>k fd. pc \<noteq> At_Write k fd"
      "\<And>k fd. pc' \<noteq> At_Write k fd"
  | (mark) k fd where "pc = At_Or k fd" "pc' = At_Write k fd" "s' = upd_slot k (\<lambda>sl. sl\<lparr>ss_pending := set_bit i (ss_pending sl)\<rparr>) s"
  | (byte) k fd where "pc = At_Write k fd" "pc' = At_Slot (k + 1)" "s' = s\<lparr>g_table := write_byte cap fd (g_table s)\<rparr>"
  using assms by (cases pc) (auto simp: holds_fd_def split: if_splits)

lemma write_byte_iff:
  "(\<exists>n. write_byte cap fd t x = Some (Slot_Write k n)) = (\<exists>n. t x = Some (Slot_Write k n))"
  "(write_byte cap fd t x = Some (Slot_Read k)) = (t x = Some (Slot_Read k))"
  by (auto simp: write_byte_def split: option.splits desc.splits)

text \<open>States that agree on all the invariant reads but pending bits and runs.\<close>

lemma ok_cong:
  assumes "\<And>k. ss_fd (g_slots s' k) = ss_fd (g_slots s k)" "\<And>k. ss_used (g_slots s' k) = ss_used (g_slots s k)"
    "\<And>k. ss_read_fd (g_slots s' k) = ss_read_fd (g_slots s k)" "g_owner s' = g_owner s" "g_lock s' = g_lock s" "g_drained s' = g_drained s"
    "\<And>k x. (\<exists>n. g_table s' x = Some (Slot_Write k n)) = (\<exists>n. g_table s x = Some (Slot_Write k n))"
    "\<And>k x. (g_table s' x = Some (Slot_Read k)) = (g_table s x = Some (Slot_Read k))"
  shows "slots_ok s' = slots_ok s"
    and "(\<And>k. ss_fd (g_slots s k) < 0 \<Longrightarrow> busy_with k s \<Longrightarrow> (\<forall>w. g_lock s \<noteq> Unpublished k w) \<Longrightarrow> ss_pending (g_slots s' k) = ss_pending (g_slots s k)) \<Longrightarrow>
      lock_ok s' = lock_ok s"
  by (simp_all add: slots_ok_def lock_ok_def writes_to_def busy_with_def assms) (auto simp: busy_with_def)

lemma sig_inv_run:
  assumes "sig_inv s" "j < length (g_runs s)" "g_runs s ! j = (i, pc)" "handler_step cap i pc s = (Some pc', s')"
  shows "sig_inv (s'\<lparr>g_runs := (g_runs s)[j := (i, pc')]\<rparr>)"
proof -
  define s1 where "s1 = s'\<lparr>g_runs := (g_runs s)[j := (i, pc')]\<rparr>"
  have old: "0 \<le> fd \<and> (ss_fd (g_slots s k) = fd \<or> g_lock s = Unpublished k fd)" if "(a, q) \<in> set (g_runs s)" "holds_fd q k fd" for a q k fd
    using assms(1) that unfolding sig_inv_def runs_ok_def by blast
  have mem: "(i, pc) \<in> set (g_runs s)" using assms(2,3) by (metis nth_mem)
  have new: "0 \<le> fd \<and> (ss_fd (g_slots s k) = fd \<or> g_lock s = Unpublished k fd)" if "(a, q) \<in> set (g_runs s1)" "holds_fd q k fd" for a q k fd
  proof (cases "(a, q) \<in> set (g_runs s)")
    case False
    then have q: "q = pc'" using set_update_subset_insert [of "g_runs s" j "(i, pc')"] that(1) by (auto simp: s1_def)
    from assms(4) show ?thesis
    proof (cases rule: handler_step_cases)
      case move
      then show ?thesis using q that(2) by auto
    next
      case (mark k0 fd0)
      then show ?thesis using old [OF mem, of k fd] q that(2) by (auto simp: holds_fd_def)
    next
      case (byte k0 fd0)
      then show ?thesis using q that(2) by (simp add: holds_fd_def)
    qed
  qed (use old that in blast)
  have f: "ss_fd (g_slots s1 k) = ss_fd (g_slots s k)" "ss_used (g_slots s1 k) = ss_used (g_slots s k)"
    "ss_read_fd (g_slots s1 k) = ss_read_fd (g_slots s k)" "g_owner s1 = g_owner s" "g_lock s1 = g_lock s" "g_drained s1 = g_drained s"
    "(\<exists>n. g_table s1 x = Some (Slot_Write k n)) = (\<exists>n. g_table s x = Some (Slot_Write k n))"
    "(g_table s1 x = Some (Slot_Read k)) = (g_table s x = Some (Slot_Read k))" "g_in_handler s1 = g_in_handler s" for k x
    using assms(4) by (cases rule: handler_step_cases; simp add: s1_def upd_slot_def write_byte_iff)+
  have p: "ss_pending (g_slots s1 k) = ss_pending (g_slots s k)"
    if "ss_fd (g_slots s k) < 0" "busy_with k s" "\<forall>w. g_lock s \<noteq> Unpublished k w" for k
    using assms(4)
  proof (cases rule: handler_step_cases)
    case (mark k0 fd0)
    then have "k0 \<noteq> k" using old [OF mem, of k0 fd0] that by (auto simp: holds_fd_def)
    then show ?thesis using mark by (simp add: s1_def upd_slot_def)
  qed (simp_all add: s1_def)
  have "runs_ok s1" using new assms(1) unfolding runs_ok_def sig_inv_def f by (simp add: s1_def)
  moreover have "slots_ok s1" "lock_ok s1"
    using ok_cong [of s1 s] f p assms(1) unfolding sig_inv_def by blast+
  ultimately show ?thesis by (simp add: sig_inv_def s1_def)
qed


lemma sig_inv_return:
  assumes "sig_inv s" "j < length (g_runs s)" "g_runs s ! j = (i, pc)" "handler_step cap i pc s = (None, s')"
  shows "sig_inv (s'\<lparr>g_runs := take j (g_runs s) @ drop (j + 1) (g_runs s)\<rparr>)"
proof -
  have s': "s' = s\<lparr>g_in_handler := g_in_handler s - 1\<rparr>" using assms(4) by (cases pc) (auto split: if_splits)
  have "set (take j (g_runs s) @ drop (j + 1) (g_runs s)) \<subseteq> set (g_runs s)" by (auto dest: in_set_takeD in_set_dropD)
  then have "runs_ok (s'\<lparr>g_runs := take j (g_runs s) @ drop (j + 1) (g_runs s)\<rparr>)"
    using assms(1,2) unfolding s' sig_inv_def runs_ok_def by (simp add: Suc_le_eq) (meson in_set_dropD in_set_takeD)
  moreover have "slots_ok (s'\<lparr>g_runs := take j (g_runs s) @ drop (j + 1) (g_runs s)\<rparr>)"
    "lock_ok (s'\<lparr>g_runs := take j (g_runs s) @ drop (j + 1) (g_runs s)\<rparr>)"
    using assms(1) unfolding s' sig_inv_def by (simp_all add: slots_ok_def lock_ok_def writes_to_def busy_with_def)
  ultimately show ?thesis by (simp add: sig_inv_def)
qed

lemma free_slotD: "free_slot s = Some k \<Longrightarrow> \<not> ss_used (g_slots s k)"
  by (auto simp: free_slot_def find_Some_iff)

lemma sig_inv_install:
  assumes "sig_inv s" "g_lock s = Free" "free_slot s = Some k" "r \<noteq> w" "0 \<le> r" "0 \<le> w" "g_table s r = None" "g_table s w = None"
  shows "sig_inv (install_begin ok wanted k r w s)"
proof -
  define s1 where "s1 = install_begin ok wanted k r w s"
  obtain got where o: "g_owner s1 = (g_owner s)(k := Some got)" "g_lock s1 = Installed k w got" using install_fields(5) s1_def by blast
  note f = install_fields(1-4,6) [of ok wanted k r w s, folded s1_def] o
  have u: "\<not> ss_used (g_slots s k)" by (rule free_slotD [OF assms(3)])
  have k: "ss_fd (g_slots s k) < 0" "g_owner s k = None" "\<not> g_drained s k" using assms(1) u by (auto simp: sig_inv_def slots_ok_def)
  have "runs_ok s1" using assms(1,2) unfolding sig_inv_def runs_ok_def f by auto
  moreover have "slots_ok s1" using assms k unfolding sig_inv_def slots_ok_def writes_to_def busy_with_def f by auto
  moreover have "lock_ok s1" using assms k unfolding sig_inv_def lock_ok_def writes_to_def f by auto
  ultimately show ?thesis by (simp add: sig_inv_def s1_def)
qed

lemma sig_inv_unpublish:
  assumes "sig_inv s" "g_lock s = Unwanted k" "g_owner s k = Some got"
  shows "sig_inv (unpublish k got s)"
proof -
  define s1 where "s1 = unpublish k got s"
  note f = unpublish_fields [of k got s, folded s1_def]
  have fd: "0 \<le> ss_fd (g_slots s k)" using assms unfolding sig_inv_def lock_ok_def by auto
  have d: "\<not> g_drained s k" using assms by (auto simp: sig_inv_def slots_ok_def busy_with_def)
  have w: "writes_to s k (ss_fd (g_slots s k))" using assms(1) fd by (simp add: sig_inv_def slots_ok_def)
  have "runs_ok s1" using assms(1,2) unfolding sig_inv_def runs_ok_def f by auto
  moreover have "slots_ok s1" using assms d unfolding sig_inv_def slots_ok_def writes_to_def busy_with_def f by auto
  moreover have "lock_ok s1" using assms w unfolding sig_inv_def lock_ok_def writes_to_def f by auto
  ultimately show ?thesis by (simp add: sig_inv_def s1_def)
qed

lemma sig_inv_close:
  assumes "sig_inv s" "g_lock s = Quiet k w"
  shows "sig_inv (close_slot k w s)"
proof -
  define s1 where "s1 = close_slot k w s"
  have w: "writes_to s k w" "ss_fd (g_slots s k) < 0" using assms by (auto simp: sig_inv_def lock_ok_def)
  have b: "busy_with k s" using assms(2) by (simp add: busy_with_def)
  have k: "ss_used (g_slots s k)" "\<not> g_drained s k" using assms(1) b unfolding sig_inv_def slots_ok_def by blast+
  have o: "g_owner s k = None" using assms w(2) unfolding sig_inv_def lock_ok_def by auto
  have r: "g_table s (ss_read_fd (g_slots s k)) = Some (Slot_Read k)" using assms(1) k by (simp add: sig_inv_def slots_ok_def)
  have f: "g_slots s1 = (g_slots s)(k := (g_slots s k)\<lparr>ss_read_fd := -1, ss_pending := 0, ss_used := False\<rparr>)"
    "g_lock s1 = Free" "g_owner s1 = g_owner s" "g_drained s1 = g_drained s" "g_runs s1 = g_runs s" "g_in_handler s1 = g_in_handler s"
    by (simp_all add: s1_def close_slot_def upd_slot_def Let_def)
  have t: "g_table s1 x = g_table s x" if "x \<noteq> w" "x \<noteq> ss_read_fd (g_slots s k)" for x
    using that by (simp add: s1_def close_slot_def upd_slot_def Let_def)
  have wt: "writes_to s1 j x" if "writes_to s j x" "j \<noteq> k" for j x
    using that w(1) r t [of x] unfolding writes_to_def by fastforce
  have rd: "g_table s1 x = Some (Slot_Read j)" if "g_table s x = Some (Slot_Read j)" "j \<noteq> k" for j x
    using that w(1) r t [of x] unfolding writes_to_def by fastforce
  have "runs_ok s1" using assms w(2) unfolding sig_inv_def runs_ok_def f by auto
  moreover have "slots_ok s1" using assms(1) o k(2) w(2) wt rd unfolding sig_inv_def slots_ok_def f by (auto simp: busy_with_def f)
  moreover have "lock_ok s1" using assms o unfolding sig_inv_def lock_ok_def f by auto
  ultimately show ?thesis by (simp add: sig_inv_def s1_def)
qed


lemma sig_inv_drain:
  assumes "sig_inv s" "g_owner s k = Some got" "\<not> busy_with k s"
  shows "sig_inv (drain_slot k s)"
proof -
  define s1 where "s1 = drain_slot k s"
  have t: "(\<exists>n. g_table s1 x = Some (Slot_Write j n)) = (\<exists>n. g_table s x = Some (Slot_Write j n))"
    "(g_table s1 x = Some (Slot_Read j)) = (g_table s x = Some (Slot_Read j))" for x j
    by (auto simp: s1_def drain_slot_def split: option.splits desc.splits)
  have f: "g_slots s1 = g_slots s" "g_lock s1 = g_lock s" "g_owner s1 = g_owner s" "g_runs s1 = g_runs s" "g_in_handler s1 = g_in_handler s"
    "g_drained s1 = (g_drained s)(k := True)"
    by (simp_all add: s1_def drain_slot_def)
  have "runs_ok s1" "slots_ok s1" "lock_ok s1"
    using assms unfolding sig_inv_def runs_ok_def slots_ok_def lock_ok_def writes_to_def busy_with_def f t by auto
  then show ?thesis by (simp add: sig_inv_def s1_def)
qed

lemma sig_inv_other:
  assumes "sig_inv s" "\<And>x. x \<noteq> fd \<Longrightarrow> t x = g_table s x" "g_table s fd = None \<or> g_table s fd = Some Other"
  shows "sig_inv (s\<lparr>g_table := t\<rparr>)"
proof -
  have w: "writes_to (s\<lparr>g_table := t\<rparr>) k x" if "writes_to s k x" for k x
    using that assms(2) [of x] assms(3) by (cases "x = fd") (auto simp: writes_to_def)
  have r: "t x = Some (Slot_Read k)" if "g_table s x = Some (Slot_Read k)" for k x
    using that assms(2) [of x] assms(3) by (cases "x = fd") auto
  have b: "busy_with k (s\<lparr>g_table := t\<rparr>) = busy_with k s" for k by (simp add: busy_with_def)
  have "runs_ok (s\<lparr>g_table := t\<rparr>)" using assms(1) by (simp add: sig_inv_def runs_ok_def)
  moreover have "slots_ok (s\<lparr>g_table := t\<rparr>)" using assms(1) w r unfolding sig_inv_def slots_ok_def b by simp
  moreover have "lock_ok (s\<lparr>g_table := t\<rparr>)" using assms(1) w unfolding sig_inv_def lock_ok_def by simp
  ultimately show ?thesis by (simp add: sig_inv_def)
qed

lemma sig_inv_want:
  assumes "sig_inv s" "g_lock s = Installed k w got"
  shows "sig_inv ((store_wants k got s)\<lparr>g_lock := Wanted k w\<rparr>)"
proof -
  define s1 where "s1 = (store_wants k got s)\<lparr>g_lock := Wanted k w\<rparr>"
  have f: "ss_fd (g_slots s1 j) = ss_fd (g_slots s j)" "ss_used (g_slots s1 j) = ss_used (g_slots s j)"
    "ss_read_fd (g_slots s1 j) = ss_read_fd (g_slots s j)" "ss_pending (g_slots s1 j) = ss_pending (g_slots s j)" "g_table s1 = g_table s"
    "g_lock s1 = Wanted k w" "g_owner s1 = g_owner s" "g_runs s1 = g_runs s" "g_in_handler s1 = g_in_handler s" "g_drained s1 = g_drained s" for j
    by (simp_all add: s1_def store_wants_def upd_slot_def)
  have "runs_ok s1" "slots_ok s1" using assms unfolding sig_inv_def runs_ok_def slots_ok_def writes_to_def busy_with_def f by auto
  moreover have "lock_ok s1" using assms unfolding sig_inv_def lock_ok_def writes_to_def f by simp
  ultimately show ?thesis by (simp add: sig_inv_def s1_def)
qed

lemma sig_inv_publish:
  assumes "sig_inv s" "g_lock s = Wanted k w"
  shows "sig_inv ((store_fd k w s)\<lparr>g_lock := Free\<rparr>)"
proof -
  define s1 where "s1 = (store_fd k w s)\<lparr>g_lock := Free\<rparr>"
  have f: "g_slots s1 = (g_slots s)(k := (g_slots s k)\<lparr>ss_fd := w\<rparr>)" "g_table s1 = g_table s"
    "g_lock s1 = Free" "g_owner s1 = g_owner s" "g_runs s1 = g_runs s" "g_in_handler s1 = g_in_handler s" "g_drained s1 = g_drained s"
    by (simp_all add: s1_def store_fd_def upd_slot_def)
  have k: "ss_fd (g_slots s k) < 0" "writes_to s k w" using assms by (auto simp: sig_inv_def lock_ok_def)
  have u: "ss_used (g_slots s k)" using assms unfolding sig_inv_def slots_ok_def busy_with_def by force
  have "\<not> holds_fd pc k fd" if "(i, pc) \<in> set (g_runs s)" for i pc fd
    using assms k(1) that unfolding sig_inv_def runs_ok_def by fastforce
  then have "runs_ok s1" using assms(1,2) unfolding sig_inv_def runs_ok_def f by auto
  moreover have "slots_ok s1" using assms k u unfolding sig_inv_def slots_ok_def writes_to_def busy_with_def f by auto
  moreover have "lock_ok s1" using assms k unfolding sig_inv_def lock_ok_def writes_to_def f by auto
  ultimately show ?thesis by (simp add: sig_inv_def s1_def)
qed

lemma sig_inv_release:
  assumes "sig_inv s" "g_lock s = Free" "g_owner s k = Some got" "\<not> g_drained s k"
  shows "sig_inv ((store_wants k 0 s)\<lparr>g_lock := Unwanted k\<rparr>)"
proof -
  define s1 where "s1 = (store_wants k 0 s)\<lparr>g_lock := Unwanted k\<rparr>"
  have f: "ss_fd (g_slots s1 j) = ss_fd (g_slots s j)" "ss_used (g_slots s1 j) = ss_used (g_slots s j)"
    "ss_read_fd (g_slots s1 j) = ss_read_fd (g_slots s j)" "g_table s1 = g_table s"
    "g_lock s1 = Unwanted k" "g_owner s1 = g_owner s" "g_runs s1 = g_runs s" "g_in_handler s1 = g_in_handler s" "g_drained s1 = g_drained s" for j
    by (simp_all add: s1_def store_wants_def upd_slot_def)
  have u: "ss_used (g_slots s k)" using assms unfolding sig_inv_def slots_ok_def by force
  have "runs_ok s1" using assms(1,2) unfolding sig_inv_def runs_ok_def f by auto
  moreover have "slots_ok s1" using assms u unfolding sig_inv_def slots_ok_def writes_to_def busy_with_def f by auto
  moreover have "lock_ok s1" using assms unfolding sig_inv_def lock_ok_def f by simp
  ultimately show ?thesis by (simp add: sig_inv_def s1_def)
qed

lemma sig_inv_exchange:
  assumes "sig_inv s" "g_drained s k"
  shows "sig_inv (snd (exchange_pending k s))"
proof -
  define s1 where "s1 = snd (exchange_pending k s)"
  have f: "ss_fd (g_slots s1 j) = ss_fd (g_slots s j)" "ss_used (g_slots s1 j) = ss_used (g_slots s j)"
    "ss_read_fd (g_slots s1 j) = ss_read_fd (g_slots s j)" "g_table s1 = g_table s" "g_lock s1 = g_lock s" "g_owner s1 = g_owner s"
    "g_runs s1 = g_runs s" "g_in_handler s1 = g_in_handler s" "g_drained s1 = (g_drained s)(k := False)"
    "ss_pending (g_slots s1 j) = (if j = k then 0 else ss_pending (g_slots s j))" for j
    by (simp_all add: s1_def exchange_pending_def upd_slot_def)
  have "runs_ok s1" "slots_ok s1" using assms unfolding sig_inv_def runs_ok_def slots_ok_def writes_to_def busy_with_def f by auto
  moreover have "lock_ok s1" using assms unfolding sig_inv_def lock_ok_def writes_to_def f by auto
  ultimately show ?thesis by (simp add: sig_inv_def s1_def)
qed

lemma sig_inv_arrive:
  assumes "sig_inv s"
  shows "sig_inv (s\<lparr>g_in_handler := g_in_handler s + 1, g_runs := g_runs s @ [(i, At_Slot 0)]\<rparr>)"
  using assms by (auto simp: sig_defs holds_fd_def)

lemma sig_inv_wait_out:
  assumes "sig_inv s" "g_lock s = Unpublished k w" "g_in_handler s = 0"
  shows "sig_inv (s\<lparr>g_lock := Quiet k w\<rparr>)"
  using assms by (auto simp: sig_defs)

lemma sig_inv_step: "sstep cap s s' \<Longrightarrow> sig_inv s \<Longrightarrow> sig_inv s'"
proof (induction rule: sstep.induct)
  case (other_open s fd)
  then show ?case using sig_inv_other [of s fd] by simp
next
  case (other_close s fd)
  then show ?case using sig_inv_other [of s fd] by simp
qed (blast intro: sig_inv_arrive sig_inv_run sig_inv_return sig_inv_install sig_inv_want sig_inv_publish sig_inv_release sig_inv_unpublish
    sig_inv_wait_out sig_inv_close sig_inv_drain sig_inv_exchange)+

lemma sreach_inv: "sreach cap act s \<Longrightarrow> sig_inv s"
proof (induction rule: sreach.induct)
  case (start t)
  then show ?case by (simp add: no_signals_yet_def empty_slot_def sig_defs)
qed (rule sig_inv_step)


text \<open>C30: A run of the handler that is about to write holds the write end of the very slot it marked, whatever the order in
  which other threads install and release, and whoever reuses descriptors: none is closed while a run may still write
  to it.\<close>

theorem signals_no_stray_write:
  assumes "sreach cap act s" "(i, At_Write k fd) \<in> set (g_runs s)"
  shows "\<exists>n. g_table s fd = Some (Slot_Write k n)"
proof -
  have inv: "sig_inv s" by (rule sreach_inv [OF assms(1)])
  then have "0 \<le> fd \<and> (ss_fd (g_slots s k) = fd \<or> g_lock s = Unpublished k fd)"
    using assms(2) unfolding sig_inv_def runs_ok_def holds_fd_def by blast
  then show ?thesis using inv unfolding sig_inv_def slots_ok_def lock_ok_def writes_to_def by blast
qed

section \<open>No signal is lost\<close>

text \<open>A slot with pending bits wakes its owner, is being taken, or is about to be written to.\<close>

definition noticed :: "signals \<Rightarrow> nat \<Rightarrow> bool" where
  "noticed s k \<longleftrightarrow> ss_pending (g_slots s k) = 0 \<or> g_drained s k \<or>
     (\<exists>n > 0. g_table s (ss_fd (g_slots s k)) = Some (Slot_Write k n)) \<or>
     (\<exists>i. (i, At_Write k (ss_fd (g_slots s k))) \<in> set (g_runs s))"

definition all_noticed :: "signals \<Rightarrow> bool" where
  "all_noticed s \<longleftrightarrow> (\<forall>k. 0 \<le> ss_fd (g_slots s k) \<longrightarrow> noticed s k)"

text \<open>What a step may do to a slot without losing its notice.\<close>

lemma noticed_mono:
  assumes "noticed s k" "ss_fd (g_slots s' k) = ss_fd (g_slots s k)"
    "ss_pending (g_slots s' k) = ss_pending (g_slots s k) \<or> ss_pending (g_slots s' k) = 0" "g_drained s k \<Longrightarrow> g_drained s' k \<or> ss_pending (g_slots s' k) = 0"
    "\<And>n. 0 < n \<Longrightarrow> g_table s (ss_fd (g_slots s k)) = Some (Slot_Write k n) \<Longrightarrow>
       g_drained s' k \<or> (\<exists>m > 0. g_table s' (ss_fd (g_slots s k)) = Some (Slot_Write k m))"
    "\<And>i. (i, At_Write k (ss_fd (g_slots s k))) \<in> set (g_runs s) \<Longrightarrow>
       (i, At_Write k (ss_fd (g_slots s k))) \<in> set (g_runs s') \<or> (\<exists>m > 0. g_table s' (ss_fd (g_slots s k)) = Some (Slot_Write k m))"
  shows "noticed s' k"
  using assms unfolding noticed_def by metis

lemma write_byte_grows:
  "0 < n \<Longrightarrow> t x = Some (Slot_Write k n) \<Longrightarrow> \<exists>m > 0. write_byte cap fd t x = Some (Slot_Write k m)"
  by (auto simp: write_byte_def split: option.splits desc.splits)

lemma write_byte_here:
  "0 < cap \<Longrightarrow> t fd = Some (Slot_Write k n) \<Longrightarrow> \<exists>m > 0. write_byte cap fd t fd = Some (Slot_Write k m)"
  by (auto simp: write_byte_def)

lemma in_set_update_other: "x \<in> set xs \<Longrightarrow> x \<noteq> xs ! j \<Longrightarrow> x \<in> set (xs[j := y])"
  by (metis in_set_conv_nth length_list_update nth_list_update_neq)

lemma in_set_remove_nth: "x \<in> set xs \<Longrightarrow> x \<noteq> xs ! j \<Longrightarrow> j < length xs \<Longrightarrow> x \<in> set (take j xs @ drop (j + 1) xs)"
  by (metis Suc_eq_plus1 Un_iff id_take_nth_drop insert_iff list.set(2) set_append)

lemma noticed_run:
  assumes "0 < cap" "sig_inv s" "all_noticed s" "j < length (g_runs s)" "g_runs s ! j = (i, pc)" "handler_step cap i pc s = (Some pc', s')"
  shows "all_noticed (s'\<lparr>g_runs := (g_runs s)[j := (i, pc')]\<rparr>)"
  unfolding all_noticed_def
proof (intro allI impI)
  fix k
  define s1 where "s1 = s'\<lparr>g_runs := (g_runs s)[j := (i, pc')]\<rparr>"
  assume k: "0 \<le> ss_fd (g_slots (s'\<lparr>g_runs := (g_runs s)[j := (i, pc')]\<rparr>) k)"
  have fd: "ss_fd (g_slots s1 k) = ss_fd (g_slots s k)" "g_drained s1 = g_drained s"
    using assms(6) by (cases rule: handler_step_cases; simp add: s1_def upd_slot_def)+
  have old: "noticed s k" using assms(3) k fd by (simp add: all_noticed_def s1_def)
  have mem: "(i, pc) \<in> set (g_runs s)" using assms(4,5) by (metis nth_mem)
  have held: "0 \<le> fd' \<and> (ss_fd (g_slots s k') = fd' \<or> g_lock s = Unpublished k' fd')" if "holds_fd pc k' fd'" for k' fd'
    using assms(2) mem that unfolding sig_inv_def runs_ok_def by blast
  from assms(6) have "noticed s1 k"
  proof (cases rule: handler_step_cases)
    case move
    have "(a, At_Write x y) \<in> set ((g_runs s)[j := (i, pc')])" if "(a, At_Write x y) \<in> set (g_runs s)" for a x y
      by (rule in_set_update_other [OF that]) (use assms(5) move(3) in auto)
    then show ?thesis using move(1) by (intro noticed_mono [OF old]) (auto simp: s1_def)
  next
    case (mark k0 fd0)
    show ?thesis
    proof (cases "k = k0")
      case True
      have "ss_fd (g_slots s k0) = fd0"
        using held [of k0 fd0] mark(1) assms(2) k fd True unfolding sig_inv_def lock_ok_def s1_def [symmetric] by (auto simp: holds_fd_def)
      moreover have "(i, At_Write k0 fd0) \<in> set (g_runs s1)" using mark(2) assms(4) by (simp add: s1_def set_update_memI)
      ultimately show ?thesis using True fd by (auto simp: noticed_def)
    next
      case False
      then show ?thesis using in_set_update_other [of _ "g_runs s" j] assms(5) fd mark
        by (intro noticed_mono [OF old]) (auto simp: s1_def upd_slot_def)
    qed
  next
    case (byte k0 fd0)
    have grows: "\<exists>m > 0. g_table s1 x = Some (Slot_Write k m)" if "0 < n" "g_table s x = Some (Slot_Write k n)" for n x
      using write_byte_grows [of n "g_table s" x k] that byte(3) by (simp add: s1_def)
    have here: "\<exists>m > 0. g_table s1 fd0 = Some (Slot_Write k m)" if "k = k0" "ss_fd (g_slots s k) = fd0"
      using write_byte_here [OF assms(1)] that byte(3) assms(2) held [of k0 fd0] byte(1)
      unfolding sig_inv_def slots_ok_def writes_to_def s1_def by (auto simp: holds_fd_def)
    show ?thesis
    proof (rule noticed_mono [OF old fd(1)])
      show "(i', At_Write k (ss_fd (g_slots s k))) \<in> set (g_runs s1) \<or> (\<exists>m > 0. g_table s1 (ss_fd (g_slots s k)) = Some (Slot_Write k m))"
        if "(i', At_Write k (ss_fd (g_slots s k))) \<in> set (g_runs s)" for i'
        using in_set_update_other [OF that, of j "(i, pc')"] here assms(5) byte(1) by (auto simp: s1_def)
    qed (use grows byte(3) fd in \<open>auto simp: s1_def\<close>)
  qed
  then show "noticed (s'\<lparr>g_runs := (g_runs s)[j := (i, pc')]\<rparr>) k" by (simp add: s1_def)
qed


lemma noticed_return:
  assumes "all_noticed s" "j < length (g_runs s)" "g_runs s ! j = (i, pc)" "handler_step cap i pc s = (None, s')"
  shows "all_noticed (s'\<lparr>g_runs := take j (g_runs s) @ drop (j + 1) (g_runs s)\<rparr>)"
proof -
  have s': "s' = s\<lparr>g_in_handler := g_in_handler s - 1\<rparr>" "pc = At_End" using assms(4) by (cases pc; auto split: if_splits)+
  have keep: "(a, At_Write x y) \<in> set (take j (g_runs s) @ drop (j + 1) (g_runs s))" if "(a, At_Write x y) \<in> set (g_runs s)" for a x y
    by (rule in_set_remove_nth [OF that _ assms(2)]) (use assms(3) s'(2) in auto)
  show ?thesis unfolding all_noticed_def
  proof (intro allI impI)
    fix k assume "0 \<le> ss_fd (g_slots (s'\<lparr>g_runs := take j (g_runs s) @ drop (j + 1) (g_runs s)\<rparr>) k)"
    then have "noticed s k" using assms(1) by (simp add: all_noticed_def s'(1))
    then show "noticed (s'\<lparr>g_runs := take j (g_runs s) @ drop (j + 1) (g_runs s)\<rparr>) k"
      by (rule noticed_mono) (use keep in \<open>auto simp: s'(1)\<close>)
  qed
qed

text \<open>Steps of owners and of other code: published slots keep their bytes, or were drained.\<close>

lemma noticed_owner:
  assumes "all_noticed s" "g_runs s' = g_runs s"
    and "\<And>k. 0 \<le> ss_fd (g_slots s' k) \<Longrightarrow> ss_pending (g_slots s' k) = 0 \<or>
      (ss_fd (g_slots s' k) = ss_fd (g_slots s k) \<and> ss_pending (g_slots s' k) = ss_pending (g_slots s k) \<and>
       (g_drained s k \<longrightarrow> g_drained s' k) \<and> (g_drained s' k \<or> g_table s' (ss_fd (g_slots s k)) = g_table s (ss_fd (g_slots s k))))"
  shows "all_noticed s'"
  unfolding all_noticed_def
proof (intro allI impI)
  fix k assume k: "0 \<le> ss_fd (g_slots s' k)"
  show "noticed s' k"
  proof (cases "ss_pending (g_slots s' k) = 0")
    case False
    note a = assms(3) [OF k]
    then have "noticed s k" using False assms(1) k by (simp add: all_noticed_def)
    then show ?thesis by (rule noticed_mono) (use a False assms(2) in auto)
  qed (simp add: noticed_def)
qed

lemma noticed_step:
  assumes "0 < cap"
  shows "sstep cap s s' \<Longrightarrow> sig_inv s \<Longrightarrow> all_noticed s \<Longrightarrow> all_noticed s'"
proof (induction rule: sstep.induct)
  case (arrive sig i s)
  then show ?case by (auto simp: all_noticed_def noticed_def)
next
  case (run j s i pc pc' s')
  then show ?case using noticed_run [OF assms] by blast
next
  case (return j s i pc s')
  then show ?case using noticed_return by blast
next
  case (install s k r w ok wanted)
  have "writes_to s j (ss_fd (g_slots s j))" if "0 \<le> ss_fd (g_slots s j)" for j
    using install(8) that by (simp add: sig_inv_def slots_ok_def)
  then have "g_table (install_begin ok wanted k r w s) (ss_fd (g_slots s j)) = g_table s (ss_fd (g_slots s j))"
    if "0 \<le> ss_fd (g_slots s j)" for j
    using that install(6,7) unfolding writes_to_def install_fields(4) by fastforce
  note ne = this
  show ?case by (rule noticed_owner [OF install(9)]) (use ne in \<open>auto simp: install_fields(1-3,6)\<close>)
next
  case (want s k w got)
  show ?case by (rule noticed_owner [OF want(3)]) (use want in \<open>auto simp: store_wants_def upd_slot_def\<close>)
next
  case (publish s k w)
  show ?case by (rule noticed_owner [OF publish(3)]) (use publish in \<open>auto simp: store_fd_def upd_slot_def sig_inv_def lock_ok_def\<close>)
next
  case (release s k got)
  show ?case by (rule noticed_owner [OF release(5)]) (use release in \<open>auto simp: store_wants_def upd_slot_def\<close>)
next
  case (unpublish s k got)
  show ?case by (rule noticed_owner [OF unpublish(4)]) (use unpublish in \<open>auto simp: unpublish_fields\<close>)
next
  case (wait_out s k w)
  show ?case by (rule noticed_owner [OF wait_out(4)]) (use wait_out in \<open>auto\<close>)
next
  case (close s k w)
  have w: "writes_to s k w" "ss_fd (g_slots s k) < 0" using close(1,2) by (auto simp: sig_inv_def lock_ok_def)
  have "busy_with k s" using close(1) by (simp add: busy_with_def)
  then have "g_table s (ss_read_fd (g_slots s k)) = Some (Slot_Read k)" using close(2) unfolding sig_inv_def slots_ok_def by blast
  moreover have "writes_to s j (ss_fd (g_slots s j))" if "0 \<le> ss_fd (g_slots s j)" for j
    using close(2) that by (simp add: sig_inv_def slots_ok_def)
  ultimately have "ss_fd (g_slots s j) \<noteq> w" "ss_fd (g_slots s j) \<noteq> ss_read_fd (g_slots s k)" if "0 \<le> ss_fd (g_slots s j)" "j \<noteq> k" for j
    using that w(1) unfolding writes_to_def by fastforce+
  then have ne: "g_table (close_slot k w s) (ss_fd (g_slots s j)) = g_table s (ss_fd (g_slots s j))" if "0 \<le> ss_fd (g_slots s j)" "j \<noteq> k" for j
    using that by (simp add: close_slot_def upd_slot_def Let_def)
  have f: "g_slots (close_slot k w s) = (g_slots s)(k := (g_slots s k)\<lparr>ss_read_fd := -1, ss_pending := 0, ss_used := False\<rparr>)"
    "g_drained (close_slot k w s) = g_drained s" "g_runs (close_slot k w s) = g_runs s"
    by (simp_all add: close_slot_def upd_slot_def Let_def)
  show ?case by (rule noticed_owner [OF close(3)]) (use ne in \<open>auto simp: f\<close>)
next
  case (drain_slot s k got)
  have wr: "writes_to s j (ss_fd (g_slots s j))" if "0 \<le> ss_fd (g_slots s j)" for j
    using drain_slot(4) that by (simp add: sig_inv_def slots_ok_def)
  have "g_table (drain_slot k s) (ss_fd (g_slots s j)) = g_table s (ss_fd (g_slots s j))" if "0 \<le> ss_fd (g_slots s j)" "j \<noteq> k" for j
    using wr [OF that(1)] that(2) by (auto simp: writes_to_def drain_slot_def)
  note ne = this
  show ?case by (rule noticed_owner [OF drain_slot(5)]) (use ne drain_slot in \<open>auto simp: drain_slot_def\<close>)
next
  case (exchange s k)
  show ?case by (rule noticed_owner [OF exchange(3)]) (use exchange in \<open>auto simp: exchange_pending_def upd_slot_def\<close>)
next
  case (other_open s fd)
  then have "writes_to s j (ss_fd (g_slots s j))" if "0 \<le> ss_fd (g_slots s j)" for j using that by (simp add: sig_inv_def slots_ok_def)
  then have ne: "ss_fd (g_slots s j) \<noteq> fd" if "0 \<le> ss_fd (g_slots s j)" for j
    using that other_open(1) unfolding writes_to_def by fastforce
  show ?case by (rule noticed_owner [OF other_open(3)]) (use ne in \<open>simp_all add: fun_upd_other\<close>)
next
  case (other_close s fd)
  then have "writes_to s j (ss_fd (g_slots s j))" if "0 \<le> ss_fd (g_slots s j)" for j using that by (simp add: sig_inv_def slots_ok_def)
  then have ne: "ss_fd (g_slots s j) \<noteq> fd" if "0 \<le> ss_fd (g_slots s j)" for j
    using that other_close(1) unfolding writes_to_def by fastforce
  show ?case by (rule noticed_owner [OF other_close(3)]) (use ne in \<open>simp_all add: fun_upd_other\<close>)
qed

lemma sreach_noticed:
  assumes "0 < cap"
  shows "sreach cap act s \<Longrightarrow> all_noticed s"
proof (induction rule: sreach.induct)
  case (start t)
  then show ?case by (simp add: no_signals_yet_def empty_slot_def all_noticed_def)
next
  case (step s s')
  then show ?case using noticed_step [OF assms] sreach_inv by blast
qed

text \<open>C31: No signal is lost. Whenever a published slot has a pending bit, then either its pipe holds a byte, so that its owner
  wakes up, or the owner is taking the bits right now, or a run of the handler is about to write. With no run under
  way and nobody taking, the pipe is readable.\<close>

theorem signals_not_lost:
  assumes "sreach cap act s" "0 < cap" "0 \<le> ss_fd (g_slots s k)" "ss_pending (g_slots s k) \<noteq> 0"
  shows "g_drained s k \<or> (\<exists>n > 0. g_table s (ss_fd (g_slots s k)) = Some (Slot_Write k n)) \<or>
    (\<exists>i. (i, At_Write k (ss_fd (g_slots s k))) \<in> set (g_runs s))"
  using sreach_noticed [OF assms(2,1)] assms(3,4) by (auto simp: all_noticed_def noticed_def)


section \<open>Handlers come and go\<close>

text \<open>
  The counts: as many references to a signal as owners that watch it, the handler in place exactly while there is one, and
  what it replaced kept to be put back.
\<close>

definition watchers :: "signals \<Rightarrow> nat \<Rightarrow> nat set" where
  "watchers s i = {k. k < slot_count \<and> (\<exists>got. g_owner s k = Some got \<and> bit got i)}"

definition refs_ok :: "(nat \<Rightarrow> action) \<Rightarrow> (nat \<Rightarrow> nat) \<Rightarrow> signals \<Rightarrow> bool" where
  "refs_ok act n s \<longleftrightarrow>
     (\<forall>i < signal_count. g_refs s i = n i \<and> (g_installed s i \<longleftrightarrow> 0 < n i) \<and>
        (if 0 < n i then g_action s i = Ours \<and> g_prev s i = act i else g_action s i = act i))"

definition bit_count :: "32 word \<Rightarrow> nat \<Rightarrow> nat" where
  "bit_count w i = (if bit w i then 1 else 0)"

lemma add_handler_refs:
  assumes "refs_ok act n s" "i < signal_count" "add_handler ok i s = (added, s1)"
  shows "refs_ok act (if added then n(i := n i + 1) else n) s1"
  using assms by (auto simp: refs_ok_def add_handler_def split: if_splits)

lemma add_wanted_refs:
  assumes "refs_ok act (\<lambda>i. n i + bit_count got i) s" "set is \<subseteq> {..<signal_count}" "distinct is" "\<And>i. i \<in> set is \<Longrightarrow> \<not> bit got i"
    "add_wanted ok wanted is got s = (got', s1)"
  shows "refs_ok act (\<lambda>i. n i + bit_count got' i) s1"
  using assms
proof (induction "is" arbitrary: got s)
  case (Cons i "is")
  show ?case
  proof (cases "\<not> bit wanted i \<or> (\<not> g_installed s i \<and> honour_inherited_ignore i \<and> inherited_ignore i s)")
    case True
    then show ?thesis using Cons.IH [OF Cons.prems(1)] Cons.prems by (auto split: if_splits)
  next
    case False
    obtain added s2 where a: "add_handler ok i s = (added, s2)" by (cases "add_handler ok i s")
    have i: "i < signal_count" "i < 32" using Cons.prems(2) by (auto simp: signal_count_def)
    note r = add_handler_refs [OF Cons.prems(1) i(1) a]
    have "(if added then (\<lambda>i. n i + bit_count got i)(i := n i + bit_count got i + 1) else (\<lambda>i. n i + bit_count got i)) =
      (\<lambda>j. n j + bit_count (if added then set_bit i got else got) j)"
      using Cons.prems(4) [of i] i(2) by (auto simp: bit_count_def fun_eq_iff bit_set_bit_iff)
    with r have r': "refs_ok act (\<lambda>j. n j + bit_count (if added then set_bit i got else got) j) s2" by simp
    have nb: "\<not> bit (if added then set_bit i got else got) j" if "j \<in> set is" for j
      using Cons.prems(3,4) that by (auto simp: bit_set_bit_iff)
    have "add_wanted ok wanted is (if added then set_bit i got else got) s2 = (got', s1)" using Cons.prems(5) False a by auto
    then show ?thesis using Cons.IH [OF r' _ _ nb] Cons.prems(2,3) by simp
  qed
qed simp

lemma drop_handler_refs:
  assumes "refs_ok act n s" "i < signal_count" "0 < n i"
  shows "refs_ok act (n(i := n i - 1)) (drop_handler i s)"
  using assms by (auto simp: refs_ok_def drop_handler_def Let_def)

lemma drop_fold_refs:
  assumes "refs_ok act n s" "set is \<subseteq> {..<signal_count}" "distinct is" "\<And>i. i \<in> set is \<Longrightarrow> bit got i \<Longrightarrow> 0 < n i"
  shows "refs_ok act (\<lambda>i. if i \<in> set is \<and> bit got i then n i - 1 else n i)
    (fold (\<lambda>i s. if bit got i then drop_handler i s else s) is s)"
  using assms
proof (induction "is" arbitrary: n s)
  case (Cons i "is")
  define n' where "n' = (if bit got i then n(i := n i - 1) else n)"
  have "refs_ok act n' (if bit got i then drop_handler i s else s)"
    using Cons.prems drop_handler_refs [OF Cons.prems(1), of i] by (auto simp: n'_def)
  moreover have "0 < n' j" if "j \<in> set is" "bit got j" for j using Cons.prems(3,4) that by (auto simp: n'_def)
  ultimately have r: "refs_ok act (\<lambda>j. if j \<in> set is \<and> bit got j then n' j - 1 else n' j)
      (fold (\<lambda>i s. if bit got i then drop_handler i s else s) is (if bit got i then drop_handler i s else s))"
    using Cons.prems(2,3) by (intro Cons.IH) auto
  have "(\<lambda>j. if j \<in> set is \<and> bit got j then n' j - 1 else n' j) = (\<lambda>j. if j \<in> set (i # is) \<and> bit got j then n j - 1 else n j)"
    using Cons.prems(3) by (auto simp: n'_def fun_eq_iff)
  then show ?case using r by simp
qed simp

definition owners_ok :: "signals \<Rightarrow> bool" where
  "owners_ok s \<longleftrightarrow> (\<forall>k. g_owner s k \<noteq> None \<longrightarrow> k < slot_count)"

definition handlers_ok :: "(nat \<Rightarrow> action) \<Rightarrow> signals \<Rightarrow> bool" where
  "handlers_ok act s \<longleftrightarrow> owners_ok s \<and> refs_ok act (\<lambda>i. card (watchers s i)) s"

lemma finite_watchers: "finite (watchers s i)"
  by (simp add: watchers_def)

lemma handlers_same:
  assumes "handlers_ok act s" "g_owner s' = g_owner s" "g_refs s' = g_refs s" "g_installed s' = g_installed s" "g_action s' = g_action s"
    "g_prev s' = g_prev s"
  shows "handlers_ok act s'"
  using assms by (simp add: handlers_ok_def owners_ok_def refs_ok_def watchers_def)


lemma install_refs:
  assumes "handlers_ok act s" "free_slot s = Some k" "sig_inv s"
  shows "handlers_ok act (install_begin ok wanted k r w s)"
proof -
  define s1 where "s1 = upd_slot k (\<lambda>sl. sl\<lparr>ss_used := True, ss_read_fd := r, ss_pending := 0\<rparr>)
                 (s\<lparr>g_table := (g_table s)(r \<mapsto> Slot_Read k, w \<mapsto> Slot_Write k 0)\<rparr>)"
  obtain got s2 where a: "add_wanted ok wanted [0..<signal_count] 0 s1 = (got, s2)" by (cases "add_wanted ok wanted [0..<signal_count] 0 s1")
  have i: "install_begin ok wanted k r w s = s2\<lparr>g_owner := (g_owner s2)(k := Some got), g_lock := Installed k w got\<rparr>"
    using a by (simp add: install_begin_def s1_def Let_def)
  have o: "g_owner s2 = g_owner s" using add_wanted_same [of s1 ok wanted "[0..<signal_count]" 0] a
    by (simp add: same_but_handlers_def s1_def upd_slot_def)
  have k: "k < slot_count" using assms(2) by (auto simp: free_slot_def find_Some_iff)
  have n: "g_owner s k = None" using assms(2,3) free_slotD by (auto simp: sig_inv_def slots_ok_def)
  have "refs_ok act (\<lambda>i. card (watchers s i)) s1" using assms(1) by (simp add: handlers_ok_def refs_ok_def s1_def upd_slot_def)
  then have "refs_ok act (\<lambda>i. card (watchers s i) + bit_count 0 i) s1" by (simp add: bit_count_def)
  from add_wanted_refs [OF this _ _ _ a] have r: "refs_ok act (\<lambda>i. card (watchers s i) + bit_count got i) s2" by (simp add: atLeast0LessThan)
  have wt: "watchers (install_begin ok wanted k r w s) j = (if bit got j then insert k (watchers s j) else watchers s j)" for j
    using k n unfolding i by (auto simp: watchers_def o)
  have "k \<notin> watchers s j" for j using n by (simp add: watchers_def)
  then have "card (watchers (install_begin ok wanted k r w s) j) = card (watchers s j) + bit_count got j" for j
    by (simp add: wt bit_count_def finite_watchers)
  then have "refs_ok act (\<lambda>j. card (watchers (install_begin ok wanted k r w s) j)) (install_begin ok wanted k r w s)"
    using r unfolding i by (simp add: refs_ok_def)
  moreover have "owners_ok (install_begin ok wanted k r w s)" using assms(1) k unfolding i by (simp add: handlers_ok_def owners_ok_def o)
  ultimately show ?thesis by (simp add: handlers_ok_def)
qed

lemma unpublish_refs:
  assumes "handlers_ok act s" "g_owner s k = Some got"
  shows "handlers_ok act (unpublish k got s)"
proof -
  have k: "k < slot_count" using assms unfolding handlers_ok_def owners_ok_def by (metis option.distinct(1))
  have wt: "watchers (unpublish k got s) j = watchers s j - {k}" for j
    by (auto simp: watchers_def unpublish_fields split: if_splits)
  have m: "k \<in> watchers s j \<longleftrightarrow> bit got j" for j using k assms(2) by (simp add: watchers_def)
  have "refs_ok act (\<lambda>i. card (watchers s i)) (store_fd k (-1) s)"
    using assms(1) by (simp add: handlers_ok_def refs_ok_def store_fd_def upd_slot_def)
  moreover have "0 < card (watchers s j)" if "bit got j" for j using m [of j] that finite_watchers by (auto simp: card_gt_0_iff)
  ultimately have r: "refs_ok act (\<lambda>i. if i \<in> set [0..<signal_count] \<and> bit got i then card (watchers s i) - 1 else card (watchers s i))
      (drop_all got (store_fd k (-1) s))"
    unfolding drop_all_def by (intro drop_fold_refs) auto
  have c: "card (watchers (unpublish k got s) j) = (if bit got j then card (watchers s j) - 1 else card (watchers s j))" for j
    using m [of j] by (simp add: wt finite_watchers)
  have "refs_ok act (\<lambda>j. card (watchers (unpublish k got s) j)) (unpublish k got s)"
    using r unfolding refs_ok_def c by (simp add: unpublish_def)
  moreover have "owners_ok (unpublish k got s)" using assms(1) by (simp add: handlers_ok_def owners_ok_def unpublish_fields)
  ultimately show ?thesis by (simp add: handlers_ok_def)
qed

lemma handler_step_keeps:
  "handler_step cap i pc s = (x, s') \<Longrightarrow> g_owner s' = g_owner s \<and> g_refs s' = g_refs s \<and> g_installed s' = g_installed s \<and>
     g_action s' = g_action s \<and> g_prev s' = g_prev s"
  by (cases pc) (auto simp: upd_slot_def split: if_splits)

lemmas owner_step_defs = store_wants_def store_fd_def upd_slot_def close_slot_def drain_slot_def exchange_pending_def Let_def

lemma handlers_step: "sstep cap s s' \<Longrightarrow> sig_inv s \<Longrightarrow> handlers_ok act s \<Longrightarrow> handlers_ok act s'"
proof (induction rule: sstep.induct)
  case (run j s i pc pc' s')
  show ?case by (rule handlers_same [OF run(5)]) (use handler_step_keeps [OF run(3)] in simp_all)
next
  case (return j s i pc s')
  show ?case by (rule handlers_same [OF return(5)]) (use handler_step_keeps [OF return(3)] in simp_all)
next
  case (install s k r w ok wanted)
  then show ?case using install_refs by blast
next
  case (unpublish s k got)
  then show ?case using unpublish_refs by blast
next
  case (arrive sig i s)
  show ?case by (rule handlers_same [OF arrive(4)]) (simp_all add: owner_step_defs)
next
  case (want s k w got)
  show ?case by (rule handlers_same [OF want(3)]) (simp_all add: owner_step_defs)
next
  case (publish s k w)
  show ?case by (rule handlers_same [OF publish(3)]) (simp_all add: owner_step_defs)
next
  case (release s k got)
  show ?case by (rule handlers_same [OF release(5)]) (simp_all add: owner_step_defs)
next
  case (wait_out s k w)
  show ?case by (rule handlers_same [OF wait_out(4)]) (simp_all add: owner_step_defs)
next
  case (close s k w)
  show ?case by (rule handlers_same [OF close(3)]) (simp_all add: owner_step_defs)
next
  case (drain_slot s k got)
  show ?case by (rule handlers_same [OF drain_slot(5)]) (simp_all add: owner_step_defs)
next
  case (exchange s k)
  show ?case by (rule handlers_same [OF exchange(3)]) (simp_all add: owner_step_defs)
next
  case (other_open s fd)
  show ?case by (rule handlers_same [OF other_open(3)]) (simp_all add: owner_step_defs)
next
  case (other_close s fd)
  show ?case by (rule handlers_same [OF other_close(3)]) (simp_all add: owner_step_defs)
qed

lemma sreach_handlers: "sreach cap act s \<Longrightarrow> handlers_ok act s"
proof (induction rule: sreach.induct)
  case (start t)
  then show ?case by (simp add: no_signals_yet_def handlers_ok_def owners_ok_def refs_ok_def watchers_def)
next
  case (step s s')
  then show ?case using handlers_step sreach_inv by blast
qed

text \<open>The handler is in place for a signal exactly while some owner watches it, and once none does the signal has the
  action it had before the first was installed.\<close>

theorem signals_restored:
  assumes "sreach cap act s" "i < signal_count"
  shows "g_action s i = (if \<exists>k got. g_owner s k = Some got \<and> bit got i then Ours else act i)"
proof -
  have h: "handlers_ok act s" by (rule sreach_handlers [OF assms(1)])
  have "0 < card (watchers s i) \<longleftrightarrow> (\<exists>k got. g_owner s k = Some got \<and> bit got i)"
    using h finite_watchers [of s i] by (auto simp: card_gt_0_iff watchers_def handlers_ok_def owners_ok_def)
  then show ?thesis using h assms(2) by (auto simp: handlers_ok_def refs_ok_def)
qed

section \<open>An example\<close>

text \<open>One owner that watches the interrupt signal, and one run of the handler that has marked it.\<close>

definition before_all :: signals where
  "before_all = no_signals_yet (\<lambda>_. Theirs 0) (\<lambda>fd. if fd \<in> {0, 1, 2} then Some Other else None)"

definition watching :: signals where
  "watching = (store_fd 0 4 ((store_wants 0 1 (install_begin (\<lambda>_. True) 1 0 3 4 before_all))\<lparr>g_lock := Wanted 0 4\<rparr>))\<lparr>g_lock := Free\<rparr>"

definition marked :: signals where
  "marked = (upd_slot 0 (\<lambda>sl. sl\<lparr>ss_pending := set_bit 0 (ss_pending sl)\<rparr>) (watching\<lparr>g_in_handler := 1\<rparr>))\<lparr>g_runs := [(0, At_Write 0 4)]\<rparr>"

lemma install_example:
  "install_begin (\<lambda>_. True) 1 0 3 4 before_all =
     before_all\<lparr>g_slots := (\<lambda>_. empty_slot)(0 := empty_slot\<lparr>ss_used := True, ss_read_fd := 3\<rparr>),
       g_table := (g_table before_all)(3 \<mapsto> Slot_Read 0, 4 \<mapsto> Slot_Write 0 0), g_refs := (\<lambda>_. 0)(0 := 1), g_action := (\<lambda>_. Theirs 0)(0 := Ours),
       g_installed := (\<lambda>_. False)(0 := True), g_owner := (\<lambda>_. None)(0 := Some 1), g_lock := Installed 0 4 1\<rparr>"
  by (simp add: install_begin_def before_all_def no_signals_yet_def upd_slot_def empty_slot_def signal_count_def upt_rec
      add_handler_def honour_inherited_ignore_def inherited_ignore_def native_of_def Let_def fun_eq_iff bit_1_iff set_bit_eq_or)


lemma watching_fields:
  "ss_fd (g_slots watching 0) = 4" "ss_wants (g_slots watching 0) = 1" "ss_pending (g_slots watching 0) = 0" "g_runs watching = []"
  "g_in_handler watching = 0" "g_action watching 0 = Ours" "g_lock watching = Free" "g_table watching 4 = Some (Slot_Write 0 0)"
  "g_owner watching 0 = Some 1" "g_drained watching = (\<lambda>_. False)"
  unfolding watching_def install_example
  by (simp_all add: before_all_def no_signals_yet_def store_fd_def store_wants_def upd_slot_def empty_slot_def)

lemma watching_reach: "sreach 64 (\<lambda>_. Theirs 0) watching"
proof -
  let ?a = "install_begin (\<lambda>_. True) 1 0 3 4 before_all"
  let ?b = "(store_wants 0 1 ?a)\<lparr>g_lock := Wanted 0 4\<rparr>"
  have s0: "sreach 64 (\<lambda>_. Theirs 0) before_all" unfolding before_all_def by (rule sreach.start) (auto split: if_splits)
  have "sstep 64 before_all ?a"
    by (rule sstep.install) (simp_all add: before_all_def no_signals_yet_def free_slot_def slot_count_def upt_rec empty_slot_def)
  with s0 have s1: "sreach 64 (\<lambda>_. Theirs 0) ?a" by (rule sreach.step)
  have "sstep 64 ?a ?b" by (rule sstep.want) (simp add: install_example)
  with s1 have s2: "sreach 64 (\<lambda>_. Theirs 0) ?b" by (rule sreach.step)
  have "sstep 64 ?b watching" unfolding watching_def by (rule sstep.publish) simp
  with s2 show ?thesis by (rule sreach.step)
qed

text \<open>A run of the handler by itself, from slot to slot.\<close>

lemma marked_reach: "sreach 64 (\<lambda>_. Theirs 0) marked"
proof -
  let ?r = "\<lambda>pc. watching\<lparr>g_in_handler := 1, g_runs := [(0, pc)]\<rparr>"
  have "sstep 64 watching (watching\<lparr>g_in_handler := g_in_handler watching + 1, g_runs := g_runs watching @ [(0, At_Slot 0)]\<rparr>)"
    by (rule sstep.arrive [of 2]) (simp_all add: watching_fields signal_index_def signal_count_def native_of_def upt_rec)
  then have "sstep 64 watching (?r (At_Slot 0))" by (simp add: watching_fields)
  with watching_reach have r0: "sreach 64 (\<lambda>_. Theirs 0) (?r (At_Slot 0))" by (rule sreach.step)
  have "sstep 64 (?r (At_Slot 0)) (?r (At_Fd 0))"
    using sstep.run [of 0 "?r (At_Slot 0)" 0 "At_Slot 0" 64 "At_Fd 0" "?r (At_Slot 0)"] by (simp add: watching_fields slot_count_def)
  with r0 have r1: "sreach 64 (\<lambda>_. Theirs 0) (?r (At_Fd 0))" by (rule sreach.step)
  have "sstep 64 (?r (At_Fd 0)) (?r (At_Or 0 4))"
    using sstep.run [of 0 "?r (At_Fd 0)" 0 "At_Fd 0" 64 "At_Or 0 4" "?r (At_Fd 0)"] by (simp add: watching_fields)
  with r1 have r2: "sreach 64 (\<lambda>_. Theirs 0) (?r (At_Or 0 4))" by (rule sreach.step)
  have "sstep 64 (?r (At_Or 0 4)) marked"
    using sstep.run [of 0 "?r (At_Or 0 4)" 0 "At_Or 0 4" 64 "At_Write 0 4"] by (simp add: marked_def upd_slot_def)
  with r2 show ?thesis by (rule sreach.step)
qed

theorem signals_no_stray_write_witness:
  "(0, At_Write 0 4) \<in> set (g_runs marked) \<and> (\<exists>n. g_table marked 4 = Some (Slot_Write 0 n))"
  using signals_no_stray_write [OF marked_reach, of 0 0 4] by (simp add: marked_def)

theorem signals_not_lost_witness:
  "g_drained marked 0 \<or> (\<exists>n > 0. g_table marked (ss_fd (g_slots marked 0)) = Some (Slot_Write 0 n)) \<or>
    (\<exists>i. (i, At_Write 0 (ss_fd (g_slots marked 0))) \<in> set (g_runs marked))"
  by (rule signals_not_lost [OF marked_reach])
    (simp_all add: marked_def upd_slot_def watching_fields set_bit_eq_or)

theorem signals_restored_witness:
  "g_action marked 1 = (if \<exists>k got. g_owner marked k = Some got \<and> bit got 1 then Ours else Theirs 0)"
  by (rule signals_restored [OF marked_reach]) (simp add: signal_count_def)

end
