(* ===== verification/Snapshot.thy ===== *)
theory Snapshot
  imports Jaal_Prelude
begin

text \<open>
  Shared values without a lock: \<^verbatim>\<open>kernel/published.hpp\<close>, the atomic slot of a counted pointer, and \<^verbatim>\<open>kernel/snapshot.hpp\<close>
  on top of it. Cells live at addresses of an explicit store; an address may be used again only after nobody holds it,
  which is what keeps the comparison of pointers in \<^verbatim>\<open>update\<close> from being fooled.
\<close>

section \<open>The published slot\<close>

text \<open>A pointer is an address or null. Each operation is one atomic step on the slot.\<close>

type_synonym ptr = "nat option"

definition publish :: "ptr \<Rightarrow> ptr \<Rightarrow> ptr" where
  "publish next slot = next"

definition replace :: "ptr \<Rightarrow> ptr \<Rightarrow> ptr \<times> ptr" where
  "replace next slot = (slot, next)"

definition publish_if :: "ptr \<Rightarrow> ptr \<Rightarrow> ptr \<Rightarrow> bool \<times> ptr" where
  "publish_if expected next slot = (if slot \<noteq> expected then (False, slot) else (True, next))"

definition current :: "ptr \<Rightarrow> ptr" where
  "current slot = slot"

definition take_out :: "ptr \<Rightarrow> ptr \<times> ptr" where
  "take_out slot = (slot, None)"

section \<open>Snapshots\<close>

text \<open>
  Where a thread is: outside, in \<^verbatim>\<open>update\<close> with the old cell, with the old and the new one, or a reader with a
  handle. The number is how many writes there had been when the old cell was loaded.
\<close>

datatype 'v sn_thread =
    Outside
  | Loaded "'v \<Rightarrow> 'v" nat nat
  | Boxed "'v \<Rightarrow> 'v" nat nat nat
  | Reading nat

fun holding :: "'v sn_thread \<Rightarrow> nat set" where
  "holding Outside = {}"
| "holding (Loaded f a n) = {a}"
| "holding (Boxed f a b n) = {a, b}"
| "holding (Reading a) = {a}"

record 'v snap =
  sn_slot :: ptr
  sn_store :: "nat \<rightharpoonup> 'v"
  sn_threads :: "nat \<Rightarrow> 'v sn_thread"
  sn_writes :: "('v \<Rightarrow> 'v) list"

definition new_snapshot :: "nat \<Rightarrow> 'v \<Rightarrow> 'v snap" where
  "new_snapshot a v = \<lparr>sn_slot = publish (Some a) None, sn_store = [a \<mapsto> v], sn_threads = (\<lambda>_. Outside), sn_writes = []\<rparr>"

definition set_thread :: "nat \<Rightarrow> 'v sn_thread \<Rightarrow> 'v snap \<Rightarrow> 'v snap" where
  "set_thread i th s = s\<lparr>sn_threads := (sn_threads s)(i := th)\<rparr>"

text \<open>\<^verbatim>\<open>box\<close>: a new cell at an address nobody uses.\<close>

definition box :: "nat \<Rightarrow> 'v \<Rightarrow> 'v snap \<Rightarrow> 'v snap" where
  "box b v s = s\<lparr>sn_store := (sn_store s)(b \<mapsto> v)\<rparr>"

definition load_cell :: "nat \<Rightarrow> ('v \<Rightarrow> 'v) \<Rightarrow> nat \<Rightarrow> 'v snap \<Rightarrow> 'v snap" where
  "load_cell i f a s = set_thread i (Loaded f a (length (sn_writes s))) s"

definition box_next :: "nat \<Rightarrow> ('v \<Rightarrow> 'v) \<Rightarrow> nat \<Rightarrow> nat \<Rightarrow> nat \<Rightarrow> 'v \<Rightarrow> 'v snap \<Rightarrow> 'v snap" where
  "box_next i f a b n v s = set_thread i (Boxed f a b n) (box b (f v) s)"

text \<open>The last step of a round of \<^verbatim>\<open>update\<close>: the result, or the next round, with both cells let go.\<close>

definition try_publish :: "nat \<Rightarrow> ('v \<Rightarrow> 'v) \<Rightarrow> nat \<Rightarrow> nat \<Rightarrow> 'v snap \<Rightarrow> bool \<times> 'v snap" where
  "try_publish i f a b s =
     (case publish_if (Some a) (Some b) (sn_slot s) of
        (True, slot) \<Rightarrow> (True, (set_thread i Outside s)\<lparr>sn_slot := slot, sn_writes := sn_writes s @ [f]\<rparr>)
      | (False, slot) \<Rightarrow> (False, (set_thread i Outside s)\<lparr>sn_slot := slot\<rparr>))"

definition store_value :: "nat \<Rightarrow> 'v \<Rightarrow> 'v snap \<Rightarrow> 'v snap" where
  "store_value b v s = (box b v s)\<lparr>sn_slot := snd (replace (Some b) (sn_slot s)), sn_writes := sn_writes s @ [\<lambda>_. v]\<rparr>"

definition unused :: "nat \<Rightarrow> 'v snap \<Rightarrow> bool" where
  "unused a s \<longleftrightarrow> sn_slot s \<noteq> Some a \<and> (\<forall>i. a \<notin> holding (sn_threads s i))"

inductive snstep :: "'v snap \<Rightarrow> 'v snap \<Rightarrow> bool" where
  load: "sn_threads s i = Outside \<Longrightarrow> current (sn_slot s) = Some a \<Longrightarrow> snstep s (load_cell i f a s)"
| compute: "sn_threads s i = Loaded f a n \<Longrightarrow> sn_store s a = Some v \<Longrightarrow> sn_store s b = None \<Longrightarrow> snstep s (box_next i f a b n v s)"
| attempt: "sn_threads s i = Boxed f a b n \<Longrightarrow> snstep s (snd (try_publish i f a b s))"
| put: "sn_store s b = None \<Longrightarrow> snstep s (store_value b v s)"
| reader: "sn_threads s i = Outside \<Longrightarrow> current (sn_slot s) = Some a \<Longrightarrow> snstep s (set_thread i (Reading a) s)"
| let_go: "sn_threads s i = Reading a \<Longrightarrow> snstep s (set_thread i Outside s)"
| free: "unused a s \<Longrightarrow> snstep s (s\<lparr>sn_store := (sn_store s)(a := None)\<rparr>)"

inductive snreach :: "'v \<Rightarrow> 'v snap \<Rightarrow> bool" for v where
  start: "snreach v (new_snapshot a v)"
| step: "snreach v s \<Longrightarrow> snstep s s' \<Longrightarrow> snreach v s'"

section \<open>No update is lost\<close>

text \<open>The value the writes give, one after the other.\<close>

definition written_value :: "'v \<Rightarrow> ('v \<Rightarrow> 'v) list \<Rightarrow> 'v" where
  "written_value v ws = fold (\<lambda>f x. f x) ws v"

lemma written_snoc: "written_value v (ws @ [f]) = f (written_value v ws)"
  by (simp add: written_value_def)

text \<open>
  What a thread holds is there, its next cell has the value it computed, and its old cell is the current one as long as
  nothing was written since.
\<close>

fun thread_ok :: "'v snap \<Rightarrow> 'v sn_thread \<Rightarrow> bool" where
  "thread_ok s Outside = True"
| "thread_ok s (Loaded f a n) = (sn_store s a \<noteq> None \<and> n \<le> length (sn_writes s) \<and> (n = length (sn_writes s) \<longrightarrow> sn_slot s = Some a))"
| "thread_ok s (Boxed f a b n) = (sn_store s a \<noteq> None \<and> sn_store s b = map_option f (sn_store s a) \<and> sn_slot s \<noteq> Some b \<and> a \<noteq> b \<and>
     n \<le> length (sn_writes s) \<and> (n = length (sn_writes s) \<longrightarrow> sn_slot s = Some a))"
| "thread_ok s (Reading a) = (sn_store s a \<noteq> None)"

text \<open>Nobody else knows a cell before it is published.\<close>

definition private_cells :: "(nat \<Rightarrow> 'v sn_thread) \<Rightarrow> bool" where
  "private_cells ths \<longleftrightarrow> (\<forall>i j f a b n. ths i = Boxed f a b n \<longrightarrow> j \<noteq> i \<longrightarrow> b \<notin> holding (ths j))"

definition slot_ok :: "'v \<Rightarrow> 'v snap \<Rightarrow> bool" where
  "slot_ok v s \<longleftrightarrow> (\<exists>a. sn_slot s = Some a \<and> sn_store s a = Some (written_value v (sn_writes s)))"

definition snap_inv :: "'v \<Rightarrow> 'v snap \<Rightarrow> bool" where
  "snap_inv v s \<longleftrightarrow> slot_ok v s \<and> (\<forall>i. thread_ok s (sn_threads s i)) \<and> private_cells (sn_threads s)"

lemma privateD: "snap_inv v s \<Longrightarrow> sn_threads s i = Boxed f a b n \<Longrightarrow> j \<noteq> i \<Longrightarrow> b \<notin> holding (sn_threads s j)"
  unfolding snap_inv_def private_cells_def by blast

lemma holding_there: "thread_ok s th \<Longrightarrow> a \<in> holding th \<Longrightarrow> sn_store s a \<noteq> None"
  by (cases th) auto

lemma thread_ok_store:
  "thread_ok s th \<Longrightarrow> (\<And>x. x \<in> holding th \<Longrightarrow> t x = sn_store s x) \<Longrightarrow> thread_ok (s\<lparr>sn_store := t\<rparr>) th"
  by (cases th) auto

lemma thread_ok_threads: "thread_ok (s\<lparr>sn_threads := ths\<rparr>) th = thread_ok s th"
  by (cases th) auto

lemma thread_ok_write:
  "thread_ok s th \<Longrightarrow> b \<notin> holding th \<Longrightarrow> thread_ok (s\<lparr>sn_slot := Some b, sn_writes := sn_writes s @ [f]\<rparr>) th"
  by (cases th) auto

lemma not_in_store:
  assumes "snap_inv v s" "sn_store s b = None"
  shows "unused b s"
  using assms holding_there unfolding snap_inv_def slot_ok_def unused_def by fastforce

lemma snap_inv_store:
  assumes "snap_inv v s" "\<And>x. x \<noteq> b \<Longrightarrow> t x = sn_store s x" "unused b s"
  shows "snap_inv v (s\<lparr>sn_store := t\<rparr>)"
proof -
  have held: "t x = sn_store s x" if "x \<in> holding (sn_threads s i)" for x i
    by (rule assms(2)) (use that assms(3) in \<open>auto simp: unused_def\<close>)
  have "slot_ok v (s\<lparr>sn_store := t\<rparr>)" using assms unfolding snap_inv_def slot_ok_def unused_def by fastforce
  moreover have "thread_ok (s\<lparr>sn_store := t\<rparr>) (sn_threads s i)" for i
    using assms(1) held by (intro thread_ok_store) (auto simp: snap_inv_def)
  ultimately show ?thesis using assms(1) by (simp add: snap_inv_def)
qed

text \<open>A thread may take a new place if it holds nothing private of another.\<close>

lemma snap_inv_thread:
  assumes "snap_inv v s" "thread_ok s th" "\<And>j f a b n. j \<noteq> i \<Longrightarrow> sn_threads s j = Boxed f a b n \<Longrightarrow> b \<notin> holding th"
    "\<And>j f a b n. th = Boxed f a b n \<Longrightarrow> j \<noteq> i \<Longrightarrow> b \<notin> holding (sn_threads s j)"
  shows "snap_inv v (set_thread i th s)"
proof -
  have "slot_ok v (set_thread i th s)" using assms(1) by (simp add: snap_inv_def slot_ok_def set_thread_def)
  moreover have "thread_ok (set_thread i th s) (sn_threads (set_thread i th s) j)" for j
    using assms(1,2) by (simp add: snap_inv_def set_thread_def thread_ok_threads)
  moreover have "private_cells (sn_threads (set_thread i th s))"
    using assms unfolding snap_inv_def private_cells_def set_thread_def by auto
  ultimately show ?thesis by (simp add: snap_inv_def)
qed

lemma snap_inv_drop: "snap_inv v s \<Longrightarrow> snap_inv v (set_thread i Outside s)"
  by (rule snap_inv_thread) auto

text \<open>The cell in the slot is nobody's private one.\<close>

lemma snap_inv_hold:
  assumes "snap_inv v s" "sn_slot s = Some a" "thread_ok s th" "holding th = {a}" "\<And>f x b n. th \<noteq> Boxed f x b n"
  shows "snap_inv v (set_thread i th s)"
proof (rule snap_inv_thread [OF assms(1,3)])
  fix j f x b n assume "sn_threads s j = Boxed f x b n"
  then have "thread_ok s (Boxed f x b n)" using assms(1) unfolding snap_inv_def by metis
  then show "b \<notin> holding th" using assms(2,4) by auto
qed (use assms(5) in auto)

lemma snap_inv_compute:
  assumes "snap_inv v s" "sn_threads s i = Loaded f a n" "sn_store s a = Some x" "sn_store s b = None"
  shows "snap_inv v (box_next i f a b n x s)"
proof -
  have u: "unused b s" by (rule not_in_store [OF assms(1,4)])
  have inv: "snap_inv v (box b (f x) s)" unfolding box_def by (rule snap_inv_store [OF assms(1) _ u]) simp
  have "thread_ok s (Loaded f a n)" using assms(1,2) unfolding snap_inv_def by metis
  then have "thread_ok (box b (f x) s) (Boxed f a b n)" using assms(3,4) u by (auto simp: box_def unused_def)
  moreover have "b' \<notin> holding (Boxed f a b n)" if "j \<noteq> i" "sn_threads (box b (f x) s) j = Boxed f' a' b' n'" for j f' a' b' n'
  proof -
    have "b' \<notin> holding (sn_threads s i)" using privateD [OF assms(1), of j f' a' b' n' i] that by (simp add: box_def)
    moreover have "b' \<noteq> b" using u that(2) unfolding unused_def by (auto simp: box_def dest: spec [of _ j])
    ultimately show ?thesis using assms(2) by simp
  qed
  ultimately show ?thesis unfolding box_next_def using u by (intro snap_inv_thread [OF inv]) (auto simp: unused_def box_def)
qed

text \<open>Publishing a cell that no other thread holds.\<close>

lemma snap_inv_write:
  assumes "snap_inv v s" "sn_store s b = Some (f (written_value v (sn_writes s)))" "\<And>i. b \<notin> holding (sn_threads s i)"
  shows "snap_inv v (s\<lparr>sn_slot := Some b, sn_writes := sn_writes s @ [f]\<rparr>)"
  using assms thread_ok_write [of s _ b f] by (simp add: snap_inv_def slot_ok_def written_snoc)

lemma snap_inv_attempt:
  assumes "snap_inv v s" "sn_threads s i = Boxed f a b n"
  shows "snap_inv v (snd (try_publish i f a b s))"
proof (cases "sn_slot s = Some a")
  case True
  have inv: "snap_inv v (set_thread i Outside s)" by (rule snap_inv_drop [OF assms(1)])
  have "thread_ok s (Boxed f a b n)" using assms unfolding snap_inv_def by metis
  then have "sn_store s b = Some (f (written_value v (sn_writes s)))" using assms(1) True by (auto simp: snap_inv_def slot_ok_def)
  moreover have "b \<notin> holding (sn_threads (set_thread i Outside s) j)" for j
    using privateD [OF assms, of j] by (cases "j = i") (auto simp: set_thread_def)
  ultimately have "snap_inv v ((set_thread i Outside s)\<lparr>sn_slot := Some b, sn_writes := sn_writes (set_thread i Outside s) @ [f]\<rparr>)"
    using inv by (intro snap_inv_write) (auto simp: set_thread_def)
  then show ?thesis using True by (simp add: try_publish_def publish_if_def set_thread_def)
next
  case False
  then show ?thesis using snap_inv_drop [OF assms(1), of i] by (simp add: try_publish_def publish_if_def set_thread_def)
qed

lemma snap_inv_put:
  assumes "snap_inv v s" "sn_store s b = None"
  shows "snap_inv v (store_value b x s)"
proof -
  have u: "unused b s" by (rule not_in_store [OF assms])
  have inv: "snap_inv v (box b x s)" unfolding box_def by (rule snap_inv_store [OF assms(1) _ u]) simp
  have "snap_inv v ((box b x s)\<lparr>sn_slot := Some b, sn_writes := sn_writes (box b x s) @ [\<lambda>_. x]\<rparr>)"
    by (rule snap_inv_write [OF inv]) (use u in \<open>simp_all add: box_def unused_def\<close>)
  then show ?thesis by (simp add: store_value_def replace_def box_def)
qed

lemma snap_inv_step: "snstep s s' \<Longrightarrow> snap_inv v s \<Longrightarrow> snap_inv v s'"
proof (induction rule: snstep.induct)
  case (load s i a f)
  then have "sn_store s a \<noteq> None" "sn_slot s = Some a" by (auto simp: current_def snap_inv_def slot_ok_def)
  then show ?case using load(3) unfolding load_cell_def by (intro snap_inv_hold [of v s a]) auto
next
  case (reader s i a)
  then have "sn_store s a \<noteq> None" "sn_slot s = Some a" by (auto simp: current_def snap_inv_def slot_ok_def)
  then show ?case using reader(3) by (intro snap_inv_hold [of v s a]) auto
next
  case (free a s)
  then show ?case by (intro snap_inv_store [of v s a]) auto
qed (blast intro: snap_inv_compute snap_inv_attempt snap_inv_put snap_inv_drop)+


lemma snreach_inv: "snreach v s \<Longrightarrow> snap_inv v s"
proof (induction rule: snreach.induct)
  case (start a)
  then show ?case by (simp add: new_snapshot_def publish_def snap_inv_def slot_ok_def private_cells_def written_value_def)
qed (rule snap_inv_step)

text \<open>C32: No update of a snapshot is lost and none counts twice: whatever the interleaving of writers and readers, and however
  addresses are used again, the current value is the initial one with the functions of all finished updates and
  stores applied, each once, in the order in which they were published.\<close>

theorem snapshot_no_lost_update:
  assumes "snreach v s"
  shows "\<exists>a. sn_slot s = Some a \<and> sn_store s a = Some (written_value v (sn_writes s))"
  using snreach_inv [OF assms] by (simp add: snap_inv_def slot_ok_def)

text \<open>A round of \<^verbatim>\<open>update\<close> fails only because another write was published since its old value was loaded: some writer
  always gets on.\<close>

theorem snapshot_retry_means_progress:
  assumes "snreach v s" "sn_threads s i = Boxed f a b n" "\<not> fst (try_publish i f a b s)"
  shows "n < length (sn_writes s)"
proof -
  have "sn_slot s \<noteq> Some a" using assms(3) by (auto simp: try_publish_def publish_if_def split: if_splits)
  moreover have "thread_ok s (Boxed f a b n)" using snreach_inv [OF assms(1)] assms(2) unfolding snap_inv_def by metis
  ultimately show ?thesis by (auto simp: le_less)
qed

text \<open>A cell somebody holds stays what it is: no step frees it or changes its value.\<close>

theorem snapshot_handle_stable:
  assumes "snreach v s" "a \<in> holding (sn_threads s i)" "snstep s s'"
  shows "\<exists>x. sn_store s a = Some x \<and> sn_store s' a = Some x"
proof -
  have inv: "snap_inv v s" by (rule snreach_inv [OF assms(1)])
  obtain x where x: "sn_store s a = Some x" using inv assms(2) holding_there unfolding snap_inv_def by blast
  from assms(3) have "sn_store s' a = sn_store s a"
  proof cases
    case (compute j f c n w b)
    then show ?thesis using x by (auto simp: box_next_def box_def set_thread_def)
  next
    case (attempt j f c b n)
    then show ?thesis by (simp add: try_publish_def publish_if_def set_thread_def)
  next
    case (put b w)
    then show ?thesis using x by (auto simp: store_value_def box_def)
  next
    case (free c)
    then show ?thesis using assms(2) by (auto simp: unused_def)
  qed (auto simp: load_cell_def set_thread_def)
  then show ?thesis using x by simp
qed

section \<open>An example\<close>

text \<open>Two threads loaded the same cell; one has published, the other holds its own next cell.\<close>

definition contended :: "nat snap" where
  "contended = snd (try_publish 0 Suc 7 8 (box_next 1 Suc 7 9 0 5 (box_next 0 Suc 7 8 0 5 (load_cell 1 Suc 7 (load_cell 0 Suc 7 (new_snapshot 7 5))))))"

lemma contended_reach: "snreach 5 contended"
proof -
  let ?a = "load_cell 0 Suc 7 (new_snapshot 7 5)" and ?b = "load_cell 1 Suc 7 (load_cell 0 Suc 7 (new_snapshot 7 5))"
  let ?c = "box_next 0 Suc 7 8 0 5 ?b" and ?d = "box_next 1 Suc 7 9 0 5 (box_next 0 Suc 7 8 0 5 ?b)"
  note defs = set_thread_def load_cell_def new_snapshot_def publish_def current_def box_next_def box_def
  have r1: "snreach 5 ?a" by (rule snreach.step [OF snreach.start], rule snstep.load) (simp_all add: defs)
  have r2: "snreach 5 ?b" by (rule snreach.step [OF r1], rule snstep.load) (simp_all add: defs)
  have r3: "snreach 5 ?c" by (rule snreach.step [OF r2], rule snstep.compute) (simp_all add: defs)
  have r4: "snreach 5 ?d" by (rule snreach.step [OF r3], rule snstep.compute) (simp_all add: defs)
  show ?thesis unfolding contended_def by (rule snreach.step [OF r4], rule snstep.attempt [of _ _ _ _ _ 0]) (simp add: defs)
qed

lemma contended_fields:
  "sn_threads contended 1 = Boxed Suc 7 9 0" "sn_slot contended = Some 8" "sn_store contended 7 = Some 5" "length (sn_writes contended) = 1"
  by (simp_all add: contended_def set_thread_def try_publish_def publish_if_def box_next_def box_def load_cell_def new_snapshot_def publish_def)

theorem snapshot_no_lost_update_witness:
  "\<exists>a. sn_slot contended = Some a \<and> sn_store contended a = Some (written_value 5 (sn_writes contended))"
  by (rule snapshot_no_lost_update [OF contended_reach])

theorem snapshot_retry_means_progress_witness: "0 < length (sn_writes contended)"
  by (rule snapshot_retry_means_progress [OF contended_reach contended_fields(1)])
    (simp add: try_publish_def publish_if_def contended_fields(2))

theorem snapshot_handle_stable_witness:
  "\<exists>x. sn_store contended 7 = Some x \<and> sn_store (snd (try_publish 1 Suc 7 9 contended)) 7 = Some x"
  by (rule snapshot_handle_stable [OF contended_reach, of 7 1, OF _ snstep.attempt [OF contended_fields(1)]]) (simp only: contended_fields(1), simp)

end
