(* ===== verification/Guarded.thy ===== *)
theory Guarded
  imports Jaal_Prelude
begin

text \<open>
  Locks (\<^verbatim>\<open>kernel/guarded.hpp\<close>): a value behind a lock with waits for a condition on it, and the order of ranks in which a
  thread takes several locks, as it is checked at run time (\<^verbatim>\<open>hold\<close> and \<^verbatim>\<open>core/capability.hpp\<close>).
\<close>

section \<open>A guarded value\<close>

text \<open>
  A body changes the value; a predicate may throw, which is no answer. A thread outside, asleep on the condition
  variable, or notified and about to take the lock again; \<open>timed\<close> tells a wait with a bound.
\<close>

datatype 'v g_thread =
    Gone
  | Asleep "'v \<Rightarrow> bool option" "'v \<Rightarrow> 'v" bool
  | Awake "'v \<Rightarrow> bool option" "'v \<Rightarrow> 'v" bool

record 'v guarded =
  gd_value :: 'v
  gd_waiters :: nat
  gd_threads :: "nat \<Rightarrow> 'v g_thread"
  gd_bodies :: "('v \<Rightarrow> 'v) list"

definition new_guarded :: "'v \<Rightarrow> 'v guarded" where
  "new_guarded v = \<lparr>gd_value = v, gd_waiters = 0, gd_threads = (\<lambda>_. Gone), gd_bodies = []\<rparr>"

fun wake_up :: "'v g_thread \<Rightarrow> 'v g_thread" where
  "wake_up (Asleep p f timed) = Awake p f timed"
| "wake_up th = th"

text \<open>The destructor of \<^verbatim>\<open>Notify\<close>, which runs under the lock.\<close>

definition notify :: "'v guarded \<Rightarrow> 'v guarded" where
  "notify s = (if gd_waiters s \<noteq> 0 then s\<lparr>gd_threads := (\<lambda>i. wake_up (gd_threads s i))\<rparr> else s)"

definition put_thread :: "nat \<Rightarrow> 'v g_thread \<Rightarrow> 'v guarded \<Rightarrow> 'v guarded" where
  "put_thread i th s = s\<lparr>gd_threads := (gd_threads s)(i := th)\<rparr>"

text \<open>\<^verbatim>\<open>with\<close>, and \<^verbatim>\<open>try_with\<close> once it has the lock.\<close>

definition with_body :: "('v \<Rightarrow> 'v) \<Rightarrow> 'v guarded \<Rightarrow> 'v guarded" where
  "with_body f s = notify (s\<lparr>gd_value := f (gd_value s), gd_bodies := gd_bodies s @ [f]\<rparr>)"

text \<open>The end of a wait, and a look at the predicate under the lock. A predicate that throws leaves the count as it is.\<close>

definition wait_over :: "nat \<Rightarrow> ('v \<Rightarrow> 'v) \<Rightarrow> 'v guarded \<Rightarrow> 'v guarded" where
  "wait_over i f s = with_body f (put_thread i Gone (s\<lparr>gd_waiters := gd_waiters s - 1\<rparr>))"

definition look :: "nat \<Rightarrow> ('v \<Rightarrow> bool option) \<Rightarrow> ('v \<Rightarrow> 'v) \<Rightarrow> bool \<Rightarrow> 'v guarded \<Rightarrow> 'v guarded" where
  "look i p f timed s =
     (case p (gd_value s) of
        None \<Rightarrow> put_thread i Gone s
      | Some True \<Rightarrow> wait_over i f s
      | Some False \<Rightarrow> put_thread i (Asleep p f timed) s)"

definition wait_with :: "nat \<Rightarrow> ('v \<Rightarrow> bool option) \<Rightarrow> ('v \<Rightarrow> 'v) \<Rightarrow> bool \<Rightarrow> 'v guarded \<Rightarrow> 'v guarded" where
  "wait_with i p f timed s = look i p f timed (s\<lparr>gd_waiters := gd_waiters s + 1\<rparr>)"

text \<open>A bounded wait whose time is up looks once more and runs its body either way.\<close>

definition time_up :: "nat \<Rightarrow> ('v \<Rightarrow> bool option) \<Rightarrow> ('v \<Rightarrow> 'v) \<Rightarrow> 'v guarded \<Rightarrow> 'v guarded" where
  "time_up i p f s = (case p (gd_value s) of None \<Rightarrow> put_thread i Gone s | Some _ \<Rightarrow> wait_over i f s)"

inductive gdstep :: "'v guarded \<Rightarrow> 'v guarded \<Rightarrow> bool" where
  exclusive: "gd_threads s i = Gone \<Longrightarrow> gdstep s (with_body f s)"
| wait: "gd_threads s i = Gone \<Longrightarrow> gdstep s (wait_with i p f timed s)"
| spurious: "gd_threads s i = Asleep p f timed \<Longrightarrow> gdstep s (put_thread i (Awake p f timed) s)"
| again: "gd_threads s i = Awake p f timed \<Longrightarrow> gdstep s (look i p f timed s)"
| timeout: "gd_threads s i = Asleep p f True \<or> gd_threads s i = Awake p f True \<Longrightarrow> gdstep s (time_up i p f s)"

inductive greach :: "'v \<Rightarrow> 'v guarded \<Rightarrow> bool" for v where
  start: "greach v (new_guarded v)"
| step: "greach v s \<Longrightarrow> gdstep s s' \<Longrightarrow> greach v s'"

subsection \<open>Nobody sleeps through its condition\<close>

definition in_wait :: "'v guarded \<Rightarrow> nat set" where
  "in_wait s = {i. gd_threads s i \<noteq> Gone}"

fun sleeps_ok :: "'v \<Rightarrow> 'v g_thread \<Rightarrow> bool" where
  "sleeps_ok v (Asleep p f timed) = (p v = Some False)"
| "sleeps_ok v th = True"

definition g_inv :: "'v guarded \<Rightarrow> bool" where
  "g_inv s \<longleftrightarrow> finite (in_wait s) \<and> card (in_wait s) \<le> gd_waiters s \<and> (\<forall>i. sleeps_ok (gd_value s) (gd_threads s i))"

lemma wake_up_ok: "sleeps_ok v (wake_up th)" "wake_up th = Gone \<longleftrightarrow> th = Gone"
  by (cases th; simp)+

lemma with_body_inv:
  assumes "finite (in_wait s)" "card (in_wait s) \<le> gd_waiters s"
  shows "g_inv (with_body f s)"
proof (cases "gd_waiters s = 0")
  case True
  then have "in_wait s = {}" using assms by simp
  then show ?thesis using True by (simp add: with_body_def notify_def g_inv_def in_wait_def)
next
  case False
  then show ?thesis using assms by (simp add: with_body_def notify_def g_inv_def in_wait_def wake_up_ok)
qed

lemma in_wait_put: "in_wait (put_thread i th s) = (if th = Gone then in_wait s - {i} else insert i (in_wait s))"
  by (auto simp: in_wait_def put_thread_def)

text \<open>A thread in a wait that leaves it, or goes on with it.\<close>

lemma wait_over_inv:
  assumes "finite (in_wait s)" "card (insert i (in_wait s)) \<le> gd_waiters s"
  shows "g_inv (wait_over i f s)"
  unfolding wait_over_def
proof (rule with_body_inv)
  have w: "in_wait (put_thread i Gone (s\<lparr>gd_waiters := gd_waiters s - 1\<rparr>)) = in_wait s - {i}"
    by (auto simp: in_wait_def put_thread_def)
  show "finite (in_wait (put_thread i Gone (s\<lparr>gd_waiters := gd_waiters s - 1\<rparr>)))" unfolding w using assms(1) by simp
  have "card (insert i (in_wait s)) = Suc (card (in_wait s - {i}))" using assms(1) by (simp add: card.insert_remove)
  then show "card (in_wait (put_thread i Gone (s\<lparr>gd_waiters := gd_waiters s - 1\<rparr>))) \<le>
      gd_waiters (put_thread i Gone (s\<lparr>gd_waiters := gd_waiters s - 1\<rparr>))" unfolding w using assms(2) by (simp add: put_thread_def)
qed

lemma put_inv:
  assumes "finite (in_wait s)" "card (insert i (in_wait s)) \<le> gd_waiters s" "\<And>j. sleeps_ok (gd_value s) (gd_threads s j)" "sleeps_ok (gd_value s) th"
  shows "g_inv (put_thread i th s)"
proof -
  have "card (in_wait s - {i}) \<le> card (insert i (in_wait s))" using assms(1) by (intro card_mono) auto
  then show ?thesis using assms unfolding g_inv_def in_wait_put by (auto simp: put_thread_def)
qed

lemma look_inv:
  assumes "finite (in_wait s)" "card (insert i (in_wait s)) \<le> gd_waiters s" "\<And>j. sleeps_ok (gd_value s) (gd_threads s j)"
  shows "g_inv (look i p f timed s)"
  using wait_over_inv [OF assms(1,2)] put_inv [OF assms] by (auto simp: look_def split: option.splits bool.splits)

lemma g_inv_step: "gdstep s s' \<Longrightarrow> g_inv s \<Longrightarrow> g_inv s'"
proof (induction rule: gdstep.induct)
  case (exclusive s i f)
  then show ?case using with_body_inv by (auto simp: g_inv_def)
next
  case (wait s i p f timed)
  have "in_wait (s\<lparr>gd_waiters := gd_waiters s + 1\<rparr>) = in_wait s" by (simp add: in_wait_def)
  then show ?case unfolding wait_with_def using wait(2) by (intro look_inv) (auto simp: g_inv_def card_insert_if)
next
  case (spurious s i p f timed)
  then have "insert i (in_wait s) = in_wait s" by (auto simp: in_wait_def)
  then show ?case using spurious(2) by (intro put_inv) (auto simp: g_inv_def)
next
  case (again s i p f timed)
  then have "insert i (in_wait s) = in_wait s" by (auto simp: in_wait_def)
  then show ?case using again(2) by (intro look_inv) (auto simp: g_inv_def)
next
  case (timeout s i p f)
  then have w: "insert i (in_wait s) = in_wait s" by (auto simp: in_wait_def)
  have g: "finite (in_wait s)" "card (insert i (in_wait s)) \<le> gd_waiters s" "\<And>j. sleeps_ok (gd_value s) (gd_threads s j)"
    using timeout(2) by (auto simp: g_inv_def w)
  then show ?case using wait_over_inv [OF g(1,2)] put_inv [OF g, of Gone] by (auto simp: time_up_def split: option.splits)
qed

lemma greach_inv: "greach v s \<Longrightarrow> g_inv s"
proof (induction rule: greach.induct)
  case start
  then show ?case by (simp add: new_guarded_def g_inv_def in_wait_def)
qed (rule g_inv_step)

text \<open>C33: No wake-up is missed: a thread that sleeps in \<^verbatim>\<open>wait_with\<close> has a condition that does not hold of the value as it is
  now. Every change of the value notified it, although only a count says whether there is anyone to notify, and
  although a predicate that throws leaves that count too high.\<close>

theorem guarded_no_missed_wake:
  assumes "greach v s" "gd_threads s i = Asleep p f timed"
  shows "p (gd_value s) = Some False"
proof -
  have "sleeps_ok (gd_value s) (gd_threads s i)" using greach_inv [OF assms(1)] by (simp add: g_inv_def)
  then show ?thesis using assms(2) by simp
qed

text \<open>The value is what the bodies made of it, one after the other.\<close>

lemma guarded_serial: "greach v s \<Longrightarrow> gd_value s = fold (\<lambda>f x. f x) (gd_bodies s) v"
proof (induction rule: greach.induct)
  case start
  then show ?case by (simp add: new_guarded_def)
next
  case (step s s')
  have b: "gd_value (with_body f u) = f (gd_value u)" "gd_bodies (with_body f u) = gd_bodies u @ [f]" for f and u :: "'a guarded"
    by (simp_all add: with_body_def notify_def)
  have p: "gd_value (put_thread j th u) = gd_value u" "gd_bodies (put_thread j th u) = gd_bodies u" for j th and u :: "'a guarded"
    by (simp_all add: put_thread_def)
  from step(2,3) show ?case
    by (cases rule: gdstep.cases) (auto simp: b p wait_with_def look_def wait_over_def time_up_def split: option.splits bool.splits)
qed

subsection \<open>An example\<close>

definition waiting_for_three :: "nat guarded" where
  "waiting_for_three = wait_with 0 (\<lambda>v. Some (3 \<le> v)) (\<lambda>v. v - 3) False (new_guarded 0)"

lemma waiting_reach: "greach 0 waiting_for_three" "gd_threads waiting_for_three 0 = Asleep (\<lambda>v. Some (3 \<le> v)) (\<lambda>v. v - 3) False"
proof -
  show "greach 0 waiting_for_three" unfolding waiting_for_three_def
    by (rule greach.step [OF greach.start], rule gdstep.wait) (simp add: new_guarded_def)
  show "gd_threads waiting_for_three 0 = Asleep (\<lambda>v. Some (3 \<le> v)) (\<lambda>v. v - 3) False"
    by (simp add: waiting_for_three_def wait_with_def look_def put_thread_def new_guarded_def)
qed

theorem guarded_no_missed_wake_witness: "(\<lambda>v. Some (3 \<le> v)) (gd_value waiting_for_three) = Some False"
  by (rule guarded_no_missed_wake [OF waiting_reach])

section \<open>Locks in the order of their ranks\<close>

text \<open>
  Several locks, each with a rank. A thread has a stack of locks it holds, shared or exclusive, the lock it waits for, the
  rank at the top (\<^verbatim>\<open>held_top\<close>) and the ranks that the \<^verbatim>\<open>hold\<close> objects on its stack put back.
\<close>

record locks_state =
  lk_holds :: "nat \<Rightarrow> (nat \<times> bool) list"
  lk_want :: "nat \<Rightarrow> (nat \<times> bool) option"
  lk_top :: "nat \<Rightarrow> nat"
  lk_saved :: "nat \<Rightarrow> nat list"
  lk_aborted :: bool

definition no_locks :: locks_state where
  "no_locks = \<lparr>lk_holds = (\<lambda>_. []), lk_want = (\<lambda>_. None), lk_top = (\<lambda>_. 0), lk_saved = (\<lambda>_. []), lk_aborted = False\<rparr>"

text \<open>The constructor of \<^verbatim>\<open>hold\<close>, before the lock is taken, and its destructor.\<close>

definition hold_begin :: "(nat \<Rightarrow> nat) \<Rightarrow> nat \<Rightarrow> nat \<times> bool \<Rightarrow> locks_state \<Rightarrow> locks_state" where
  "hold_begin rank i h s =
     (if lk_top s i \<ge> rank (fst h) then s\<lparr>lk_aborted := True\<rparr>
      else s\<lparr>lk_want := (lk_want s)(i := Some h), lk_saved := (lk_saved s)(i := lk_top s i # lk_saved s i),
             lk_top := (lk_top s)(i := rank (fst h))\<rparr>)"

definition hold_end :: "nat \<Rightarrow> locks_state \<Rightarrow> locks_state" where
  "hold_end i s = s\<lparr>lk_top := (lk_top s)(i := hd (lk_saved s i)), lk_saved := (lk_saved s)(i := tl (lk_saved s i))\<rparr>"

definition compatible :: "nat \<times> bool \<Rightarrow> locks_state \<Rightarrow> bool" where
  "compatible h s \<longleftrightarrow> (\<forall>j x. (fst h, x) \<in> set (lk_holds s j) \<longrightarrow> \<not> x \<and> \<not> snd h)"

text \<open>Taking the lock, giving up as \<^verbatim>\<open>try_with\<close> does, and leaving the innermost body.\<close>

definition acquire_lock :: "nat \<Rightarrow> nat \<times> bool \<Rightarrow> locks_state \<Rightarrow> locks_state" where
  "acquire_lock i h s = s\<lparr>lk_holds := (lk_holds s)(i := h # lk_holds s i), lk_want := (lk_want s)(i := None)\<rparr>"

definition give_up :: "nat \<Rightarrow> locks_state \<Rightarrow> locks_state" where
  "give_up i s = hold_end i (s\<lparr>lk_want := (lk_want s)(i := None)\<rparr>)"

definition leave_body :: "nat \<Rightarrow> locks_state \<Rightarrow> locks_state" where
  "leave_body i s = hold_end i (s\<lparr>lk_holds := (lk_holds s)(i := tl (lk_holds s i))\<rparr>)"

inductive lkstep :: "(nat \<Rightarrow> nat) \<Rightarrow> locks_state \<Rightarrow> locks_state \<Rightarrow> bool" for rank where
  ask: "\<not> lk_aborted s \<Longrightarrow> lk_want s i = None \<Longrightarrow> lkstep rank s (hold_begin rank i h s)"
| get: "\<not> lk_aborted s \<Longrightarrow> lk_want s i = Some h \<Longrightarrow> compatible h s \<Longrightarrow> lkstep rank s (acquire_lock i h s)"
| no: "\<not> lk_aborted s \<Longrightarrow> lk_want s i = Some h \<Longrightarrow> lkstep rank s (give_up i s)"
| leave: "\<not> lk_aborted s \<Longrightarrow> lk_want s i = None \<Longrightarrow> lk_holds s i \<noteq> [] \<Longrightarrow> lkstep rank s (leave_body i s)"

inductive lkreach :: "(nat \<Rightarrow> nat) \<Rightarrow> locks_state \<Rightarrow> bool" for rank where
  start: "lkreach rank no_locks"
| step: "lkreach rank s \<Longrightarrow> lkstep rank s s' \<Longrightarrow> lkreach rank s'"

text \<open>The ranks of a thread, the wanted one first, fall strictly down to none; \<^verbatim>\<open>held_top\<close> and what is saved are these ranks.\<close>

definition ranks :: "(nat \<Rightarrow> nat) \<Rightarrow> locks_state \<Rightarrow> nat \<Rightarrow> nat list" where
  "ranks rank s i = map (rank \<circ> fst) ((case lk_want s i of None \<Rightarrow> [] | Some h \<Rightarrow> [h]) @ lk_holds s i) @ [0]"

definition rank_inv :: "(nat \<Rightarrow> nat) \<Rightarrow> locks_state \<Rightarrow> bool" where
  "rank_inv rank s \<longleftrightarrow> (\<forall>i. lk_top s i # lk_saved s i = ranks rank s i \<and> sorted_wrt (>) (ranks rank s i))"

lemma rank_inv_hold_begin:
  assumes "rank_inv rank s" "lk_want s i = None"
  shows "rank_inv rank (hold_begin rank i h s)"
proof (cases "lk_top s i \<ge> rank (fst h)")
  case True
  then show ?thesis using assms(1) by (simp add: hold_begin_def rank_inv_def ranks_def)
next
  case False
  have r: "ranks rank (hold_begin rank i h s) j = (if j = i then rank (fst h) # ranks rank s i else ranks rank s j)" for j
    using False assms(2) by (simp add: hold_begin_def ranks_def)
  have t: "lk_top s i # lk_saved s i = ranks rank s i" "sorted_wrt (>) (ranks rank s i)" using assms(1) by (simp_all add: rank_inv_def)
  then have "sorted_wrt (>) (rank (fst h) # ranks rank s i)" using False by (auto simp flip: t(1))
  then show ?thesis using assms(1) False t unfolding rank_inv_def r by (auto simp: hold_begin_def)
qed

text \<open>Dropping the first rank, by giving up or by leaving.\<close>

lemma rank_inv_drop:
  assumes "rank_inv rank s" "ranks rank s i = x # ranks rank s' i" "ranks rank s' i \<noteq> []" "\<And>j. j \<noteq> i \<Longrightarrow> ranks rank s' j = ranks rank s j"
    "lk_top s' = lk_top s" "lk_saved s' = lk_saved s"
  shows "rank_inv rank (hold_end i s')"
proof -
  have r: "ranks rank (hold_end i s') j = ranks rank s' j" for j by (simp add: hold_end_def ranks_def)
  have "lk_top s i # lk_saved s i = ranks rank s i" "sorted_wrt (>) (ranks rank s i)" using assms(1) by (simp_all add: rank_inv_def)
  then have "lk_top s i # lk_saved s i = x # ranks rank s' i" "sorted_wrt (>) (x # ranks rank s' i)" by (simp_all only: assms(2))
  then have "hd (lk_saved s i) # tl (lk_saved s i) = ranks rank s' i" "sorted_wrt (>) (ranks rank s' i)" using assms(3) by auto
  then show ?thesis using assms(1,4-6) unfolding rank_inv_def r by (auto simp: hold_end_def)
qed

lemma rank_inv_step: "lkstep rank s s' \<Longrightarrow> rank_inv rank s \<Longrightarrow> rank_inv rank s'"
proof (induction rule: lkstep.induct)
  case (ask s i h)
  then show ?case using rank_inv_hold_begin by blast
next
  case (get s i h)
  have "ranks rank (acquire_lock i h s) j = ranks rank s j" for j using get(2) by (simp add: ranks_def acquire_lock_def)
  then show ?case using get(4) by (simp add: rank_inv_def) (simp add: acquire_lock_def)
next
  case (no s i h)
  then show ?case unfolding give_up_def by (intro rank_inv_drop [of rank s]) (auto simp: ranks_def)
next
  case (leave s i)
  obtain h hs where "lk_holds s i = h # hs" using leave(3) by (cases "lk_holds s i") auto
  then show ?case unfolding leave_body_def using leave(2,4) by (intro rank_inv_drop [of rank s]) (auto simp: ranks_def)
qed

lemma lkreach_rank: "lkreach rank s \<Longrightarrow> rank_inv rank s"
proof (induction rule: lkreach.induct)
  case start
  then show ?case by (simp add: no_locks_def rank_inv_def ranks_def)
qed (rule rank_inv_step)

lemma want_above:
  assumes "rank_inv rank s" "lk_want s i = Some h" "k \<in> set (lk_holds s i)"
  shows "rank (fst k) < rank (fst h)"
  using assms unfolding rank_inv_def ranks_def by (fastforce dest: spec [of _ i])

text \<open>C34: Locks taken in the order of their ranks never block each other in a circle: when a thread has to wait for a lock that
  is held, then some thread that holds a lock can go on, since it waits for none or for one that nobody holds.\<close>

theorem ranked_no_deadlock:
  assumes "lkreach rank s" "\<And>l. rank l < 2 ^ 16" "lk_want s i = Some h" "(fst h, x) \<in> set (lk_holds s j)"
  shows "\<exists>k. lk_holds s k \<noteq> [] \<and> (case lk_want s k of None \<Rightarrow> True | Some g \<Rightarrow> \<forall>m y. (fst g, y) \<notin> set (lk_holds s m))"
proof (rule ccontr)
  assume none: "\<not> ?thesis"
  have inv: "rank_inv rank s" by (rule lkreach_rank [OF assms(1)])
  define W where "W = (\<lambda>h. rank (fst h)) ` {h. (\<exists>i. lk_want s i = Some h) \<and> (\<exists>j x. (fst h, x) \<in> set (lk_holds s j))}"
  have fin: "finite W" by (rule finite_subset [of _ "{..<2 ^ 16}"]) (use assms(2) in \<open>auto simp: W_def\<close>)
  have "rank (fst h) \<in> W" unfolding W_def using assms(3,4) by (intro imageI) blast
  then have "Max W \<in> W" using fin by (intro Max_in) auto
  then obtain h' j' x' where m: "rank (fst h') = Max W" "(fst h', x') \<in> set (lk_holds s j')" unfolding W_def by force
  then have "lk_holds s j' \<noteq> []" by auto
  then have "\<not> (case lk_want s j' of None \<Rightarrow> True | Some g \<Rightarrow> \<forall>m y. (fst g, y) \<notin> set (lk_holds s m))" using none by blast
  then obtain g n y where g: "lk_want s j' = Some g" "(fst g, y) \<in> set (lk_holds s n)" by (cases "lk_want s j'") auto
  have "rank (fst g) \<in> W" unfolding W_def using g by (intro imageI) blast
  moreover have "rank (fst h') < rank (fst g)" using want_above [OF inv g(1) m(2)] by simp
  ultimately show False using m(1) Max_ge [OF fin] by (simp add: leD)
qed

text \<open>A lock with an exclusive holder has no other.\<close>

definition excl_inv :: "locks_state \<Rightarrow> bool" where
  "excl_inv s \<longleftrightarrow> (\<forall>i j l x. (l, True) \<in> set (lk_holds s i) \<longrightarrow> (l, x) \<in> set (lk_holds s j) \<longrightarrow> i = j)"

lemma lkreach_excl: "lkreach rank s \<Longrightarrow> excl_inv s"
proof (induction rule: lkreach.induct)
  case start
  then show ?case by (simp add: no_locks_def excl_inv_def)
next
  case (step s s')
  have tl: "h \<in> set (tl hs) \<Longrightarrow> h \<in> set hs" for h and hs :: "(nat \<times> bool) list" by (cases hs) auto
  from step(2) show ?case
  proof cases
    case (ask i h)
    then show ?thesis using step(3) by (simp add: hold_begin_def excl_inv_def)
  next
    case (get i h)
    have "lk_holds s' = (lk_holds s)(i := h # lk_holds s i)" by (simp add: get acquire_lock_def)
    then show ?thesis using step(3) get(4) unfolding excl_inv_def compatible_def by (cases h) (auto split: if_splits)
  next
    case (no i h)
    then show ?thesis using step(3) by (simp add: give_up_def hold_end_def excl_inv_def)
  next
    case (leave i)
    have "set (lk_holds s' k) \<subseteq> set (lk_holds s k)" for k using tl by (auto simp: leave leave_body_def hold_end_def split: if_splits)
    then show ?thesis using step(3) unfolding excl_inv_def by blast
  qed
qed

text \<open>A thread in an exclusive body is alone with the value: no other thread is in a body of the same lock.\<close>

theorem exclusive_alone:
  assumes "lkreach rank s" "(l, True) \<in> set (lk_holds s i)" "(l, x) \<in> set (lk_holds s j)"
  shows "i = j"
  using lkreach_excl [OF assms(1)] assms(2,3) by (auto simp: excl_inv_def)

text \<open>Two threads and two locks: one holds the first and asks for the second, which the other holds.\<close>

definition two_ranks :: "nat \<Rightarrow> nat" where
  "two_ranks l = (if l < 2 then l + 1 else 9)"

definition two_locks :: locks_state where
  "two_locks = hold_begin two_ranks 0 (1, True) (acquire_lock 1 (1, True) (hold_begin two_ranks 1 (1, True)
     (acquire_lock 0 (0, True) (hold_begin two_ranks 0 (0, True) no_locks))))"

lemma two_locks_reach: "lkreach two_ranks two_locks"
proof -
  note defs = hold_begin_def acquire_lock_def no_locks_def two_ranks_def compatible_def
  let ?a = "hold_begin two_ranks 0 (0, True) no_locks"
  let ?b = "acquire_lock 0 (0, True) ?a"
  let ?c = "hold_begin two_ranks 1 (1, True) ?b"
  let ?d = "acquire_lock 1 (1, True) ?c"
  have a: "lkreach two_ranks ?a" by (rule lkreach.step [OF lkreach.start], rule lkstep.ask) (simp_all add: defs)
  have b: "lkreach two_ranks ?b" by (rule lkreach.step [OF a], rule lkstep.get) (simp_all add: defs)
  have c: "lkreach two_ranks ?c" by (rule lkreach.step [OF b], rule lkstep.ask) (simp_all add: defs)
  have d: "lkreach two_ranks ?d" by (rule lkreach.step [OF c], rule lkstep.get) (simp_all add: defs)
  show ?thesis unfolding two_locks_def by (rule lkreach.step [OF d], rule lkstep.ask) (simp_all add: defs)
qed

lemma two_locks_fields: "lk_want two_locks 0 = Some (1, True)" "lk_holds two_locks 1 = [(1, True)]" "lk_holds two_locks 0 = [(0, True)]"
  by (simp_all add: two_locks_def hold_begin_def acquire_lock_def no_locks_def two_ranks_def)

theorem ranked_no_deadlock_witness:
  "\<exists>k. lk_holds two_locks k \<noteq> [] \<and> (case lk_want two_locks k of None \<Rightarrow> True | Some g \<Rightarrow> \<forall>m y. (fst g, y) \<notin> set (lk_holds two_locks m))"
  by (rule ranked_no_deadlock [OF two_locks_reach _ two_locks_fields(1), of True 1]) (simp_all add: two_ranks_def two_locks_fields del: One_nat_def)

theorem exclusive_alone_witness: "(1 :: nat) = 1"
  by (rule exclusive_alone [OF two_locks_reach, of 1 1 True 1]) (simp_all add: two_locks_fields del: One_nat_def)

end
