(* ===== verification/Structural_Diff.thy ===== *)
theory Structural_Diff
  imports Decimal Replay
begin

text \<open>
  The structural diff of two models (\<^verbatim>\<open>core/diff.hpp\<close>), and of the models of two steps of a timeline, with a model as the tree of its fields. What the type of a field
  allows (comparing, printing, taking apart) is the constructor of its node; the \<^verbatim>\<open>==\<close> of the field types, which belongs to the
  program, is a parameter (it need not be an equality: a NaN differs from itself).
\<close>

section \<open>Fields\<close>

text \<open>
  A field that can be compared and printed, with its value, its text, and whether it is a string; one that is a struct of
  fields; one that can only be compared; one that cannot.
\<close>

datatype 'v field =
    Scalar 'v string bool
  | Struct "'v field list"
  | Keyed 'v
  | Opaque 'v

text \<open>Two values of one type.\<close>

fun same_type :: "'v field \<Rightarrow> 'v field \<Rightarrow> bool" where
  "same_type (Scalar k t q) (Scalar k' t' q') = (q = q')"
| "same_type (Struct xs) (Struct ys) = list_all2 same_type xs ys"
| "same_type (Keyed k) (Keyed k') = True"
| "same_type (Opaque k) (Opaque k') = True"
| "same_type _ _ = False"

record field_change =
  fc_path :: string
  fc_before :: string
  fc_after :: string

record diff_options =
  do_report_opaque :: bool
  do_max_text :: nat

definition default_diff :: diff_options where
  "default_diff = \<lparr>do_report_opaque = False, do_max_text = 80\<rparr>"

text \<open>\<^verbatim>\<open>show\<close> of a printable value: a string in quotes, cut at the limit.\<close>

definition show_field :: "diff_options \<Rightarrow> string \<Rightarrow> bool \<Rightarrow> string" where
  "show_field opts t quoted =
     (let s = (if quoted then [CHR 0x22] @ t @ [CHR 0x22] else t)
      in if length s > do_max_text opts then take (do_max_text opts) s @ ''...'' else s)"

fun walk :: "('v \<Rightarrow> 'v \<Rightarrow> bool) \<Rightarrow> diff_options \<Rightarrow> string \<Rightarrow> 'v field \<Rightarrow> 'v field \<Rightarrow> field_change list"
  and walk_fields :: "('v \<Rightarrow> 'v \<Rightarrow> bool) \<Rightarrow> diff_options \<Rightarrow> string \<Rightarrow> nat \<Rightarrow> 'v field list \<Rightarrow> 'v field list \<Rightarrow> field_change list" where
  "walk eq opts path (Scalar k t q) (Scalar k' t' q') =
     (if \<not> eq k k' then [\<lparr>fc_path = path, fc_before = show_field opts t q, fc_after = show_field opts t' q'\<rparr>] else [])"
| "walk eq opts path (Struct xs) (Struct ys) = walk_fields eq opts path 0 xs ys"
| "walk eq opts path (Keyed k) (Keyed k') = (if \<not> eq k k' then [\<lparr>fc_path = path, fc_before = ''?'', fc_after = ''?''\<rparr>] else [])"
| "walk eq opts path (Opaque k) (Opaque k') =
     (if do_report_opaque opts then [\<lparr>fc_path = path, fc_before = ''?'', fc_after = ''?''\<rparr>] else [])"
| "walk eq opts path _ _ = []"
| "walk_fields eq opts path i (x # xs) (y # ys) =
     walk eq opts (path @ ''.'' @ show_nat i) x y @ walk_fields eq opts path (i + 1) xs ys"
| "walk_fields eq opts path i _ _ = []"

definition diff :: "('v \<Rightarrow> 'v \<Rightarrow> bool) \<Rightarrow> diff_options \<Rightarrow> 'v field \<Rightarrow> 'v field \<Rightarrow> field_change list" where
  "diff eq opts a b = walk eq opts [] a b"

text \<open>\<^verbatim>\<open>to_string\<close>: a line for each change.\<close>

definition change_line :: "field_change \<Rightarrow> string" where
  "change_line c = (if fc_path c = [] then ''(value)'' else fc_path c) @ '': '' @ fc_before c @ '' -> '' @ fc_after c @ [CHR 0x0A]"

definition diff_to_string :: "field_change list \<Rightarrow> string" where
  "diff_to_string d = concat (map change_line d)"

text \<open>
  \<^verbatim>\<open>timeline::changes\<close>: the diff of the models of two steps; the fields of a model are the program's.
\<close>

definition tl_changes_between ::
    "('md \<Rightarrow> 'm \<Rightarrow> 'md \<times> (exc + 'c)) \<Rightarrow> ('md \<Rightarrow> 'md) \<Rightarrow> ('md \<Rightarrow> 'v field) \<Rightarrow> ('v \<Rightarrow> 'v \<Rightarrow> bool) \<Rightarrow> diff_options \<Rightarrow> nat \<Rightarrow> nat \<Rightarrow>
     ('md, 'm) timeline \<Rightarrow> (exc + field_change list) \<times> ('md, 'm) timeline" where
  "tl_changes_between u moved reflect eq opts k j t =
     (case tl_at u moved k t of
        (Inl x, t') \<Rightarrow> (Inl x, t')
      | (Inr a, t') \<Rightarrow> (case tl_at u moved j t' of
            (Inl x, t'') \<Rightarrow> (Inl x, t'')
          | (Inr b, t'') \<Rightarrow> (Inr (diff eq opts (reflect a) (reflect b)), t'')))"

definition tl_changes ::
    "('md \<Rightarrow> 'm \<Rightarrow> 'md \<times> (exc + 'c)) \<Rightarrow> ('md \<Rightarrow> 'md) \<Rightarrow> ('md \<Rightarrow> 'v field) \<Rightarrow> ('v \<Rightarrow> 'v \<Rightarrow> bool) \<Rightarrow> diff_options \<Rightarrow> nat \<Rightarrow>
     ('md, 'm) timeline \<Rightarrow> (exc + field_change list) \<times> ('md, 'm) timeline" where
  "tl_changes u moved reflect eq opts step t =
     (if step = 0 then (Inr [], t) else tl_changes_between u moved reflect eq opts (step - 1) step t)"

section \<open>Paths\<close>

text \<open>The field at a list of indices, and the path that spells it.\<close>

fun field_at :: "nat list \<Rightarrow> 'v field \<Rightarrow> 'v field option" where
  "field_at [] x = Some x"
| "field_at (i # is) (Struct xs) = (if i < length xs then field_at is (xs ! i) else None)"
| "field_at (i # is) _ = None"

definition spell :: "nat list \<Rightarrow> string" where
  "spell is = concat (map (\<lambda>i. CHR ''.'' # show_nat i) is)"

lemma spell_Cons: "spell (i # is) = CHR ''.'' # show_nat i @ spell is"
  by (simp add: spell_def)

lemma spell_Nil [simp]: "spell [] = []"
  by (simp add: spell_def)

text \<open>Digits end where the next index begins, so a path says its indices.\<close>

lemma digits_of_path: "takeWhile (\<lambda>c. c \<noteq> CHR ''.'') (show_nat i @ spell is) = show_nat i"
proof -
  have "\<not> is_digit CHR ''.''" by (simp add: is_digit_def)
  then have "CHR ''.'' \<notin> set (show_nat i)" using show_nat_digits [of i] by (auto simp only: list_all_iff)
  then have "takeWhile (\<lambda>c. c \<noteq> CHR ''.'') (show_nat i @ spell is) = show_nat i @ takeWhile (\<lambda>c. c \<noteq> CHR ''.'') (spell is)"
    by (intro takeWhile_append2) blast
  moreover have "takeWhile (\<lambda>c. c \<noteq> CHR ''.'') (spell is) = []" by (cases "is") (simp_all add: spell_Cons)
  ultimately show ?thesis by (simp only: append_Nil2)
qed

lemma spell_inj: "spell is = spell js \<Longrightarrow> is = js"
proof (induction "is" arbitrary: js)
  case Nil
  then show ?case by (cases js) (auto simp: spell_Cons)
next
  case (Cons i "is")
  then obtain j js' where js: "js = j # js'" by (cases js) (auto simp: spell_Cons)
  have e: "show_nat i @ spell is = show_nat j @ spell js'" using Cons.prems js by (simp add: spell_Cons)
  then have "show_nat i = show_nat j" using digits_of_path [of i "is"] digits_of_path [of j js'] by simp
  then show ?case using e js Cons.IH show_nat_inj by auto
qed

lemma spell_append: "spell (is @ js) = spell is @ spell js"
  by (simp add: spell_def)

section \<open>What the diff reports\<close>

text \<open>The reference: two fields that are reported as they are.\<close>

fun differs :: "('v \<Rightarrow> 'v \<Rightarrow> bool) \<Rightarrow> diff_options \<Rightarrow> 'v field \<Rightarrow> 'v field \<Rightarrow> bool" where
  "differs eq opts (Scalar k t q) (Scalar k' t' q') = (\<not> eq k k')"
| "differs eq opts (Keyed k) (Keyed k') = (\<not> eq k k')"
| "differs eq opts (Opaque k) (Opaque k') = do_report_opaque opts"
| "differs eq opts _ _ = False"

text \<open>The changed fields by their indices, in the order of the walk.\<close>

definition changed :: "('v \<Rightarrow> 'v \<Rightarrow> bool) \<Rightarrow> diff_options \<Rightarrow> nat list \<Rightarrow> 'v field \<Rightarrow> 'v field \<Rightarrow> bool" where
  "changed eq opts is a b = (case (field_at is a, field_at is b) of (Some x, Some y) \<Rightarrow> differs eq opts x y | _ \<Rightarrow> False)"

lemma changed_Nil: "changed eq opts [] a b = differs eq opts a b"
  by (simp add: changed_def)

lemma changed_Struct: "length xs = length ys \<Longrightarrow> changed eq opts (i # is) (Struct xs) (Struct ys) = (i < length xs \<and> changed eq opts is (xs ! i) (ys ! i))"
  by (auto simp: changed_def)

lemma changed_leaf: "\<not> (\<exists>xs. a = Struct xs) \<Longrightarrow> changed eq opts (i # is) a b = False"
  by (cases a) (auto simp: changed_def)

lemma changed_iff:
  "changed eq opts is (Scalar k t q) (Scalar k' t' q') = (is = [] \<and> \<not> eq k k')"
  "changed eq opts is (Keyed k) (Keyed k') = (is = [] \<and> \<not> eq k k')"
  "changed eq opts is (Opaque k) (Opaque k') = (is = [] \<and> do_report_opaque opts)"
  by (cases "is"; simp add: changed_Nil changed_leaf)+

lemma walk_paths:
  "same_type a b \<Longrightarrow> fc_path ` set (walk eq opts path a b) = {path @ spell is | is. changed eq opts is a b}"
  "list_all2 same_type xs ys \<Longrightarrow> fc_path ` set (walk_fields eq opts path k xs ys) =
     {path @ spell ((k + i) # is) | i is. i < length xs \<and> changed eq opts is (xs ! i) (ys ! i)}"
proof (induction eq opts path a b and eq opts path k xs ys rule: walk_walk_fields.induct)
  case (2 eq opts path xs ys)
  then have l: "length xs = length ys" "list_all2 same_type xs ys" by (auto dest: list_all2_lengthD)
  have "changed eq opts is (Struct xs) (Struct ys) = (\<exists>i js. is = i # js \<and> i < length xs \<and> changed eq opts js (xs ! i) (ys ! i))" for "is"
    using l(1) by (cases "is") (auto simp: changed_Nil changed_Struct)
  then show ?case using 2 l(2) by auto
next
  case (6 eq opts path k x xs y ys)
  have h: "fc_path ` set (walk eq opts (path @ ''.'' @ show_nat k) x y) = {(path @ ''.'' @ show_nat k) @ spell is | is. changed eq opts is x y}"
    using 6 by simp
  have t: "fc_path ` set (walk_fields eq opts path (k + 1) xs ys) =
      {path @ spell ((k + 1 + i) # is) | i is. i < length xs \<and> changed eq opts is (xs ! i) (ys ! i)}"
    using 6 by simp
  have "{path @ spell ((k + i) # is) | i is. i < length (x # xs) \<and> changed eq opts is ((x # xs) ! i) ((y # ys) ! i)} =
      {(path @ ''.'' @ show_nat k) @ spell is | is. changed eq opts is x y} \<union>
      {path @ spell ((k + 1 + i) # is) | i is. i < length xs \<and> changed eq opts is (xs ! i) (ys ! i)}" (is "?L = ?A \<union> ?B")
  proof
    show "?L \<subseteq> ?A \<union> ?B"
    proof
      fix z assume "z \<in> ?L"
      then obtain i "is" where z: "z = path @ spell ((k + i) # is)" "i < length (x # xs)" "changed eq opts is ((x # xs) ! i) ((y # ys) ! i)" by blast
      show "z \<in> ?A \<union> ?B" using z by (cases i) (auto simp: spell_Cons)
    qed
    show "?A \<union> ?B \<subseteq> ?L"
    proof
      fix z assume "z \<in> ?A \<union> ?B"
      then consider "is" where "z = (path @ ''.'' @ show_nat k) @ spell is" "changed eq opts is x y"
        | i "is" where "z = path @ spell ((k + 1 + i) # is)" "i < length xs" "changed eq opts is (xs ! i) (ys ! i)" by blast
      then show "z \<in> ?L"
      proof cases
        case 1
        then show ?thesis by (intro CollectI exI [of _ 0] exI [of _ "is"]) (simp add: spell_Cons)
      next
        case 2
        then show ?thesis by (intro CollectI exI [of _ "Suc i"] exI [of _ "is"]) simp
      qed
    qed
  qed
  then show ?case using h t by (simp add: image_Un)
qed (auto simp: changed_iff)

text \<open>The diff of two values of one type reports exactly the fields that differ: there is a change with a given path if
  and only if the path spells the place of two fields that compare different (or cannot be compared and are asked
  for).\<close>

lemma diff_reports_changed:
  assumes "same_type a b"
  shows "(\<exists>c \<in> set (diff eq opts a b). fc_path c = spell is) \<longleftrightarrow> changed eq opts is a b"
proof -
  have "fc_path ` set (diff eq opts a b) = {spell is | is. changed eq opts is a b}" using walk_paths(1) [OF assms, of eq opts "[]"] by (simp add: diff_def)
  then have "spell is \<in> fc_path ` set (diff eq opts a b) \<longleftrightarrow> changed eq opts is a b" using spell_inj by auto
  then show ?thesis by (metis (no_types, lifting) image_iff)
qed

lemma diff_example:
  "diff (=) default_diff (Struct [Scalar (1 :: nat) ''1'' False, Struct [Keyed 2, Scalar 3 ''a'' True]])
      (Struct [Scalar 1 ''1'' False, Struct [Keyed 2, Scalar 4 ''b'' True]]) =
    [\<lparr>fc_path = ''.1.1'', fc_before = [CHR 0x22, CHR ''a'', CHR 0x22], fc_after = [CHR 0x22, CHR ''b'', CHR 0x22]\<rparr>]"
  by code_simp

text \<open>A text past the limit is cut, so two values that differ can be printed the same.\<close>

lemma diff_can_print_same:
  "diff (=) \<lparr>do_report_opaque = False, do_max_text = 2\<rparr> (Scalar (1 :: nat) ''abc'' False) (Scalar 2 ''abd'' False) =
     [\<lparr>fc_path = [], fc_before = ''ab...'', fc_after = ''ab...''\<rparr>]"
  by (simp add: diff_def show_field_def)

text \<open>
  The changes of two steps of a timeline are those of the models the program folds to there, whatever was looked at before; a
  step past the end is an error.
\<close>

lemma tl_at_inv: "tl_inv u md0 t \<Longrightarrow> tl_inv u md0 (snd (tl_at u moved k t)) \<and> tl_msgs (snd (tl_at u moved k t)) = tl_msgs t"
  using tl_visit_inv [of u md0 t moved "[k]"] by (simp add: tl_visit_def)

lemma tl_changes_between_ok:
  assumes "tl_inv u md0 t" "k \<le> length (tl_msgs t)" "j \<le> length (tl_msgs t)"
  shows "fst (tl_changes_between u moved reflect eq opts k j t) =
    Inr (diff eq opts (reflect (mdl u md0 (tl_msgs t) k)) (reflect (mdl u md0 (tl_msgs t) j)))"
proof -
  obtain a where a: "model_at u md0 (tl_msgs t) k = Inr a" "tl_at u moved k t = (Inr a, t\<lparr>tl_cur := Some (k, a)\<rparr>)"
    by (rule tl_at_spec [OF assms(1,2)])
  have i: "tl_inv u md0 (t\<lparr>tl_cur := Some (k, a)\<rparr>)" using tl_at_inv [OF assms(1), of moved k] a(2) by simp
  obtain b where "model_at u md0 (tl_msgs t) j = Inr b" "tl_at u moved j (t\<lparr>tl_cur := Some (k, a)\<rparr>) = (Inr b, t\<lparr>tl_cur := Some (j, b)\<rparr>)"
    by (rule tl_at_spec [OF i, of j moved]) (use assms(3) in auto)
  then show ?thesis using a by (simp add: tl_changes_between_def mdl_def)
qed

lemma tl_changes_past: "length (tl_msgs t) < k \<Longrightarrow>
    fst (tl_changes_between u moved reflect eq opts k j t) = Inl (out_of_range ''jaal::timeline::at: step past the end'')"
  by (simp add: tl_changes_between_def tl_at_past)

end
