(* ===== verification/Given.thy ===== *)
theory Given
  imports Structural_Diff
begin

text \<open>
  The test host of \<^verbatim>\<open>host/given.hpp\<close>: messages folded by hand, the commands they return looked at or run inline. A
  command that was moved away keeps its kind with nothing inside; running such a task dereferences a null pointer, and such a
  function throws, so both are faults of the model. The program's update takes the test clock; one that asks for no
  clock ignores it.
\<close>

section \<open>Commands that can be moved away\<close>

datatype given_fault = Null_Thunk | Empty_Function | Endless

datatype ('h, 'o, 'm) gcmd =
    GNone
  | GBatch "('h, 'o, 'm) gcmd list"
  | GEff "('h, 'o, 'm) cmd"
  | GGone "('h, 'o, 'm) cmd"

fun held_cmd :: "('h, 'o, 'm) cmd \<Rightarrow> ('h, 'o, 'm) gcmd" where
  "held_cmd CNone = GNone"
| "held_cmd (Batch cs) = GBatch (map held_cmd cs)"
| "held_cmd c = GEff c"

fun moved_from :: "('h, 'o, 'm) gcmd \<Rightarrow> ('h, 'o, 'm) gcmd" where
  "moved_from GNone = GNone"
| "moved_from (GBatch cs) = GBatch []"
| "moved_from (GEff c) = GGone c"
| "moved_from (GGone c) = GGone c"

text \<open>\<^verbatim>\<open>batch\<close> again, on these.\<close>

fun gbatch_parts :: "('h, 'o, 'm) gcmd \<Rightarrow> ('h, 'o, 'm) gcmd list" where
  "gbatch_parts (GBatch cs) = cs"
| "gbatch_parts GNone = []"
| "gbatch_parts c = [c]"

definition gbatch :: "('h, 'o, 'm) gcmd list \<Rightarrow> ('h, 'o, 'm) gcmd" where
  "gbatch cs = (case concat (map gbatch_parts cs) of [] \<Rightarrow> GNone | [c] \<Rightarrow> c | out \<Rightarrow> GBatch out)"

section \<open>State\<close>

record ('md, 'h, 'o, 'm) given =
  gv_model :: "'md option"
  gv_before :: "'md option"
  gv_last :: "('h, 'o, 'm) gcmd"
  gv_afters :: "(int \<times> 'm) list"
  gv_quit :: "int option"
  gv_now :: time_point
  gv_rng :: u64
  gv_folds :: nat
  gv_failures :: "string list"

definition given_seed :: u64 where
  "given_seed = 0x123456789ABCDEF0"

definition given_model :: "'md \<Rightarrow> ('md, 'h, 'o, 'm) given" where
  "given_model md = \<lparr>gv_model = Some md, gv_before = None, gv_last = GNone, gv_afters = [], gv_quit = None, gv_now = 0,
     gv_rng = given_seed, gv_folds = 0, gv_failures = []\<rparr>"

definition given_init :: "'md \<times> ('h, 'o, 'm) cmd \<Rightarrow> ('md, 'h, 'o, 'm) given" where
  "given_init init = (given_model (fst init))\<lparr>gv_last := held_cmd (snd init)\<rparr>"

definition fail :: "string \<Rightarrow> ('md, 'h, 'o, 'm) given \<Rightarrow> ('md, 'h, 'o, 'm) given" where
  "fail why g = g\<lparr>gv_failures := gv_failures g @ [why]\<rparr>"

section \<open>Acting\<close>

fun note_cmd :: "('h, 'o, 'm) cmd \<Rightarrow> ('md, 'h, 'o, 'm) given \<Rightarrow> ('md, 'h, 'o, 'm) given" where
  "note_cmd (Batch cs) g = fold note_cmd cs g"
| "note_cmd (After d m k) g = g\<lparr>gv_afters := gv_afters g @ [(d, m)]\<rparr>"
| "note_cmd (Quit code) g = (if gv_quit g = None then g\<lparr>gv_quit := Some code\<rparr> else g)"
| "note_cmd c g = g"

type_synonym ('md, 'h, 'o, 'm) clocked_update = "'md \<Rightarrow> 'm \<Rightarrow> time_point \<Rightarrow> 'md \<times> (exc + ('h, 'o, 'm) cmd)"

definition when_msg ::
    "('md, 'h, 'o, 'm) clocked_update \<Rightarrow> 'm \<Rightarrow> ('md, 'h, 'o, 'm) given \<Rightarrow> ('md, 'h, 'o, 'm) given" where
  "when_msg u msg g =
     (case gv_model g of
        None \<Rightarrow> g
      | Some md \<Rightarrow>
          let g1 = g\<lparr>gv_before := Some md\<rparr>
          in case u md msg (gv_now g1) of
               (md', Inr c) \<Rightarrow> note_cmd c (g1\<lparr>gv_model := Some md', gv_last := held_cmd c, gv_folds := gv_folds g1 + 1\<rparr>)
             | (_, Inl (StdException what)) \<Rightarrow> (fail (''update threw: '' @ what) g1)\<lparr>gv_model := None\<rparr>
             | (_, Inl OtherException) \<Rightarrow> (fail ''update threw a non-std exception'' g1)\<lparr>gv_model := None\<rparr>)"

definition when_all ::
    "('md, 'h, 'o, 'm) clocked_update \<Rightarrow> 'm list \<Rightarrow> ('md, 'h, 'o, 'm) given \<Rightarrow> ('md, 'h, 'o, 'm) given" where
  "when_all u ms g = fold (when_msg u) ms g"

definition at_time :: "time_point \<Rightarrow> ('md, 'h, 'o, 'm) given \<Rightarrow> ('md, 'h, 'o, 'm) given" where
  "at_time t g = g\<lparr>gv_now := t\<rparr>"

definition advance_clock :: "duration \<Rightarrow> ('md, 'h, 'o, 'm) given \<Rightarrow> ('md, 'h, 'o, 'm) given" where
  "advance_clock d g = g\<lparr>gv_now := gv_now g + d\<rparr>"

definition with_seed :: "u64 \<Rightarrow> ('md, 'h, 'o, 'm) given \<Rightarrow> ('md, 'h, 'o, 'm) given" where
  "with_seed seed g = g\<lparr>gv_rng := seed\<rparr>"

text \<open>A task run inline: its sink collects, and it is never asked to stop.\<close>

partial_function (option) run_inline_body :: "(unit, 'm) act \<Rightarrow> 'm list \<Rightarrow> (exc option \<times> 'm list) option" where
  "run_inline_body body got =
     (case body of
        Done _ \<Rightarrow> Some (None, got)
      | Throw x \<Rightarrow> Some (Some x, got)
      | SendM m k \<Rightarrow> run_inline_body (k True) (got @ [m])
      | StopTest k \<Rightarrow> run_inline_body (k False) got)"

fun task_threw :: "exc option \<Rightarrow> ('md, 'h, 'o, 'm) given \<Rightarrow> ('md, 'h, 'o, 'm) given" where
  "task_threw None g = g"
| "task_threw (Some (StdException what)) g = fail (''a task threw: '' @ what) g"
| "task_threw (Some OtherException) g = fail ''a task threw a non-std exception'' g"

text \<open>One effect: what it produces is added. \<open>mv\<close> is what moving a message away leaves behind.\<close>

fun run_leaf ::
    "('h, 'o, 'm) cmd \<Rightarrow> 'm list \<times> ('md, 'h, 'o, 'm) given \<Rightarrow> given_fault + 'm list \<times> ('md, 'h, 'o, 'm) given" where
  "run_leaf (Task body w k) (ps, g) =
     (case run_inline_body body [] of None \<Rightarrow> Inl Endless | Some (x, got) \<Rightarrow> Inr (ps @ got, task_threw x g))"
| "run_leaf (Now f) (ps, g) = Inr (ps @ [f (gv_now g)], g)"
| "run_leaf (Random f) (ps, g) = (let (m, r) = f (gv_rng g) in Inr (ps @ [m], g\<lparr>gv_rng := r\<rparr>))"
| "run_leaf (Send m) (ps, g) = Inr (ps @ [m], g)"
| "run_leaf c (ps, g) = Inr (ps, g)"

fun run_gone ::
    "('m \<Rightarrow> 'm) \<Rightarrow> ('h, 'o, 'm) cmd \<Rightarrow> 'm list \<times> ('md, 'h, 'o, 'm) given \<Rightarrow> given_fault + 'm list \<times> ('md, 'h, 'o, 'm) given" where
  "run_gone mv (Task body w k) (ps, g) = Inl Null_Thunk"
| "run_gone mv (Now f) (ps, g) = Inl Empty_Function"
| "run_gone mv (Random f) (ps, g) = Inl Empty_Function"
| "run_gone mv (Send m) (ps, g) = Inr (ps @ [mv m], g)"
| "run_gone mv c (ps, g) = Inr (ps, g)"

fun run_inline ::
    "('m \<Rightarrow> 'm) \<Rightarrow> ('h, 'o, 'm) gcmd \<Rightarrow> 'm list \<times> ('md, 'h, 'o, 'm) given \<Rightarrow> given_fault + 'm list \<times> ('md, 'h, 'o, 'm) given"
  and run_inlines ::
    "('m \<Rightarrow> 'm) \<Rightarrow> ('h, 'o, 'm) gcmd list \<Rightarrow> 'm list \<times> ('md, 'h, 'o, 'm) given \<Rightarrow> given_fault + 'm list \<times> ('md, 'h, 'o, 'm) given" where
  "run_inline mv GNone s = Inr s"
| "run_inline mv (GBatch cs) s = run_inlines mv cs s"
| "run_inline mv (GEff c) s = run_leaf c s"
| "run_inline mv (GGone c) s = run_gone mv c s"
| "run_inlines mv [] s = Inr s"
| "run_inlines mv (c # cs) s = (case run_inline mv c s of Inl x \<Rightarrow> Inl x | Inr s1 \<Rightarrow> run_inlines mv cs s1)"

text \<open>\<^verbatim>\<open>settle\<close>: each round runs the last command and folds what it produced, keeping every command that comes back.\<close>

fun settle_fold ::
    "('md, 'h, 'o, 'm) clocked_update \<Rightarrow> 'm list \<Rightarrow> ('md, 'h, 'o, 'm) given \<Rightarrow> ('md, 'h, 'o, 'm) given" where
  "settle_fold u [] g = g"
| "settle_fold u (m # ms) g =
     (let keep = gv_last g; g1 = when_msg u m (g\<lparr>gv_last := moved_from keep\<rparr>)
      in settle_fold u ms (g1\<lparr>gv_last := gbatch [keep, gv_last g1]\<rparr>))"

fun settle ::
    "('md, 'h, 'o, 'm) clocked_update \<Rightarrow> ('m \<Rightarrow> 'm) \<Rightarrow> nat \<Rightarrow> ('md, 'h, 'o, 'm) given \<Rightarrow> given_fault + ('md, 'h, 'o, 'm) given" where
  "settle u mv 0 g = Inr (fail ''settle: still producing messages after max_rounds; a task keeps starting tasks?'' g)"
| "settle u mv (Suc n) g =
     (case run_inline mv (gv_last g) ([], g) of
        Inl x \<Rightarrow> Inl x
      | Inr (produced, g1) \<Rightarrow>
          let g2 = g1\<lparr>gv_last := GNone\<rparr>
          in if produced = [] then Inr g2 else settle u mv n (settle_fold u produced g2))"

section \<open>Looking and expecting\<close>

fun collect_effects :: "(('h, 'o, 'm) cmd \<Rightarrow> bool) \<Rightarrow> ('h, 'o, 'm) gcmd \<Rightarrow> ('h, 'o, 'm) cmd list" where
  "collect_effects D GNone = []"
| "collect_effects D (GBatch cs) = concat (map (collect_effects D) cs)"
| "collect_effects D (GEff c) = (if D c then [c] else [])"
| "collect_effects D (GGone c) = (if D c then [c] else [])"

text \<open>\<^verbatim>\<open>indent\<close>: four spaces after each line break, blanks and line breaks at the end dropped.\<close>

definition indent :: "string \<Rightarrow> string" where
  "indent s = rev (dropWhile (\<lambda>c. c = CHR '' '' \<or> c = CHR 0x0A)
     (rev (concat (map (\<lambda>c. if c = CHR 0x0A then [c] @ ''    '' else [c]) s))))"

definition expect ::
    "('md \<Rightarrow> 'v field) \<Rightarrow> ('v \<Rightarrow> 'v \<Rightarrow> bool) \<Rightarrow> string \<Rightarrow> ('md \<Rightarrow> exc + bool) \<Rightarrow> ('md, 'h, 'o, 'm) given \<Rightarrow> ('md, 'h, 'o, 'm) given" where
  "expect reflect eq name f g =
     (case gv_model g of
        None \<Rightarrow> fail (name @ '': no model (update threw)'') g
      | Some md \<Rightarrow>
          if f md = Inr True then g
          else fail (case gv_before g of
                 None \<Rightarrow> name
               | Some b \<Rightarrow>
                   let d = diff eq default_diff (reflect b) (reflect md)
                   in if d = [] then name
                      else name @ [CHR 0x0A] @ ''    last message changed:'' @ [CHR 0x0A] @ ''    '' @ indent (diff_to_string d)) g)"

definition expect_effect ::
    "(('h, 'o, 'm) cmd \<Rightarrow> bool) \<Rightarrow> string \<Rightarrow> nat \<Rightarrow> ('md, 'h, 'o, 'm) given \<Rightarrow> ('md, 'h, 'o, 'm) given" where
  "expect_effect D kind n g =
     (let k = length (collect_effects D (gv_last g))
      in if k \<noteq> n
         then fail (''expected '' @ show_nat n @ '' '' @ [CHR 0x27] @ kind @ [CHR 0x27] @ '' effect(s), got '' @ show_nat k) g
         else g)"

definition expect_no_effects :: "('md, 'h, 'o, 'm) given \<Rightarrow> ('md, 'h, 'o, 'm) given" where
  "expect_no_effects g = (if gv_last g = GNone then g else fail ''expected no effects'' g)"

definition given_ok :: "('md, 'h, 'o, 'm) given \<Rightarrow> bool" where
  "given_ok g \<longleftrightarrow> gv_failures g = []"

definition given_report :: "('md, 'h, 'o, 'm) given \<Rightarrow> string" where
  "given_report g = (if gv_failures g = [] then ''ok'' else concat (map (\<lambda>f. ''  - '' @ f @ [CHR 0x0A]) (gv_failures g)))"

text \<open>\<^verbatim>\<open>run_tasks_inline\<close>: only the tasks, and the first exception ends it.\<close>

fun run_tasks_inline :: "('h, 'o, 'm) cmd \<Rightarrow> given_fault + exc + 'm list"
  and run_tasks_list :: "('h, 'o, 'm) cmd list \<Rightarrow> given_fault + exc + 'm list" where
  "run_tasks_inline (Batch cs) = run_tasks_list cs"
| "run_tasks_inline (Task body w k) =
     (case run_inline_body body [] of
        None \<Rightarrow> Inl Endless
      | Some (Some x, got) \<Rightarrow> Inr (Inl x)
      | Some (None, got) \<Rightarrow> Inr (Inr got))"
| "run_tasks_inline c = Inr (Inr [])"
| "run_tasks_list [] = Inr (Inr [])"
| "run_tasks_list (c # cs) =
     (case run_tasks_inline c of
        Inr (Inr got) \<Rightarrow> (case run_tasks_list cs of Inr (Inr rest) \<Rightarrow> Inr (Inr (got @ rest)) | r \<Rightarrow> r)
      | r \<Rightarrow> r)"

section \<open>The reference\<close>

text \<open>Rounds over plain lists of effects: all effects run in order, all their messages are folded in order.\<close>

fun leaf_messages :: "time_point \<Rightarrow> ('h, 'o, 'm) cmd \<Rightarrow> u64 \<Rightarrow> 'm list \<times> u64" where
  "leaf_messages t (Task body w k) r = (case run_inline_body body [] of None \<Rightarrow> [] | Some (x, got) \<Rightarrow> got, r)"
| "leaf_messages t (Now f) r = ([f t], r)"
| "leaf_messages t (Random f) r = (let (m, r') = f r in ([m], r'))"
| "leaf_messages t (Send m) r = ([m], r)"
| "leaf_messages t c r = ([], r)"

fun messages :: "time_point \<Rightarrow> ('h, 'o, 'm) cmd list \<Rightarrow> u64 \<Rightarrow> 'm list \<times> u64" where
  "messages t [] r = ([], r)"
| "messages t (c # cs) r = (let (ms, r1) = leaf_messages t c r; (ms', r2) = messages t cs r1 in (ms @ ms', r2))"

fun fold_all :: "('md \<Rightarrow> 'm \<Rightarrow> 'md \<times> ('h, 'o, 'm) cmd) \<Rightarrow> 'md \<Rightarrow> 'm list \<Rightarrow> 'md \<times> ('h, 'o, 'm) cmd list" where
  "fold_all v md [] = (md, [])"
| "fold_all v md (m # ms) = (let (md1, c) = v md m; (md2, es) = fold_all v md1 ms in (md2, leaves c @ es))"

fun rounds ::
    "('md \<Rightarrow> 'm \<Rightarrow> 'md \<times> ('h, 'o, 'm) cmd) \<Rightarrow> time_point \<Rightarrow> nat \<Rightarrow> 'md \<Rightarrow> ('h, 'o, 'm) cmd list \<Rightarrow> u64 \<Rightarrow>
     'md \<times> ('h, 'o, 'm) cmd list \<times> nat" where
  "rounds v t 0 md es r = (md, es, 0)"
| "rounds v t (Suc n) md es r =
     (let (ms, r1) = messages t es r
      in if ms = [] then (md, [], 0)
         else let (md1, es1) = fold_all v md ms; (md2, es2, k) = rounds v t n md1 es1 r1 in (md2, es2, length ms + k))"

text \<open>A command with tasks that come to an end, and an update that never throws and only returns such commands.\<close>

fun ends_leaf :: "('h, 'o, 'm) cmd \<Rightarrow> bool" where
  "ends_leaf (Task body w k) = (run_inline_body body [] \<noteq> None)"
| "ends_leaf c = True"

definition calm :: "('md, 'h, 'o, 'm) clocked_update \<Rightarrow> time_point \<Rightarrow> ('md \<Rightarrow> 'm \<Rightarrow> 'md \<times> ('h, 'o, 'm) cmd) \<Rightarrow> bool" where
  "calm u t v \<longleftrightarrow> (\<forall>md m. u md m t = (fst (v md m), Inr (snd (v md m))) \<and> list_all ends_leaf (leaves (snd (v md m))))"

fun flat :: "('h, 'o, 'm) gcmd \<Rightarrow> ('h, 'o, 'm) cmd list" where
  "flat GNone = []"
| "flat (GBatch cs) = concat (map flat cs)"
| "flat (GEff c) = [c]"
| "flat (GGone c) = [c]"

fun intact :: "('h, 'o, 'm) gcmd \<Rightarrow> bool" where
  "intact (GBatch cs) = list_all intact cs"
| "intact (GGone c) = False"
| "intact c = True"

lemma held_flat [simp]: "flat (held_cmd c) = leaves c \<and> intact (held_cmd c)"
proof (induction c)
  case (Batch cs)
  then show ?case by (auto simp: list_all_iff intro!: arg_cong [of _ _ concat])
qed auto

lemma gbatch_parts_flat: "concat (map flat (gbatch_parts c)) = flat c"
  by (cases c) auto

lemma gbatch_parts_intact: "intact c \<Longrightarrow> list_all intact (gbatch_parts c)"
  by (cases c) auto

lemma gbatch_flat:
  fixes a b :: "('a, 'b, 'c) gcmd"
  shows "flat (gbatch [a, b]) = flat a @ flat b"
proof -
  have "flat (case xs of [] \<Rightarrow> GNone | [c] \<Rightarrow> c | out \<Rightarrow> GBatch out) = concat (map flat xs)" for xs :: "('a, 'b, 'c) gcmd list"
    by (auto split: list.split)
  from this [of "gbatch_parts a @ gbatch_parts b"] have "flat (gbatch [a, b]) = concat (map flat (gbatch_parts a @ gbatch_parts b))"
    by (simp add: gbatch_def)
  then show ?thesis by (simp add: gbatch_parts_flat)
qed

lemma gbatch_intact:
  assumes "intact a" "intact b"
  shows "intact (gbatch [a, b])"
proof -
  have "list_all intact (gbatch_parts a @ gbatch_parts b)" using gbatch_parts_intact [OF assms(1)] gbatch_parts_intact [OF assms(2)] by simp
  then show ?thesis by (cases "gbatch_parts a @ gbatch_parts b") (auto simp: gbatch_def split: list.split)
qed

lemma messages_append: "messages t (xs @ ys) r =
    (let (ms, r1) = messages t xs r; (ms', r2) = messages t ys r1 in (ms @ ms', r2))"
  by (induction xs arbitrary: r) (simp_all add: split_def Let_def)

section \<open>Settling\<close>

lemma task_threw_failures: "\<exists>f. task_threw x g = g\<lparr>gv_failures := f\<rparr>"
proof (cases x)
  case None
  then show ?thesis by (intro exI [of _ "gv_failures g"]) simp
next
  case (Some e)
  then show ?thesis by (cases e) (auto simp: fail_def)
qed

lemma run_leaf_ok:
  assumes "ends_leaf c"
  shows "\<exists>f. run_leaf c (ps, g) =
    Inr (ps @ fst (leaf_messages (gv_now g) c (gv_rng g)), g\<lparr>gv_rng := snd (leaf_messages (gv_now g) c (gv_rng g)), gv_failures := f\<rparr>)"
proof (cases c)
  case (Task body w k)
  then obtain x got where b: "run_inline_body body [] = Some (x, got)" using assms by auto
  obtain f where "task_threw x g = g\<lparr>gv_failures := f\<rparr>" using task_threw_failures by blast
  then show ?thesis using Task b by (intro exI [of _ f]) simp
qed (auto simp: split_def Let_def intro!: exI [of _ "gv_failures g"])

definition plays :: "('m \<Rightarrow> 'm) \<Rightarrow> ('h, 'o, 'm) gcmd \<Rightarrow> ('md, 'h, 'o, 'm) given itself \<Rightarrow> bool" where
  "plays mv c x \<longleftrightarrow> (\<forall>ps (g :: ('md, 'h, 'o, 'm) given). \<exists>f. run_inline mv c (ps, g) =
     Inr (ps @ fst (messages (gv_now g) (flat c) (gv_rng g)), g\<lparr>gv_rng := snd (messages (gv_now g) (flat c) (gv_rng g)), gv_failures := f\<rparr>))"

lemma playsE:
  assumes "plays mv c TYPE(('md, 'h, 'o, 'm) given)"
  obtains f where "run_inline mv c (ps, g :: ('md, 'h, 'o, 'm) given) =
    Inr (ps @ fst (messages (gv_now g) (flat c) (gv_rng g)), g\<lparr>gv_rng := snd (messages (gv_now g) (flat c) (gv_rng g)), gv_failures := f\<rparr>)"
  using assms unfolding plays_def by blast

lemma run_inlines_ok:
  fixes g :: "('md, 'h, 'o, 'm) given"
  assumes "\<forall>c \<in> set cs. plays mv c TYPE(('md, 'h, 'o, 'm) given)"
  shows "\<exists>f. run_inlines mv cs (ps, g) =
    Inr (ps @ fst (messages (gv_now g) (concat (map flat cs)) (gv_rng g)),
      g\<lparr>gv_rng := snd (messages (gv_now g) (concat (map flat cs)) (gv_rng g)), gv_failures := f\<rparr>)"
  using assms
proof (induction cs arbitrary: ps g)
  case Nil
  show ?case by (intro exI [of _ "gv_failures g"]) simp
next
  case (Cons c cs)
  let ?ps = "ps @ fst (messages (gv_now g) (flat c) (gv_rng g))" and ?r = "snd (messages (gv_now g) (flat c) (gv_rng g))"
  obtain f where c: "run_inline mv c (ps, g) = Inr (?ps, g\<lparr>gv_rng := ?r, gv_failures := f\<rparr>)"
    by (rule playsE [of mv c ps g]) (use Cons.prems in auto)
  obtain f' where "run_inlines mv cs (?ps, g\<lparr>gv_rng := ?r, gv_failures := f\<rparr>) =
      Inr (?ps @ fst (messages (gv_now g) (concat (map flat cs)) ?r),
        g\<lparr>gv_rng := snd (messages (gv_now g) (concat (map flat cs)) ?r), gv_failures := f'\<rparr>)"
    using Cons.IH [of ?ps "g\<lparr>gv_rng := ?r, gv_failures := f\<rparr>"] Cons.prems by auto
  then show ?case using c by (intro exI [of _ f']) (simp add: messages_append split_def Let_def)
qed

lemma run_inline_ok: "intact c \<Longrightarrow> list_all ends_leaf (flat c) \<Longrightarrow> plays mv c TYPE(('md, 'h, 'o, 'm) given)"
proof (induction c)
  case GNone
  have "\<exists>f. g = g\<lparr>gv_failures := f\<rparr>" for g :: "('md, 'h, 'o, 'm) given" by (rule exI [of _ "gv_failures g"]) simp
  then show ?case by (simp add: plays_def)
next
  case (GBatch cs)
  then have "\<forall>c \<in> set cs. plays mv c TYPE(('md, 'h, 'o, 'm) given)" by (auto simp: list_all_iff)
  then show ?case using run_inlines_ok by (fastforce simp: plays_def)
next
  case (GEff c)
  then show ?case using run_leaf_ok by (fastforce simp: plays_def split_def Let_def)
qed simp

lemma note_cmd_only:
  "gv_model (note_cmd c g) = gv_model g \<and> gv_last (note_cmd c g) = gv_last g \<and> gv_now (note_cmd c g) = gv_now g \<and>
   gv_rng (note_cmd c g) = gv_rng g \<and> gv_folds (note_cmd c g) = gv_folds g"
proof (induction c arbitrary: g)
  case (Batch cs)
  then show ?case by (induction cs arbitrary: g) auto
qed auto

lemma when_calm:
  assumes "calm u (gv_now g) v" "gv_model g = Some md"
  shows "gv_model (when_msg u m g) = Some (fst (v md m))" "gv_last (when_msg u m g) = held_cmd (snd (v md m))"
    "gv_now (when_msg u m g) = gv_now g" "gv_rng (when_msg u m g) = gv_rng g" "gv_folds (when_msg u m g) = gv_folds g + 1"
proof -
  let ?g = "g\<lparr>gv_before := Some md, gv_model := Some (fst (v md m)), gv_last := held_cmd (snd (v md m)), gv_folds := gv_folds g + 1\<rparr>"
  have u: "u md m (gv_now g) = (fst (v md m), Inr (snd (v md m)))" using assms(1) by (simp add: calm_def)
  have "when_msg u m g = note_cmd (snd (v md m)) ?g" using u assms(2) by (simp add: when_msg_def)
  then show "gv_model (when_msg u m g) = Some (fst (v md m))" "gv_last (when_msg u m g) = held_cmd (snd (v md m))"
    "gv_now (when_msg u m g) = gv_now g" "gv_rng (when_msg u m g) = gv_rng g" "gv_folds (when_msg u m g) = gv_folds g + 1"
    by (simp_all add: note_cmd_only)
qed

definition settled ::
    "('md \<Rightarrow> 'm \<Rightarrow> 'md \<times> ('h, 'o, 'm) cmd) \<Rightarrow> 'md \<Rightarrow> 'm list \<Rightarrow> ('md, 'h, 'o, 'm) given \<Rightarrow> ('md, 'h, 'o, 'm) given \<Rightarrow> bool" where
  "settled v md ms g g' \<longleftrightarrow> gv_model g' = Some (fst (fold_all v md ms)) \<and> flat (gv_last g') = flat (gv_last g) @ snd (fold_all v md ms) \<and>
     intact (gv_last g') \<and> list_all ends_leaf (snd (fold_all v md ms)) \<and> gv_now g' = gv_now g \<and> gv_rng g' = gv_rng g \<and>
     gv_folds g' = gv_folds g + length ms"

lemma settle_fold_ok:
  assumes "calm u (gv_now g) v" "gv_model g = Some md" "intact (gv_last g)" "list_all ends_leaf (flat (gv_last g))"
  shows "settled v md ms g (settle_fold u ms g)"
  using assms
proof (induction ms arbitrary: g md)
  case (Cons m ms)
  let ?w = "when_msg u m (g\<lparr>gv_last := moved_from (gv_last g)\<rparr>)"
  let ?g = "?w\<lparr>gv_last := gbatch [gv_last g, gv_last ?w]\<rparr>"
  have w: "gv_model ?w = Some (fst (v md m))" "gv_last ?w = held_cmd (snd (v md m))" "gv_now ?w = gv_now g" "gv_rng ?w = gv_rng g"
    "gv_folds ?w = gv_folds g + 1"
    using when_calm [of u "g\<lparr>gv_last := moved_from (gv_last g)\<rparr>" v md m] Cons.prems(1,2) by simp_all
  have e: "list_all ends_leaf (leaves (snd (v md m)))" using Cons.prems(1) by (simp add: calm_def)
  have "settled v (fst (v md m)) ms ?g (settle_fold u ms ?g)"
    by (rule Cons.IH) (use Cons.prems w e in \<open>simp_all add: gbatch_flat gbatch_intact\<close>)
  moreover have "settle_fold u (m # ms) g = settle_fold u ms ?g" by (simp add: Let_def)
  ultimately show ?case using w e by (simp only: settled_def) (simp add: gbatch_flat split_def Let_def)
qed (simp add: settled_def)

text \<open>C15: For a program whose updates do not throw and whose tasks come to an end, settling returns, whatever the limit on
  rounds: it leaves the model, the effects and the number of folds of the reference, which runs all effects of a round in
  order, folds all their messages in order and goes on with all the effects those folds return.\<close>

theorem settle_rounds:
  assumes "calm u (gv_now g) v" "gv_model g = Some md" "intact (gv_last g)" "list_all ends_leaf (flat (gv_last g))"
  shows "\<exists>g'. settle u mv n g = Inr g' \<and>
    (gv_model g', flat (gv_last g'), gv_folds g') =
      (case rounds v (gv_now g) n md (flat (gv_last g)) (gv_rng g) of (md', es, k) \<Rightarrow> (Some md', es, gv_folds g + k))"
  using assms
proof (induction n arbitrary: g md)
  case 0
  then show ?case by (simp add: fail_def)
next
  case (Suc n)
  let ?ms = "messages (gv_now g) (flat (gv_last g)) (gv_rng g)"
  obtain f where r: "run_inline mv (gv_last g) ([], g) = Inr ([] @ fst ?ms, g\<lparr>gv_rng := snd ?ms, gv_failures := f\<rparr>)"
    by (rule playsE [OF run_inline_ok [OF Suc.prems(3,4)]])
  let ?g = "g\<lparr>gv_rng := snd ?ms, gv_failures := f, gv_last := GNone\<rparr>"
  show ?case
  proof (cases "fst ?ms = []")
    case True
    then show ?thesis using r Suc.prems(2) by (simp add: split_def Let_def)
  next
    case False
    have s: "settle u mv (Suc n) g = settle u mv n (settle_fold u (fst ?ms) ?g)" using r False by simp
    have o: "gv_model (settle_fold u (fst ?ms) ?g) = Some (fst (fold_all v md (fst ?ms)))"
      "flat (gv_last (settle_fold u (fst ?ms) ?g)) = snd (fold_all v md (fst ?ms))" "intact (gv_last (settle_fold u (fst ?ms) ?g))"
      "list_all ends_leaf (snd (fold_all v md (fst ?ms)))" "gv_now (settle_fold u (fst ?ms) ?g) = gv_now g"
      "gv_rng (settle_fold u (fst ?ms) ?g) = snd ?ms" "gv_folds (settle_fold u (fst ?ms) ?g) = gv_folds g + length (fst ?ms)"
      using settle_fold_ok [of u ?g v md "fst ?ms"] Suc.prems(1,2) by (simp_all add: settled_def)
    have c: "calm u (gv_now (settle_fold u (fst ?ms) ?g)) v" using Suc.prems(1) o(5) by simp
    have e: "list_all ends_leaf (flat (gv_last (settle_fold u (fst ?ms) ?g)))" using o(2,4) by simp
    show ?thesis using Suc.IH [OF c o(1,3) e] False unfolding s o by (auto simp: split_def Let_def)
  qed
qed

text \<open>A program that counts down by tasks.\<close>

definition down :: "nat \<Rightarrow> nat \<Rightarrow> nat \<times> (unit, unit, nat) cmd" where
  "down md m = (md + m, if m = 0 then CNone else Batch [Task (SendM (m - 1) (\<lambda>_. Done ())) Pool [], Send 0])"

definition down_update :: "(nat, unit, unit, nat) clocked_update" where
  "down_update md m t = (fst (down md m), Inr (snd (down md m)))"

lemma down_calm: "calm down_update t down"
  by (auto simp: calm_def down_update_def down_def run_inline_body.simps)

theorem settle_rounds_witness:
  "\<exists>g'. settle down_update id 1000 (given_init (down 0 2)) = Inr g' \<and>
    (gv_model g', flat (gv_last g'), gv_folds g') =
      (case rounds down 0 1000 2 (leaves (snd (down 0 2))) given_seed of (md', es, k) \<Rightarrow> (Some md', es, k))"
proof -
  have g: "gv_now (given_init (down 0 2)) = 0" "gv_model (given_init (down 0 2)) = Some 2"
    "gv_last (given_init (down 0 2)) = held_cmd (snd (down 0 2))" "gv_rng (given_init (down 0 2)) = given_seed"
    "gv_folds (given_init (down 0 2)) = 0"
    by (simp_all add: given_init_def given_model_def down_def)
  have e: "list_all ends_leaf (leaves (snd (down 0 2)))" by (simp add: down_def run_inline_body.simps)
  show ?thesis using settle_rounds [of down_update "given_init (down 0 2)" down 2 id 1000] down_calm [of 0] e by (simp only: g held_flat) simp
qed

text \<open>
  When an update throws while a round is folded, the command kept from the message before it was moved away and stays where the
  next command would have gone; the next round runs it again, and a task that was moved away has no body.
\<close>

definition throwing :: "(nat, unit, unit, nat) clocked_update" where
  "throwing md m t = (if m = 0 then (md, Inr (Task (Done ()) Pool [])) else (md, Inl (StdException ''boom'')))"

lemma settle_runs_moved_task:
  "settle throwing id 2 (given_init (0, Batch [Send 0, Send 1])) = Inl Null_Thunk"
  by (simp add: given_init_def given_model_def throwing_def when_msg_def gbatch_def run_inline_body.simps fail_def numeral_2_eq_2)

text \<open>An expectation adds a failure exactly when the model is gone or does not meet it.\<close>

lemma expect_ok: "given_ok (expect reflect eq name f g) \<longleftrightarrow> given_ok g \<and> (\<exists>md. gv_model g = Some md \<and> f md = Inr True)"
  by (auto simp: expect_def given_ok_def fail_def split: option.splits)

end
