(* ===== verification/Type_Walk.thy ===== *)
theory Type_Walk
  imports Jaal_Prelude
begin

text \<open>
  The compile-time checks on the types a program sends and shares: the structural walker (\<^verbatim>\<open>core/walk.hpp\<close>), the shape table of
  the standard library (\<^verbatim>\<open>core/stdshape.hpp\<close>) and the four policies over them (\<^verbatim>\<open>core/sendable.hpp\<close>, \<^verbatim>\<open>core/frozen.hpp\<close>,
  \<^verbatim>\<open>core/sync.hpp\<close>, \<^verbatim>\<open>core/join_free.hpp\<close>), as functions on types. What the compiler says of a class (whether it is an
  aggregate, its fields, whether it can be assigned or moved) and the traits a program specialises are an environment. The
  fuel of the walker is the depth to which the compiler instantiates templates.
\<close>

section \<open>Types\<close>

text \<open>
  A C++ type: classes, enums and arithmetic types by name (an instance of a class template is a class of its own), the
  templates of the standard library with their type arguments (a size is dropped), \<^verbatim>\<open>const\<close>, and the marker that stands for a
  \<^verbatim>\<open>mutable\<close> field. An array of constant elements is a constant type, as in the language.
\<close>

datatype ty =
    TVoid
  | TArith string
  | TEnum string
  | TPtr ty
  | TMemPtr
  | TFun
  | TRef ty
  | TArray ty
  | TUnion string
  | TClass string
  | TStd string "ty list"
  | TConst ty
  | TMutable ty

record field_decl =
  fd_type :: ty
  fd_mutable :: bool

record type_env =
  te_has_fields :: bool
  te_aggregate :: "ty \<Rightarrow> bool"
  te_fields :: "ty \<Rightarrow> field_decl list"
  te_movable :: "ty \<Rightarrow> bool"
  te_assignable :: "ty \<Rightarrow> bool"
  te_sendable_in :: "ty \<Rightarrow> bool"
  te_sendable_out :: "ty \<Rightarrow> bool"
  te_frozen_in :: "ty \<Rightarrow> bool"
  te_sync_in :: "ty \<Rightarrow> bool"
  te_sync_const :: "ty \<Rightarrow> bool"
  te_joins :: "ty \<Rightarrow> bool"

text \<open>The traits of the language.\<close>

fun is_const :: "ty \<Rightarrow> bool" where
  "is_const (TConst t) = True"
| "is_const (TArray t) = is_const t"
| "is_const _ = False"

fun remove_cv :: "ty \<Rightarrow> ty" where
  "remove_cv (TConst t) = t"
| "remove_cv (TArray t) = TArray (remove_cv t)"
| "remove_cv t = t"

fun add_const :: "ty \<Rightarrow> ty" where
  "add_const (TConst t) = TConst t"
| "add_const (TArray t) = TArray (add_const t)"
| "add_const (TRef t) = TRef t"
| "add_const t = TConst t"

fun is_reference :: "ty \<Rightarrow> bool" where
  "is_reference (TRef t) = True"
| "is_reference _ = False"

fun is_array :: "ty \<Rightarrow> bool" where
  "is_array (TArray t) = True"
| "is_array _ = False"

fun remove_all_extents :: "ty \<Rightarrow> ty" where
  "remove_all_extents (TArray t) = remove_all_extents t"
| "remove_all_extents t = t"

fun is_class :: "ty \<Rightarrow> bool" where
  "is_class (TClass c) = True"
| "is_class (TStd n as) = (n \<noteq> ''nullptr_t'')"
| "is_class (TMutable t) = True"
| "is_class (TConst t) = is_class t"
| "is_class _ = False"

fun is_arith_or_enum :: "ty \<Rightarrow> bool" where
  "is_arith_or_enum (TArith n) = True"
| "is_arith_or_enum (TEnum n) = True"
| "is_arith_or_enum _ = False"

fun is_pointer_like :: "ty \<Rightarrow> bool" where
  "is_pointer_like (TPtr t) = True"
| "is_pointer_like TMemPtr = True"
| "is_pointer_like TFun = True"
| "is_pointer_like _ = False"

fun is_union :: "ty \<Rightarrow> bool" where
  "is_union (TUnion n) = True"
| "is_union _ = False"

definition is_object :: "ty \<Rightarrow> bool" where
  "is_object t \<longleftrightarrow> \<not> is_reference t \<and> t \<noteq> TFun \<and> remove_cv t \<noteq> TVoid"

text \<open>The reflection of \<^verbatim>\<open>meta/fields.hpp\<close>: the fields as a constant object shows them, as they are declared, and bare.\<close>

definition aggregate_struct :: "type_env \<Rightarrow> ty \<Rightarrow> bool" where
  "aggregate_struct te t \<longleftrightarrow> te_has_fields te \<and> is_class t \<and> te_aggregate te (remove_cv t)"

definition fields_t :: "type_env \<Rightarrow> ty \<Rightarrow> ty list" where
  "fields_t te t = map (\<lambda>f. if fd_mutable f then fd_type f else add_const (fd_type f)) (te_fields te (remove_cv t))"

definition declared_fields_t :: "type_env \<Rightarrow> ty \<Rightarrow> ty list" where
  "declared_fields_t te t = map fd_type (te_fields te (remove_cv t))"

definition field_types_t :: "type_env \<Rightarrow> ty \<Rightarrow> ty list" where
  "field_types_t te t = map remove_cv (fields_t te t)"

section \<open>Shapes of the standard library\<close>

datatype shape =
    Owns "ty list"
  | Unique_Owner ty ty
  | Shared_Owner ty
  | View
  | Value
  | Value_Of ty
  | Sync_Handle
  | Unknown

definition owning_templates :: "string list" where
  "owning_templates =
     [''vector'', ''deque'', ''list'', ''forward_list'', ''map'', ''multimap'', ''set'', ''multiset'',
      ''unordered_map'', ''unordered_multimap'', ''unordered_set'', ''unordered_multiset'',
      ''optional'', ''variant'', ''tuple'', ''pair'', ''expected'', ''basic_string'', ''array'']"

definition value_templates :: "string list" where
  "value_templates =
     [''allocator'', ''char_traits'', ''less'', ''greater'', ''hash'', ''equal_to'', ''default_delete'',
      ''monostate'', ''nullopt_t'', ''nullptr_t'']"

definition std_shape :: "string \<Rightarrow> ty list \<Rightarrow> shape" where
  "std_shape n as =
     (if n = ''expected'' \<and> take 1 as = [TVoid] then Owns (tl as)
      else if n \<in> set owning_templates then Owns as
      else if n = ''unique_ptr'' \<and> length as = 2 then Unique_Owner (as ! 0) (as ! 1)
      else if n \<in> {''shared_ptr'', ''weak_ptr''} \<and> length as = 1 then Shared_Owner (hd as)
      else if n \<in> {''basic_string_view'', ''span''} then View
      else if n = ''duration'' \<and> length as = 2 then Value_Of (hd as)
      else if n = ''time_point'' \<and> length as = 2 then Value_Of (as ! 1)
      else if n \<in> set value_templates then Value
      else if n \<in> {''stop_token'', ''stop_source'', ''exception_ptr''} then Sync_Handle
      else Unknown)"

fun shape_of :: "ty \<Rightarrow> shape" where
  "shape_of (TStd n as) = std_shape n as"
| "shape_of _ = Unknown"

fun elements :: "shape \<Rightarrow> ty list" where
  "elements (Owns as) = as"
| "elements (Unique_Owner p d) = [p, d]"
| "elements (Value_Of r) = [r]"
| "elements _ = []"

fun is_shared_shape :: "shape \<Rightarrow> bool" where
  "is_shared_shape (Shared_Owner t) = True"
| "is_shared_shape _ = False"

fun is_unique_shape :: "shape \<Rightarrow> bool" where
  "is_unique_shape (Unique_Owner p d) = True"
| "is_unique_shape _ = False"

fun is_owns_shape :: "shape \<Rightarrow> bool" where
  "is_owns_shape (Owns as) = True"
| "is_owns_shape _ = False"

fun is_value_of_shape :: "shape \<Rightarrow> bool" where
  "is_value_of_shape (Value_Of r) = True"
| "is_value_of_shape _ = False"

section \<open>The walker\<close>

datatype decision = Accept | Reject | Structural | Into "ty list"

datatype walk_result = Yes | No ty

record walk_policy =
  po_classify :: "ty \<Rightarrow> decision"
  po_fields :: "ty \<Rightarrow> ty list"

text \<open>All must pass; the first failure is reported.\<close>

fun all_of :: "(ty \<Rightarrow> walk_result option) \<Rightarrow> ty list \<Rightarrow> walk_result option" where
  "all_of chk [] = Some Yes"
| "all_of chk (t # ts) = (case chk t of None \<Rightarrow> None | Some Yes \<Rightarrow> all_of chk ts | Some (No c) \<Rightarrow> Some (No c))"

definition apply_structural ::
    "type_env \<Rightarrow> walk_policy \<Rightarrow> (ty list \<Rightarrow> ty \<Rightarrow> walk_result option) \<Rightarrow> ty list \<Rightarrow> ty \<Rightarrow> walk_result option" where
  "apply_structural te p chk seen t =
     (if is_array t then chk seen (remove_all_extents t)
      else if aggregate_struct te t then all_of (chk (seen @ [t])) (po_fields p t)
      else if \<not> te_has_fields te \<and> is_class t then Some Yes
      else Some (No t))"

fun apply_decision ::
    "type_env \<Rightarrow> walk_policy \<Rightarrow> (ty list \<Rightarrow> ty \<Rightarrow> walk_result option) \<Rightarrow> ty list \<Rightarrow> ty \<Rightarrow> decision \<Rightarrow> walk_result option" where
  "apply_decision te p chk seen t Accept = Some Yes"
| "apply_decision te p chk seen t Reject = Some (No t)"
| "apply_decision te p chk seen t (Into ts) = all_of (chk (seen @ [t])) ts"
| "apply_decision te p chk seen t Structural = apply_structural te p chk seen t"

text \<open>A type that is already on the stack is assumed fine.\<close>

fun walk_check :: "type_env \<Rightarrow> walk_policy \<Rightarrow> nat \<Rightarrow> ty list \<Rightarrow> ty \<Rightarrow> walk_result option" where
  "walk_check te p 0 seen t = None"
| "walk_check te p (Suc n) seen t =
     (if t \<in> set seen then Some Yes
      else apply_decision te p (walk_check te p n) seen t (po_classify p t))"

definition walk_run :: "type_env \<Rightarrow> walk_policy \<Rightarrow> nat \<Rightarrow> ty \<Rightarrow> walk_result option" where
  "walk_run te p n t = walk_check te p n [] t"

section \<open>Policies\<close>

text \<open>\<^verbatim>\<open>Sendable\<close>: moved to another thread, the value shares nothing with the sender.\<close>

definition sendable_classify :: "type_env \<Rightarrow> ty \<Rightarrow> decision" where
  "sendable_classify te t =
     (let u = remove_cv t; s = shape_of u
      in if te_sendable_out te u then Reject
         else if te_sendable_in te u then Accept
         else if is_reference t then Reject
         else if is_pointer_like u then Reject
         else if is_arith_or_enum u then Accept
         else if is_union u then Reject
         else if s = Value \<or> s = Sync_Handle then Accept
         else if s = View then Reject
         else if is_shared_shape s then Reject
         else if is_owns_shape s \<or> is_unique_shape s \<or> is_value_of_shape s then Into (elements s)
         else Structural)"

definition sendable_policy :: "type_env \<Rightarrow> walk_policy" where
  "sendable_policy te = \<lparr>po_classify = sendable_classify te, po_fields = field_types_t te\<rparr>"

definition sendable_v :: "type_env \<Rightarrow> nat \<Rightarrow> ty \<Rightarrow> bool" where
  "sendable_v te n t \<longleftrightarrow> (if is_reference t then False else walk_run te (sendable_policy te) n (remove_cv t) = Some Yes)"

definition Sendable :: "type_env \<Rightarrow> nat \<Rightarrow> ty \<Rightarrow> bool" where
  "Sendable te n t \<longleftrightarrow> is_object t \<and> te_movable te t \<and> sendable_v te n t"

text \<open>\<^verbatim>\<open>Frozen\<close>: nothing the value reaches changes through a constant reference. A \<^verbatim>\<open>mutable\<close> field is the one a constant binding
  does not show as constant.\<close>

fun is_mutable_marker :: "ty \<Rightarrow> bool" where
  "is_mutable_marker (TMutable t) = True"
| "is_mutable_marker _ = False"

definition frozen_field :: "ty \<Rightarrow> ty" where
  "frozen_field f = (if is_reference f \<or> is_const f then remove_cv f else TMutable f)"

definition frozen_classify :: "type_env \<Rightarrow> ty \<Rightarrow> decision" where
  "frozen_classify te t =
     (let u = remove_cv t; s = shape_of u
      in if is_mutable_marker u then Reject
         else if te_frozen_in te u then Accept
         else if is_reference t \<or> is_pointer_like u then Reject
         else if is_arith_or_enum u then Accept
         else if is_union u then Reject
         else if s = Value then Accept
         else if s = View \<or> s = Sync_Handle \<or> is_shared_shape s \<or> is_unique_shape s then Reject
         else if is_owns_shape s \<or> is_value_of_shape s then Into (elements s)
         else Structural)"

definition frozen_policy :: "type_env \<Rightarrow> walk_policy" where
  "frozen_policy te = \<lparr>po_classify = frozen_classify te, po_fields = map frozen_field \<circ> fields_t te\<rparr>"

fun unmark :: "ty \<Rightarrow> ty" where
  "unmark (TMutable f) = f"
| "unmark t = t"

definition frozen_v :: "type_env \<Rightarrow> nat \<Rightarrow> ty \<Rightarrow> bool" where
  "frozen_v te n t \<longleftrightarrow> (if is_reference t then False else walk_run te (frozen_policy te) n (remove_cv t) = Some Yes)"

definition Frozen :: "type_env \<Rightarrow> nat \<Rightarrow> ty \<Rightarrow> bool" where
  "Frozen te n t \<longleftrightarrow> is_object t \<and> frozen_v te n t"

definition frozen_culprit :: "type_env \<Rightarrow> nat \<Rightarrow> ty \<Rightarrow> ty option" where
  "frozen_culprit te n t = (case walk_run te (frozen_policy te) n (remove_cv t) of Some (No c) \<Rightarrow> Some (unmark c) | _ \<Rightarrow> None)"

definition frozen_fails_on_mutable :: "type_env \<Rightarrow> nat \<Rightarrow> ty \<Rightarrow> bool" where
  "frozen_fails_on_mutable te n t =
     (case walk_run te (frozen_policy te) n (remove_cv t) of Some (No c) \<Rightarrow> is_mutable_marker c | _ \<Rightarrow> False)"

definition Shareable :: "type_env \<Rightarrow> nat \<Rightarrow> ty \<Rightarrow> bool" where
  "Shareable te n t \<longleftrightarrow> Sendable te n t \<and> Frozen te n t"

text \<open>\<^verbatim>\<open>Sync\<close>: many threads may use one value at a time.\<close>

fun is_plain_atomic :: "ty \<Rightarrow> bool" where
  "is_plain_atomic (TStd n as) = (n = ''atomic'' \<and> length as = 1 \<and> is_arith_or_enum (hd as))"
| "is_plain_atomic _ = False"

fun owned_pointee :: "ty \<Rightarrow> ty option" where
  "owned_pointee (TStd n as) =
     (if n = ''shared_ptr'' \<and> length as = 1 then Some (remove_cv (hd as))
      else if n = ''unique_ptr'' \<and> length as = 2 then Some (remove_cv (hd as)) else None)"
| "owned_pointee _ = None"

definition sync_classify :: "type_env \<Rightarrow> nat \<Rightarrow> ty \<Rightarrow> decision" where
  "sync_classify te n t =
     (let u = remove_cv t
      in if is_reference t then Reject
         else if te_sync_in te u \<or> shape_of u = Sync_Handle
           then (if is_const t \<or> \<not> te_assignable te u then Accept else Reject)
         else if is_const t \<and> te_sync_const te u then Accept
         else if is_const t \<and> owned_pointee u \<noteq> None then Into [the (owned_pointee u)]
         else if is_const t then (if Frozen te n u then Accept else Reject)
         else if is_plain_atomic u then Accept
         else if is_array u \<or> aggregate_struct te u then Structural
         else if \<not> te_has_fields te \<and> is_class u then Structural
         else Reject)"

definition sync_policy :: "type_env \<Rightarrow> nat \<Rightarrow> walk_policy" where
  "sync_policy te n = \<lparr>po_classify = sync_classify te n, po_fields = declared_fields_t te\<rparr>"

definition Sync :: "type_env \<Rightarrow> nat \<Rightarrow> ty \<Rightarrow> bool" where
  "Sync te n t \<longleftrightarrow> is_object t \<and> walk_run te (sync_policy te n) n (remove_cv t) = Some Yes"

text \<open>\<^verbatim>\<open>JoinFree\<close>: destroying the value waits for no thread.\<close>

fun join_pointee :: "ty \<Rightarrow> ty option" where
  "join_pointee (TStd n as) =
     (if n = ''unique_ptr'' \<and> length as = 2 then Some (remove_cv (hd as))
      else if n = ''shared_ptr'' \<and> length as = 1 then Some (remove_cv (hd as)) else None)"
| "join_pointee _ = None"

fun is_weak_ptr :: "ty \<Rightarrow> bool" where
  "is_weak_ptr (TStd n as) = (n = ''weak_ptr'' \<and> length as = 1)"
| "is_weak_ptr _ = False"

definition join_free_classify :: "type_env \<Rightarrow> ty \<Rightarrow> decision" where
  "join_free_classify te t =
     (let u = remove_cv t; s = shape_of u
      in if te_joins te u then Reject
         else if is_weak_ptr u then Accept
         else if join_pointee u \<noteq> None \<and> join_pointee u \<noteq> Some TVoid then Into [the (join_pointee u)]
         else if is_reference t \<or> is_pointer_like u \<or> is_arith_or_enum u \<or> is_union u then Accept
         else if s = Value \<or> s = View \<or> s = Sync_Handle then Accept
         else if is_owns_shape s \<or> is_value_of_shape s then Into (elements s)
         else if is_class u \<and> aggregate_struct te u then Structural
         else Accept)"

definition join_free_policy :: "type_env \<Rightarrow> walk_policy" where
  "join_free_policy te = \<lparr>po_classify = join_free_classify te, po_fields = field_types_t te\<rparr>"

definition JoinFree :: "type_env \<Rightarrow> nat \<Rightarrow> ty \<Rightarrow> bool" where
  "JoinFree te n t \<longleftrightarrow> walk_run te (join_free_policy te) n (remove_cv t) = Some Yes"

section \<open>What the walker finds\<close>

text \<open>The types the walker looks at below a type, and the types it finds fault with.\<close>

definition below :: "type_env \<Rightarrow> walk_policy \<Rightarrow> ty \<Rightarrow> ty list" where
  "below te p t =
     (case po_classify p t of
        Into ts \<Rightarrow> ts
      | Structural \<Rightarrow> if is_array t then [remove_all_extents t] else if aggregate_struct te t then po_fields p t else []
      | _ \<Rightarrow> [])"

definition faulty :: "type_env \<Rightarrow> walk_policy \<Rightarrow> ty \<Rightarrow> bool" where
  "faulty te p t \<longleftrightarrow> po_classify p t = Reject \<or>
     po_classify p t = Structural \<and> \<not> is_array t \<and> \<not> aggregate_struct te t \<and> (te_has_fields te \<or> \<not> is_class t)"

text \<open>What can be reached without a step through a set of types.\<close>

inductive around :: "type_env \<Rightarrow> walk_policy \<Rightarrow> ty set \<Rightarrow> ty \<Rightarrow> ty \<Rightarrow> bool" for te p s where
  here: "t \<notin> s \<Longrightarrow> around te p s t t"
| more: "t \<notin> s \<Longrightarrow> v \<in> set (below te p t) \<Longrightarrow> around te p s v u \<Longrightarrow> around te p s t u"

lemma around_start: "around te p s t u \<Longrightarrow> t \<notin> s"
  by (auto elim: around.cases)

text \<open>A way past a type can start over at its last visit.\<close>

lemma around_insert:
  assumes "around te p s w u" "u \<noteq> t"
  shows "around te p (insert t s) w u \<or> (\<exists>v \<in> set (below te p t). around te p (insert t s) v u)"
  using assms
proof (induction rule: around.induct)
  case (more w v u)
  then consider "around te p (insert t s) v u" | "\<exists>v \<in> set (below te p t). around te p (insert t s) v u" by blast
  then show ?case
    by cases (use more.hyps in \<open>cases "w = t"; auto intro: around.intros\<close>)+
qed (auto intro: around.intros)

lemma around_below:
  assumes "around te p s t u" "u \<noteq> t"
  shows "\<exists>v \<in> set (below te p t). around te p (insert t s) v u"
  using around_insert [OF assms] around_start [of te p "insert t s" t u] by auto

lemma all_of_Yes: "all_of chk ts = Some Yes \<longleftrightarrow> (\<forall>t \<in> set ts. chk t = Some Yes)"
  by (induction ts) (auto split: option.split walk_result.split)

lemma all_of_No: "all_of chk ts = Some (No c) \<Longrightarrow> \<exists>t \<in> set ts. chk t = Some (No c)"
  by (induction ts) (auto split: option.splits walk_result.splits)

lemma all_of_Some: "\<forall>t \<in> set ts. chk t \<noteq> None \<Longrightarrow> all_of chk ts \<noteq> None"
  by (induction ts) (auto split: option.split walk_result.split)

lemma extents_not_array: "\<not> is_array (remove_all_extents t)"
  by (induction t rule: remove_all_extents.induct) auto

text \<open>One step of the walker in terms of these.\<close>

lemma check_array:
  assumes "po_classify p t = Structural" "is_array t" "t \<notin> set seen"
  shows "walk_check te p (Suc n) seen t = walk_check te p n seen (remove_all_extents t)"
    "below te p t = [remove_all_extents t]" "\<not> faulty te p t"
  using assms by (auto simp: apply_structural_def below_def faulty_def)

lemma check_other:
  assumes "\<not> (po_classify p t = Structural \<and> is_array t)" "t \<notin> set seen"
  shows "walk_check te p (Suc n) seen t =
     (if faulty te p t then Some (No t) else all_of (walk_check te p n (seen @ [t])) (below te p t))"
  using assms by (cases "po_classify p t") (auto simp: apply_structural_def below_def faulty_def)

text \<open>A pass means that nothing faulty can be reached around the stack; a failure names something faulty that can be reached.\<close>

lemma check_Yes: "walk_check te p n seen t = Some Yes \<Longrightarrow> around te p (set seen) t u \<Longrightarrow> \<not> faulty te p u"
proof (induction n arbitrary: seen t)
  case (Suc n)
  have t: "t \<notin> set seen" by (rule around_start [OF Suc.prems(2)])
  show ?case
  proof (cases "po_classify p t = Structural \<and> is_array t")
    case True
    note a = check_array [OF conjunct1 [OF True] conjunct2 [OF True] t]
    show ?thesis using Suc.prems(2)
    proof (cases rule: around.cases)
      case here
      then show ?thesis using a(3) by simp
    next
      case (more v)
      then show ?thesis using Suc.IH Suc.prems(1) a(1,2) by simp
    qed
  next
    case False
    have "(if faulty te p t then Some (No t) else all_of (walk_check te p n (seen @ [t])) (below te p t)) = Some Yes"
      using Suc.prems(1) check_other [OF False t, of te n] by (simp only:)
    then have f: "\<not> faulty te p t" and y: "\<forall>v \<in> set (below te p t). walk_check te p n (seen @ [t]) v = Some Yes"
      by (auto simp: all_of_Yes split: if_splits)
    show ?thesis
    proof (cases "u = t")
      case False
      obtain v where "v \<in> set (below te p t)" "around te p (insert t (set seen)) v u" using around_below [OF Suc.prems(2) False] by blast
      then show ?thesis using Suc.IH [of "seen @ [t]" v] y by simp
    qed (use f in simp)
  qed
qed simp

lemma check_No: "walk_check te p n seen t = Some (No c) \<Longrightarrow> around te p {} t c \<and> faulty te p c"
proof (induction n arbitrary: seen t)
  case (Suc n)
  then have t: "t \<notin> set seen" by auto
  show ?case
  proof (cases "po_classify p t = Structural \<and> is_array t")
    case True
    note a = check_array [OF conjunct1 [OF True] conjunct2 [OF True] t]
    show ?thesis using Suc.IH Suc.prems a(1,2) by (auto intro: around.more)
  next
    case False
    note check_other [OF False t, of te n]
    then consider "faulty te p t" "c = t" | v where "v \<in> set (below te p t)" "walk_check te p n (seen @ [t]) v = Some (No c)"
      using Suc.prems by (auto dest: all_of_No split: if_splits)
    then show ?thesis using Suc.IH by cases (auto intro: around.intros)
  qed
qed simp

text \<open>Each type goes on the stack once, with a step for an array before it, so a finite set of types bounds the depth.\<close>

lemma check_returns:
  assumes "finite r" "\<forall>t \<in> r. set (below te p t) \<subseteq> r" "t \<in> r"
    "2 * card (r - set seen) + (if is_array t then 1 else 0) < n"
  shows "walk_check te p n seen t \<noteq> None"
  using assms(3,4)
proof (induction n arbitrary: seen t)
  case (Suc n)
  show ?case
  proof (cases "t \<in> set seen")
    case False
    show ?thesis
    proof (cases "po_classify p t = Structural \<and> is_array t")
      case True
      note a = check_array [OF conjunct1 [OF True] conjunct2 [OF True] False]
      have "remove_all_extents t \<in> r" using a(2) assms(2) Suc.prems(1) by fastforce
      then show ?thesis using Suc.IH Suc.prems(2) True extents_not_array [of t] a(1) by simp
    next
      case other: False
      have "card (r - set (seen @ [t])) < card (r - set seen)"
        using assms(1) Suc.prems(1) False by (intro psubset_card_mono) auto
      then have l: "2 * card (r - set (seen @ [t])) + 1 < n" using Suc.prems(2) by (simp split: if_splits)
      have "\<forall>v \<in> set (below te p t). walk_check te p n (seen @ [t]) v \<noteq> None"
      proof
        fix v assume "v \<in> set (below te p t)"
        then have "v \<in> r" using assms(2) Suc.prems(1) by blast
        then show "walk_check te p n (seen @ [t]) v \<noteq> None" using l by (intro Suc.IH) simp_all
      qed
      then show ?thesis using check_other [OF other False, of te n] all_of_Some by (simp split: if_splits)
    qed
  qed simp
qed simp

lemma around_closed: "t \<in> r \<Longrightarrow> \<forall>t \<in> r. set (below te p t) \<subseteq> r \<Longrightarrow> around te p {} t u \<Longrightarrow> u \<in> r"
  by (rotate_tac 2, induction rule: around.induct) auto

lemma around_step: "around te p {} t u \<Longrightarrow> v \<in> set (below te p u) \<Longrightarrow> around te p {} t v"
  by (induction rule: around.induct) (auto intro: around.intros)

lemma walk_run_exact:
  assumes "finite {u. around te p {} t u}" "2 * card {u. around te p {} t u} + 2 \<le> n"
  shows "\<exists>r. walk_run te p n t = Some r \<and> (r = Yes \<longleftrightarrow> (\<forall>u. around te p {} t u \<longrightarrow> \<not> faulty te p u)) \<and>
    (\<forall>c. r = No c \<longrightarrow> around te p {} t c \<and> faulty te p c)"
proof -
  have "walk_check te p n [] t \<noteq> None"
    by (rule check_returns [OF assms(1)]) (use assms(2) in \<open>auto intro: around.here around_step\<close>)
  then obtain r where r: "walk_check te p n [] t = Some r" by blast
  show ?thesis
  proof (cases r)
    case Yes
    then show ?thesis using r check_Yes [of te p n "[]" t] by (auto simp: walk_run_def)
  next
    case (No c)
    then show ?thesis using r check_No [of te p n "[]" t c] by (auto simp: walk_run_def)
  qed
qed

section \<open>Sendable\<close>

text \<open>
  The reference: what a value holds, through containers, owners, arrays and structs, up to a type that a program vouches for
  (or against) itself; and what must not be among it.
\<close>

definition parts :: "type_env \<Rightarrow> ty \<Rightarrow> ty list" where
  "parts te t =
     (case shape_of (remove_cv t) of
        Owns as \<Rightarrow> as
      | Unique_Owner p d \<Rightarrow> [p, d]
      | Value_Of r \<Rightarrow> [r]
      | Unknown \<Rightarrow> if is_array t then [remove_all_extents t] else if aggregate_struct te t then field_types_t te t else []
      | _ \<Rightarrow> [])"

definition spoken_for :: "type_env \<Rightarrow> ty \<Rightarrow> bool" where
  "spoken_for te t \<longleftrightarrow> te_sendable_in te (remove_cv t) \<or> te_sendable_out te (remove_cv t)"

inductive holds :: "type_env \<Rightarrow> ty \<Rightarrow> ty \<Rightarrow> bool" for te t where
  itself: "holds te t t"
| part: "holds te t u \<Longrightarrow> \<not> spoken_for te u \<Longrightarrow> v \<in> set (parts te u) \<Longrightarrow> holds te t v"

definition borrows :: "ty \<Rightarrow> bool" where
  "borrows t \<longleftrightarrow> is_reference t \<or> is_pointer_like (remove_cv t) \<or> is_union (remove_cv t) \<or>
     shape_of (remove_cv t) = View \<or> is_shared_shape (shape_of (remove_cv t))"

definition unseen :: "type_env \<Rightarrow> ty \<Rightarrow> bool" where
  "unseen te t \<longleftrightarrow> shape_of (remove_cv t) = Unknown \<and> \<not> is_arith_or_enum (remove_cv t) \<and> \<not> is_array t \<and>
     \<not> aggregate_struct te t \<and> (te_has_fields te \<or> \<not> is_class t)"

definition unsendable :: "type_env \<Rightarrow> ty \<Rightarrow> bool" where
  "unsendable te t \<longleftrightarrow> te_sendable_out te (remove_cv t) \<or>
     \<not> te_sendable_in te (remove_cv t) \<and> (borrows t \<or> unseen te t)"

lemma plain_shape:
  "is_reference t \<or> is_pointer_like (remove_cv t) \<or> is_arith_or_enum (remove_cv t) \<or> is_union (remove_cv t) \<Longrightarrow>
   shape_of (remove_cv t) = Unknown \<and> \<not> is_array t \<and> \<not> is_class t"
proof -
  have "is_pointer_like u \<or> is_arith_or_enum u \<or> is_union u \<Longrightarrow> shape_of u = Unknown \<and> \<not> is_array u \<and> \<not> is_class u" for u
    by (cases u) auto
  then show "is_reference t \<or> is_pointer_like (remove_cv t) \<or> is_arith_or_enum (remove_cv t) \<or> is_union (remove_cv t) \<Longrightarrow>
    shape_of (remove_cv t) = Unknown \<and> \<not> is_array t \<and> \<not> is_class t"
    by (cases t) auto
qed

lemma union_not_plain: "is_union u \<Longrightarrow> \<not> is_arith_or_enum u"
  by (cases u) auto

lemma plain_parts:
  "is_reference t \<or> is_pointer_like (remove_cv t) \<or> is_arith_or_enum (remove_cv t) \<or> is_union (remove_cv t) \<Longrightarrow> parts te t = []"
  using plain_shape [of t] by (simp add: parts_def aggregate_struct_def)

lemma sendable_below: "below te (sendable_policy te) t = (if spoken_for te t then [] else parts te t)"
proof (cases "is_reference t \<or> is_pointer_like (remove_cv t) \<or> is_arith_or_enum (remove_cv t) \<or> is_union (remove_cv t)")
  case True
  then show ?thesis using plain_parts [OF True, of te]
    by (auto simp: below_def sendable_policy_def sendable_classify_def spoken_for_def Let_def)
next
  case False
  then show ?thesis
    by (cases "shape_of (remove_cv t)") (auto simp: below_def sendable_policy_def sendable_classify_def spoken_for_def parts_def Let_def)
qed

lemma sendable_faulty: "faulty te (sendable_policy te) t = unsendable te t"
proof (cases "is_reference t \<or> is_pointer_like (remove_cv t) \<or> is_arith_or_enum (remove_cv t) \<or> is_union (remove_cv t)")
  case True
  then show ?thesis using plain_shape [OF True] union_not_plain [of "remove_cv t"]
    by (auto simp: faulty_def sendable_policy_def sendable_classify_def unsendable_def borrows_def unseen_def Let_def aggregate_struct_def)
next
  case False
  then show ?thesis
    by (cases "shape_of (remove_cv t)")
      (auto simp: faulty_def sendable_policy_def sendable_classify_def unsendable_def borrows_def unseen_def Let_def)
qed

lemma holds_from: "holds te v u \<Longrightarrow> \<not> spoken_for te t \<Longrightarrow> v \<in> set (parts te t) \<Longrightarrow> holds te t u"
  by (induction rule: holds.induct) (auto intro: holds.intros)

lemma sendable_around: "around te (sendable_policy te) {} t u = holds te t u"
proof
  show "around te (sendable_policy te) {} t u \<Longrightarrow> holds te t u"
    by (induction rule: around.induct) (auto simp: sendable_below intro: holds.intros holds_from split: if_splits)
  show "holds te t u \<Longrightarrow> around te (sendable_policy te) {} t u"
    by (induction rule: holds.induct) (auto simp: sendable_below intro: around.here around_step)
qed


text \<open>A tree of nodes with a list of nodes each.\<close>

definition tree_fields :: "ty \<Rightarrow> field_decl list" where
  "tree_fields t = [\<lparr>fd_type = TArith ''int'', fd_mutable = False\<rparr>, \<lparr>fd_type = TStd ''vector'' [TClass ''node''], fd_mutable = False\<rparr>]"

definition tree_env :: type_env where
  "tree_env = \<lparr>te_has_fields = True, te_aggregate = (\<lambda>t. t = TClass ''node''), te_fields = tree_fields, te_movable = (\<lambda>_. True),
     te_assignable = (\<lambda>_. True), te_sendable_in = (\<lambda>_. False), te_sendable_out = (\<lambda>_. False), te_frozen_in = (\<lambda>_. False),
     te_sync_in = (\<lambda>_. False), te_sync_const = (\<lambda>_. False), te_joins = (\<lambda>t. t = TClass ''pool'')\<rparr>"

definition tree_types :: "ty set" where
  "tree_types = {TClass ''node'', TArith ''int'', TStd ''vector'' [TClass ''node'']}"

lemma tree_holds: "holds tree_env (TClass ''node'') u \<Longrightarrow> u \<in> tree_types"
proof (induction rule: holds.induct)
  case (part u v)
  then show ?case
    by (auto simp: tree_types_def parts_def std_shape_def owning_templates_def aggregate_struct_def tree_env_def field_types_t_def
        fields_t_def tree_fields_def)
qed (simp add: tree_types_def)

lemma tree_finite: "finite {u. holds tree_env (TClass ''node'') u} \<and> card {u. holds tree_env (TClass ''node'') u} \<le> 3"
proof -
  have s: "{u. holds tree_env (TClass ''node'') u} \<subseteq> tree_types" using tree_holds by blast
  have f: "finite tree_types" and c: "card tree_types = 3" by (simp_all add: tree_types_def)
  show ?thesis using finite_subset [OF s f] card_mono [OF f s] c by simp
qed


lemma tree_sendable: "Sendable tree_env 8 (TClass ''node'')"
  by code_simp

section \<open>Frozen, Sync and JoinFree\<close>

lemma run_Yes: "walk_run te p n t = Some Yes \<Longrightarrow> around te p {} t u \<Longrightarrow> \<not> faulty te p u"
  using check_Yes [of te p n "[]" t u] by (simp add: walk_run_def)

text \<open>A field the language lets a program declare: a \<^verbatim>\<open>mutable\<close> one is neither constant nor a reference.\<close>

definition legal_field :: "field_decl \<Rightarrow> bool" where
  "legal_field f \<longleftrightarrow> \<not> (fd_mutable f \<and> (is_const (fd_type f) \<or> is_reference (fd_type f)))"

text \<open>No struct the check of \<^verbatim>\<open>Frozen\<close> looks into has a \<^verbatim>\<open>mutable\<close> field, at any depth.\<close>

lemma frozen_no_mutable:
  assumes "frozen_v te n t" "around te (frozen_policy te) {} (remove_cv t) u" "frozen_classify te u = Structural"
    "\<not> is_array u" "aggregate_struct te u" "f \<in> set (te_fields te (remove_cv u))" "legal_field f"
  shows "\<not> fd_mutable f"
proof
  assume m: "fd_mutable f"
  have "TMutable (fd_type f) \<in> set (below te (frozen_policy te) u)"
    using assms(3-7) m by (force simp: below_def frozen_policy_def fields_t_def frozen_field_def legal_field_def)
  then have "around te (frozen_policy te) {} (remove_cv t) (TMutable (fd_type f))" using assms(2) around_step by blast
  then have "\<not> faulty te (frozen_policy te) (TMutable (fd_type f))"
    using assms(1) run_Yes by (auto simp: frozen_v_def split: if_splits)
  then show False by (simp add: faulty_def frozen_policy_def frozen_classify_def)
qed

text \<open>Every writable field the check of \<^verbatim>\<open>Sync\<close> comes to is synchronised: an atomic, a type that is vouched for and cannot be
  assigned, or a struct or an array of such.\<close>

lemma sync_writable:
  assumes "Sync te n t" "te_has_fields te" "around te (sync_policy te n) {} (remove_cv t) u" "\<not> is_const u"
  shows "is_plain_atomic (remove_cv u) \<or> is_array (remove_cv u) \<or> aggregate_struct te (remove_cv u) \<or>
    (te_sync_in te (remove_cv u) \<or> shape_of (remove_cv u) = Sync_Handle) \<and> \<not> te_assignable te (remove_cv u)"
proof -
  have "\<not> faulty te (sync_policy te n) u" using assms(1,3) run_Yes by (auto simp: Sync_def)
  then show ?thesis using assms(2,4) by (auto simp: faulty_def sync_policy_def sync_classify_def Let_def split: if_splits)
qed

text \<open>Nothing the check of \<^verbatim>\<open>JoinFree\<close> comes to joins a thread when it is destroyed. It does not look into an array of the
  language, though, so an array of pools passes, as does an owner of one.\<close>

lemma join_free_no_joiner:
  assumes "JoinFree te n t" "around te (join_free_policy te) {} (remove_cv t) u"
  shows "\<not> te_joins te (remove_cv u)"
proof -
  have "\<not> faulty te (join_free_policy te) u" using assms run_Yes by (auto simp: JoinFree_def)
  then show ?thesis by (auto simp: faulty_def join_free_policy_def join_free_classify_def)
qed

lemma join_free_misses_arrays:
  "te_joins tree_env (TClass ''pool'')"
  "\<not> JoinFree tree_env 8 (TStd ''array'' [TClass ''pool''])"
  "JoinFree tree_env 8 (TArray (TClass ''pool''))"
  "JoinFree tree_env 8 (TStd ''unique_ptr'' [TArray (TClass ''pool''), TStd ''default_delete'' [TArray (TClass ''pool'')]])"
  by code_simp+

end
