(* ===== verification/Spec2Isabelle.thy ===== *)
theory Spec2Isabelle
  imports Timer_Props Rng Debounce Stop_Group Pool Scope Run Sim_Props
    Poll_Reactor Epoll_Reactor Kqueue_Reactor Wait_Reactor Win_Command File_Lock Posix_Process
    Sim_Process Posix_Signals Snapshot Guarded
    Given Type_Walk
begin

text \<open>
  A verification of jaal, a C++ runtime for programs written as a model, messages, an update function and
  subscriptions. Paths below are under \<^verbatim>\<open>src/include/jaal/\<close>, those of the platform theories under \<^verbatim>\<open>src/src/\<close>.

  \<^bold>\<open>The program.\<close> A program (\<^verbatim>\<open>core/program.hpp\<close>) folds messages into a model and returns commands, which are
  trees of effects (\<^verbatim>\<open>core/cmd.hpp\<close>, \<^verbatim>\<open>core/fx.hpp\<close>); it also says which sources it wants for the current
  model, a tree of timers, streams and host sources (\<^verbatim>\<open>core/sub.hpp\<close>). The kernel (\<^verbatim>\<open>kernel/kernel.hpp\<close>) owns
  the model and the queue of messages. It drains a mailbox other threads post to (\<^verbatim>\<open>kernel/mailbox.hpp\<close>),
  collects due timers (\<^verbatim>\<open>kernel/timer_heap.hpp\<close>), folds, runs effects, and starts and stops sources by a keyed
  diff (\<^verbatim>\<open>kernel/reconcile.hpp\<close>). The driver (\<^verbatim>\<open>kernel/run.hpp\<close>, \<^verbatim>\<open>kernel/teardown.hpp\<close>) steps it, waits,
  draws and shuts down, over a reactor, signals and child processes of the platform. Recorded messages are replayed by \<^verbatim>\<open>kernel/replay.hpp\<close> and \<^verbatim>\<open>kernel/timeline.hpp\<close>.

  \<^bold>\<open>Theories, bottom up.\<close>
  \<^item> \<open>Jaal_Prelude\<close>: words, time points and durations as integers with the limits of the clock's
    representation, list and word lemmas.
  \<^item> \<open>Array_Heap\<close>: heap order on arrays. \<open>Timer_Heap\<close>, \<open>Timer_Props\<close>: \<^verbatim>\<open>timer_heap.hpp\<close>, the indexed heap with
    generations in its ids; refinement to a set of armed timers, order and termination of the collection.
  \<^item> \<open>Rng\<close>: \<^verbatim>\<open>core/rng.hpp\<close> on 64-bit words; the generator is a bijection, rejection sampling ends and is fair.
  \<^item> \<open>Debounce\<close>: \<^verbatim>\<open>core/debounce.hpp\<close>.
  \<^item> \<open>Effects\<close>: command and subscription trees, task bodies as trees of what they post.
  \<^item> \<open>Children\<close>: \<^verbatim>\<open>core/child.hpp\<close>, \<^verbatim>\<open>core/children.hpp\<close>: programs inside programs, prefixes of keys.
  \<^item> \<open>Mailbox\<close>: every critical section of the mailbox, and a step relation that interleaves senders, wakes and the
    loop.
  \<^item> \<open>Flat_Index\<close>, \<open>Reconcile\<close>: the open-addressing index and the diff of sources, with its reference.
  \<^item> \<open>Kernel\<close>: one record for the kernel's members, one definition for each member function. \<open>env\<close> holds
    what the kernel is given: program, host, clock, options. Exceptions are values. A run that meets undefined
    behaviour (\<open>OutOfRange\<close>), an endless loop in a component (\<open>Forever\<close>) or a failed assertion (\<open>Aborted\<close>) is an \<open>Inl\<close>.
  \<^item> \<open>Kernel_Steps\<close>: the kernel and other threads as a transition system (\<open>kstep\<close>, \<open>kreach\<close>), and the interface of an
    invariant as the locale \<open>step_invariant\<close>, interpreted for each invariant below.
  \<^item> \<open>Kernel_Inv\<close>: the bookkeeping of origins, and that a retired origin stays retired (\<open>loop_invariant\<close>).
  \<^item> \<open>Kernel_Fold\<close>: folding in batches against folding one queue.
  \<^item> \<open>Kernel_Props\<close>, \<open>Kernel_Subs\<close>, \<open>Kernel_Replay\<close>: what the kernel promises. Order and progress of folding,
    cancellation, quitting, faults, shutdown; running work is the subscription of the model, no table is read out
    of range; the record reproduces the model.
  \<^item> \<open>Replay\<close>: replay and timeline. \<open>Run\<close>: the driver and the teardown. \<open>Stop_Group\<close>: \<^verbatim>\<open>kernel/stop_group.hpp\<close>.
  \<^item> \<open>Counting\<close>: counts and sums over a list of threads. \<open>Pool\<close>: \<^verbatim>\<open>kernel/pool.hpp\<close>, queue, workers, isolated threads and
    shutdown; what a shutdown abandons, that it drains, that no job is lost or run twice. \<open>Scope\<close>: \<^verbatim>\<open>kernel/scope.hpp\<close>,
    the nursery, which joins every helper, and \<^verbatim>\<open>parallel_for\<close>, which runs every index once and ends.
  \<^item> \<open>Guarded\<close>: \<^verbatim>\<open>kernel/guarded.hpp\<close>, waits for a condition on a locked value and the order of ranks: no wake-up is
    missed, no circle of waits. \<open>Snapshot\<close>: \<^verbatim>\<open>kernel/published.hpp\<close>, \<^verbatim>\<open>kernel/snapshot.hpp\<close>: no update is lost.
  \<^item> \<open>Sim\<close>, \<open>Sim_Props\<close>: \<^verbatim>\<open>host/sim.hpp\<close>, the kernel of \<open>Kernel\<close> under a simulated clock and executor; where checks
    run, that a reported failure replays, what a seed determines.
  \<^item> \<open>Reactor\<close>: the table of slots and the registrations all reactors share, and their contract as the locale \<open>reactor\<close>.
    \<open>Poll_Reactor\<close>, \<open>Epoll_Reactor\<close>, \<open>Kqueue_Reactor\<close>, \<open>Wait_Reactor\<close>: \<^verbatim>\<open>platform/posix/poll_reactor.cpp\<close>,
    \<^verbatim>\<open>platform/linux/epoll_reactor.cpp\<close>, \<^verbatim>\<open>platform/darwin/kqueue_reactor.cpp\<close>, \<^verbatim>\<open>platform/windows/wait_reactor.cpp\<close>:
    registrations against the contract, what a wait reports and when it ends, and where a report can be missed.
  \<^item> \<open>Process\<close>: how a child is started and ends, and the contract of \<^verbatim>\<open>reap\<close> as the locale \<open>child_contract\<close>, interpreted by
    \<open>Posix_Process\<close> (\<^verbatim>\<open>platform/posix/process.cpp\<close>: descriptor tables through \<^verbatim>\<open>pipe\<close>, \<^verbatim>\<open>fork\<close>, \<^verbatim>\<open>dup2\<close> and \<^verbatim>\<open>exec\<close>, what the
    program finds, no leak, no signal to a number that was given back) and \<open>Sim_Process\<close> (\<^verbatim>\<open>platform/sim/process.cpp\<close>).
    \<open>Win_Command\<close>: the command line of \<^verbatim>\<open>platform/windows/process.cpp\<close> and its round trip.
  \<^item> \<open>Posix_Signals\<close>: \<^verbatim>\<open>platform/posix/signals.cpp\<close>, handlers interleaved with install, take and release: no signal is
    lost, no write after a close, actions restored. \<open>File_Lock\<close>: the bounded wait and the scripted lock.
  \<^item> \<open>Given\<close>: \<^verbatim>\<open>host/given.hpp\<close>, the test host: settling runs the rounds of its reference, and what a throwing update leaves.
  \<^item> \<open>Decimal\<close>: printed numbers. \<open>Structural_Diff\<close>: \<^verbatim>\<open>core/diff.hpp\<close> and \<^verbatim>\<open>timeline::changes\<close>; the report has exactly the
    fields that differ. \<open>Type_Walk\<close>: the checks of types (\<^verbatim>\<open>core/walk.hpp\<close>, \<^verbatim>\<open>core/stdshape.hpp\<close>, \<^verbatim>\<open>core/sendable.hpp\<close>,
    \<^verbatim>\<open>core/frozen.hpp\<close>, \<^verbatim>\<open>core/sync.hpp\<close>, \<^verbatim>\<open>core/join_free.hpp\<close>) as functions on types. The walker's fuel is the depth of
    template instances; twice the number of types a type holds and two is enough.

  \<^bold>\<open>How code is modelled.\<close> State is passed explicitly. Loops are structural recursion, recursion with a
  termination proof, or, for the collection of due timers, rejection sampling, and the filling of a pipe and the run of a scripted
  child, a partial function whose result is an option. That the collection returns is proved for every time before the clock's maximum, and that it does
  not return at the maximum. The outer loops need no fuel: the fold loop ends because of its budget, and the driver's loop is
  a function of the waits that happen; a simulated run ends by its limit on steps,
  and a reactor's wait is a function of the answers of the system. Integers are words where the code's width matters (ids, generations,
  counters, random numbers) and mathematical integers for clock ticks, with saturation and wrap-around written
  out. Hash tables keep their slots; the hash functions of strings and of host keys are parameters. What the kernel
  hands out (jobs, stop requests, reports, trace events, records) is appended to logs of its state. The system under the
  platform theories is a parameter: its answers are arguments, the laws it documents are named hypotheses
  (\<open>fresh_system\<close>, \<open>errors_positive\<close> and the like), each with an example system that keeps them.

  \<^bold>\<open>Concurrency.\<close> A critical section is one step. The mailbox, the stop group, the pool, the scope, the locks and the signals have their own step relations, with
  the waits and notifications between the sections; the kernel's relation interleaves its operations with posts,
  resumed posts, wakes and failed tasks.

  \<^bold>\<open>Not modelled.\<close> The kernel takes the number of workers its pool abandons as given. Left out are handles of shared
  ownership; the token that binds a loop to its thread; the headless host; the futures of \<^verbatim>\<open>pool::submit\<close>; delays and the registration of waiting threads;
  \<^verbatim>\<open>stop_group::wait\<close>; processes, console events and file locks of Windows, the file locks of POSIX, handles and
  clocks, which are single system calls; what else is only types: rows, capabilities, the concepts a
  program and a host must meet, and the sentences of the diagnostics. Memory is sequentially consistent. Rounded floating point (\<^verbatim>\<open>rng::between\<close>) is left out as well.
\<close>

end
